(* ===== verification/GQL_Prelude.thy ===== *)
theory GQL_Prelude
  imports Main "HOL-Library.Multiset" "HOL-Library.AList"
begin

text \<open>
  Shared ground of the development: the result type that models Go's \<open>(value, error)\<close>
  returns, the traversal of a list by a function that may fail (a \<open>for\<close> loop with an early
  \<open>return nil, err\<close>), finite sets kept as lists (Go's \<open>map[K]struct{}\<close>), the
  collections of simplification rules the components extend, and list facts that several of
  them use.
\<close>

section \<open>Rule collections\<close>

named_theorems model_defs \<open>definitions of operations to unfold when a concrete input is evaluated\<close>
named_theorems tree_simps \<open>equations of the denotations of fetch trees\<close>

section \<open>Results\<close>

text \<open>A Go function returning \<open>(T, error)\<close> is a function into \<open>('e, 't) result\<close>.\<close>

type_synonym ('e, 'a) result = "'e + 'a"

abbreviation Err :: "'e \<Rightarrow> ('e, 'a) result" where "Err \<equiv> Inl"
abbreviation Ok :: "'a \<Rightarrow> ('e, 'a) result" where "Ok \<equiv> Inr"

fun res_bind :: "('e, 'a) result \<Rightarrow> ('a \<Rightarrow> ('e, 'b) result) \<Rightarrow> ('e, 'b) result" where
  "res_bind (Inl e) f = Inl e"
| "res_bind (Inr x) f = f x"

lemma res_bind_cong [fundef_cong]:
  "r = r' \<Longrightarrow> (\<And>x. r' = Inr x \<Longrightarrow> f x = f' x) \<Longrightarrow> res_bind r f = res_bind r' f'"
  by (cases r') auto

lemma res_bind_Ok_iff: "res_bind r f = Inr y \<longleftrightarrow> (\<exists>x. r = Inr x \<and> f x = Inr y)"
  by (cases r) auto

lemma res_bind_Err_iff:
  "res_bind r f = Inl e \<longleftrightarrow> r = Inl e \<or> (\<exists>x. r = Inr x \<and> f x = Inl e)"
  by (cases r) auto

fun res_map :: "('a \<Rightarrow> ('e, 'b) result) \<Rightarrow> 'a list \<Rightarrow> ('e, 'b list) result" where
  "res_map f [] = Inr []"
| "res_map f (x # xs) = res_bind (f x) (\<lambda>y. res_bind (res_map f xs) (\<lambda>ys. Inr (y # ys)))"

lemma res_map_cong [fundef_cong]:
  "xs = ys \<Longrightarrow> (\<And>x. x \<in> set ys \<Longrightarrow> f x = g x) \<Longrightarrow> res_map f xs = res_map g ys"
proof (induction xs arbitrary: ys)
  case Nil
  then show ?case by simp
next
  case (Cons x xs)
  then have "res_map f xs = res_map g xs" and "f x = g x" by auto
  with Cons.prems show ?case by auto
qed

lemma res_map_Ok:
  "(\<And>x. x \<in> set xs \<Longrightarrow> f x = Inr (g x)) \<Longrightarrow> res_map f xs = Inr (map g xs)"
  by (induction xs) auto

lemma res_map_OkD: "res_map f xs = Inr ys \<Longrightarrow> list_all2 (\<lambda>x y. f x = Inr y) xs ys"
  by (induction xs arbitrary: ys) (auto simp: res_bind_Ok_iff)

lemma res_map_ex:
  "\<forall>x \<in> set xs. \<exists>y. f x = Inr y \<and> P x y \<Longrightarrow> \<exists>ys. res_map f xs = Inr ys \<and> list_all2 P xs ys"
proof (induction xs)
  case Nil
  then show ?case by simp
next
  case (Cons x xs)
  then obtain y ys where "f x = Inr y" "P x y" "res_map f xs = Inr ys" "list_all2 P xs ys" by auto
  then show ?case by simp
qed

section \<open>Finite sets as lists\<close>

text \<open>
  A Go set \<open>map[K]struct{}\<close> is a list without repetitions; \<open>List.insert\<close> adds a key.
  Every use below is independent of the order in which Go's \<open>range\<close> visits the keys.
\<close>

lemma distinct_list_insert: "distinct xs \<Longrightarrow> distinct (List.insert x xs)"
  by (auto simp: List.insert_def)

section \<open>Lists\<close>

lemma mset_concat_map_sort [simp]: "mset (concat (map f (sort_key g xs))) = mset (concat (map f xs))"
proof -
  have "mset (map (mset \<circ> f) (sort_key g xs)) = mset (map (mset \<circ> f) xs)" by simp
  then have "sum_list (map (mset \<circ> f) (sort_key g xs)) = sum_list (map (mset \<circ> f) xs)"
    by (metis sum_mset_sum_list)
  then show ?thesis by (simp add: mset_concat)
qed

lemma distinct_mset_eq: "mset xs = mset ys \<Longrightarrow> distinct xs = distinct ys"
  by (rule mset_eq_imp_distinct_iff)

lemma distinct_concat_disjoint:
  "distinct (concat xss) \<Longrightarrow> xs \<in> set xss \<Longrightarrow> ys \<in> set xss \<Longrightarrow> x \<in> set xs \<Longrightarrow> x \<in> set ys \<Longrightarrow> xs = ys"
  by (induction xss) auto

lemma mset_filter_partition:
  "mset (filter P xs) + mset (filter (\<lambda>x. \<not> P x) xs) = mset xs"
  by (induction xs) auto

lemma length_less_of_nonempty_rest:
  assumes "mset (concat xss) = mset zs" and "xs \<in> set xss" and "length xss > 1"
    and "\<And>ys. ys \<in> set xss \<Longrightarrow> ys \<noteq> []"
  shows "length xs < length zs"
proof -
  obtain as bs where xss: "xss = as @ xs # bs"
    using assms(2) by (meson split_list)
  then have "as \<noteq> [] \<or> bs \<noteq> []" using assms(3) by auto
  then have "concat as @ concat bs \<noteq> []"
    using assms(4) xss by (cases as; cases bs) auto
  moreover have "length zs = length (concat as @ concat bs) + length xs"
    using arg_cong [OF assms(1), of size] xss by simp
  ultimately show ?thesis by (cases "concat as @ concat bs") auto
qed

end
