(* ===== verification/Fetch_Tree.thy ===== *)
theory Fetch_Tree
  imports GQL_Prelude
begin

text \<open>
  The data of a query plan's fetches (\<open>v2/pkg/engine/resolve/fetch.go\<close>, \<open>fetchtree.go\<close>):
  a fetch with its identifier, the identifiers it depends on and its planner configuration, and
  the tree of \<open>Single\<close>, \<open>Sequence\<close> and \<open>Parallel\<close> nodes the postprocessor builds and
  the loader runs. The denotations of a tree that the other theories reason with are its list of
  fetch identifiers, the relation "ends before the other starts" and the way the loader's
  \<open>resolveFetchNodeWithCtx\<close> runs it: as interleaved start and finish events, and as a
  completion time for given fetch durations.

  The handle of the data source, which no stage modelled here reads, is left out of the records.
  The type variable \<open>'v\<close> stands for the values of the interface \<open>resolve.Variable\<close>; the
  method \<open>Equals\<close> of that interface is an argument where the code calls it.
\<close>

section \<open>Fetches\<close>

record FetchDependencies =
  FetchID :: int
  DependsOnFetchIDs :: "int list"
  DeferID :: int

record GraphCoordinate =
  TypeName :: string
  FieldName :: string
  HasAuthorizationRule :: bool

record FetchDependencyOrigin =
  OriginFetchID :: int
  Subgraph :: string
  OriginCoordinate :: GraphCoordinate
  IsKey :: bool
  IsRequires :: bool

record FetchDependency =
  Coordinate :: GraphCoordinate
  IsUserRequested :: bool
  DependsOn :: "FetchDependencyOrigin list"

record FetchReason =
  ReasonTypeName :: string
  ReasonFieldName :: string
  BySubgraphs :: "string list"
  ByUser :: bool
  ReasonIsKey :: bool
  ReasonIsRequires :: bool
  Nullable :: bool

datatype RepresentationKind = RepresentationKindKey | RepresentationKindRequires

record Representation =
  RepKind :: RepresentationKind
  RepTypeName :: string
  RepFieldName :: string
  Fragment :: string

record QueryPlan =
  DependsOnFields :: "Representation list"
  Query :: string

datatype OperationType =
  OperationTypeUnknown | OperationTypeQuery | OperationTypeMutation | OperationTypeSubscription

record FetchInfo =
  DataSourceID :: string
  DataSourceName :: string
  RootFields :: "GraphCoordinate list"
  InfoOperationType :: OperationType
  InfoQueryPlan :: "QueryPlan option"
  CoordinateDependencies :: "FetchDependency list"
  FetchReasons :: "FetchReason list"
  PropagatedFetchReasons :: "FetchReason list"

record PostProcessingConfiguration =
  SelectResponseDataPath :: "string list"
  SelectResponseErrorsPath :: "string list"
  MergePath :: "string list"

definition PostProcessingConfiguration_Equals ::
  "PostProcessingConfiguration \<Rightarrow> PostProcessingConfiguration \<Rightarrow> bool" where
  "PostProcessingConfiguration_Equals ppc other =
     (if SelectResponseDataPath ppc \<noteq> SelectResponseDataPath other then False
      else if SelectResponseErrorsPath ppc \<noteq> SelectResponseErrorsPath other then False
      else if MergePath ppc \<noteq> MergePath other then False
      else True)"

record SubgraphRequestEnvelope =
  Method :: string
  URL :: string
  Header :: string

text \<open>
  \<open>PrintedQuery\<close> is the value the method of that name returns: the cached print, or what the
  printer makes of the document, \<open>None\<close> where the printer fails.
\<close>

record SubgraphOperation =
  OpVariables :: "(string \<times> string) list"
  Envelope :: SubgraphRequestEnvelope
  PrintedQuery :: "string option"

definition subgraphOperationsEqual :: "SubgraphOperation \<Rightarrow> SubgraphOperation \<Rightarrow> bool" where
  "subgraphOperationsEqual a b =
     (if Method (Envelope a) \<noteq> Method (Envelope b) then False
      else if URL (Envelope a) \<noteq> URL (Envelope b) then False
      else if Header (Envelope a) \<noteq> Header (Envelope b) then False
      else if length (OpVariables a) \<noteq> length (OpVariables b) then False
      else if \<not> list_all2 (\<lambda>(n, v) (n', v'). n = n' \<and> v = v') (OpVariables a) (OpVariables b) then False
      else (case PrintedQuery a of None \<Rightarrow> False
            | Some aQuery \<Rightarrow> (case PrintedQuery b of None \<Rightarrow> False | Some bQuery \<Rightarrow> aQuery = bQuery)))"

record 'v FetchConfiguration =
  Input :: string
  Variables :: "'v list"
  RequiresEntityFetch :: bool
  RequiresEntityBatchFetch :: bool
  PostProcessing :: PostProcessingConfiguration
  SetTemplateOutputToNullOnVariableNull :: bool
  ConfigQueryPlan :: "QueryPlan option"
  OperationName :: string
  SubgraphOp :: "SubgraphOperation option"

definition FetchConfiguration_Equals ::
  "('v \<Rightarrow> 'v \<Rightarrow> bool) \<Rightarrow> 'v FetchConfiguration \<Rightarrow> 'v FetchConfiguration \<Rightarrow> bool" where
  "FetchConfiguration_Equals var_equals fc other =
     (let aArtifact = (Input fc = [] \<and> SubgraphOp fc \<noteq> None);
          bArtifact = (Input other = [] \<and> SubgraphOp other \<noteq> None)
      in if aArtifact \<noteq> bArtifact then False
         else if (if aArtifact
                  then \<not> subgraphOperationsEqual (the (SubgraphOp fc)) (the (SubgraphOp other))
                  else Input fc \<noteq> Input other) then False
         else if \<not> list_all2 var_equals (Variables fc) (Variables other) then False
         else if RequiresEntityFetch fc \<noteq> RequiresEntityFetch other then False
         else if RequiresEntityBatchFetch fc \<noteq> RequiresEntityBatchFetch other then False
         else if \<not> PostProcessingConfiguration_Equals (PostProcessing fc) (PostProcessing other) then False
         else if SetTemplateOutputToNullOnVariableNull fc \<noteq> SetTemplateOutputToNullOnVariableNull other
           then False
         else True)"

text \<open>
  The implementations of the interface \<open>resolve.Fetch\<close>. The fetches other than
  \<open>SingleFetch\<close> exist after the stages modelled here; of them only the dependencies and the
  info matter, so their request templates are left out.
\<close>

datatype 'v Fetch =
  SingleFetch "'v FetchConfiguration" FetchDependencies "FetchInfo option"
| EntityFetch FetchDependencies "FetchInfo option"
| BatchEntityFetch FetchDependencies "FetchInfo option"
| MultiEntityFetch FetchDependencies "int list" "FetchInfo option"

fun Dependencies :: "'v Fetch \<Rightarrow> FetchDependencies" where
  "Dependencies (SingleFetch c d i) = d"
| "Dependencies (EntityFetch d i) = d"
| "Dependencies (BatchEntityFetch d i) = d"
| "Dependencies (MultiEntityFetch d m i) = d"

fun FetchInfo_of :: "'v Fetch \<Rightarrow> FetchInfo option" where
  "FetchInfo_of (SingleFetch c d i) = i"
| "FetchInfo_of (EntityFetch d i) = i"
| "FetchInfo_of (BatchEntityFetch d i) = i"
| "FetchInfo_of (MultiEntityFetch d m i) = i"

fun set_deps_info :: "FetchDependencies \<Rightarrow> FetchInfo option \<Rightarrow> 'v Fetch \<Rightarrow> 'v Fetch" where
  "set_deps_info d i (SingleFetch c _ _) = SingleFetch c d i"
| "set_deps_info d i (EntityFetch _ _) = EntityFetch d i"
| "set_deps_info d i (BatchEntityFetch _ _) = BatchEntityFetch d i"
| "set_deps_info d i (MultiEntityFetch _ m _) = MultiEntityFetch d m i"

datatype FetchItemPathElementKind = PathObject | PathArray

record FetchItemPathElement =
  PathKind :: FetchItemPathElementKind
  Path :: "string list"
  TypeNames :: "string list"

record 'v FetchItem =
  Fetch :: "'v Fetch"
  FetchPath :: "FetchItemPathElement list"
  ResponsePath :: string
  ResponsePathElements :: "string list"

definition EqualSingleFetch :: "('v \<Rightarrow> 'v \<Rightarrow> bool) \<Rightarrow> 'v FetchItem \<Rightarrow> 'v FetchItem \<Rightarrow> bool" where
  "EqualSingleFetch var_equals f other =
     (if DeferID (Dependencies (Fetch f)) \<noteq> DeferID (Dependencies (Fetch other)) then False
      else if length (FetchPath f) \<noteq> length (FetchPath other) then False
      else if \<not> list_all2 (\<lambda>p q. PathKind p = PathKind q \<and> Path p = Path q)
                  (FetchPath f) (FetchPath other) then False
      else (case (Fetch f, Fetch other) of
              (SingleFetch l _ _, SingleFetch r _ _) \<Rightarrow> FetchConfiguration_Equals var_equals l r
            | _ \<Rightarrow> False))"

section \<open>Fetch trees\<close>

text \<open>
  \<open>FetchTreeNode\<close> is a struct with a kind tag, an item that only \<open>Single\<close> and
  \<open>Trigger\<close> nodes have, and child nodes that only \<open>Sequence\<close> and \<open>Parallel\<close> nodes
  have: a tagged union, written as one.
\<close>

datatype 'v FetchTreeNode =
  Single "'v FetchItem"
| Sequence "'v FetchTreeNode list"
| Parallel "'v FetchTreeNode list"
| Trigger "'v FetchItem"

fun node_item :: "'v FetchTreeNode \<Rightarrow> 'v FetchItem option" where
  "node_item (Single it) = Some it"
| "node_item (Trigger it) = Some it"
| "node_item (Sequence ts) = None"
| "node_item (Parallel ts) = None"

fun ChildNodes :: "'v FetchTreeNode \<Rightarrow> 'v FetchTreeNode list" where
  "ChildNodes (Sequence ts) = ts"
| "ChildNodes (Parallel ts) = ts"
| "ChildNodes (Single it) = []"
| "ChildNodes (Trigger it) = []"

text \<open>The root of a plan: it may also carry a subscription trigger and the normalized query.\<close>

record 'v FetchTreeRoot =
  Node :: "'v FetchTreeNode"
  RootTrigger :: "'v FetchTreeNode option"
  NormalizedQuery :: string

definition item_id :: "'v FetchItem \<Rightarrow> int" where
  "item_id it = FetchID (Dependencies (Fetch it))"

definition item_deps :: "'v FetchItem \<Rightarrow> int list" where
  "item_deps it = DependsOnFetchIDs (Dependencies (Fetch it))"

section \<open>Denotations\<close>

fun tree_items :: "'v FetchTreeNode \<Rightarrow> 'v FetchItem list" where
  "tree_items (Single it) = [it]"
| "tree_items (Trigger it) = []"
| "tree_items (Sequence ts) = concat (map tree_items ts)"
| "tree_items (Parallel ts) = concat (map tree_items ts)"

definition tree_ids :: "'v FetchTreeNode \<Rightarrow> int list" where
  "tree_ids t = map item_id (tree_items t)"

lemma tree_ids_simps [simp, tree_simps]:
  "tree_ids (Single it) = [item_id it]"
  "tree_ids (Trigger it) = []"
  "tree_ids (Sequence ts) = concat (map tree_ids ts)"
  "tree_ids (Parallel ts) = concat (map tree_ids ts)"
  by (simp_all add: tree_ids_def [abs_def] map_concat comp_def)

text \<open>Only the kinds the loader runs.\<close>

fun runnable :: "'v FetchTreeNode \<Rightarrow> bool" where
  "runnable (Single it) = True"
| "runnable (Trigger it) = False"
| "runnable (Sequence ts) = list_all runnable ts"
| "runnable (Parallel ts) = list_all runnable ts"

text \<open>
  \<open>seq_pairs\<close> pairs the identifiers of every part with those of the later parts.
\<close>

fun seq_pairs :: "int list list \<Rightarrow> (int \<times> int) set" where
  "seq_pairs [] = {}"
| "seq_pairs (xs # xss) = set xs \<times> set (concat xss) \<union> seq_pairs xss"

fun precedes :: "'v FetchTreeNode \<Rightarrow> (int \<times> int) set" where
  "precedes (Single it) = {}"
| "precedes (Trigger it) = {}"
| "precedes (Parallel ts) = (\<Union>t \<in> set ts. precedes t)"
| "precedes (Sequence ts) = (\<Union>t \<in> set ts. precedes t) \<union> seq_pairs (map tree_ids ts)"

lemma seq_pairs_append:
  "seq_pairs (xss @ yss) = seq_pairs xss \<union> seq_pairs yss \<union> set (concat xss) \<times> set (concat yss)"
  by (induction xss) auto

lemma seq_pairs_subset: "seq_pairs xss \<subseteq> set (concat xss) \<times> set (concat xss)"
  by (induction xss) auto

lemma precedes_subset: "precedes t \<subseteq> set (tree_ids t) \<times> set (tree_ids t)"
proof (induction t)
  case (Sequence ts)
  then show ?case using seq_pairs_subset [of "map tree_ids ts"] by fastforce
next
  case (Parallel ts)
  then show ?case by fastforce
qed auto

lemma precedesD:
  assumes "(x, y) \<in> precedes t"
  shows "x \<in> set (tree_ids t)" and "y \<in> set (tree_ids t)"
  using assms precedes_subset by blast+

section \<open>Running a tree\<close>

text \<open>
  \<open>resolveFetchNodeWithCtx\<close> runs a tree: a \<open>Sequence\<close> runs its children one after the
  other, a \<open>Parallel\<close> node starts one goroutine per child and waits for all of them. The
  events of a run are the start and the end of every fetch; those of a parallel node are an
  arbitrary interleaving of the events of its children.
\<close>

datatype event = Start int | Finish int

inductive runs :: "'v FetchTreeNode \<Rightarrow> event list \<Rightarrow> bool"
  and runs_serial :: "'v FetchTreeNode list \<Rightarrow> event list \<Rightarrow> bool"
  and runs_parallel :: "'v FetchTreeNode list \<Rightarrow> event list \<Rightarrow> bool" where
  resolveSingle: "runs (Single it) [Start (item_id it), Finish (item_id it)]"
| resolveOther: "runs (Trigger it) []"
| resolveSequence: "runs_serial ts tr \<Longrightarrow> runs (Sequence ts) tr"
| resolveParallel: "runs_parallel ts tr \<Longrightarrow> runs (Parallel ts) tr"
| serial_nil: "runs_serial [] []"
| serial_cons: "runs t tr \<Longrightarrow> runs_serial ts tr' \<Longrightarrow> runs_serial (t # ts) (tr @ tr')"
| parallel_nil: "runs_parallel [] []"
| parallel_cons: "runs t tr \<Longrightarrow> runs_parallel ts tr' \<Longrightarrow> tr'' \<in> shuffles tr tr' \<Longrightarrow>
    runs_parallel (t # ts) tr''"

inductive_simps runs_simps [tree_simps]:
  "runs (Single it) tr" "runs (Trigger it) tr" "runs (Sequence ts) tr" "runs (Parallel ts) tr"
  "runs_serial [] tr" "runs_serial (t # ts) tr" "runs_parallel [] tr" "runs_parallel (t # ts) tr"

text \<open>Event \<open>a\<close> occurs in the list before an occurrence of \<open>b\<close>.\<close>

definition before_in :: "'a \<Rightarrow> 'a \<Rightarrow> 'a list \<Rightarrow> bool" where
  "before_in a b xs \<longleftrightarrow> (\<exists>us vs ws. xs = us @ a # vs @ b # ws)"

lemma before_in_append1: "before_in a b xs \<Longrightarrow> before_in a b (xs @ ys)"
  unfolding before_in_def by force

lemma before_in_append2: "before_in a b ys \<Longrightarrow> before_in a b (xs @ ys)"
  unfolding before_in_def by (metis append.assoc)

lemma before_in_split: "a \<in> set xs \<Longrightarrow> b \<in> set ys \<Longrightarrow> before_in a b (xs @ ys)"
  unfolding before_in_def by (metis append.assoc append_Cons split_list)

lemma before_in_Cons: "before_in a b (x # xs) \<longleftrightarrow> (a = x \<and> b \<in> set xs) \<or> before_in a b xs"
proof
  assume "before_in a b (x # xs)"
  then obtain us vs ws where *: "x # xs = us @ a # vs @ b # ws" by (auto simp: before_in_def)
  show "(a = x \<and> b \<in> set xs) \<or> before_in a b xs"
  proof (cases us)
    case Nil
    with * show ?thesis by auto
  next
    case (Cons u us')
    with * have "xs = us' @ a # vs @ b # ws" by simp
    then show ?thesis by (auto simp: before_in_def)
  qed
next
  assume "(a = x \<and> b \<in> set xs) \<or> before_in a b xs"
  then show "before_in a b (x # xs)"
  proof
    assume "a = x \<and> b \<in> set xs"
    then show ?thesis by (metis before_in_split append_Cons append_Nil list.set_intros(1))
  next
    assume "before_in a b xs"
    then show ?thesis by (metis before_in_append2 append_Cons append_Nil)
  qed
qed

lemma before_in_shuffles:
  "zs \<in> shuffles xs ys \<Longrightarrow> before_in a b xs \<or> before_in a b ys \<Longrightarrow> before_in a b zs"
proof (induction xs ys arbitrary: zs rule: shuffles.induct)
  case (3 x xs y ys)
  then show ?case
    by (auto simp: before_in_Cons set_shuffles)
qed (auto simp: before_in_def)

lemma runs_set:
  fixes t :: "'v FetchTreeNode" and us vs :: "'v FetchTreeNode list"
  shows "runs t tr \<Longrightarrow> set tr = Start ` set (tree_ids t) \<union> Finish ` set (tree_ids t)"
    "runs_serial us tr' \<Longrightarrow>
     set tr' = Start ` set (concat (map tree_ids us)) \<union> Finish ` set (concat (map tree_ids us))"
    "runs_parallel vs tr'' \<Longrightarrow>
     set tr'' = Start ` set (concat (map tree_ids vs)) \<union> Finish ` set (concat (map tree_ids vs))"
  by (induction t tr and us tr' and vs tr'' rule: runs_runs_serial_runs_parallel.inducts)
    (auto simp: set_shuffles)

text \<open>Whatever the interleaving, a fetch that precedes another one ends before it starts.\<close>

lemma runs_precedes:
  fixes t :: "'v FetchTreeNode" and us vs :: "'v FetchTreeNode list"
  shows "runs t tr \<Longrightarrow> (x, y) \<in> precedes t \<Longrightarrow> before_in (Finish x) (Start y) tr"
    "runs_serial us tr' \<Longrightarrow> (x, y) \<in> precedes (Sequence us) \<Longrightarrow> before_in (Finish x) (Start y) tr'"
    "runs_parallel vs tr'' \<Longrightarrow> (x, y) \<in> precedes (Parallel vs) \<Longrightarrow> before_in (Finish x) (Start y) tr''"
proof (induction t tr and us tr' and vs tr'' rule: runs_runs_serial_runs_parallel.inducts)
  case (serial_cons t tr ts tr')
  from serial_cons.prems consider (t) "(x, y) \<in> precedes t" | (ts) "(x, y) \<in> precedes (Sequence ts)"
    | (both) "x \<in> set (tree_ids t)" "y \<in> set (concat (map tree_ids ts))"
    by auto
  then show ?case
  proof cases
    case t
    with serial_cons.IH(1) show ?thesis by (simp add: before_in_append1)
  next
    case ts
    with serial_cons.IH(2) show ?thesis by (simp add: before_in_append2)
  next
    case both
    with runs_set(1) [OF serial_cons.hyps(1)] runs_set(2) [OF serial_cons.hyps(2)]
    show ?thesis by (intro before_in_split) auto
  qed
next
  case (parallel_cons t tr ts tr' tr'')
  then show ?case by (auto dest: before_in_shuffles)
qed auto

text \<open>
  The completion time of a tree when fetch \<open>i\<close> takes \<open>w i\<close>: a \<open>Sequence\<close> adds up,
  a \<open>Parallel\<close> node takes as long as its slowest child.
\<close>

fun makespan :: "(int \<Rightarrow> nat) \<Rightarrow> 'v FetchTreeNode \<Rightarrow> nat" where
  "makespan w (Single it) = w (item_id it)"
| "makespan w (Trigger it) = 0"
| "makespan w (Sequence ts) = sum_list (map (makespan w) ts)"
| "makespan w (Parallel ts) = fold max (map (makespan w) ts) 0"

end
