(* ===== verification/Fetch_Graph.thy ===== *)
theory Fetch_Graph
  imports Fetch_Tree
begin

text \<open>
  The dependency graph of a flat list of fetches (\<open>fetchDAG\<close> of
  \<open>v2/pkg/engine/postprocess/schedule_fetches.go\<close>): its construction with the errors it
  reports, the partition into weakly connected components and the colouring of the fetches
  that only one root reaches. The interface the scheduler relies on is the locale
  \<open>fetch_graph\<close>; \<open>newFetchDAG\<close> provides it.
\<close>

section \<open>The graph\<close>

datatype schedule_error =
  NonSingleNode
| DuplicateFetchID int
| SelfDependent int
| CycleDetected
| NotInDag int
| BeforeDependency int int
| UnexpectedKind
| ScheduledTimes int nat
| MissingFromSchedule int
| OutOfFuel

record 'v fetchDAG =
  nodes :: "(int \<times> 'v FetchTreeNode) list"
  parents :: "(int \<times> int list) list"
  children :: "(int \<times> int list) list"

text \<open>Reading a missing key of a Go map of sets gives the nil map, which has no keys.\<close>

definition set_at :: "(int \<times> int list) list \<Rightarrow> int \<Rightarrow> int list" where
  "set_at m k = (case map_of m k of None \<Rightarrow> [] | Some s \<Rightarrow> s)"

definition add_at :: "int \<Rightarrow> int \<Rightarrow> (int \<times> int list) list \<Rightarrow> (int \<times> int list) list" where
  "add_at k x m = AList.update k (List.insert x (set_at m k)) m"

lemma set_at_update [simp]: "set_at (AList.update k s m) k' = (if k' = k then s else set_at m k')"
  by (simp add: set_at_def update_conv')

lemma set_at_add_at: "set (set_at (add_at k x m) k') = (if k' = k then insert x (set (set_at m k)) else set (set_at m k'))"
  by (simp add: add_at_def)

abbreviation parents_of :: "'v fetchDAG \<Rightarrow> int \<Rightarrow> int list" where
  "parents_of dag \<equiv> set_at (parents dag)"

abbreviation children_of :: "'v fetchDAG \<Rightarrow> int \<Rightarrow> int list" where
  "children_of dag \<equiv> set_at (children dag)"

definition dag_ids :: "'v fetchDAG \<Rightarrow> int list" where
  "dag_ids dag = map fst (nodes dag)"

text \<open>The first loop of \<open>newFetchDAG\<close> registers the nodes, the second one adds the edges.\<close>

fun register_nodes :: "'v FetchTreeNode list \<Rightarrow> 'v fetchDAG \<Rightarrow> (schedule_error, 'v fetchDAG) result" where
  "register_nodes [] dag = Ok dag"
| "register_nodes (n # ns) dag =
     (case node_item n of
        None \<Rightarrow> Err NonSingleNode
      | Some it \<Rightarrow>
          (let i = item_id it in
           if map_of (nodes dag) i \<noteq> None then Err (DuplicateFetchID i)
           else register_nodes ns
             (dag\<lparr>nodes := nodes dag @ [(i, n)],
                  parents := AList.update i [] (parents dag),
                  children := AList.update i [] (children dag)\<rparr>)))"

fun link_deps :: "int \<Rightarrow> int list \<Rightarrow> 'v fetchDAG \<Rightarrow> (schedule_error, 'v fetchDAG) result" where
  "link_deps i [] dag = Ok dag"
| "link_deps i (dep # deps) dag =
     (if map_of (nodes dag) dep = None then link_deps i deps dag
      else if i = dep then Err (SelfDependent i)
      else link_deps i deps
        (dag\<lparr>parents := add_at i dep (parents dag), children := add_at dep i (children dag)\<rparr>))"

fun link_nodes :: "(int \<times> 'v FetchTreeNode) list \<Rightarrow> 'v fetchDAG \<Rightarrow> (schedule_error, 'v fetchDAG) result" where
  "link_nodes [] dag = Ok dag"
| "link_nodes ((i, n) # ns) dag =
     res_bind (link_deps i (case node_item n of None \<Rightarrow> [] | Some it \<Rightarrow> item_deps it) dag) (link_nodes ns)"

definition newFetchDAG :: "'v FetchTreeNode list \<Rightarrow> (schedule_error, 'v fetchDAG) result" where
  "newFetchDAG ns =
     res_bind (register_nodes ns \<lparr>nodes = [], parents = [], children = []\<rparr>)
       (\<lambda>dag. link_nodes (nodes dag) dag)"

text \<open>
  What a constructed graph guarantees: distinct identifiers, nodes stored under their own
  identifier, edges between known and different nodes, and parents and children that mirror
  each other.
\<close>

definition node_ok :: "int \<times> 'v FetchTreeNode \<Rightarrow> bool" where
  "node_ok = (\<lambda>(i, n). case node_item n of None \<Rightarrow> False | Some it \<Rightarrow> i = item_id it)"

definition wf_dag :: "'v fetchDAG \<Rightarrow> bool" where
  "wf_dag dag \<longleftrightarrow> distinct (dag_ids dag) \<and> list_all node_ok (nodes dag) \<and>
     (\<forall>c p. p \<in> set (parents_of dag c) \<longleftrightarrow> c \<in> set (children_of dag p)) \<and>
     (\<forall>c p. p \<in> set (parents_of dag c) \<longrightarrow> c \<noteq> p \<and> c \<in> set (dag_ids dag) \<and> p \<in> set (dag_ids dag))"

lemma wf_dagD:
  assumes "wf_dag dag"
  shows "distinct (dag_ids dag)"
    and "(i, n) \<in> set (nodes dag) \<Longrightarrow> \<exists>it. node_item n = Some it \<and> i = item_id it"
    and "p \<in> set (parents_of dag c) \<longleftrightarrow> c \<in> set (children_of dag p)"
    and "p \<in> set (parents_of dag c) \<Longrightarrow> c \<noteq> p \<and> c \<in> set (dag_ids dag) \<and> p \<in> set (dag_ids dag)"
  using assms by (auto simp: wf_dag_def node_ok_def list_all_iff split: option.splits)

lemma register_nodes_spec:
  "register_nodes ns dag = Ok dag' \<Longrightarrow> distinct (dag_ids dag) \<Longrightarrow> list_all node_ok (nodes dag) \<Longrightarrow>
   (\<And>i. parents_of dag i = [] \<and> children_of dag i = []) \<Longrightarrow>
   distinct (dag_ids dag') \<and> list_all node_ok (nodes dag') \<and> map snd (nodes dag') = map snd (nodes dag) @ ns \<and>
   (\<forall>i. parents_of dag' i = [] \<and> children_of dag' i = [])"
proof (induction ns dag rule: register_nodes.induct)
  case (2 n ns dag)
  then obtain it where it: "node_item n = Some it" by (cases "node_item n") auto
  with "2.prems"(1) have new: "map_of (nodes dag) (item_id it) = None"
    by (auto simp: Let_def split: if_splits)
  then have "item_id it \<notin> set (dag_ids dag)" by (auto simp: dag_ids_def map_of_eq_None_iff)
  with it new "2.prems" "2.IH" [OF it refl] show ?case
    by (auto simp: Let_def dag_ids_def node_ok_def)
qed auto

lemma link_deps_nodes: "link_deps i deps dag = Ok dag' \<Longrightarrow> nodes dag' = nodes dag"
  by (induction i deps dag rule: link_deps.induct) (auto split: if_splits)

lemma link_deps_edges:
  "link_deps i deps dag = Ok dag' \<Longrightarrow>
   set (parents_of dag' c) = set (parents_of dag c) \<union>
     (if c = i then {d \<in> set deps. d \<in> set (dag_ids dag)} else {}) \<and>
   set (children_of dag' p) = set (children_of dag p) \<union>
     (if p \<in> set deps \<and> p \<in> set (dag_ids dag) then {i} else {}) \<and>
   (i \<in> set deps \<longrightarrow> i \<notin> set (dag_ids dag))"
proof (induction i deps dag rule: link_deps.induct)
  case (2 i dep deps dag)
  show ?case
  proof (cases "dep \<in> set (dag_ids dag)")
    case True
    then have "map_of (nodes dag) dep \<noteq> None" by (simp add: dag_ids_def map_of_eq_None_iff)
    with "2.prems" True "2.IH"(2) show ?thesis
      by (auto simp: set_at_add_at dag_ids_def split: if_splits)
  next
    case False
    then have "map_of (nodes dag) dep = None" by (simp add: dag_ids_def map_of_eq_None_iff)
    with "2.prems" False "2.IH"(1) show ?thesis by (auto split: if_splits)
  qed
qed auto

definition node_deps :: "'v FetchTreeNode \<Rightarrow> int list" where
  "node_deps n = (case node_item n of None \<Rightarrow> [] | Some it \<Rightarrow> item_deps it)"

lemma link_nodes_spec:
  "link_nodes ns dag = Ok dag' \<Longrightarrow>
   nodes dag' = nodes dag \<and>
   set (parents_of dag' c) = set (parents_of dag c) \<union>
     {d. \<exists>n. (c, n) \<in> set ns \<and> d \<in> set (node_deps n) \<and> d \<in> set (dag_ids dag)} \<and>
   set (children_of dag' p) = set (children_of dag p) \<union>
     {i. \<exists>n. (i, n) \<in> set ns \<and> p \<in> set (node_deps n) \<and> p \<in> set (dag_ids dag)} \<and>
   (\<forall>(i, n) \<in> set ns. i \<in> set (node_deps n) \<longrightarrow> i \<notin> set (dag_ids dag))"
proof (induction ns dag rule: link_nodes.induct)
  case (2 i n ns dag)
  from "2.prems" obtain d1 where d1: "link_deps i (node_deps n) dag = Ok d1"
    and rest: "link_nodes ns d1 = Ok dag'"
    by (auto simp: res_bind_Ok_iff node_deps_def)
  have nd: "nodes d1 = nodes dag" "dag_ids d1 = dag_ids dag"
    using link_deps_nodes [OF d1] by (simp_all add: dag_ids_def)
  have IH: "nodes dag' = nodes d1 \<and>
     set (parents_of dag' c) = set (parents_of d1 c) \<union>
       {d. \<exists>n. (c, n) \<in> set ns \<and> d \<in> set (node_deps n) \<and> d \<in> set (dag_ids d1)} \<and>
     set (children_of dag' p) = set (children_of d1 p) \<union>
       {i. \<exists>n. (i, n) \<in> set ns \<and> p \<in> set (node_deps n) \<and> p \<in> set (dag_ids d1)} \<and>
     (\<forall>(i, n) \<in> set ns. i \<in> set (node_deps n) \<longrightarrow> i \<notin> set (dag_ids d1))"
    using "2.IH" d1 rest by (simp add: node_deps_def)
  show ?case using IH nd link_deps_edges [OF d1, of c p] by auto
qed auto

lemma newFetchDAG_Ok:
  assumes "newFetchDAG ns = Ok dag"
  shows "wf_dag dag" and "map snd (nodes dag) = ns"
    and "set (parents_of dag c) =
      {d. \<exists>n. (c, n) \<in> set (nodes dag) \<and> d \<in> set (node_deps n) \<and> d \<in> set (dag_ids dag)}"
proof -
  obtain d0 where d0: "register_nodes ns \<lparr>nodes = [], parents = [], children = []\<rparr> = Ok d0"
    and d1: "link_nodes (nodes d0) d0 = Ok dag"
    using assms by (auto simp: newFetchDAG_def res_bind_Ok_iff)
  from register_nodes_spec [OF d0] have reg: "distinct (dag_ids d0)" "list_all node_ok (nodes d0)"
    "map snd (nodes d0) = ns" "parents_of d0 i = [] \<and> children_of d0 i = []" for i
    by (auto simp: dag_ids_def set_at_def)
  note link = link_nodes_spec [OF d1]
  from link have n: "nodes dag = nodes d0" "dag_ids dag = dag_ids d0" by (simp_all add: dag_ids_def)
  from link reg n show par: "set (parents_of dag c) =
      {d. \<exists>n. (c, n) \<in> set (nodes dag) \<and> d \<in> set (node_deps n) \<and> d \<in> set (dag_ids dag)}" for c
    by auto
  from link reg n have chi: "set (children_of dag p) =
      {i. \<exists>n. (i, n) \<in> set (nodes dag) \<and> p \<in> set (node_deps n) \<and> p \<in> set (dag_ids dag)}" for p
    by auto
  have "c \<noteq> p \<and> c \<in> set (dag_ids dag) \<and> p \<in> set (dag_ids dag)" if "p \<in> set (parents_of dag c)" for c p
  proof -
    from that par obtain n where n': "(c, n) \<in> set (nodes dag)" "p \<in> set (node_deps n)" "p \<in> set (dag_ids dag)"
      by auto
    have "\<forall>(i, n) \<in> set (nodes d0). i \<in> set (node_deps n) \<longrightarrow> i \<notin> set (dag_ids d0)"
      using link by blast
    with n' n have "c \<noteq> p" by auto
    moreover have "c \<in> set (dag_ids dag)" using n'(1) by (force simp: dag_ids_def)
    ultimately show ?thesis using n'(3) by simp
  qed
  with reg n par chi show "wf_dag dag" by (auto simp: wf_dag_def)
  show "map snd (nodes dag) = ns" using reg n by simp
qed

section \<open>The contract of a dependency graph\<close>

text \<open>
  The scheduler works with the parents and the children of a fetch. It relies on these laws,
  which \<open>newFetchDAG\<close> provides: the two views agree, and no fetch is its own parent.
\<close>

locale fetch_graph =
  fixes invar :: "'g \<Rightarrow> bool"
    and par :: "'g \<Rightarrow> int \<Rightarrow> int list"
    and chi :: "'g \<Rightarrow> int \<Rightarrow> int list"
  assumes mirror: "invar g \<Longrightarrow> p \<in> set (par g c) \<longleftrightarrow> c \<in> set (chi g p)"
    and no_self: "invar g \<Longrightarrow> c \<notin> set (par g c)"
begin

definition edges :: "'g \<Rightarrow> (int \<times> int) set" where
  "edges g = {(p, c). p \<in> set (par g c)}"

definition adj :: "'g \<Rightarrow> int \<Rightarrow> int \<Rightarrow> bool" where
  "adj g x y \<longleftrightarrow> y \<in> set (par g x) \<or> y \<in> set (chi g x)"

lemma adj_sym: "invar g \<Longrightarrow> adj g x y \<Longrightarrow> adj g y x"
  by (auto simp: adj_def mirror)

lemma root_exists:
  assumes "acyclic (edges g)" and "finite S" and "S \<noteq> {}"
  shows "\<exists>r \<in> S. \<forall>p \<in> S. p \<notin> set (par g r)"
proof -
  let ?E = "{(p, c). p \<in> set (par g c) \<and> p \<in> S \<and> c \<in> S}"
  have "?E \<subseteq> edges g" by (auto simp: edges_def)
  with assms(1) have "acyclic ?E" by (rule acyclic_subset)
  moreover have "finite ?E" by (rule finite_subset [of _ "S \<times> S"]) (auto simp: assms(2))
  ultimately have wf: "wf ?E" by (simp add: finite_acyclic_wf)
  obtain z where "z \<in> S" using assms(3) by auto
  then show ?thesis
  proof (rule wfE_min [OF wf])
    fix r
    assume r: "r \<in> S" and min: "\<And>y. (y, r) \<in> ?E \<Longrightarrow> y \<notin> S"
    have "p \<notin> set (par g r)" if "p \<in> S" for p
      using min [of p] that r by blast
    with r show ?thesis by blast
  qed
qed

text \<open>Facts over an acyclic graph are proved along the edges.\<close>

lemma parent_induct:
  assumes "acyclic (edges g)" and "finite S" and "x \<in> S"
    and step: "\<And>y. y \<in> S \<Longrightarrow> (\<And>p. p \<in> S \<Longrightarrow> p \<in> set (par g y) \<Longrightarrow> P p) \<Longrightarrow> P y"
  shows "P x"
proof (rule ccontr)
  assume "\<not> P x"
  with assms have "{y \<in> S. \<not> P y} \<noteq> {}" "finite {y \<in> S. \<not> P y}" by auto
  from root_exists [OF assms(1) this(2,1)] obtain r
    where r: "r \<in> S" "\<not> P r" and "\<forall>p \<in> S. \<not> P p \<longrightarrow> p \<notin> set (par g r)" by auto
  then have "P p" if "p \<in> S" "p \<in> set (par g r)" for p using that by auto
  with step [of r] r show False by auto
qed

end

interpretation dag: fetch_graph wf_dag parents_of children_of
  by unfold_locales (auto dest: wf_dagD)

text \<open>The dependency edges among the fetches of a flat list are acyclic.\<close>

definition acyclic_dag :: "'v fetchDAG \<Rightarrow> bool" where
  "acyclic_dag dag \<longleftrightarrow> acyclic {(p, c). p \<in> set (parents_of dag c)}"

lemma acyclic_dag_edges: "acyclic_dag dag \<Longrightarrow> acyclic (dag.edges dag)"
  by (simp add: acyclic_dag_def dag.edges_def)

section \<open>Weakly connected components\<close>

fun visit_neighbors :: "int list \<Rightarrow> int list \<Rightarrow> int list \<Rightarrow> int list \<Rightarrow> int list \<times> int list" where
  "visit_neighbors allowed [] seen queue = (seen, queue)"
| "visit_neighbors allowed (neighbor # ns) seen queue =
     (if neighbor \<notin> set allowed then visit_neighbors allowed ns seen queue
      else if neighbor \<in> set seen then visit_neighbors allowed ns seen queue
      else visit_neighbors allowed ns (neighbor # seen) (queue @ [neighbor]))"

lemma visit_neighbors_spec:
  "visit_neighbors allowed ns seen queue = (seen', queue') \<Longrightarrow>
   \<exists>new. queue' = queue @ new \<and> set seen' = set seen \<union> set new \<and> distinct new \<and>
     set new = (set ns \<inter> set allowed) - set seen"
proof (induction allowed ns seen queue arbitrary: seen' queue' rule: visit_neighbors.induct)
  case (2 allowed neighbor ns seen queue)
  show ?case
  proof (cases "neighbor \<in> set allowed \<and> neighbor \<notin> set seen")
    case True
    with "2.prems" have "visit_neighbors allowed ns (neighbor # seen) (queue @ [neighbor]) = (seen', queue')"
      by simp
    from "2.IH"(3) [OF _ _ this] True obtain new where new: "queue' = queue @ neighbor # new"
      "set seen' = set (neighbor # seen) \<union> set new" "distinct new"
      "set new = (set ns \<inter> set allowed) - set (neighbor # seen)" by auto
    show ?thesis using new True by (intro exI [of _ "neighbor # new"]) auto
  next
    case False
    with "2.prems" "2.IH"(1,2) show ?thesis by (cases "neighbor \<in> set allowed") auto
  qed
qed auto

lemma card_unseen_visit:
  assumes "visit_neighbors allowed ns seen queue = (seen', queue')"
  shows "card (set allowed - set seen') + length queue' = card (set allowed - set seen) + length queue"
proof -
  obtain new where new: "queue' = queue @ new" "set seen' = set seen \<union> set new" "distinct new"
    "set new = (set ns \<inter> set allowed) - set seen"
    using visit_neighbors_spec [OF assms] by blast
  have "set allowed - set seen = (set allowed - set seen') \<union> set new"
    and "(set allowed - set seen') \<inter> set new = {}" using new by auto
  then have "card (set allowed - set seen) = card (set allowed - set seen') + card (set new)"
    by (simp add: card_Un_disjoint)
  moreover have "card (set new) = length new" using new(3) by (rule distinct_card)
  ultimately show ?thesis using new(1) by simp
qed

text \<open>
  The breadth-first search of one component. Every fetch enters the queue at most once, so the
  unseen fetches and the queue together get fewer.
\<close>

function wcc_bfs :: "'v fetchDAG \<Rightarrow> int list \<Rightarrow> int list \<Rightarrow> int list \<Rightarrow> int list \<Rightarrow> int list \<times> int list" where
  "wcc_bfs dag allowed [] seen component = (seen, component)"
| "wcc_bfs dag allowed (current # queue) seen component =
     (case visit_neighbors allowed (parents_of dag current @ children_of dag current) seen queue of
        (seen', queue') \<Rightarrow> wcc_bfs dag allowed queue' seen' (component @ [current]))"
  by pat_completeness auto
termination
  by (relation "measure (\<lambda>(dag, allowed, queue, seen, component). card (set allowed - set seen) + length queue)")
    (auto dest: card_unseen_visit [OF sym])

fun wcc_loop :: "'v fetchDAG \<Rightarrow> int list \<Rightarrow> int list \<Rightarrow> int list \<Rightarrow> int list list \<Rightarrow> int list list" where
  "wcc_loop dag allowed [] seen components = components"
| "wcc_loop dag allowed (i # ids) seen components =
     (if i \<in> set seen then wcc_loop dag allowed ids seen components
      else (case wcc_bfs dag allowed [i] (i # seen) [] of
              (seen', component) \<Rightarrow> wcc_loop dag allowed ids seen' (components @ [sort component])))"

definition weaklyConnectedComponents :: "int list \<Rightarrow> 'v fetchDAG \<Rightarrow> int list list" where
  "weaklyConnectedComponents ns dag = wcc_loop dag ns ns [] []"

text \<open>
  A search collects every fetch that the queue reaches through allowed neighbours, and nothing
  that an earlier search has seen.
\<close>

lemma wcc_bfs_spec:
  "wcc_bfs dag allowed queue seen component = (seen', component') \<Longrightarrow>
   distinct (component @ queue) \<Longrightarrow> set component \<union> set queue \<subseteq> set seen \<inter> set allowed \<Longrightarrow>
   (\<And>x y. x \<in> set component \<Longrightarrow> dag.adj dag x y \<Longrightarrow> y \<in> set allowed \<Longrightarrow> y \<in> set seen) \<Longrightarrow>
   set seen' = set seen \<union> set component' \<and> set component \<union> set queue \<subseteq> set component' \<and>
   distinct component' \<and> set component' \<subseteq> set allowed \<and>
   set component' \<inter> set seen \<subseteq> set component \<union> set queue \<and>
   (\<forall>x \<in> set component'. \<forall>y. dag.adj dag x y \<longrightarrow> y \<in> set allowed \<longrightarrow> y \<in> set seen')"
proof (induction dag allowed queue seen component rule: wcc_bfs.induct)
  case (1 dag allowed seen component)
  then show ?case by auto
next
  case (2 dag allowed current queue seen component)
  obtain seen1 queue1 where v: "visit_neighbors allowed (parents_of dag current @ children_of dag current) seen queue
      = (seen1, queue1)" by force
  obtain new where new: "queue1 = queue @ new" "set seen1 = set seen \<union> set new" "distinct new"
    "set new = ((set (parents_of dag current) \<union> set (children_of dag current)) \<inter> set allowed) - set seen"
    using visit_neighbors_spec [OF v] by auto
  have closed: "y \<in> set seen1"
    if "x \<in> set (component @ [current])" "dag.adj dag x y" "y \<in> set allowed" for x y
    using that "2.prems"(4) new(2,4) by (auto simp: dag.adj_def)
  have "wcc_bfs dag allowed queue1 seen1 (component @ [current]) = (seen', component')"
    using "2.prems"(1) v by simp
  note IH = "2.IH" [OF v [symmetric] this]
  have "distinct ((component @ [current]) @ queue1)"
    using "2.prems"(2,3) new by auto
  moreover have "set (component @ [current]) \<union> set queue1 \<subseteq> set seen1 \<inter> set allowed"
    using "2.prems"(3) new by auto
  ultimately have "set seen' = set seen1 \<union> set component' \<and>
     set (component @ [current]) \<union> set queue1 \<subseteq> set component' \<and>
     distinct component' \<and> set component' \<subseteq> set allowed \<and>
     set component' \<inter> set seen1 \<subseteq> set (component @ [current]) \<union> set queue1 \<and>
     (\<forall>x \<in> set component'. \<forall>y. dag.adj dag x y \<longrightarrow> y \<in> set allowed \<longrightarrow> y \<in> set seen')"
    using IH closed by blast
  then show ?case using new by auto
qed

definition closed_in :: "'v fetchDAG \<Rightarrow> int list \<Rightarrow> int set \<Rightarrow> bool" where
  "closed_in dag allowed C \<longleftrightarrow>
     (\<forall>x \<in> C. \<forall>y. dag.adj dag x y \<longrightarrow> y \<in> set allowed \<longrightarrow> y \<in> C)"

lemma wcc_bfs_component:
  assumes wf: "wf_dag dag" and i: "i \<in> set allowed" "i \<notin> set seen"
    and seen: "closed_in dag allowed (set seen)"
    and bfs: "wcc_bfs dag allowed [i] (i # seen) [] = (seen', component)"
  shows "set seen' = set seen \<union> set component" and "i \<in> set component" and "distinct component"
    and "set component \<subseteq> set allowed" and "set component \<inter> set seen = {}"
    and "closed_in dag allowed (set component)" and "closed_in dag allowed (set seen')"
proof -
  have spec: "set seen' = set (i # seen) \<union> set component" "i \<in> set component" "distinct component"
    "set component \<subseteq> set allowed" "set component \<inter> set (i # seen) \<subseteq> {i}"
    "\<And>x y. x \<in> set component \<Longrightarrow> dag.adj dag x y \<Longrightarrow> y \<in> set allowed \<Longrightarrow> y \<in> set seen'"
    using wcc_bfs_spec [OF bfs] i by auto
  from spec i show eq: "set seen' = set seen \<union> set component" and "i \<in> set component"
    and "distinct component" and "set component \<subseteq> set allowed"
    and disj: "set component \<inter> set seen = {}" by auto
  show cl: "closed_in dag allowed (set component)"
    unfolding closed_in_def
  proof (intro ballI allI impI)
    fix x y assume xy: "x \<in> set component" "dag.adj dag x y" "y \<in> set allowed"
    have "y \<notin> set seen"
    proof
      assume "y \<in> set seen"
      moreover have "dag.adj dag y x" using wf xy(2) by (rule dag.adj_sym)
      moreover have "x \<in> set allowed" using xy(1) spec(4) by auto
      ultimately have "x \<in> set seen" using seen by (auto simp: closed_in_def)
      with xy(1) disj show False by auto
    qed
    with spec(6) [OF xy] eq show "y \<in> set component" by auto
  qed
  from cl seen eq show "closed_in dag allowed (set seen')" by (auto simp: closed_in_def)
qed

text \<open>The components found so far partition the fetches seen so far.\<close>

definition wcc_inv :: "'v fetchDAG \<Rightarrow> int list \<Rightarrow> int list \<Rightarrow> int list list \<Rightarrow> bool" where
  "wcc_inv dag allowed seen components \<longleftrightarrow>
     set seen = set (concat components) \<and> set seen \<subseteq> set allowed \<and> closed_in dag allowed (set seen) \<and>
     distinct (concat components) \<and> (\<forall>C \<in> set components. C \<noteq> [] \<and> closed_in dag allowed (set C))"

lemma wcc_inv_step:
  assumes "wf_dag dag" and "i \<in> set allowed" "i \<notin> set seen" and inv: "wcc_inv dag allowed seen components"
    and bfs: "wcc_bfs dag allowed [i] (i # seen) [] = (seen', component)"
  shows "wcc_inv dag allowed seen' (components @ [sort component])" and "insert i (set seen) \<subseteq> set seen'"
proof -
  have "closed_in dag allowed (set seen)" using inv unfolding wcc_inv_def by blast
  note c = wcc_bfs_component [OF assms(1-3) this bfs]
  have "sort component \<noteq> []" using c(2) by (metis empty_iff list.set(1) set_sort)
  with c inv show "wcc_inv dag allowed seen' (components @ [sort component])"
    by (auto simp: wcc_inv_def)
  show "insert i (set seen) \<subseteq> set seen'" using c by auto
qed

lemma wcc_loop_spec:
  "wf_dag dag \<Longrightarrow> set ids \<subseteq> set allowed \<Longrightarrow> wcc_inv dag allowed seen components \<Longrightarrow>
   \<exists>seen'. wcc_inv dag allowed seen' (wcc_loop dag allowed ids seen components) \<and> set ids \<union> set seen \<subseteq> set seen'"
proof (induction dag allowed ids seen components rule: wcc_loop.induct)
  case (1 dag allowed seen components)
  then show ?case by auto
next
  case (2 dag allowed i ids seen components)
  show ?case
  proof (cases "i \<in> set seen")
    case True
    with "2.IH"(1) [OF True] "2.prems" show ?thesis by auto
  next
    case False
    obtain seen' component where bfs: "wcc_bfs dag allowed [i] (i # seen) [] = (seen', component)" by force
    have i: "i \<in> set allowed" using "2.prems"(2) by simp
    note step = wcc_inv_step [OF "2.prems"(1) i False "2.prems"(3) bfs]
    from "2.IH"(2) [OF False bfs [symmetric] "2.prems"(1) _ step(1)] "2.prems"(2) obtain seen''
      where "wcc_inv dag allowed seen'' (wcc_loop dag allowed ids seen' (components @ [sort component]))"
        and "set ids \<union> set seen' \<subseteq> set seen''" by auto
    then show ?thesis using False bfs step(2) by auto
  qed
qed

theorem weaklyConnectedComponents_spec:
  assumes "wf_dag dag" and "distinct ns"
  shows "mset (concat (weaklyConnectedComponents ns dag)) = mset ns"
    and "C \<in> set (weaklyConnectedComponents ns dag) \<Longrightarrow> C \<noteq> []"
    and "C \<in> set (weaklyConnectedComponents ns dag) \<Longrightarrow> closed_in dag ns (set C)"
proof -
  let ?R = "weaklyConnectedComponents ns dag"
  have "wcc_inv dag ns [] []" by (simp add: wcc_inv_def closed_in_def)
  then obtain seen where R: "wcc_inv dag ns seen ?R" "set ns \<subseteq> set seen"
    using wcc_loop_spec [OF assms(1), of ns ns "[]" "[]"] by (auto simp: weaklyConnectedComponents_def)
  then have "set (concat ?R) = set ns" "distinct (concat ?R)" by (auto simp: wcc_inv_def)
  with assms(2) show "mset (concat ?R) = mset ns" using set_eq_iff_mset_eq_distinct by blast
  show "C \<in> set ?R \<Longrightarrow> C \<noteq> []" and "C \<in> set ?R \<Longrightarrow> closed_in dag ns (set C)"
    using R(1) by (auto simp: wcc_inv_def)
qed

end
