(* ===== verification/Fetch_Colour.thy ===== *)
theory Fetch_Colour
  imports Fetch_Graph
begin

text \<open>
  \<open>colorExclusive\<close> of \<open>schedule_fetches.go\<close>: a queue propagates the root's identifier
  along the edges of a component; a fetch that two different colours reach becomes
  \<open>sharedByRoots\<close>. The theory shows that the propagation ends, that the final colouring is
  closed under the edges, and that in an acyclic graph it labels exactly the fetches below the
  roots, each with the only root that reaches it or as shared.
\<close>

definition sharedByRoots :: int where
  "sharedByRoots = -1"

definition hasParentIn :: "'v fetchDAG \<Rightarrow> int \<Rightarrow> int list \<Rightarrow> bool" where
  "hasParentIn dag i s = list_ex (\<lambda>parent. parent \<in> set s) (parents_of dag i)"

lemma hasParentIn_iff: "hasParentIn dag i s \<longleftrightarrow> (\<exists>p \<in> set s. p \<in> set (parents_of dag i))"
  by (auto simp: hasParentIn_def list_ex_iff)

text \<open>How often the colour of a fetch can still change.\<close>

definition colour_rank :: "int option \<Rightarrow> nat" where
  "colour_rank c = (case c of None \<Rightarrow> 2 | Some k \<Rightarrow> (if k = sharedByRoots then 0 else 1))"

definition colour_potential :: "int list \<Rightarrow> (int \<times> int) list \<Rightarrow> nat" where
  "colour_potential inSet color = (\<Sum>x \<in> set inSet. colour_rank (map_of color x))"

lemma colour_potential_update:
  assumes "i \<in> set inSet" and "colour_rank (Some k) < colour_rank (map_of color i)"
  shows "colour_potential inSet (AList.update i k color) < colour_potential inSet color"
  unfolding colour_potential_def
proof (rule sum_strict_mono_ex1)
  show "\<forall>x \<in> set inSet. colour_rank (map_of (AList.update i k color) x) \<le> colour_rank (map_of color x)"
    using assms by (auto simp: update_conv')
  show "\<exists>x \<in> set inSet. colour_rank (map_of (AList.update i k color) x) < colour_rank (map_of color x)"
    using assms by (auto simp: update_conv' intro: bexI [of _ i])
qed simp

function color_loop ::
  "'v fetchDAG \<Rightarrow> int list \<Rightarrow> (int \<times> int) list \<Rightarrow> (int \<times> int) list \<Rightarrow> (int \<times> int) list" where
  "color_loop dag inSet [] color = color"
| "color_loop dag inSet ((i, c) # queue) color =
     (if i \<notin> set inSet then color_loop dag inSet queue color
      else (case map_of color i of
        Some current \<Rightarrow>
          (if current = c \<or> current = sharedByRoots then color_loop dag inSet queue color
           else color_loop dag inSet
             (queue @ map (\<lambda>child. (child, sharedByRoots)) (children_of dag i))
             (AList.update i sharedByRoots color))
      | None \<Rightarrow>
          color_loop dag inSet (queue @ map (\<lambda>child. (child, c)) (children_of dag i))
            (AList.update i c color)))"
  by pat_completeness auto
termination
proof (relation "measures [\<lambda>(dag, inSet, queue, color). colour_potential inSet color,
                           \<lambda>(dag, inSet, queue, color). length queue]", goal_cases)
  case 1
  then show ?case by simp
next
  case (3 dag inSet i c queue color)
  then show ?case by (simp, intro disjI1 colour_potential_update) (auto simp: colour_rank_def)
next
  case (5 dag inSet i c queue color current)
  then show ?case by (simp, intro disjI1 colour_potential_update) (auto simp: colour_rank_def)
qed auto

definition colorExclusive :: "int list \<Rightarrow> 'v fetchDAG \<Rightarrow> int list \<Rightarrow> (int \<times> int) list" where
  "colorExclusive roots dag inSet =
     color_loop dag inSet (concat (map (\<lambda>root. map (\<lambda>child. (child, root)) (children_of dag root)) roots)) []"

text \<open>
  \<open>colour_ok q c\<close>: fetch \<open>q\<close> carries colour \<open>c\<close>, is shared, or a queued item will
  bring colour \<open>c\<close> to it.
\<close>

definition colour_ok :: "(int \<times> int) list \<Rightarrow> (int \<times> int) list \<Rightarrow> int \<Rightarrow> int \<Rightarrow> bool" where
  "colour_ok queue color q c \<longleftrightarrow>
     map_of color q = Some c \<or> map_of color q = Some sharedByRoots \<or> (q, c) \<in> set queue"

definition colour_inv ::
  "'v fetchDAG \<Rightarrow> int list \<Rightarrow> int list \<Rightarrow> (int \<times> int) list \<Rightarrow> (int \<times> int) list \<Rightarrow> bool" where
  "colour_inv dag inSet roots queue color \<longleftrightarrow>
     (\<forall>p c. map_of color p = Some c \<longrightarrow> p \<in> set inSet \<and> hasParentIn dag p inSet \<and>
        (\<forall>q \<in> set (children_of dag p). q \<in> set inSet \<longrightarrow> colour_ok queue color q c)) \<and>
     (\<forall>r \<in> set roots. \<forall>q \<in> set (children_of dag r). q \<in> set inSet \<longrightarrow> colour_ok queue color q r) \<and>
     (\<forall>(q, c) \<in> set queue. hasParentIn dag q inSet) \<and> distinct (map fst color)"

lemma colour_inv_skip:
  assumes inv: "colour_inv dag inSet roots ((i, c) # queue) color"
    and "i \<in> set inSet \<longrightarrow> map_of color i = Some c \<or> map_of color i = Some sharedByRoots"
  shows "colour_inv dag inSet roots queue color"
proof -
  have ok: "colour_ok queue color q c'" if "q \<in> set inSet" "colour_ok ((i, c) # queue) color q c'" for q c'
    using that assms(2) by (auto simp: colour_ok_def)
  have "\<forall>(q, c) \<in> set queue. hasParentIn dag q inSet" using inv by (auto simp: colour_inv_def)
  with inv ok show ?thesis unfolding colour_inv_def by blast
qed

lemma colour_inv_set:
  assumes wf: "wf_dag dag" and inv: "colour_inv dag inSet roots ((i, c) # queue) color"
    and i: "i \<in> set inSet" and k: "(map_of color i = None \<and> k = c) \<or> k = sharedByRoots"
  shows "colour_inv dag inSet roots (queue @ map (\<lambda>child. (child, k)) (children_of dag i)) (AList.update i k color)"
proof -
  let ?q = "queue @ map (\<lambda>child. (child, k)) (children_of dag i)" and ?c = "AList.update i k color"
  have ok: "colour_ok ?q ?c q c'" if "colour_ok ((i, c) # queue) color q c'" for q c'
    using that k by (auto simp: colour_ok_def update_conv')
  have new: "colour_ok ?q ?c q k" if "q \<in> set (children_of dag i)" for q
    using that by (auto simp: colour_ok_def)
  have par: "hasParentIn dag q inSet" if "q \<in> set (children_of dag i)" for q
    using that i wf by (auto simp: hasParentIn_iff wf_dagD(3))
  have "hasParentIn dag i inSet" using inv by (auto simp: colour_inv_def)
  then have "p \<in> set inSet \<and> hasParentIn dag p inSet \<and>
      (\<forall>q \<in> set (children_of dag p). q \<in> set inSet \<longrightarrow> colour_ok ?q ?c q c')" if "map_of ?c p = Some c'" for p c'
    using that inv i ok new by (cases "p = i") (auto simp: update_conv' colour_inv_def)
  moreover have "\<forall>r \<in> set roots. \<forall>q \<in> set (children_of dag r). q \<in> set inSet \<longrightarrow> colour_ok ?q ?c q r"
    using inv ok by (auto simp: colour_inv_def)
  moreover have "\<forall>(q, c) \<in> set ?q. hasParentIn dag q inSet"
    using inv par by (auto simp: colour_inv_def)
  moreover have "distinct (map fst ?c)"
    using inv distinct_update by (auto simp: colour_inv_def)
  ultimately show ?thesis unfolding colour_inv_def by blast
qed

lemma color_loop_inv:
  "wf_dag dag \<Longrightarrow> colour_inv dag inSet roots queue color \<Longrightarrow>
   colour_inv dag inSet roots [] (color_loop dag inSet queue color)"
proof (induction dag inSet queue color rule: color_loop.induct)
  case (2 dag inSet i c queue color)
  consider (out) "i \<notin> set inSet"
    | (none) "i \<in> set inSet" "map_of color i = None"
    | (same) current where "i \<in> set inSet" "map_of color i = Some current" "current = c \<or> current = sharedByRoots"
    | (clash) current where "i \<in> set inSet" "map_of color i = Some current" "\<not> (current = c \<or> current = sharedByRoots)"
    by (cases "map_of color i") auto
  then show ?case
  proof cases
    case out
    with "2.IH"(1) [OF out "2.prems"(1)] colour_inv_skip [OF "2.prems"(2)] show ?thesis by simp
  next
    case none
    with "2.IH"(2) [OF _ none(2) "2.prems"(1)] colour_inv_set [OF "2.prems" none(1), of c]
    show ?thesis by simp
  next
    case same
    with "2.IH"(3) [OF _ same(2,3) "2.prems"(1)] colour_inv_skip [OF "2.prems"(2)] show ?thesis by auto
  next
    case clash
    with "2.IH"(4) [OF _ clash(2,3) "2.prems"(1)] colour_inv_set [OF "2.prems" clash(1), of sharedByRoots]
    show ?thesis by simp
  qed
qed simp

text \<open>
  The final colouring: only fetches with a parent in the component are coloured, each colour
  flows from a fetch to its dependants unless they are shared.
\<close>

theorem colorExclusive_closed:
  assumes wf: "wf_dag dag" and roots: "set roots \<subseteq> set inSet"
  defines "color \<equiv> map_of (colorExclusive roots dag inSet)"
  shows "color p = Some c \<Longrightarrow> p \<in> set inSet \<and> hasParentIn dag p inSet"
    and "color p = Some c \<Longrightarrow> p \<in> set (parents_of dag q) \<Longrightarrow> q \<in> set inSet \<Longrightarrow>
      color q = Some c \<or> color q = Some sharedByRoots"
    and "r \<in> set roots \<Longrightarrow> r \<in> set (parents_of dag q) \<Longrightarrow> q \<in> set inSet \<Longrightarrow>
      color q = Some r \<or> color q = Some sharedByRoots"
    and "distinct (map fst (colorExclusive roots dag inSet))"
proof -
  let ?q = "concat (map (\<lambda>root. map (\<lambda>child. (child, root)) (children_of dag root)) roots)"
  have "\<forall>(q, c) \<in> set ?q. hasParentIn dag q inSet"
    using wf roots by (auto simp: hasParentIn_iff wf_dagD(3) [symmetric])
  then have "colour_inv dag inSet roots ?q []"
    by (auto simp: colour_inv_def colour_ok_def)
  from color_loop_inv [OF wf this]
  have inv: "colour_inv dag inSet roots [] (colorExclusive roots dag inSet)"
    by (simp add: colorExclusive_def)
  then show "color p = Some c \<Longrightarrow> p \<in> set inSet \<and> hasParentIn dag p inSet"
    and "color p = Some c \<Longrightarrow> p \<in> set (parents_of dag q) \<Longrightarrow> q \<in> set inSet \<Longrightarrow>
      color q = Some c \<or> color q = Some sharedByRoots"
    and "r \<in> set roots \<Longrightarrow> r \<in> set (parents_of dag q) \<Longrightarrow> q \<in> set inSet \<Longrightarrow>
      color q = Some r \<or> color q = Some sharedByRoots"
    and "distinct (map fst (colorExclusive roots dag inSet))"
    unfolding color_def colour_inv_def colour_ok_def wf_dagD(3) [OF wf] list.set(1) empty_iff
    by blast+
qed

section \<open>The meaning of the colours\<close>

text \<open>\<open>reached dag inSet r q\<close>: a path of dependency edges leads from \<open>r\<close> to \<open>q\<close> inside the component.\<close>

definition reached :: "'v fetchDAG \<Rightarrow> int list \<Rightarrow> int \<Rightarrow> int \<Rightarrow> bool" where
  "reached dag inSet r q \<longleftrightarrow> (r, q) \<in> {(p, c). p \<in> set (parents_of dag c) \<and> p \<in> set inSet}\<^sup>+"

definition colour_just :: "'v fetchDAG \<Rightarrow> int list \<Rightarrow> int list \<Rightarrow> int \<Rightarrow> int \<Rightarrow> bool" where
  "colour_just dag inSet roots q c \<longleftrightarrow>
     (if c = sharedByRoots
      then \<exists>r1 \<in> set roots. \<exists>r2 \<in> set roots. r1 \<noteq> r2 \<and> reached dag inSet r1 q \<and> reached dag inSet r2 q
      else c \<in> set roots \<and> reached dag inSet c q)"

lemma reached_step:
  "p \<in> set inSet \<Longrightarrow> p \<in> set (parents_of dag q) \<Longrightarrow> reached dag inSet p q"
  "reached dag inSet r p \<Longrightarrow> p \<in> set inSet \<Longrightarrow> p \<in> set (parents_of dag q) \<Longrightarrow> reached dag inSet r q"
  unfolding reached_def by (auto intro: trancl.intros)

lemma colour_just_step:
  "colour_just dag inSet roots p c \<Longrightarrow> p \<in> set inSet \<Longrightarrow> p \<in> set (parents_of dag q) \<Longrightarrow>
   colour_just dag inSet roots q c"
  unfolding colour_just_def by (auto split: if_splits intro: reached_step)

definition all_just :: "'v fetchDAG \<Rightarrow> int list \<Rightarrow> int list \<Rightarrow> (int \<times> int) list \<Rightarrow> (int \<times> int) list \<Rightarrow> bool" where
  "all_just dag inSet roots queue color \<longleftrightarrow>
     (\<forall>(q, c) \<in> set queue. colour_just dag inSet roots q c) \<and>
     (\<forall>q c. map_of color q = Some c \<longrightarrow> colour_just dag inSet roots q c)"

lemma all_just_set:
  assumes "wf_dag dag" and "all_just dag inSet roots ((i, c) # queue) color" and "i \<in> set inSet"
    and "colour_just dag inSet roots i k"
  shows "all_just dag inSet roots (queue @ map (\<lambda>child. (child, k)) (children_of dag i)) (AList.update i k color)"
  using assms colour_just_step [OF assms(4,3)] by (auto simp: all_just_def update_conv' wf_dagD(3))

lemma color_loop_just:
  "wf_dag dag \<Longrightarrow> all_just dag inSet roots queue color \<Longrightarrow>
   all_just dag inSet roots [] (color_loop dag inSet queue color)"
proof (induction dag inSet queue color rule: color_loop.induct)
  case (2 dag inSet i c queue color)
  have just: "colour_just dag inSet roots i c" and tail: "all_just dag inSet roots queue color"
    using "2.prems"(2) by (auto simp: all_just_def)
  consider (out) "i \<notin> set inSet"
    | (none) "i \<in> set inSet" "map_of color i = None"
    | (same) current where "i \<in> set inSet" "map_of color i = Some current" "current = c \<or> current = sharedByRoots"
    | (clash) current where "i \<in> set inSet" "map_of color i = Some current" "\<not> (current = c \<or> current = sharedByRoots)"
    by (cases "map_of color i") auto
  then show ?case
  proof cases
    case out
    with "2.IH"(1) [OF out "2.prems"(1) tail] show ?thesis by simp
  next
    case none
    with "2.IH"(2) [OF _ none(2) "2.prems"(1) all_just_set [OF "2.prems" none(1) just]]
    show ?thesis by simp
  next
    case same
    with "2.IH"(3) [OF _ same(2,3) "2.prems"(1) tail] show ?thesis by simp
  next
    case clash
    have "colour_just dag inSet roots i current" using "2.prems"(2) clash(2) by (simp add: all_just_def)
    with just clash(3) have "colour_just dag inSet roots i sharedByRoots"
      by (auto simp: colour_just_def split: if_splits)
    with clash "2.IH"(4) [OF _ clash(2,3) "2.prems"(1) all_just_set [OF "2.prems" clash(1)]]
    show ?thesis by simp
  qed
qed simp

lemma reached_colour:
  assumes wf: "wf_dag dag" and roots: "set roots \<subseteq> set inSet" and r: "r \<in> set roots"
    and "reached dag inSet r q" and "q \<in> set inSet"
  shows "map_of (colorExclusive roots dag inSet) q = Some r \<or>
         map_of (colorExclusive roots dag inSet) q = Some sharedByRoots"
proof -
  note closed = colorExclusive_closed [OF wf roots]
  have "(r, q) \<in> {(p, c). p \<in> set (parents_of dag c) \<and> p \<in> set inSet}\<^sup>+"
    using assms(4) by (simp add: reached_def)
  then show ?thesis using assms(5)
  proof (induction rule: trancl_induct)
    case (base y)
    then show ?case using closed(3) [OF r] by auto
  next
    case (step y z)
    then show ?case using closed(2) [of y] by auto
  qed
qed

theorem colorExclusive_exact:
  assumes wf: "wf_dag dag" and roots: "set roots \<subseteq> set inSet" and "sharedByRoots \<notin> set roots"
    and q: "q \<in> set inSet"
  shows "r \<noteq> sharedByRoots \<Longrightarrow>
     map_of (colorExclusive roots dag inSet) q = Some r \<longleftrightarrow>
     r \<in> set roots \<and> reached dag inSet r q \<and> (\<forall>r' \<in> set roots. reached dag inSet r' q \<longrightarrow> r' = r)"
    and "map_of (colorExclusive roots dag inSet) q = Some sharedByRoots \<longleftrightarrow>
     (\<exists>r1 \<in> set roots. \<exists>r2 \<in> set roots. r1 \<noteq> r2 \<and> reached dag inSet r1 q \<and> reached dag inSet r2 q)"
proof -
  let ?col = "map_of (colorExclusive roots dag inSet) q"
  have "all_just dag inSet roots (concat (map (\<lambda>root. map (\<lambda>child. (child, root)) (children_of dag root)) roots)) []"
    using assms by (auto simp: all_just_def colour_just_def wf_dagD(3) [symmetric] intro: reached_step)
  from color_loop_just [OF wf this]
  have just: "?col = Some c \<Longrightarrow> colour_just dag inSet roots q c" for c
    by (simp add: colorExclusive_def all_just_def)
  have reach: "?col = Some r' \<or> ?col = Some sharedByRoots" if "r' \<in> set roots" "reached dag inSet r' q" for r'
    using reached_colour [OF wf roots that q] .
  show shared: "?col = Some sharedByRoots \<longleftrightarrow>
     (\<exists>r1 \<in> set roots. \<exists>r2 \<in> set roots. r1 \<noteq> r2 \<and> reached dag inSet r1 q \<and> reached dag inSet r2 q)"
  proof
    assume "?col = Some sharedByRoots"
    from just [OF this] show "\<exists>r1 \<in> set roots. \<exists>r2 \<in> set roots. r1 \<noteq> r2 \<and> reached dag inSet r1 q \<and> reached dag inSet r2 q"
      by (simp add: colour_just_def)
  next
    assume "\<exists>r1 \<in> set roots. \<exists>r2 \<in> set roots. r1 \<noteq> r2 \<and> reached dag inSet r1 q \<and> reached dag inSet r2 q"
    then obtain r1 r2 where "?col = Some r1 \<or> ?col = Some sharedByRoots"
      "?col = Some r2 \<or> ?col = Some sharedByRoots" "r1 \<noteq> r2" using reach by metis
    then show "?col = Some sharedByRoots" by auto
  qed
  show "?col = Some r \<longleftrightarrow>
     r \<in> set roots \<and> reached dag inSet r q \<and> (\<forall>r' \<in> set roots. reached dag inSet r' q \<longrightarrow> r' = r)"
    if "r \<noteq> sharedByRoots"
  proof
    assume r: "?col = Some r"
    from just [OF r] that have "r \<in> set roots" "reached dag inSet r q" by (simp_all add: colour_just_def)
    moreover have "r' = r" if "r' \<in> set roots" "reached dag inSet r' q" for r'
      using reach [OF that] r \<open>r \<noteq> sharedByRoots\<close> by auto
    ultimately show "r \<in> set roots \<and> reached dag inSet r q \<and> (\<forall>r' \<in> set roots. reached dag inSet r' q \<longrightarrow> r' = r)"
      by blast
  next
    assume only: "r \<in> set roots \<and> reached dag inSet r q \<and> (\<forall>r' \<in> set roots. reached dag inSet r' q \<longrightarrow> r' = r)"
    then have "?col \<noteq> Some sharedByRoots" using shared by blast
    with only reach [of r] show "?col = Some r" by blast
  qed
qed

end
