(* ===== verification/Fetch_Schedule.thy ===== *)
theory Fetch_Schedule
  imports Fetch_Colour
begin

text \<open>
  The scheduler of \<open>v2/pkg/engine/postprocess/schedule_fetches.go\<close>: \<open>combineOf\<close> and its
  two instances, \<open>schedule\<close> in both modes (waves and inlined). The recursion of
  \<open>schedule\<close> is on sets of fetches that get smaller; it is written with fuel, and
  \<open>schedule_correct\<close> shows that one more unit of fuel than there are fetches is enough.
\<close>

section \<open>Normalizing combinators\<close>

datatype FetchTreeNodeKind = KindSingle | KindSequence | KindParallel | KindTrigger

fun node_kind :: "'v FetchTreeNode \<Rightarrow> FetchTreeNodeKind" where
  "node_kind (Single it) = KindSingle"
| "node_kind (Sequence ts) = KindSequence"
| "node_kind (Parallel ts) = KindParallel"
| "node_kind (Trigger it) = KindTrigger"

definition MaxInt :: int where
  "MaxInt = 9223372036854775807"

fun minReachableFetchID :: "'v FetchTreeNode \<Rightarrow> int" where
  "minReachableFetchID (Single it) = item_id it"
| "minReachableFetchID (Trigger it) = MaxInt"
| "minReachableFetchID (Sequence ts) = fold min (map minReachableFetchID ts) MaxInt"
| "minReachableFetchID (Parallel ts) = fold min (map minReachableFetchID ts) MaxInt"

definition splice :: "FetchTreeNodeKind \<Rightarrow> 'v FetchTreeNode option list \<Rightarrow> 'v FetchTreeNode list" where
  "splice kind cs = concat (map (\<lambda>c. case c of
      None \<Rightarrow> []
    | Some t \<Rightarrow> if node_kind t = kind then ChildNodes t else [t]) cs)"

definition combineOf :: "FetchTreeNodeKind \<Rightarrow> 'v FetchTreeNode option list \<Rightarrow> 'v FetchTreeNode option" where
  "combineOf kind cs =
     (case splice kind cs of
        [] \<Rightarrow> None
      | [t] \<Rightarrow> Some t
      | out \<Rightarrow> if kind = KindParallel then Some (Parallel (sort_key minReachableFetchID out))
               else Some (Sequence out))"

definition sequenceOf :: "'v FetchTreeNode option list \<Rightarrow> 'v FetchTreeNode option" where
  "sequenceOf cs = combineOf KindSequence cs"

definition parallelOf :: "'v FetchTreeNode option list \<Rightarrow> 'v FetchTreeNode option" where
  "parallelOf cs = combineOf KindParallel cs"

text \<open>The denotations of a tree, extended to the nil tree.\<close>

definition opt_items :: "'v FetchTreeNode option \<Rightarrow> 'v FetchItem list" where
  "opt_items t = (case t of None \<Rightarrow> [] | Some t \<Rightarrow> tree_items t)"

definition opt_ids :: "'v FetchTreeNode option \<Rightarrow> int list" where
  "opt_ids t = map item_id (opt_items t)"

definition opt_precedes :: "'v FetchTreeNode option \<Rightarrow> (int \<times> int) set" where
  "opt_precedes t = (case t of None \<Rightarrow> {} | Some t \<Rightarrow> precedes t)"

definition opt_runnable :: "'v FetchTreeNode option \<Rightarrow> bool" where
  "opt_runnable t = (case t of None \<Rightarrow> True | Some t \<Rightarrow> runnable t)"

lemmas opt_defs = opt_items_def opt_ids_def opt_precedes_def opt_runnable_def

lemma opt_simps [simp, tree_simps]:
  "opt_items None = []" "opt_items (Some t) = tree_items t"
  "opt_ids None = []" "opt_ids (Some t) = tree_ids t"
  "opt_precedes None = {}" "opt_precedes (Some t) = precedes t"
  "opt_runnable None" "opt_runnable (Some t) = runnable t"
  by (simp_all add: opt_defs tree_ids_def)

lemma splice_simps [simp]:
  "splice kind [] = []"
  "splice kind (None # cs) = splice kind cs"
  "splice kind (Some t # cs) = (if node_kind t = kind then ChildNodes t else [t]) @ splice kind cs"
  by (simp_all add: splice_def)

lemma splice_parallel:
  "concat (map tree_items (splice KindParallel cs)) = concat (map opt_items cs)"
  "(\<Union>t \<in> set (splice KindParallel cs). precedes t) = (\<Union>c \<in> set cs. opt_precedes c)"
  "list_all runnable (splice KindParallel cs) = list_all opt_runnable cs"
proof (induction cs)
  case (Cons c cs)
  {
    case 1
    show ?case using Cons by (cases c; cases "the c") auto
  next
    case 2
    show ?case using Cons by (cases c; cases "the c") auto
  next
    case 3
    show ?case using Cons by (cases c; cases "the c") auto
  }
qed simp_all

lemma splice_sequence:
  "concat (map tree_items (splice KindSequence cs)) = concat (map opt_items cs)"
  "precedes (Sequence (splice KindSequence cs)) = (\<Union>c \<in> set cs. opt_precedes c) \<union> seq_pairs (map opt_ids cs)"
  "list_all runnable (splice KindSequence cs) = list_all opt_runnable cs"
proof (induction cs)
  case (Cons c cs)
  have ids: "concat (map tree_ids (splice KindSequence cs)) = concat (map opt_ids cs)"
    using arg_cong [OF Cons(1), of "map item_id"]
    by (simp add: map_concat opt_ids_def [abs_def] tree_ids_def [abs_def] comp_def)
  {
    case 1
    show ?case using Cons by (cases c; cases "the c") auto
  next
    case 2
    show ?case using Cons(2) ids
      by (cases c; cases "the c") (auto simp: seq_pairs_append simp flip: UN_Un)
  next
    case 3
    show ?case using Cons by (cases c; cases "the c") auto
  }
qed simp_all

lemma parallelOf_spec:
  "mset (opt_items (parallelOf cs)) = mset (concat (map opt_items cs))"
  "opt_precedes (parallelOf cs) = (\<Union>c \<in> set cs. opt_precedes c)"
  "opt_runnable (parallelOf cs) = list_all opt_runnable cs"
  unfolding splice_parallel [symmetric]
  by (auto simp: parallelOf_def combineOf_def list_all_iff split: list.splits
      simp del: sort_key_simps)

lemma sequenceOf_spec:
  "opt_items (sequenceOf cs) = concat (map opt_items cs)"
  "opt_precedes (sequenceOf cs) = (\<Union>c \<in> set cs. opt_precedes c) \<union> seq_pairs (map opt_ids cs)"
  "opt_runnable (sequenceOf cs) = list_all opt_runnable cs"
  unfolding splice_sequence [symmetric]
  by (auto simp: sequenceOf_def combineOf_def split: list.splits)


section \<open>Scheduling\<close>

text \<open>
  \<open>scheduleColors\<close>, \<open>exclusiveOf\<close> and \<open>scheduledOf\<close> are the local maps
  \<open>exclusive\<close> and \<open>scheduled\<close> of \<open>schedule\<close>. The order in which Go ranges over the
  colours does not matter: the members of a root are sorted by the recursive call.
\<close>

definition scheduleColors :: "bool \<Rightarrow> int list \<Rightarrow> 'v fetchDAG \<Rightarrow> int list \<Rightarrow> (int \<times> int) list" where
  "scheduleColors inline roots dag inSet = (if inline then colorExclusive roots dag inSet else [])"

definition exclusiveOf :: "(int \<times> int) list \<Rightarrow> int \<Rightarrow> int list" where
  "exclusiveOf colors root = map fst (filter (\<lambda>(i, c). c \<noteq> sharedByRoots \<and> c = root) colors)"

definition scheduledOf :: "int list \<Rightarrow> (int \<times> int) list \<Rightarrow> int list" where
  "scheduledOf roots colors = roots @ map fst (filter (\<lambda>(i, c). c \<noteq> sharedByRoots) colors)"

fun schedule :: "nat \<Rightarrow> int list \<Rightarrow> 'v fetchDAG \<Rightarrow> bool \<Rightarrow> (schedule_error, 'v FetchTreeNode option) result" where
  "schedule 0 ids dag inline = Err OutOfFuel"
| "schedule (Suc fuel) ids dag inline =
     (let sortedSet = sort ids in
      case sortedSet of
        [] \<Rightarrow> Ok None
      | [i] \<Rightarrow> Ok (map_of (nodes dag) i)
      | _ \<Rightarrow>
        (let components = weaklyConnectedComponents sortedSet dag in
         if length components > 1
         then res_bind (res_map (\<lambda>component. schedule fuel component dag inline) components)
                (\<lambda>branches. Ok (parallelOf branches))
         else
           (let roots = filter (\<lambda>i. \<not> hasParentIn dag i sortedSet) sortedSet in
            if roots = [] then Err CycleDetected
            else
              (let colors = scheduleColors inline roots dag sortedSet;
                   rest = filter (\<lambda>i. i \<notin> set (scheduledOf roots colors)) sortedSet
               in res_bind
                    (res_map (\<lambda>root.
                        if exclusiveOf colors root \<noteq> []
                        then res_bind (schedule fuel (exclusiveOf colors root) dag inline)
                               (\<lambda>subtree. Ok (sequenceOf [map_of (nodes dag) root, subtree]))
                        else Ok (map_of (nodes dag) root)) roots)
                    (\<lambda>branches. res_bind (schedule fuel rest dag inline)
                       (\<lambda>restTree. Ok (sequenceOf [parallelOf branches, restTree])))))))"

text \<open>What the scheduler uses of the colours, in both modes.\<close>

definition colouring_ok :: "'v fetchDAG \<Rightarrow> int list \<Rightarrow> int list \<Rightarrow> (int \<times> int) list \<Rightarrow> bool" where
  "colouring_ok dag S roots colors \<longleftrightarrow> distinct (map fst colors) \<and>
     (\<forall>(q, c) \<in> set colors. q \<in> set S \<and> hasParentIn dag q S \<and>
        (c \<noteq> sharedByRoots \<longrightarrow> c \<in> set roots \<and>
           (\<forall>p \<in> set S. p \<in> set (parents_of dag q) \<longrightarrow> p = c \<or> (p, c) \<in> set colors)))"

lemma color_loop_range:
  "map_of (color_loop dag inSet queue color) q = Some c \<Longrightarrow>
   c = sharedByRoots \<or> c \<in> snd ` set queue \<or> (\<exists>x. map_of color x = Some c)"
proof (induction dag inSet queue color rule: color_loop.induct)
  case (2 dag inSet i c' queue color)
  show ?case
  proof (cases "i \<in> set inSet")
    case False
    with 2 show ?thesis by auto
  next
    case i: True
    show ?thesis
    proof (cases "map_of color i")
      case None
      with 2(2) i "2.prems" show ?thesis by (auto simp: update_conv' split: if_splits)
    next
      case (Some current)
      with 2(3,4) i "2.prems" show ?thesis by (auto simp: update_conv' split: if_splits)
    qed
  qed
qed auto

lemma nonroot_coloured:
  assumes wf: "wf_dag dag" and acyc: "acyclic_dag dag"
    and roots: "roots = filter (\<lambda>i. \<not> hasParentIn dag i S) S"
    and p: "p \<in> set S" "p \<notin> set roots"
  shows "\<exists>c. map_of (colorExclusive roots dag S) p = Some c"
proof -
  have sub: "set roots \<subseteq> set S" using roots by auto
  note closed = colorExclusive_closed [OF wf sub]
  have "p \<notin> set roots \<longrightarrow> (\<exists>c. map_of (colorExclusive roots dag S) p = Some c)"
  proof (rule dag.parent_induct [OF acyclic_dag_edges [OF acyc], of "set S"])
    fix y assume y: "y \<in> set S"
      and IH: "\<And>p. p \<in> set S \<Longrightarrow> p \<in> set (parents_of dag y) \<Longrightarrow>
        p \<notin> set roots \<longrightarrow> (\<exists>c. map_of (colorExclusive roots dag S) p = Some c)"
    show "y \<notin> set roots \<longrightarrow> (\<exists>c. map_of (colorExclusive roots dag S) y = Some c)"
    proof
      assume "y \<notin> set roots"
      then obtain q where q: "q \<in> set S" "q \<in> set (parents_of dag y)"
        using y roots by (auto simp: hasParentIn_iff)
      show "\<exists>c. map_of (colorExclusive roots dag S) y = Some c"
        using closed(3) [of q y] closed(2) [of q _ y] IH [OF q] q y by blast
    qed
  qed (use p in auto)
  with p show ?thesis by blast
qed

lemma scheduleColors_ok:
  assumes wf: "wf_dag dag" and acyc: "acyclic_dag dag"
    and roots: "roots = filter (\<lambda>i. \<not> hasParentIn dag i S) S"
  shows "colouring_ok dag S roots (scheduleColors inline roots dag S)"
proof (cases inline)
  case False
  then show ?thesis by (simp add: scheduleColors_def colouring_ok_def)
next
  case True
  have sub: "set roots \<subseteq> set S" using roots by auto
  note closed = colorExclusive_closed [OF wf sub]
  let ?C = "colorExclusive roots dag S"
  have in_map: "(q, c) \<in> set ?C \<longleftrightarrow> map_of ?C q = Some c" for q c
    using closed(4) by (simp add: map_of_eq_Some_iff)
  have range: "c \<in> set roots" if "map_of ?C q = Some c" "c \<noteq> sharedByRoots" for q c
    using color_loop_range [OF that(1) [unfolded colorExclusive_def]] that(2) by auto
  have par: "p = c \<or> (p, c) \<in> set ?C"
    if pq: "map_of ?C q = Some c" "c \<noteq> sharedByRoots" "p \<in> set S" "p \<in> set (parents_of dag q)" for p q c
  proof (cases "p \<in> set roots")
    case True
    have "q \<in> set S" using closed(1) [OF pq(1)] by blast
    with closed(3) [OF True pq(4)] pq(1,2) show ?thesis by auto
  next
    case False
    have q: "q \<in> set S" using closed(1) [OF pq(1)] by blast
    obtain k where k: "map_of ?C p = Some k" using nonroot_coloured [OF wf acyc roots pq(3) False] by blast
    with closed(2) [OF k pq(4) q] pq(1,2) show ?thesis by (auto simp: in_map)
  qed
  have "case qc of (q, c) \<Rightarrow> q \<in> set S \<and> hasParentIn dag q S \<and>
        (c \<noteq> sharedByRoots \<longrightarrow> c \<in> set roots \<and>
           (\<forall>p \<in> set S. p \<in> set (parents_of dag q) \<longrightarrow> p = c \<or> (p, c) \<in> set ?C))"
    if "qc \<in> set ?C" for qc
  proof -
    obtain q c where qc: "qc = (q, c)" by force
    with that have m: "map_of ?C q = Some c" by (simp add: in_map)
    show ?thesis unfolding qc prod.case using closed(1) [OF m] range [OF m] par [OF m] by blast
  qed
  with True closed(4) show ?thesis by (simp add: scheduleColors_def colouring_ok_def)
qed


text \<open>
  What a schedule of the fetches \<open>S\<close> must satisfy: it runs the item of every fetch of
  \<open>S\<close> exactly once and every fetch after its parents in \<open>S\<close>.
\<close>

definition dag_item :: "'v fetchDAG \<Rightarrow> int \<Rightarrow> 'v FetchItem" where
  "dag_item dag i = the (Option.bind (map_of (nodes dag) i) node_item)"

definition single_nodes :: "'v fetchDAG \<Rightarrow> bool" where
  "single_nodes dag = list_all (\<lambda>(i, n). node_kind n = KindSingle) (nodes dag)"

definition sched_ok :: "'v fetchDAG \<Rightarrow> int list \<Rightarrow> 'v FetchTreeNode option \<Rightarrow> bool" where
  "sched_ok dag S t \<longleftrightarrow> mset (opt_items t) = mset (map (dag_item dag) S) \<and> opt_runnable t \<and>
     (\<forall>c \<in> set S. \<forall>p \<in> set S. p \<in> set (parents_of dag c) \<longrightarrow> (p, c) \<in> opt_precedes t)"

lemma dag_node:
  assumes "wf_dag dag" and "single_nodes dag" and "i \<in> set (dag_ids dag)"
  shows "map_of (nodes dag) i = Some (Single (dag_item dag i))" and "item_id (dag_item dag i) = i"
proof -
  from assms(3) obtain n where n: "map_of (nodes dag) i = Some n"
    by (auto simp: dag_ids_def dest: weak_map_of_SomeI)
  from map_of_SomeD [OF n] assms(1,2) obtain it where "n = Single it" "i = item_id it"
    by (cases n) (auto simp: wf_dag_def node_ok_def single_nodes_def list_all_iff)
  with n show "map_of (nodes dag) i = Some (Single (dag_item dag i))" "item_id (dag_item dag i) = i"
    by (simp_all add: dag_item_def)
qed

lemma sched_ok_ids:
  assumes "wf_dag dag" and "single_nodes dag" and "set S \<subseteq> set (dag_ids dag)" and "sched_ok dag S t"
  shows "mset (opt_ids t) = mset S"
proof -
  have "map item_id (map (dag_item dag) S) = S"
    using assms(3) dag_node(2) [OF assms(1,2)] by (auto intro!: map_idI)
  moreover have "image_mset item_id (mset (opt_items t)) = image_mset item_id (mset (map (dag_item dag) S))"
    using assms(4) by (simp add: sched_ok_def)
  ultimately show ?thesis by (metis mset_map opt_ids_def)
qed

lemmas sched_ok_set = sched_ok_ids [THEN mset_eq_setD]

text \<open>Components in parallel.\<close>

lemma sched_ok_parallel:
  assumes "list_all2 (sched_ok dag) Cs ts" and "mset (concat Cs) = mset S"
    and cl: "\<And>C c p. C \<in> set Cs \<Longrightarrow> c \<in> set C \<Longrightarrow> p \<in> set S \<Longrightarrow> p \<in> set (parents_of dag c) \<Longrightarrow> p \<in> set C"
  shows "sched_ok dag S (parallelOf ts)"
proof -
  have "mset (concat (map opt_items ts)) = mset (map (dag_item dag) (concat Cs))"
    using assms(1) by (induction rule: list_all2_induct) (auto simp: sched_ok_def)
  then have "mset (opt_items (parallelOf ts)) = mset (map (dag_item dag) S)"
    using assms(2) by (simp add: parallelOf_spec)
  moreover have "opt_runnable (parallelOf ts)"
    unfolding parallelOf_spec using assms(1)
    by (induction rule: list_all2_induct) (auto simp: sched_ok_def)
  moreover have "(p, c) \<in> opt_precedes (parallelOf ts)"
    if S: "c \<in> set S" "p \<in> set S" "p \<in> set (parents_of dag c)" for p c
  proof -
    have "c \<in> set (concat Cs)" using S(1) assms(2) by (metis set_mset_mset)
    then obtain C where C: "C \<in> set Cs" "c \<in> set C" by auto
    from cl [OF C S(2,3)] have "p \<in> set C" .
    moreover obtain t where "t \<in> set ts" "sched_ok dag C t"
      using assms(1) C(1) by (metis in_set_conv_nth list_all2_conv_all_nth)
    ultimately show ?thesis using C(2) S(3) by (auto simp: parallelOf_spec sched_ok_def)
  qed
  ultimately show ?thesis unfolding sched_ok_def by blast
qed

text \<open>A root with its exclusive fetches.\<close>

lemma sched_ok_branch:
  assumes "wf_dag dag" and "single_nodes dag" and "r \<in> set (dag_ids dag)" and "set M \<subseteq> set (dag_ids dag)"
    and "sched_ok dag M t" and "\<And>m. m \<in> set M \<Longrightarrow> m \<notin> set (parents_of dag r)"
  shows "sched_ok dag (r # M) (sequenceOf [map_of (nodes dag) r, t])"
proof -
  note n = dag_node [OF assms(1-3)]
  have "set (opt_ids t) = set M" using sched_ok_ids [OF assms(1,2,4,5)] mset_eq_setD by blast
  then show ?thesis using assms(5,6) n wf_dagD(4) [OF assms(1), of r r]
    by (auto simp: sched_ok_def sequenceOf_spec)
qed


text \<open>The roots and their exclusive fetches are a part of the set, without repetitions.\<close>

definition first_part :: "int list \<Rightarrow> (int \<times> int) list \<Rightarrow> int list" where
  "first_part roots colors = concat (map (\<lambda>r. r # exclusiveOf colors r) roots)"

lemma exclusiveOf_iff: "q \<in> set (exclusiveOf colors r) \<longleftrightarrow> (q, r) \<in> set colors \<and> r \<noteq> sharedByRoots"
  by (force simp: exclusiveOf_def)

lemma distinct_exclusiveOf: "distinct (map fst colors) \<Longrightarrow> distinct (exclusiveOf colors r)"
  by (simp add: exclusiveOf_def distinct_map_filter)

lemma first_part_spec:
  assumes ok: "colouring_ok dag S roots colors" and roots: "roots = filter (\<lambda>i. \<not> hasParentIn dag i S) S"
    and "distinct S"
  shows "set (first_part roots colors) = set (scheduledOf roots colors)"
    and "set (first_part roots colors) \<subseteq> set S" and "distinct (first_part roots colors)"
proof -
  have col: "distinct (map fst colors)" "\<And>q c. (q, c) \<in> set colors \<Longrightarrow> q \<in> set S \<and> hasParentIn dag q S"
    "\<And>q c. (q, c) \<in> set colors \<Longrightarrow> c \<noteq> sharedByRoots \<Longrightarrow> c \<in> set roots"
    using ok unfolding colouring_ok_def by blast+
  show "set (first_part roots colors) = set (scheduledOf roots colors)"
    using col(3) by (force simp: first_part_def scheduledOf_def exclusiveOf_iff)
  show "set (first_part roots colors) \<subseteq> set S"
    using col(2) roots by (auto simp: first_part_def exclusiveOf_iff)
  have uniq: "c = c'" if "(q, c) \<in> set colors" "(q, c') \<in> set colors" for q c c'
    using col(1) that by (metis map_of_eq_Some_iff option.inject)
  have "distinct (first_part rs colors)" if "set rs \<subseteq> set roots" "distinct rs" for rs
    using that
  proof (induction rs)
    case (Cons r rs)
    have not_ex: "r \<notin> set (exclusiveOf colors x)" if "r \<in> set roots" for r x
      using that col(2) roots by (auto simp: exclusiveOf_iff)
    have "q \<notin> set (first_part rs colors)" if q: "q \<in> set (r # exclusiveOf colors r)" for q
    proof
      assume "q \<in> set (first_part rs colors)"
      then obtain r' where r': "r' \<in> set rs" "q = r' \<or> q \<in> set (exclusiveOf colors r')"
        by (auto simp: first_part_def)
      then have "r' \<in> set roots" "r \<in> set roots" "r \<noteq> r'" using Cons.prems by auto
      with r'(2) q not_ex [of r r'] not_ex [of r' r] show False
        using uniq [of q r r'] by (auto simp: exclusiveOf_iff)
    qed
    moreover have "r \<notin> set (exclusiveOf colors r)" using not_ex Cons.prems(1) by simp
    moreover have "first_part (r # rs) colors = (r # exclusiveOf colors r) @ first_part rs colors"
      by (simp add: first_part_def)
    ultimately show ?case using Cons distinct_exclusiveOf [OF col(1)] by auto
  qed (simp add: first_part_def)
  then show "distinct (first_part roots colors)" using roots \<open>distinct S\<close> by simp
qed

lemma sched_ok_waves:
  assumes wf: "wf_dag dag" "single_nodes dag" and S: "distinct S" "set S \<subseteq> set (dag_ids dag)"
    and ok: "colouring_ok dag S roots colors" and roots: "roots = filter (\<lambda>i. \<not> hasParentIn dag i S) S"
    and branches: "list_all2 (\<lambda>r. sched_ok dag (r # exclusiveOf colors r)) roots ts"
    and rest: "sched_ok dag (filter (\<lambda>i. i \<notin> set (scheduledOf roots colors)) S) tr"
  shows "sched_ok dag S (sequenceOf [parallelOf ts, tr])"
proof -
  let ?H = "first_part roots colors" and ?R = "filter (\<lambda>i. i \<notin> set (scheduledOf roots colors)) S"
  let ?t = "sequenceOf [parallelOf ts, tr]"
  note H = first_part_spec [OF ok roots S(1)]
  have parR: "p = c \<or> (p, c) \<in> set colors"
    if "(q, c) \<in> set colors" "c \<noteq> sharedByRoots" "p \<in> set S" "p \<in> set (parents_of dag q)" for q c p
    using ok that unfolding colouring_ok_def by blast
  have no_par: "p \<notin> set (parents_of dag r)" if "r \<in> set roots" "p \<in> set S" for r p
    using that roots by (auto simp: hasParentIn_iff)
  have closed: "p \<in> set C" if "C \<in> set (map (\<lambda>r. r # exclusiveOf colors r) roots)" "c \<in> set C"
    "p \<in> set ?H" "p \<in> set (parents_of dag c)" for C c p
  proof -
    obtain r where r: "r \<in> set roots" "C = r # exclusiveOf colors r" using \<open>C \<in> _\<close> by auto
    have p: "p \<in> set S" using \<open>p \<in> set ?H\<close> H(2) by blast
    with no_par [OF r(1)] that(2,4) r(2) have "c \<in> set (exclusiveOf colors r)" by auto
    with parR [of c r p] p that(4) r(2) show ?thesis by (auto simp: exclusiveOf_iff)
  qed
  have parH: "sched_ok dag ?H (parallelOf ts)"
  proof (rule sched_ok_parallel)
    show "list_all2 (sched_ok dag) (map (\<lambda>r. r # exclusiveOf colors r) roots) ts"
      using branches by (simp add: list.rel_map)
    show "mset (concat (map (\<lambda>r. r # exclusiveOf colors r) roots)) = mset ?H" by (simp add: first_part_def)
  qed (rule closed)
  have "mset ?H = mset (filter (\<lambda>i. i \<in> set (scheduledOf roots colors)) S)"
    using H S(1) by (subst set_eq_iff_mset_eq_distinct [symmetric]) auto
  then have part: "mset S = mset ?H + mset ?R"
    using mset_filter_partition [of "\<lambda>i. i \<in> set (scheduledOf roots colors)" S] by simp
  have "set ?H \<subseteq> set (dag_ids dag)" "set ?R \<subseteq> set (dag_ids dag)" using H(2) S(2) by auto
  note ids = sched_ok_set [OF wf this(1) parH] sched_ok_set [OF wf this(2) rest]
  have "mset (opt_items ?t) = mset (map (dag_item dag) S)" "opt_runnable ?t"
    using parH rest part unfolding sched_ok_def sequenceOf_spec by (simp_all del: mset_filter)
  moreover have "(p, c) \<in> opt_precedes ?t"
    if e: "c \<in> set S" "p \<in> set S" "p \<in> set (parents_of dag c)" for p c
  proof -
    have "c \<in> set ?H \<Longrightarrow> p \<in> set ?H"
      using no_par [OF _ e(2), of c] parR [OF _ _ e(2,3)] e(3) by (auto simp: first_part_def exclusiveOf_iff)
    then consider "c \<in> set ?H" "p \<in> set ?H" | "c \<in> set ?R" "p \<in> set ?R" | "c \<in> set ?R" "p \<in> set ?H"
      using e H(1) by auto
    then show ?thesis
      using parH rest e(3) ids by cases (auto simp: sequenceOf_spec sched_ok_def)
  qed
  ultimately show ?thesis unfolding sched_ok_def by blast
qed

text \<open>
  In an acyclic graph both modes return, and what they return runs every fetch once and after
  its parents.
\<close>

definition sched_upto :: "'v fetchDAG \<Rightarrow> bool \<Rightarrow> nat \<Rightarrow> bool" where
  "sched_upto dag inline fuel \<longleftrightarrow>
     (\<forall>S. distinct S \<longrightarrow> set S \<subseteq> set (dag_ids dag) \<longrightarrow> length S < fuel \<longrightarrow>
        (\<exists>t. schedule fuel S dag inline = Ok t \<and> sched_ok dag S t))"

lemma schedule_components:
  assumes "wf_dag dag" and IH: "sched_upto dag inline fuel" and S: "distinct S" "set S \<subseteq> set (dag_ids dag)"
    and len: "length S \<le> fuel" "length (weaklyConnectedComponents S dag) > 1"
  shows "\<exists>ts. res_map (\<lambda>C. schedule fuel C dag inline) (weaklyConnectedComponents S dag) = Ok ts \<and>
    sched_ok dag S (parallelOf ts)"
proof -
  let ?Cs = "weaklyConnectedComponents S dag"
  note wcc = weaklyConnectedComponents_spec [OF assms(1) S(1)]
  have "\<exists>t. schedule fuel C dag inline = Ok t \<and> sched_ok dag C t" if C: "C \<in> set ?Cs" for C
  proof -
    have "distinct (concat ?Cs)" "set (concat ?Cs) = set S"
      using mset_eq_imp_distinct_iff [OF wcc(1)] mset_eq_setD [OF wcc(1)] S(1) by simp_all
    then have "distinct C" "set C \<subseteq> set (dag_ids dag)" using C S(2) by (auto simp: distinct_concat_iff)
    moreover have "length C < length S"
      using length_less_of_nonempty_rest [OF wcc(1) C len(2)] wcc(2) by blast
    ultimately show ?thesis using IH len(1) unfolding sched_upto_def by auto
  qed
  then obtain ts where "res_map (\<lambda>C. schedule fuel C dag inline) ?Cs = Ok ts" "list_all2 (sched_ok dag) ?Cs ts"
    using res_map_ex [of ?Cs "\<lambda>C. schedule fuel C dag inline" "sched_ok dag"] by blast
  moreover have "p \<in> set C" if "C \<in> set ?Cs" "c \<in> set C" "p \<in> set S" "p \<in> set (parents_of dag c)" for C c p
    using wcc(3) [OF that(1)] that(2-4) unfolding closed_in_def dag.adj_def by blast
  ultimately show ?thesis using sched_ok_parallel [of dag ?Cs ts S] wcc(1) by blast
qed

lemma length_less_of_missing:
  "distinct M \<Longrightarrow> set M \<subseteq> set S \<Longrightarrow> x \<in> set S \<Longrightarrow> x \<notin> set M \<Longrightarrow> length M < length S"
  by (metis card_length distinct_card finite_set order_less_le_trans psubsetI psubset_card_mono)

lemma schedule_branches:
  assumes wf: "wf_dag dag" "single_nodes dag" and IH: "sched_upto dag inline fuel"
    and S: "distinct S" "set S \<subseteq> set (dag_ids dag)" and len: "length S \<le> fuel"
    and ok: "colouring_ok dag S roots colors" and roots: "roots = filter (\<lambda>i. \<not> hasParentIn dag i S) S"
  shows "\<exists>ts. res_map (\<lambda>root.
           if exclusiveOf colors root \<noteq> []
           then res_bind (schedule fuel (exclusiveOf colors root) dag inline)
                  (\<lambda>subtree. Ok (sequenceOf [map_of (nodes dag) root, subtree]))
           else Ok (map_of (nodes dag) root)) roots = Ok ts \<and>
     list_all2 (\<lambda>r. sched_ok dag (r # exclusiveOf colors r)) roots ts"
proof (rule res_map_ex, rule ballI)
  fix r assume r: "r \<in> set roots"
  let ?M = "exclusiveOf colors r"
  have rS: "r \<in> set S" "r \<in> set (dag_ids dag)" using r roots S(2) by auto
  have M: "m \<in> set S \<and> hasParentIn dag m S" if "m \<in> set ?M" for m
    using ok that by (auto simp: colouring_ok_def exclusiveOf_iff)
  have nM: "m \<notin> set (parents_of dag r)" if "m \<in> set ?M" for m
    using M [OF that] r roots by (auto simp: hasParentIn_iff)
  have "distinct ?M" using ok by (auto simp: colouring_ok_def distinct_exclusiveOf)
  moreover have "r \<notin> set ?M" using M [of r] r roots by auto
  ultimately have "length ?M < length S" using M rS by (intro length_less_of_missing) auto
  with \<open>distinct ?M\<close> M S(2) len IH obtain t
    where t: "schedule fuel ?M dag inline = Ok t" "sched_ok dag ?M t"
    unfolding sched_upto_def by (meson order_less_le_trans subset_iff)
  have br: "sched_ok dag (r # ?M) (sequenceOf [map_of (nodes dag) r, t])"
    using sched_ok_branch [OF wf rS(2) _ t(2)] M nM S(2) by blast
  have "sched_ok dag [r] (map_of (nodes dag) r)"
    using dag_node [OF wf rS(2)] wf_dagD(4) [OF wf(1), of r r] by (auto simp: sched_ok_def)
  with t(1) br show "\<exists>y. (if ?M \<noteq> [] then res_bind (schedule fuel ?M dag inline)
                  (\<lambda>subtree. Ok (sequenceOf [map_of (nodes dag) r, subtree]))
           else Ok (map_of (nodes dag) r)) = Inr y \<and> sched_ok dag (r # ?M) y"
    by (cases "?M = []") auto
qed

lemma schedule_one_component:
  assumes more: "sort S = i # j # is" and "\<not> length (weaklyConnectedComponents (sort S) dag) > 1"
  shows "schedule (Suc fuel) S dag inline =
     (let roots = filter (\<lambda>i. \<not> hasParentIn dag i (sort S)) (sort S) in
      if roots = [] then Err CycleDetected
      else (let colors = scheduleColors inline roots dag (sort S);
                rest = filter (\<lambda>i. i \<notin> set (scheduledOf roots colors)) (sort S)
        in res_bind
             (res_map (\<lambda>root.
                 if exclusiveOf colors root \<noteq> []
                 then res_bind (schedule fuel (exclusiveOf colors root) dag inline)
                        (\<lambda>subtree. Ok (sequenceOf [map_of (nodes dag) root, subtree]))
                 else Ok (map_of (nodes dag) root)) roots)
             (\<lambda>branches. res_bind (schedule fuel rest dag inline)
                (\<lambda>restTree. Ok (sequenceOf [parallelOf branches, restTree])))))"
  using assms(2) unfolding schedule.simps Let_def more list.case by (simp only: if_False)

lemma schedule_step:
  assumes wf: "wf_dag dag" "single_nodes dag" and acyc: "acyclic_dag dag" and IH: "sched_upto dag inline fuel"
    and S: "distinct S" "set S \<subseteq> set (dag_ids dag)" "length S \<le> fuel" and more: "sort S = i # j # is"
  shows "\<exists>t. schedule (Suc fuel) S dag inline = Ok t \<and> sched_ok dag (sort S) t"
proof (cases "length (weaklyConnectedComponents (sort S) dag) > 1")
  case True
  then obtain ts where "res_map (\<lambda>C. schedule fuel C dag inline) (weaklyConnectedComponents (sort S) dag) = Ok ts"
    "sched_ok dag (sort S) (parallelOf ts)"
    using schedule_components [OF wf(1) IH, of "sort S"] S by auto
  with True more show ?thesis by (auto split: list.splits)
next
  case False
  let ?S = "sort S"
  define roots where roots: "roots = filter (\<lambda>i. \<not> hasParentIn dag i ?S) ?S"
  define colors where "colors = scheduleColors inline roots dag ?S"
  let ?R = "filter (\<lambda>i. i \<notin> set (scheduledOf roots colors)) ?S"
  have S': "distinct ?S" "set ?S \<subseteq> set (dag_ids dag)" "length ?S \<le> fuel" using S by auto
  have ok: "colouring_ok dag ?S roots colors"
    using scheduleColors_ok [OF wf(1) acyc roots] by (simp add: colors_def)
  have "set ?S \<noteq> {}" unfolding more by simp
  with dag.root_exists [OF acyclic_dag_edges [OF acyc], of "set ?S"]
  obtain r where r: "r \<in> set roots" unfolding roots by (auto simp: hasParentIn_iff)
  obtain ts where ts: "list_all2 (\<lambda>r. sched_ok dag (r # exclusiveOf colors r)) roots ts"
    and eval: "res_map (\<lambda>root.
           if exclusiveOf colors root \<noteq> []
           then res_bind (schedule fuel (exclusiveOf colors root) dag inline)
                  (\<lambda>subtree. Ok (sequenceOf [map_of (nodes dag) root, subtree]))
           else Ok (map_of (nodes dag) root)) roots = Ok ts"
    using schedule_branches [OF wf IH S' ok roots] by blast
  have "length ?R < length ?S"
    using S'(1) r roots by (intro length_less_of_missing [of _ _ r]) (auto simp: scheduledOf_def)
  then obtain tr where tr: "schedule fuel ?R dag inline = Ok tr" "sched_ok dag ?R tr"
    using IH S' unfolding sched_upto_def by (metis (no_types, lifting) distinct_filter filter_is_subset order_less_le_trans subset_trans)
  have "schedule (Suc fuel) S dag inline = Ok (sequenceOf [parallelOf ts, tr])"
    using r eval tr(1) unfolding schedule_one_component [OF more False] Let_def roots [symmetric] colors_def [symmetric]
    by auto
  with sched_ok_waves [OF wf S'(1,2) ok roots ts tr(2)] show ?thesis by blast
qed

lemma schedule_correct:
  assumes wf: "wf_dag dag" "single_nodes dag" and acyc: "acyclic_dag dag"
  shows "sched_upto dag inline fuel"
proof (induction fuel)
  case 0
  show ?case by (simp add: sched_upto_def)
next
  case (Suc fuel)
  have "\<exists>t. schedule (Suc fuel) S dag inline = Ok t \<and> sched_ok dag S t"
    if S: "distinct S" "set S \<subseteq> set (dag_ids dag)" "length S < Suc fuel" for S
  proof -
    have conv: "sched_ok dag (sort S) t \<Longrightarrow> sched_ok dag S t" for t by (simp add: sched_ok_def)
    consider (nil) "sort S = []" | (one) i where "sort S = [i]" | (more) i j rest where "sort S = i # j # rest"
      by (metis list.exhaust)
    then show ?thesis
    proof cases
      case nil
      then have "sched_ok dag (sort S) None" by (simp add: sched_ok_def)
      with nil conv show ?thesis by simp
    next
      case one
      then have "i \<in> set (dag_ids dag)" using S(2) by (metis list.set_intros(1) set_sort subset_iff)
      then have "sched_ok dag (sort S) (map_of (nodes dag) i)"
        using dag_node [OF wf, of i] wf_dagD(4) [OF wf(1), of i i] by (auto simp: one sched_ok_def)
      with one conv show ?thesis by simp
    next
      case more
      then show ?thesis using schedule_step [OF wf acyc Suc.IH S(1,2) _ more] S(3) conv by auto
    qed
  qed
  then show ?case unfolding sched_upto_def by blast
qed

end
