(* ===== verification/Fetch_Dominance.thy ===== *)
theory Fetch_Dominance
  imports Fetch_Schedule
begin

text \<open>
  \<open>treePredecessors\<close> and \<open>dominates\<close> of \<open>schedule_fetches.go\<close>. The first computes
  for every fetch the fetches that end before it starts; the second compares two trees by these
  sets. The theory shows that the comparison is inclusion of the two orders, that the completion
  time of a tree is the weight of its heaviest chain, and hence that a tree that dominates
  another one is never slower, whatever the fetches take.
\<close>

section \<open>Predecessors\<close>

type_synonym pred_map = "(int \<times> int list) list"

fun tp_walk :: "'v FetchTreeNode \<Rightarrow> int list \<Rightarrow> pred_map \<Rightarrow> int list \<times> pred_map"
  and tp_parallel :: "'v FetchTreeNode list \<Rightarrow> int list \<Rightarrow> pred_map \<Rightarrow> int list \<times> pred_map"
  and tp_sequence :: "'v FetchTreeNode list \<Rightarrow> int list \<Rightarrow> pred_map \<Rightarrow> int list \<times> pred_map" where
  "tp_walk (Single it) before preds = ([item_id it], AList.update (item_id it) before preds)"
| "tp_walk (Parallel ts) before preds = tp_parallel ts before preds"
| "tp_walk (Sequence ts) before preds = tp_sequence ts before preds"
| "tp_walk (Trigger it) before preds = ([], preds)"
| "tp_parallel [] before preds = ([], preds)"
| "tp_parallel (child # ts) before preds =
     (case tp_walk child before preds of (childIDs, preds') \<Rightarrow>
      case tp_parallel ts before preds' of (ids, preds'') \<Rightarrow> (childIDs @ ids, preds''))"
| "tp_sequence [] acc preds = ([], preds)"
| "tp_sequence (child # ts) acc preds =
     (case tp_walk child acc preds of (childIDs, preds') \<Rightarrow>
      case tp_sequence ts (fold List.insert childIDs acc) preds' of (ids, preds'') \<Rightarrow>
        (childIDs @ ids, preds''))"

definition treePredecessors :: "'v FetchTreeNode option \<Rightarrow> pred_map" where
  "treePredecessors root = (case root of None \<Rightarrow> [] | Some t \<Rightarrow> snd (tp_walk t [] []))"

definition dominates :: "'v FetchTreeNode option \<Rightarrow> 'v FetchTreeNode option \<Rightarrow> bool" where
  "dominates treeA treeB =
     (let predA = treePredecessors treeA; predB = treePredecessors treeB in
      if length predA \<noteq> length predB then False
      else list_all (\<lambda>(i, pa). case map_of predB i of
              None \<Rightarrow> False
            | Some pb \<Rightarrow> list_all (\<lambda>waitID. waitID \<in> set pb) pa) predA)"

lemma set_fold_insert [simp]: "set (fold List.insert xs ys) = set xs \<union> set ys"
  by (induction xs arbitrary: ys) auto

lemma precedes_Cons:
  "precedes (Sequence (t # ts)) =
     precedes t \<union> precedes (Sequence ts) \<union> set (tree_ids t) \<times> set (concat (map tree_ids ts))"
  "precedes (Parallel (t # ts)) = precedes t \<union> precedes (Parallel ts)"
  by auto

lemma precedes_Sequence_Cons:
  "precedes (Sequence (t # ts)) =
     precedes t \<union> precedes (Sequence ts) \<union> set (tree_ids t) \<times> set (tree_ids (Sequence ts))"
  unfolding precedes_Cons by simp

text \<open>The entry a walk with \<open>before\<close> must leave for fetch \<open>i\<close> of the order \<open>R\<close>.\<close>

definition pred_entry :: "int list \<Rightarrow> (int \<times> int) set \<Rightarrow> int \<Rightarrow> int list option \<Rightarrow> bool" where
  "pred_entry before R i e \<longleftrightarrow> (\<exists>s. e = Some s \<and> set s = set before \<union> {x. (x, i) \<in> R})"

definition walk_spec :: "int list \<Rightarrow> (int \<times> int) set \<Rightarrow> int list \<Rightarrow> pred_map \<Rightarrow> int list \<times> pred_map \<Rightarrow> bool" where
  "walk_spec before R ids preds r \<longleftrightarrow> fst r = ids \<and>
     (distinct ids \<longrightarrow> (\<forall>i. (i \<in> set ids \<longrightarrow> pred_entry before R i (map_of (snd r) i)) \<and>
        (i \<notin> set ids \<longrightarrow> map_of (snd r) i = map_of preds i))) \<and>
     (distinct (map fst preds) \<longrightarrow> distinct (map fst (snd r)))"

lemma walk_spec_Cons:
  assumes "walk_spec before R1 xs preds (xs', preds')" and "walk_spec before' R2 ys preds' (ys', preds'')"
    and "R1 \<subseteq> set xs \<times> set xs" and "R2 \<subseteq> set ys \<times> set ys"
    and "set before' = set before \<union> (if b then set xs else {})"
    and "R = R1 \<union> R2 \<union> (if b then set xs \<times> set ys else {})"
  shows "walk_spec before R (xs @ ys) preds (xs' @ ys', preds'')"
proof -
  have "(i \<in> set (xs @ ys) \<longrightarrow> pred_entry before R i (map_of preds'' i)) \<and>
        (i \<notin> set (xs @ ys) \<longrightarrow> map_of preds'' i = map_of preds i)"
    if d: "distinct (xs @ ys)" for i
  proof -
    from d assms(1,2) have
      "i \<in> set xs \<Longrightarrow> pred_entry before R1 i (map_of preds' i)" "i \<notin> set xs \<Longrightarrow> map_of preds' i = map_of preds i"
      "i \<in> set ys \<Longrightarrow> pred_entry before' R2 i (map_of preds'' i)" "i \<notin> set ys \<Longrightarrow> map_of preds'' i = map_of preds' i"
      by (simp_all add: walk_spec_def)
    moreover have "pred_entry before R i e = pred_entry before R1 i e" if "i \<in> set xs" "i \<notin> set ys" for e
      using that assms(4,6) by (auto simp: pred_entry_def)
    moreover have "pred_entry before R i e = pred_entry before' R2 i e" if "i \<notin> set xs" "i \<in> set ys" for e
    proof -
      have "{x. (x, i) \<in> R} \<union> set before = {x. (x, i) \<in> R2} \<union> set before'"
        using that assms(3,5,6) by (cases b) auto
      then show ?thesis by (simp add: pred_entry_def Un_commute)
    qed
    ultimately show ?thesis using d by (cases "i \<in> set xs"; cases "i \<in> set ys") auto
  qed
  with assms(1,2) show ?thesis by (simp add: walk_spec_def)
qed

lemma tp_walk_spec:
  fixes t :: "'v FetchTreeNode" and us vs :: "'v FetchTreeNode list"
  shows "walk_spec before (precedes t) (tree_ids t) preds (tp_walk t before preds)"
    "walk_spec before' (precedes (Parallel us)) (concat (map tree_ids us)) preds' (tp_parallel us before' preds')"
    "walk_spec before'' (precedes (Sequence vs)) (concat (map tree_ids vs)) preds'' (tp_sequence vs before'' preds'')"
proof (induction t before preds and us before' preds' and vs before'' preds''
    rule: tp_walk_tp_parallel_tp_sequence.induct)
  case (1 it before preds)
  show ?case by (simp add: walk_spec_def pred_entry_def update_conv' distinct_update)
next
  case (6 child ts before preds)
  obtain c p where c: "tp_walk child before preds = (c, p)" by force
  obtain i q where q: "tp_parallel ts before p = (i, q)" by force
  from "6.IH"(2) [OF c [symmetric]] q
  have "walk_spec before (precedes (Parallel ts)) (concat (map tree_ids ts)) p (i, q)" by simp
  with "6.IH"(1) c q show ?case
    unfolding tp_parallel.simps list.map concat.simps precedes_Cons
    using precedes_subset [of child] precedes_subset [of "Parallel ts"]
    by (simp, intro walk_spec_Cons [where b = False]) auto
next
  case (8 child ts acc preds)
  obtain c p where c: "tp_walk child acc preds = (c, p)" by force
  then have ids: "c = tree_ids child" using "8.IH"(1) by (simp add: walk_spec_def)
  let ?acc = "fold List.insert c acc"
  obtain i q where q: "tp_sequence ts ?acc p = (i, q)" by force
  from "8.IH"(2) [OF c [symmetric]] q
  have "walk_spec ?acc (precedes (Sequence ts)) (concat (map tree_ids ts)) p (i, q)" by simp
  with "8.IH"(1) c q ids show ?case
    unfolding tp_sequence.simps list.map concat.simps precedes_Cons
    using precedes_subset [of child] precedes_subset [of "Sequence ts"]
    by (simp, intro walk_spec_Cons [where b = True and before' = ?acc]) auto
qed (auto simp: walk_spec_def)


lemma treePredecessors_spec:
  assumes "distinct (opt_ids t)"
  shows "i \<in> set (opt_ids t) \<Longrightarrow>
      \<exists>s. map_of (treePredecessors t) i = Some s \<and> set s = {x. (x, i) \<in> opt_precedes t}"
    and "i \<notin> set (opt_ids t) \<Longrightarrow> map_of (treePredecessors t) i = None"
    and "length (treePredecessors t) = length (opt_ids t)" and "distinct (map fst (treePredecessors t))"
    and "fst ` set (treePredecessors t) = set (opt_ids t)"
proof -
  have w: "walk_spec [] (precedes u) (tree_ids u) [] (tp_walk u [] [])" for u :: "'a FetchTreeNode"
    by (rule tp_walk_spec(1))
  show 1: "i \<in> set (opt_ids t) \<Longrightarrow>
      \<exists>s. map_of (treePredecessors t) i = Some s \<and> set s = {x. (x, i) \<in> opt_precedes t}"
    and 2: "i \<notin> set (opt_ids t) \<Longrightarrow> map_of (treePredecessors t) i = None" for i
    using assms w [of "the t"] by (cases t; force simp: treePredecessors_def walk_spec_def pred_entry_def)+
  show 3: "distinct (map fst (treePredecessors t))"
    using w [of "the t"] by (cases t) (simp_all add: treePredecessors_def walk_spec_def)
  show 4: "fst ` set (treePredecessors t) = set (opt_ids t)"
    unfolding dom_map_of_conv_image_fst [symmetric] dom_def using 1 2 by fastforce
  from 3 assms show "length (treePredecessors t) = length (opt_ids t)"
    by (metis 4 distinct_card length_map list.set_map)
qed

lemma dominates_iff:
  assumes A: "distinct (opt_ids A)" and B: "distinct (opt_ids B)"
  shows "dominates A B \<longleftrightarrow> set (opt_ids A) = set (opt_ids B) \<and> opt_precedes A \<subseteq> opt_precedes B"
proof
  note a = treePredecessors_spec [OF A] and b = treePredecessors_spec [OF B]
  have sub: "opt_precedes t \<subseteq> set (opt_ids t) \<times> set (opt_ids t)" for t :: "'a FetchTreeNode option"
    using precedes_subset by (cases t) auto
  {
    assume "dominates A B"
    then have len: "length (treePredecessors A) = length (treePredecessors B)"
      and "list_all (\<lambda>(i, pa). case map_of (treePredecessors B) i of
              None \<Rightarrow> False | Some pb \<Rightarrow> list_all (\<lambda>w. w \<in> set pb) pa) (treePredecessors A)"
      by (simp_all add: dominates_def Let_def split: if_splits)
    then have each: "\<exists>pb. map_of (treePredecessors B) i = Some pb \<and> set pa \<subseteq> set pb"
      if "map_of (treePredecessors A) i = Some pa" for i pa
      using map_of_SomeD [OF that] by (fastforce simp: list_all_iff split: option.splits)
    have "set (opt_ids A) \<subseteq> set (opt_ids B)" using a(1) each b(2) by fastforce
    moreover have "card (set (opt_ids A)) = card (set (opt_ids B))"
      using len a(3) b(3) A B by (simp add: distinct_card)
    ultimately have eq: "set (opt_ids A) = set (opt_ids B)" by (simp add: card_subset_eq)
    have "(x, i) \<in> opt_precedes B" if "(x, i) \<in> opt_precedes A" for x i
    proof -
      have i: "i \<in> set (opt_ids A)" using that sub [of A] by auto
      then have "i \<in> set (opt_ids B)" using eq by simp
      with a(1) [OF i] b(1) [of i] each [of i] that show ?thesis by auto
    qed
    with eq show "set (opt_ids A) = set (opt_ids B) \<and> opt_precedes A \<subseteq> opt_precedes B" by auto
  }
  assume dom: "set (opt_ids A) = set (opt_ids B) \<and> opt_precedes A \<subseteq> opt_precedes B"
  then have "length (opt_ids A) = length (opt_ids B)" using A B by (metis distinct_card)
  moreover have "case map_of (treePredecessors B) i of None \<Rightarrow> False | Some pb \<Rightarrow> list_all (\<lambda>w. w \<in> set pb) pa"
    if m: "(i, pa) \<in> set (treePredecessors A)" for i pa
  proof -
    have i: "i \<in> set (opt_ids A)" using m a(5) by force
    have "map_of (treePredecessors A) i = Some pa" using m a(4) by simp
    then have "set pa = {x. (x, i) \<in> opt_precedes A}" using a(1) [OF i] by auto
    moreover obtain pb where "map_of (treePredecessors B) i = Some pb" "set pb = {x. (x, i) \<in> opt_precedes B}"
      using b(1) [of i] i dom by auto
    ultimately show ?thesis using dom by (auto simp: list_all_iff)
  qed
  ultimately show "dominates A B" using a(3) b(3) by (auto simp: dominates_def Let_def list_all_iff)
qed

section \<open>Chains and completion time\<close>

definition chain :: "(int \<times> int) set \<Rightarrow> int list \<Rightarrow> bool" where
  "chain R xs \<longleftrightarrow> sorted_wrt (\<lambda>x y. (x, y) \<in> R) xs"

lemma chain_mono: "chain R xs \<Longrightarrow> R \<subseteq> R' \<Longrightarrow> chain R' xs"
  unfolding chain_def by (induction xs) auto

lemma chain_filter:
  assumes "chain R xs" and "R \<inter> {x. P x} \<times> {x. P x} \<subseteq> R'"
  shows "chain R' (filter P xs)"
  using assms(1)
proof (induction xs)
  case (Cons x xs)
  then have "(x, y) \<in> R'" if "P x" "y \<in> set (filter P xs)" for y
    using that assms(2) by (auto simp: chain_def)
  with Cons show ?case by (simp add: chain_def)
qed (simp add: chain_def)

lemma fold_max_Cons: "fold max xs (max (x::nat) a) = max x (fold max xs a)"
proof (induction xs arbitrary: a)
  case (Cons y ys)
  have "fold max (y # ys) (max x a) = fold max ys (max x (max y a))" by (simp add: max.left_commute)
  then show ?case using Cons by simp
qed simp

lemma makespan_Cons [tree_simps]:
  "makespan w (Sequence (t # ts)) = makespan w t + makespan w (Sequence ts)"
  "makespan w (Parallel (t # ts)) = max (makespan w t) (makespan w (Parallel ts))"
  using fold_max_Cons [of "map (makespan w) ts" "makespan w t" 0] by simp_all

text \<open>Some chain of the tree weighs as much as the tree takes.\<close>

lemma makespan_chain:
  "\<exists>xs. set xs \<subseteq> set (tree_ids t) \<and> chain (precedes t) xs \<and> sum_list (map w xs) = makespan w t"
proof (induction t)
  case (Single it)
  show ?case by (intro exI [of _ "[item_id it]"]) (simp add: chain_def)
next
  case (Trigger it)
  show ?case by (intro exI [of _ "[]"]) (simp add: chain_def)
next
  case (Sequence ts)
  then show ?case
  proof (induction ts)
    case Nil
    show ?case by (intro exI [of _ "[]"]) (simp add: chain_def)
  next
    case (Cons t ts)
    obtain xs where xs: "set xs \<subseteq> set (tree_ids t)" "chain (precedes t) xs" "sum_list (map w xs) = makespan w t"
      using Cons.prems [of t] by auto
    obtain ys where ys: "set ys \<subseteq> set (tree_ids (Sequence ts))" "chain (precedes (Sequence ts)) ys"
      "sum_list (map w ys) = makespan w (Sequence ts)"
      using Cons.IH Cons.prems by (meson list.set_intros(2))
    have "chain (precedes (Sequence (t # ts))) (xs @ ys)"
      using xs ys chain_mono [OF xs(2), of "precedes (Sequence (t # ts))"]
        chain_mono [OF ys(2), of "precedes (Sequence (t # ts))"]
      unfolding precedes_Cons by (auto simp: chain_def sorted_wrt_append)
    then show ?case using xs ys unfolding makespan_Cons by (intro exI [of _ "xs @ ys"]) auto
  qed
next
  case (Parallel ts)
  then show ?case
  proof (induction ts)
    case Nil
    show ?case by (intro exI [of _ "[]"]) (simp add: chain_def)
  next
    case (Cons t ts)
    obtain xs where xs: "set xs \<subseteq> set (tree_ids t)" "chain (precedes t) xs" "sum_list (map w xs) = makespan w t"
      using Cons.prems [of t] by auto
    obtain ys where ys: "set ys \<subseteq> set (tree_ids (Parallel ts))" "chain (precedes (Parallel ts)) ys"
      "sum_list (map w ys) = makespan w (Parallel ts)"
      using Cons.IH Cons.prems by (meson list.set_intros(2))
    show ?case
    proof (cases "makespan w t \<ge> makespan w (Parallel ts)")
      case True
      with xs chain_mono [OF xs(2), of "precedes (Parallel (t # ts))"] show ?thesis
        unfolding makespan_Cons precedes_Cons by (intro exI [of _ xs]) auto
    next
      case False
      with ys chain_mono [OF ys(2), of "precedes (Parallel (t # ts))"] show ?thesis
        unfolding makespan_Cons precedes_Cons by (intro exI [of _ ys]) auto
    qed
  qed
qed


text \<open>No chain of the tree weighs more, when no fetch occurs twice.\<close>

lemma chain_in_part:
  assumes "chain (R1 \<union> R2) (x # xs)" and "R1 \<subseteq> A \<times> A" and "R2 \<subseteq> B \<times> B" and "A \<inter> B = {}" and "x \<in> A"
  shows "chain R1 (x # xs) \<and> (xs \<noteq> [] \<longrightarrow> set xs \<subseteq> A)"
proof -
  have "y \<in> A" if "y \<in> set xs" for y using assms that by (auto simp: chain_def)
  then have "filter (\<lambda>y. y \<in> A) (x # xs) = x # xs" using assms(5) by (simp add: filter_id_conv)
  moreover have "chain R1 (filter (\<lambda>y. y \<in> A) (x # xs))"
    using assms(1) by (rule chain_filter) (use assms(3,4) in auto)
  ultimately show ?thesis using \<open>\<And>y. y \<in> set xs \<Longrightarrow> y \<in> A\<close> by auto
qed

lemma chain_Parallel_Cons:
  assumes "chain (precedes (Parallel (t # ts))) xs" and "set xs \<subseteq> set (tree_ids (Parallel (t # ts)))"
    and "distinct (tree_ids (Parallel (t # ts)))"
  shows "(chain (precedes t) xs \<and> set xs \<subseteq> set (tree_ids t)) \<or>
         (chain (precedes (Parallel ts)) xs \<and> set xs \<subseteq> set (tree_ids (Parallel ts)))"
proof (cases xs)
  case Nil
  then show ?thesis by (simp add: chain_def)
next
  case (Cons x xs')
  have c: "chain (precedes t \<union> precedes (Parallel ts)) (x # xs')"
    "chain (precedes (Parallel ts) \<union> precedes t) (x # xs')"
    using assms(1) unfolding Cons precedes_Cons by (simp_all only: Un_commute)
  have d: "set (tree_ids t) \<inter> set (tree_ids (Parallel ts)) = {}"
    "set (tree_ids (Parallel ts)) \<inter> set (tree_ids t) = {}" using assms(3) by auto
  consider "x \<in> set (tree_ids t)" | "x \<in> set (tree_ids (Parallel ts))" using assms(2) Cons by auto
  then show ?thesis
  proof cases
    case 1
    from chain_in_part [OF c(1) precedes_subset precedes_subset d(1) 1] 1 Cons show ?thesis
      by (cases "xs' = []") auto
  next
    case 2
    from chain_in_part [OF c(2) precedes_subset precedes_subset d(2) 2] 2 Cons show ?thesis
      by (cases "xs' = []") auto
  qed
qed

lemma chain_Sequence_Cons:
  assumes "chain (precedes (Sequence (t # ts))) xs" and "distinct (tree_ids (Sequence (t # ts)))"
  shows "chain (precedes t) (filter (\<lambda>x. x \<in> set (tree_ids t)) xs)"
    and "chain (precedes (Sequence ts)) (filter (\<lambda>x. x \<in> set (tree_ids (Sequence ts))) xs)"
proof -
  have d: "set (tree_ids t) \<inter> set (tree_ids (Sequence ts)) = {}" using assms(2) by auto
  show "chain (precedes t) (filter (\<lambda>x. x \<in> set (tree_ids t)) xs)"
    using assms(1) by (rule chain_filter) (unfold precedes_Sequence_Cons, use d precedes_subset [of "Sequence ts"] in blast)
  show "chain (precedes (Sequence ts)) (filter (\<lambda>x. x \<in> set (tree_ids (Sequence ts))) xs)"
    using assms(1) by (rule chain_filter) (unfold precedes_Sequence_Cons, use d precedes_subset [of t] in blast)
qed

lemma sum_list_filter_split:
  fixes w :: "int \<Rightarrow> nat"
  assumes "set xs \<subseteq> A \<union> B" and "A \<inter> B = {}"
  shows "sum_list (map w xs) = sum_list (map w (filter (\<lambda>x. x \<in> A) xs)) + sum_list (map w (filter (\<lambda>x. x \<in> B) xs))"
  using assms by (induction xs) auto

lemma chain_le_makespan:
  "distinct (tree_ids t) \<Longrightarrow> set xs \<subseteq> set (tree_ids t) \<Longrightarrow> chain (precedes t) xs \<Longrightarrow>
   sum_list (map w xs) \<le> makespan w t"
proof (induction t arbitrary: xs)
  case (Single it)
  then have "xs = [] \<or> xs = [item_id it]"
    by (cases xs; cases "tl xs") (auto simp: chain_def)
  then show ?case by auto
next
  case (Trigger it)
  then show ?case by simp
next
  case (Sequence ts)
  then show ?case
  proof (induction ts arbitrary: xs)
    case Nil
    then show ?case by simp
  next
    case (Cons t ts)
    let ?A = "set (tree_ids t)" and ?B = "set (tree_ids (Sequence ts))"
    have "?A \<inter> ?B = {}" "set xs \<subseteq> ?A \<union> ?B" using Cons.prems(2,3) by auto
    note split = sum_list_filter_split [OF this(2,1), of w]
    note ch = chain_Sequence_Cons [OF Cons.prems(4,2)]
    have "sum_list (map w (filter (\<lambda>x. x \<in> ?A) xs)) \<le> makespan w t"
      using Cons.prems(2) ch(1) by (intro Cons.prems(1)) auto
    moreover have "sum_list (map w (filter (\<lambda>x. x \<in> ?B) xs)) \<le> makespan w (Sequence ts)"
      using Cons.prems(2) ch(2) by (intro Cons.IH Cons.prems(1)) auto
    ultimately show ?case unfolding split makespan_Cons by simp
  qed
next
  case (Parallel ts)
  then show ?case
  proof (induction ts arbitrary: xs)
    case Nil
    then show ?case by simp
  next
    case (Cons t ts)
    from chain_Parallel_Cons [OF Cons.prems(4,3,2)] show ?case
    proof
      assume "chain (precedes t) xs \<and> set xs \<subseteq> set (tree_ids t)"
      with Cons.prems(1) [of t xs] Cons.prems(2) show ?thesis unfolding makespan_Cons by auto
    next
      assume c: "chain (precedes (Parallel ts)) xs \<and> set xs \<subseteq> set (tree_ids (Parallel ts))"
      have "sum_list (map w xs) \<le> makespan w (Parallel ts)"
        using Cons.prems(2) c by (intro Cons.IH Cons.prems(1)) auto
      then show ?thesis unfolding makespan_Cons by simp
    qed
  qed
qed

lemma precedes_mono_makespan:
  assumes "distinct (tree_ids B)" and "set (tree_ids A) \<subseteq> set (tree_ids B)" and "precedes A \<subseteq> precedes B"
  shows "makespan w A \<le> makespan w B"
proof -
  obtain xs where "set xs \<subseteq> set (tree_ids A)" "chain (precedes A) xs" "sum_list (map w xs) = makespan w A"
    using makespan_chain by blast
  then show ?thesis
    using chain_le_makespan [OF assms(1), of xs w] assms(2,3) chain_mono by fastforce
qed


text \<open>
  The converse: where the tree orders a pair that the other one leaves unordered, some durations
  make it slower.
\<close>

lemma precedes_irrefl: "distinct (tree_ids t) \<Longrightarrow> (x, x) \<notin> precedes t"
proof (induction t)
  case (Sequence ts)
  have "(x, x) \<notin> seq_pairs yss" if "distinct (concat yss)" for yss
    using that by (induction yss) auto
  with Sequence show ?case by (auto simp: distinct_concat_iff)
qed (auto simp: distinct_concat_iff)

definition pair_weight :: "int \<Rightarrow> int \<Rightarrow> int \<Rightarrow> nat" where
  "pair_weight x y i = (if i = x \<or> i = y then 1 else 0)"

lemma sum_pair_weight: "sum_list (map (pair_weight x y) xs) = length (filter (\<lambda>i. i \<in> {x, y}) xs)"
  by (induction xs) (auto simp: pair_weight_def)

lemma unordered_pair_slower:
  assumes A: "distinct (tree_ids A)" and B: "distinct (tree_ids B)"
    and "(x, y) \<in> precedes A" and "(x, y) \<notin> precedes B" and "(y, x) \<notin> precedes B"
  shows "makespan (pair_weight x y) B < makespan (pair_weight x y) A"
proof -
  have "set [x, y] \<subseteq> set (tree_ids A)" "chain (precedes A) [x, y]"
    using assms(3) precedesD [OF assms(3)] by (auto simp: chain_def)
  from chain_le_makespan [OF A this, of "pair_weight x y"] have a: "2 \<le> makespan (pair_weight x y) A"
    by (simp add: pair_weight_def)
  obtain xs where xs: "chain (precedes B) xs" "sum_list (map (pair_weight x y) xs) = makespan (pair_weight x y) B"
    using makespan_chain [of B "pair_weight x y"] by blast
  let ?ys = "filter (\<lambda>i. i \<in> {x, y}) xs"
  have "chain (precedes B) ?ys" using xs(1) by (rule chain_filter) auto
  moreover have "set ?ys \<subseteq> {x, y}" by auto
  moreover have "length zs \<le> 1" if "chain (precedes B) zs" "set zs \<subseteq> {x, y}" for zs
    using that assms(4,5) precedes_irrefl [OF B] by (cases zs; cases "tl zs") (auto simp: chain_def)
  ultimately have "length ?ys \<le> 1" by blast
  with xs(2) a show ?thesis by (simp add: sum_pair_weight)
qed

end
