(* ===== verification/Fetch_Validate.thy ===== *)
theory Fetch_Validate
  imports Fetch_Dominance
begin

text \<open>
  \<open>validateSchedule\<close>, \<open>buildScheduleTree\<close> and the processor's entry point
  \<open>ProcessFetchTree\<close> of \<open>schedule_fetches.go\<close>. The validator accepts exactly the trees
  that run every fetch of the graph once and after its declared dependencies; the builder's trees
  pass it when the dependencies are acyclic, so the fallback is taken only on malformed input.
\<close>

section \<open>The validator\<close>

type_synonym seen_map = "(int \<times> nat) list"

definition seen_at :: "seen_map \<Rightarrow> int \<Rightarrow> nat" where
  "seen_at seen i = (case map_of seen i of None \<Rightarrow> 0 | Some n \<Rightarrow> n)"

fun val_walk :: "'v fetchDAG \<Rightarrow> 'v FetchTreeNode \<Rightarrow> int list \<Rightarrow> seen_map \<Rightarrow>
    (schedule_error, int list \<times> seen_map) result"
  and val_parallel :: "'v fetchDAG \<Rightarrow> 'v FetchTreeNode list \<Rightarrow> int list \<Rightarrow> seen_map \<Rightarrow>
    (schedule_error, int list \<times> seen_map) result"
  and val_sequence :: "'v fetchDAG \<Rightarrow> 'v FetchTreeNode list \<Rightarrow> int list \<Rightarrow> seen_map \<Rightarrow>
    (schedule_error, int list \<times> seen_map) result" where
  "val_walk dag (Single it) before seen =
     (let i = item_id it in
      if map_of (nodes dag) i = None then Err (NotInDag i)
      else (case find (\<lambda>dep. map_of (nodes dag) dep \<noteq> None \<and> dep \<notin> set before) (item_deps it) of
              Some dep \<Rightarrow> Err (BeforeDependency i dep)
            | None \<Rightarrow> Ok ([i], AList.update i (seen_at seen i + 1) seen)))"
| "val_walk dag (Parallel ts) before seen = val_parallel dag ts before seen"
| "val_walk dag (Sequence ts) before seen = val_sequence dag ts before seen"
| "val_walk dag (Trigger it) before seen = Err UnexpectedKind"
| "val_parallel dag [] before seen = Ok ([], seen)"
| "val_parallel dag (child # ts) before seen =
     (case val_walk dag child before seen of
        Inl e \<Rightarrow> Err e
      | Inr (childIDs, seen') \<Rightarrow>
          (case val_parallel dag ts before seen' of
             Inl e \<Rightarrow> Err e
           | Inr (ids, seen'') \<Rightarrow> Ok (childIDs @ ids, seen'')))"
| "val_sequence dag [] available seen = Ok ([], seen)"
| "val_sequence dag (child # ts) available seen =
     (case val_walk dag child available seen of
        Inl e \<Rightarrow> Err e
      | Inr (childIDs, seen') \<Rightarrow>
          (case val_sequence dag ts (fold List.insert childIDs available) seen' of
             Inl e \<Rightarrow> Err e
           | Inr (ids, seen'') \<Rightarrow> Ok (childIDs @ ids, seen'')))"

definition validateSchedule :: "'v FetchTreeNode option \<Rightarrow> 'v fetchDAG \<Rightarrow> (schedule_error, unit) result" where
  "validateSchedule root dag =
     res_bind (case root of None \<Rightarrow> Ok ([], []) | Some t \<Rightarrow> val_walk dag t [] [])
       (\<lambda>(ids, seen).
          case find (\<lambda>(i, n). n > 1) seen of
            Some (i, n) \<Rightarrow> Err (ScheduledTimes i n)
          | None \<Rightarrow> (case find (\<lambda>(i, n). seen_at seen i = 0) (nodes dag) of
                       Some (i, n) \<Rightarrow> Err (MissingFromSchedule i)
                     | None \<Rightarrow> Ok ()))"

text \<open>
  \<open>deps_ok dag B t\<close>: in the tree \<open>t\<close>, run when the fetches \<open>B\<close> have ended, every
  dependency that the graph knows has ended before the fetch that declares it starts.
\<close>

definition deps_ok :: "'v fetchDAG \<Rightarrow> int set \<Rightarrow> 'v FetchTreeNode \<Rightarrow> bool" where
  "deps_ok dag B t \<longleftrightarrow> (\<forall>it \<in> set (tree_items t). \<forall>dep \<in> set (item_deps it).
     dep \<in> set (dag_ids dag) \<longrightarrow> dep \<in> B \<or> (dep, item_id it) \<in> precedes t)"

lemma item_id_in: "it \<in> set (tree_items t) \<Longrightarrow> item_id it \<in> set (tree_ids t)"
  by (simp add: tree_ids_def)

lemma tree_items_Cons:
  "set (tree_items (Sequence (t # ts))) = set (tree_items t) \<union> set (tree_items (Sequence ts))"
  "set (tree_items (Parallel (t # ts))) = set (tree_items t) \<union> set (tree_items (Parallel ts))"
  by simp_all

lemma deps_ok_Sequence_Cons:
  "deps_ok dag B t \<Longrightarrow> deps_ok dag (B \<union> set (tree_ids t)) (Sequence ts) \<Longrightarrow> deps_ok dag B (Sequence (t # ts))"
  unfolding deps_ok_def precedes_Sequence_Cons tree_items_Cons using item_id_in [of _ "Sequence ts"] by blast

lemma deps_ok_Parallel_Cons:
  "deps_ok dag B t \<Longrightarrow> deps_ok dag B (Parallel ts) \<Longrightarrow> deps_ok dag B (Parallel (t # ts))"
  unfolding deps_ok_def by auto

lemma deps_ok_Sequence_ConsD:
  assumes "distinct (tree_ids (Sequence (t # ts)))" and ok: "deps_ok dag B (Sequence (t # ts))"
  shows "deps_ok dag B t" and "deps_ok dag (B \<union> set (tree_ids t)) (Sequence ts)"
proof -
  have disj: "set (tree_ids t) \<inter> set (tree_ids (Sequence ts)) = {}" using assms(1) by auto
  from ok show "deps_ok dag B t" unfolding deps_ok_def precedes_Sequence_Cons tree_items_Cons
    using disj precedes_subset [of "Sequence ts"] item_id_in [of _ t] by blast
  from ok show "deps_ok dag (B \<union> set (tree_ids t)) (Sequence ts)" unfolding deps_ok_def precedes_Sequence_Cons tree_items_Cons
    using disj precedes_subset [of t] item_id_in [of _ "Sequence ts"] by blast
qed

lemma deps_ok_Parallel_ConsD:
  assumes "distinct (tree_ids (Parallel (t # ts)))" and ok: "deps_ok dag B (Parallel (t # ts))"
  shows "deps_ok dag B t" and "deps_ok dag B (Parallel ts)"
proof -
  have disj: "set (tree_ids t) \<inter> set (tree_ids (Parallel ts)) = {}" using assms(1) by auto
  from ok show "deps_ok dag B t" unfolding deps_ok_def precedes_Cons tree_items_Cons
    using disj precedes_subset [of "Parallel ts"] item_id_in [of _ t] by blast
  from ok show "deps_ok dag B (Parallel ts)" unfolding deps_ok_def precedes_Cons tree_items_Cons
    using disj precedes_subset [of t] item_id_in [of _ "Parallel ts"] by blast
qed

definition val_ok :: "'v fetchDAG \<Rightarrow> int set \<Rightarrow> 'v FetchTreeNode \<Rightarrow> bool" where
  "val_ok dag B t \<longleftrightarrow> runnable t \<and> set (tree_ids t) \<subseteq> set (dag_ids dag) \<and> deps_ok dag B t"

text \<open>What an accepting walk leaves: the identifiers in order and the counts.\<close>

definition seen_spec :: "int list \<Rightarrow> seen_map \<Rightarrow> int list \<times> seen_map \<Rightarrow> bool" where
  "seen_spec ids seen r \<longleftrightarrow> fst r = ids \<and> (\<forall>i. seen_at (snd r) i = seen_at seen i + count_list ids i) \<and>
     (distinct (map fst seen) \<longrightarrow> distinct (map fst (snd r)))"

lemma seen_spec_append:
  "seen_spec xs seen (xs', seen') \<Longrightarrow> seen_spec ys seen' (ys', seen'') \<Longrightarrow> seen_spec (xs @ ys) seen (xs' @ ys', seen'')"
  by (auto simp: seen_spec_def)

lemma in_dag_ids: "map_of (nodes dag) i = None \<longleftrightarrow> i \<notin> set (dag_ids dag)"
  by (simp add: dag_ids_def map_of_eq_None_iff)

text \<open>Soundness of the walk: what it accepts is in order.\<close>

lemma val_walk_sound:
  fixes t :: "'v FetchTreeNode" and us vs :: "'v FetchTreeNode list"
  shows "val_walk dag t before seen = Ok r \<Longrightarrow> val_ok dag (set before) t \<and> seen_spec (tree_ids t) seen r"
    "val_parallel dag' us before' seen' = Ok r' \<Longrightarrow>
       val_ok dag' (set before') (Parallel us) \<and> seen_spec (tree_ids (Parallel us)) seen' r'"
    "val_sequence dag'' vs before'' seen'' = Ok r'' \<Longrightarrow>
       val_ok dag'' (set before'') (Sequence vs) \<and> seen_spec (tree_ids (Sequence vs)) seen'' r''"
proof (induction dag t before seen and dag' us before' seen' and dag'' vs before'' seen''
    arbitrary: r and r' and r'' rule: val_walk_val_parallel_val_sequence.induct)
  case (1 dag it before seen)
  then have "item_id it \<in> set (dag_ids dag)"
    "\<forall>dep \<in> set (item_deps it). dep \<in> set (dag_ids dag) \<longrightarrow> dep \<in> set before"
    "r = ([item_id it], AList.update (item_id it) (seen_at seen (item_id it) + 1) seen)"
    by (auto simp: Let_def in_dag_ids find_None_iff split: if_splits option.splits)
  then show ?case
    by (auto simp: val_ok_def deps_ok_def seen_spec_def seen_at_def update_conv' distinct_update)
next
  case (6 dag child ts before seen)
  then obtain c s i q where c: "val_walk dag child before seen = Ok (c, s)"
    and q: "val_parallel dag ts before s = Ok (i, q)" "r' = (c @ i, q)"
    by (auto split: sum.splits)
  from "6.IH"(1) [OF c] "6.IH"(2) [OF c refl q(1)] q(2)
  show ?case by (auto simp: val_ok_def intro: deps_ok_Parallel_Cons seen_spec_append)
next
  case (8 dag child ts acc seen)
  then obtain c s i q where c: "val_walk dag child acc seen = Ok (c, s)"
    and q: "val_sequence dag ts (fold List.insert c acc) s = Ok (i, q)" "r'' = (c @ i, q)"
    by (auto split: sum.splits)
  from "8.IH"(1) [OF c] have "c = tree_ids child" by (simp add: seen_spec_def)
  with "8.IH"(1) [OF c] "8.IH"(2) [OF c refl q(1)] q(2)
  show ?case by (auto simp: val_ok_def Un_commute intro: deps_ok_Sequence_Cons seen_spec_append)
qed (auto simp: val_ok_def deps_ok_def seen_spec_def)


text \<open>Completeness of the walk, for trees without repetitions.\<close>

lemma val_walk_complete:
  fixes t :: "'v FetchTreeNode" and us vs :: "'v FetchTreeNode list"
  shows "distinct (tree_ids t) \<Longrightarrow> val_ok dag (set before) t \<Longrightarrow> \<exists>r. val_walk dag t before seen = Ok r"
    "distinct (tree_ids (Parallel us)) \<Longrightarrow> val_ok dag' (set before') (Parallel us) \<Longrightarrow>
       \<exists>r. val_parallel dag' us before' seen' = Ok r"
    "distinct (tree_ids (Sequence vs)) \<Longrightarrow> val_ok dag'' (set before'') (Sequence vs) \<Longrightarrow>
       \<exists>r. val_sequence dag'' vs before'' seen'' = Ok r"
proof (induction dag t before seen and dag' us before' seen' and dag'' vs before'' seen''
    rule: val_walk_val_parallel_val_sequence.induct)
  case (1 dag it before seen)
  then show ?case
    by (auto simp: Let_def in_dag_ids val_ok_def deps_ok_def find_Some_iff split: option.splits)
next
  case (6 dag child ts before seen)
  have v: "val_ok dag (set before) child" "val_ok dag (set before) (Parallel ts)"
    using "6.prems"(2) deps_ok_Parallel_ConsD [OF "6.prems"(1)] by (auto simp: val_ok_def)
  have d: "distinct (tree_ids child)" "distinct (tree_ids (Parallel ts))" using "6.prems"(1) by auto
  obtain c s where c: "val_walk dag child before seen = Ok (c, s)" using "6.IH"(1) [OF d(1) v(1)] by auto
  obtain i q where "val_parallel dag ts before s = Ok (i, q)" using "6.IH"(2) [OF c refl d(2) v(2)] by auto
  with c show ?case by simp
next
  case (8 dag child ts acc seen)
  have v: "val_ok dag (set acc) child" "val_ok dag (set acc \<union> set (tree_ids child)) (Sequence ts)"
    using "8.prems"(2) deps_ok_Sequence_ConsD [OF "8.prems"(1)] by (auto simp: val_ok_def)
  have d: "distinct (tree_ids child)" "distinct (tree_ids (Sequence ts))" using "8.prems"(1) by auto
  obtain c s where c: "val_walk dag child acc seen = Ok (c, s)" using "8.IH"(1) [OF d(1) v(1)] by auto
  then have "c = tree_ids child" using val_walk_sound(1) [OF c] by (simp add: seen_spec_def)
  then have "val_ok dag (set (fold List.insert c acc)) (Sequence ts)" using v(2) by (simp add: Un_commute)
  from "8.IH"(2) [OF c refl d(2) this] obtain i q
    where "val_sequence dag ts (fold List.insert c acc) s = Ok (i, q)" by auto
  with c show ?case by simp
qed (auto simp: val_ok_def)

definition opt_deps_ok :: "'v fetchDAG \<Rightarrow> 'v FetchTreeNode option \<Rightarrow> bool" where
  "opt_deps_ok dag t = (case t of None \<Rightarrow> True | Some t \<Rightarrow> deps_ok dag {} t)"

lemma count_list_distinct: "(\<forall>i. count_list xs i \<le> Suc 0) \<longleftrightarrow> distinct xs"
proof
  assume le: "\<forall>i. count_list xs i \<le> Suc 0"
  have "count (mset xs) i = (if i \<in> set xs then 1 else 0)" for i
    using le [rule_format, of i] count_list_0_iff [of xs i] by (auto simp: count_mset)
  then show "distinct xs" by (simp add: distinct_count_atmost_1)
qed (auto simp: distinct_count_atmost_1 count_mset split: if_splits)

lemma seen_check:
  assumes "seen_spec ids [] (ids, seen)"
  shows "find (\<lambda>(i, n). n > 1) seen = None \<longleftrightarrow> distinct ids"
    and "find (\<lambda>(i, n). seen_at seen i = 0) (nodes dag) = None \<longleftrightarrow> set (dag_ids dag) \<subseteq> set ids"
proof -
  have at: "seen_at seen i = count_list ids i" for i using assms by (simp add: seen_spec_def seen_at_def)
  have d: "distinct (map fst seen)" using assms by (simp add: seen_spec_def)
  have "find (\<lambda>(i, n). n > 1) seen = None \<longleftrightarrow> (\<forall>i. seen_at seen i \<le> 1)"
    using d by (auto simp: find_None_iff seen_at_def not_less split: option.splits)
  then show "find (\<lambda>(i, n). n > 1) seen = None \<longleftrightarrow> distinct ids" by (simp add: at count_list_distinct)
  show "find (\<lambda>(i, n). seen_at seen i = 0) (nodes dag) = None \<longleftrightarrow> set (dag_ids dag) \<subseteq> set ids"
    by (force simp: find_None_iff at count_list_0_iff dag_ids_def)
qed

lemma validate_tail:
  assumes "seen_spec ids [] (ids, seen)"
  shows "(case find (\<lambda>(i, n). n > 1) seen of
            Some (i, n) \<Rightarrow> Err (ScheduledTimes i n)
          | None \<Rightarrow> (case find (\<lambda>(i, n). seen_at seen i = 0) (nodes dag) of
                       Some (i, n) \<Rightarrow> Err (MissingFromSchedule i)
                     | None \<Rightarrow> Ok ())) = Ok () \<longleftrightarrow> distinct ids \<and> set (dag_ids dag) \<subseteq> set ids"
  unfolding seen_check [OF assms, symmetric] by (auto split: option.splits)

theorem validateSchedule_iff:
  assumes "wf_dag dag"
  shows "validateSchedule t dag = Ok () \<longleftrightarrow>
    opt_runnable t \<and> mset (opt_ids t) = mset (dag_ids dag) \<and> opt_deps_ok dag t"
proof (cases t)
  case None
  then show ?thesis using validate_tail [of "[]" "[]" dag] by (simp add: validateSchedule_def seen_spec_def opt_deps_ok_def)
next
  case (Some u)
  have dist: "mset (tree_ids u) = mset (dag_ids dag) \<longleftrightarrow> distinct (tree_ids u) \<and> set (tree_ids u) = set (dag_ids dag)"
    using wf_dagD(1) [OF assms] by (metis mset_eq_imp_distinct_iff mset_eq_setD set_eq_iff_mset_eq_distinct)
  show ?thesis
  proof (cases "val_walk dag u [] []")
    case (Inl e)
    then have "\<not> (distinct (tree_ids u) \<and> val_ok dag {} u)" using val_walk_complete(1) [of u dag "[]" "[]"] by auto
    with Inl Some dist show ?thesis by (auto simp: validateSchedule_def opt_deps_ok_def val_ok_def)
  next
    case (Inr r)
    from val_walk_sound(1) [OF Inr] have "val_ok dag {} u" "seen_spec (tree_ids u) [] r" by simp_all
    then obtain seen where r: "r = (tree_ids u, seen)" "seen_spec (tree_ids u) [] (tree_ids u, seen)"
      by (cases r) (simp add: seen_spec_def)
    from Inr Some r(1) validate_tail [OF r(2), of dag] \<open>val_ok dag {} u\<close> dist show ?thesis
      by (auto simp: validateSchedule_def opt_deps_ok_def val_ok_def)
  qed
qed


section \<open>Building the tree\<close>

text \<open>The loop body of \<open>buildScheduleTree\<close>: both strategies for one component and the winner.\<close>

definition pickWinner :: "'v fetchDAG \<Rightarrow> int list \<Rightarrow> (schedule_error, 'v FetchTreeNode option) result" where
  "pickWinner dag component =
     res_bind (schedule (Suc (length component)) component dag False) (\<lambda>waves.
     res_bind (schedule (Suc (length component)) component dag True) (\<lambda>inlined.
       Ok (if dominates inlined waves then inlined else waves)))"

definition root_ids :: "'v FetchTreeNode list \<Rightarrow> int list" where
  "root_ids roots = List.map_filter (\<lambda>r. map_option item_id (node_item r)) roots"

definition buildScheduleTree ::
  "'v FetchTreeNode list \<Rightarrow> 'v fetchDAG \<Rightarrow> (schedule_error, 'v FetchTreeNode option) result" where
  "buildScheduleTree roots dag =
     (let components = weaklyConnectedComponents (sort (root_ids roots)) dag in
      res_bind (res_map (pickWinner dag) components) (\<lambda>winners.
        let winner = parallelOf winners in
        res_bind (validateSchedule winner dag) (\<lambda>_. Ok winner)))"

fun set_children :: "'v FetchTreeNode list \<Rightarrow> 'v FetchTreeNode \<Rightarrow> 'v FetchTreeNode" where
  "set_children cs (Sequence ts) = Sequence cs"
| "set_children cs (Parallel ts) = Parallel cs"
| "set_children cs (Single it) = Single it"
| "set_children cs (Trigger it) = Trigger it"

definition scheduleFetches_ProcessFetchTree ::
  "'v FetchTreeRoot \<Rightarrow> (schedule_error, 'v FetchTreeRoot) result" where
  "scheduleFetches_ProcessFetchTree root =
     res_bind (newFetchDAG (ChildNodes (Node root))) (\<lambda>dag.
     res_bind (buildScheduleTree (ChildNodes (Node root)) dag) (\<lambda>tree.
       Ok (case tree of
             None \<Rightarrow> root\<lparr>Node := set_children [] (Node root)\<rparr>
           | Some t \<Rightarrow>
               (if RootTrigger root \<noteq> None \<and> node_kind t \<noteq> KindSequence
                then root\<lparr>Node := Sequence [t]\<rparr>
                else root\<lparr>Node := t\<rparr>))))"

text \<open>The tree of the waves strategy in every component, the reference of the comparison.\<close>

definition wavesOnly :: "'v FetchTreeNode list \<Rightarrow> 'v fetchDAG \<Rightarrow> (schedule_error, 'v FetchTreeNode option) result" where
  "wavesOnly roots dag =
     res_bind (res_map (\<lambda>C. schedule (Suc (length C)) C dag False)
                 (weaklyConnectedComponents (sort (root_ids roots)) dag))
       (\<lambda>branches. Ok (parallelOf branches))"

definition opt_makespan :: "(int \<Rightarrow> nat) \<Rightarrow> 'v FetchTreeNode option \<Rightarrow> nat" where
  "opt_makespan w t = (case t of None \<Rightarrow> 0 | Some t \<Rightarrow> makespan w t)"

definition flat :: "'v FetchTreeNode list \<Rightarrow> bool" where
  "flat ns = list_all (\<lambda>n. node_kind n = KindSingle) ns"

lemma newFetchDAG_flat:
  assumes "newFetchDAG ns = Ok dag" and "flat ns"
  shows "single_nodes dag" and "root_ids ns = dag_ids dag"
    and "map (dag_item dag) (dag_ids dag) = concat (map tree_items ns)"
    and "i \<in> set (dag_ids dag) \<Longrightarrow>
      set (parents_of dag i) = set (item_deps (dag_item dag i)) \<inter> set (dag_ids dag)"
proof -
  note d = newFetchDAG_Ok [OF assms(1)]
  have "list_all (\<lambda>n. node_kind n = KindSingle) (map snd (nodes dag))" using assms(2) d(2) by (simp add: flat_def)
  then show sn: "single_nodes dag" by (auto simp: single_nodes_def list_all_iff)
  have ns: "n = Single (dag_item dag i)" "item_id (dag_item dag i) = i" if "(i, n) \<in> set (nodes dag)" for i n
  proof -
    have "i \<in> set (dag_ids dag)" using that by (force simp: dag_ids_def)
    moreover have "map_of (nodes dag) i = Some n"
      using that wf_dagD(1) [OF d(1)] by (simp add: dag_ids_def)
    ultimately show "n = Single (dag_item dag i)" "item_id (dag_item dag i) = i"
      using dag_node [OF d(1) sn] by auto
  qed
  have "root_ids (map snd xs) = map fst xs \<and> map (dag_item dag) (map fst xs) = concat (map tree_items (map snd xs))"
    if "set xs \<subseteq> set (nodes dag)" for xs
    using that
  proof (induction xs)
    case (Cons x xs)
    then have x: "(fst x, snd x) \<in> set (nodes dag)" by simp
    note ns [OF x]
    with Cons show ?case by (auto simp: root_ids_def map_filter_simps)
  qed (simp add: root_ids_def map_filter_simps)
  from this [OF subset_refl] show "root_ids ns = dag_ids dag"
    and "map (dag_item dag) (dag_ids dag) = concat (map tree_items ns)"
    using d(2) by (simp_all add: dag_ids_def)
  show "set (parents_of dag i) = set (item_deps (dag_item dag i)) \<inter> set (dag_ids dag)" if "i \<in> set (dag_ids dag)"
  proof -
    from that obtain n where n: "(i, n) \<in> set (nodes dag)" by (auto simp: dag_ids_def)
    have deps: "node_deps n' = item_deps (dag_item dag i)" if "(i, n') \<in> set (nodes dag)" for n'
      using ns(1) [OF that] by (simp add: node_deps_def)
    have "x \<in> set (parents_of dag i) \<longleftrightarrow> x \<in> set (item_deps (dag_item dag i)) \<and> x \<in> set (dag_ids dag)" for x
      unfolding d(3) mem_Collect_eq using n deps by metis
    then show ?thesis by blast
  qed
qed

text \<open>The processor's result, in the terms of the root it is given.\<close>

definition root_acyclic :: "'v FetchTreeNode list \<Rightarrow> bool" where
  "root_acyclic ns \<longleftrightarrow> acyclic {(dep, item_id it) |dep it. it \<in> set (concat (map tree_items ns)) \<and>
     dep \<in> set (item_deps it) \<and> dep \<in> set (concat (map tree_ids ns))}"

lemma newFetchDAG_ids:
  assumes "newFetchDAG ns = Ok dag" and "flat ns"
  shows "concat (map tree_ids ns) = dag_ids dag"
proof -
  note d = newFetchDAG_Ok [OF assms(1)] and f = newFetchDAG_flat [OF assms]
  have "concat (map tree_ids ns) = map item_id (concat (map tree_items ns))"
    by (simp add: map_concat tree_ids_def [abs_def] comp_def)
  also have "\<dots> = map (\<lambda>i. item_id (dag_item dag i)) (dag_ids dag)" unfolding f(3) [symmetric] by (simp add: comp_def)
  also have "\<dots> = dag_ids dag" using dag_node(2) [OF d(1) f(1)] by (intro map_idI) blast
  finally show ?thesis .
qed

lemma root_acyclic_iff:
  assumes "newFetchDAG ns = Ok dag" and "flat ns"
  shows "root_acyclic ns \<longleftrightarrow> acyclic_dag dag"
proof -
  note d = newFetchDAG_Ok [OF assms(1)] and f = newFetchDAG_flat [OF assms]
  have items: "set (concat (map tree_items ns)) = dag_item dag ` set (dag_ids dag)"
    unfolding f(3) [symmetric] by simp
  have "{(dep, item_id it) |dep it. it \<in> set (concat (map tree_items ns)) \<and>
     dep \<in> set (item_deps it) \<and> dep \<in> set (concat (map tree_ids ns))} = {(p, c). p \<in> set (parents_of dag c)}"
  proof (intro set_eqI iffI)
    fix x assume "x \<in> {(dep, item_id it) |dep it. it \<in> set (concat (map tree_items ns)) \<and>
     dep \<in> set (item_deps it) \<and> dep \<in> set (concat (map tree_ids ns))}"
    then obtain dep i where i: "i \<in> set (dag_ids dag)" "x = (dep, item_id (dag_item dag i))"
      "dep \<in> set (item_deps (dag_item dag i))" "dep \<in> set (dag_ids dag)"
      unfolding items newFetchDAG_ids [OF assms] by blast
    then show "x \<in> {(p, c). p \<in> set (parents_of dag c)}"
      using f(4) [OF i(1)] dag_node(2) [OF d(1) f(1) i(1)] by auto
  next
    fix x assume "x \<in> {(p, c). p \<in> set (parents_of dag c)}"
    then obtain p c where x: "x = (p, c)" and pc: "p \<in> set (parents_of dag c)" by auto
    have ids: "c \<in> set (dag_ids dag)" "p \<in> set (dag_ids dag)" using wf_dagD(4) [OF d(1) pc] by auto
    have "p \<in> set (item_deps (dag_item dag c))" "item_id (dag_item dag c) = c"
      using f(4) [OF ids(1)] pc dag_node(2) [OF d(1) f(1) ids(1)] by auto
    then show "x \<in> {(dep, item_id it) |dep it. it \<in> set (concat (map tree_items ns)) \<and>
     dep \<in> set (item_deps it) \<and> dep \<in> set (concat (map tree_ids ns))}"
      unfolding items newFetchDAG_ids [OF assms] x mem_Collect_eq
      using ids by (intro exI [of _ p] exI [of _ "dag_item dag c"]) auto
  qed
  then show ?thesis unfolding root_acyclic_def acyclic_dag_def by (rule arg_cong)
qed

lemma pickWinner_correct:
  assumes "wf_dag dag" "single_nodes dag" and "acyclic_dag dag"
    and C: "distinct C" "set C \<subseteq> set (dag_ids dag)"
  shows "\<exists>t waves. pickWinner dag C = Ok t \<and> sched_ok dag C t \<and>
    schedule (Suc (length C)) C dag False = Ok waves \<and> sched_ok dag C waves \<and>
    opt_precedes t \<subseteq> opt_precedes waves"
proof -
  have ex: "\<exists>t. schedule (Suc (length C)) C dag inline = Ok t \<and> sched_ok dag C t" for inline
    using schedule_correct [OF assms(1-3), of inline "Suc (length C)"] C unfolding sched_upto_def by blast
  obtain waves inlined where w: "schedule (Suc (length C)) C dag False = Ok waves" "sched_ok dag C waves"
    and i: "schedule (Suc (length C)) C dag True = Ok inlined" "sched_ok dag C inlined"
    using ex [of False] ex [of True] by blast
  have "distinct (opt_ids inlined)" "distinct (opt_ids waves)"
    using sched_ok_ids [OF assms(1,2) C(2)] w(2) i(2) C(1) by (metis mset_eq_imp_distinct_iff)+
  then have "dominates inlined waves \<Longrightarrow> opt_precedes inlined \<subseteq> opt_precedes waves"
    by (simp add: dominates_iff)
  with w i show ?thesis by (simp add: pickWinner_def)
qed

lemma components_ok:
  assumes "newFetchDAG ns = Ok dag" and "flat ns"
  defines "Cs \<equiv> weaklyConnectedComponents (sort (root_ids ns)) dag"
  shows "mset (concat Cs) = mset (dag_ids dag)"
    and "C \<in> set Cs \<Longrightarrow> distinct C \<and> set C \<subseteq> set (dag_ids dag)"
    and "C \<in> set Cs \<Longrightarrow> c \<in> set C \<Longrightarrow> p \<in> set (parents_of dag c) \<Longrightarrow> p \<in> set C"
proof -
  note d = newFetchDAG_Ok [OF assms(1)] and f = newFetchDAG_flat [OF assms(1,2)]
  have dist: "distinct (dag_ids dag)" using wf_dagD(1) [OF d(1)] .
  note wcc = weaklyConnectedComponents_spec [OF d(1), of "sort (dag_ids dag)", folded f(2), folded Cs_def]
  show m: "mset (concat Cs) = mset (dag_ids dag)" using wcc(1) dist f(2) by simp
  have "distinct (concat Cs)" "set (concat Cs) = set (dag_ids dag)"
    using mset_eq_imp_distinct_iff [OF m] mset_eq_setD [OF m] dist by simp_all
  then show "C \<in> set Cs \<Longrightarrow> distinct C \<and> set C \<subseteq> set (dag_ids dag)" by (auto simp: distinct_concat_iff)
  assume C: "C \<in> set Cs" "c \<in> set C" and p: "p \<in> set (parents_of dag c)"
  have "p \<in> set (sort (root_ids ns))" using wf_dagD(4) [OF d(1) p] f(2) by simp
  moreover have "closed_in dag (sort (root_ids ns)) (set C)" using wcc(3) [OF _ C(1)] dist f(2) by simp
  ultimately show "p \<in> set C" using C(2) p unfolding closed_in_def dag.adj_def by blast
qed

lemma sched_ok_deps:
  assumes "newFetchDAG ns = Ok dag" and "flat ns" and ok: "sched_ok dag (dag_ids dag) t"
  shows "opt_deps_ok dag t"
proof (cases t)
  case (Some u)
  note d = newFetchDAG_Ok [OF assms(1)] and f = newFetchDAG_flat [OF assms(1,2)]
  have items: "set (tree_items u) = dag_item dag ` set (dag_ids dag)"
    using ok Some mset_eq_setD [of "tree_items u" "map (dag_item dag) (dag_ids dag)"] by (simp add: sched_ok_def)
  have "(dep, item_id it) \<in> precedes u"
    if it: "it \<in> set (tree_items u)" and dep: "dep \<in> set (item_deps it)" "dep \<in> set (dag_ids dag)" for it dep
  proof -
    from it items obtain i where i: "i \<in> set (dag_ids dag)" "it = dag_item dag i" by auto
    then have "dep \<in> set (parents_of dag i)" using f(4) dep by auto
    moreover have "item_id it = i" using dag_node(2) [OF d(1) f(1) i(1)] i(2) by simp
    ultimately show ?thesis using ok Some i(1) dep(2) by (simp add: sched_ok_def)
  qed
  then show ?thesis using Some by (simp add: opt_deps_ok_def deps_ok_def)
qed (simp add: opt_deps_ok_def)

lemma precedes_list_all2:
  "list_all2 (\<lambda>t u. opt_precedes t \<subseteq> opt_precedes u) ts us \<Longrightarrow>
   (\<Union>t \<in> set ts. opt_precedes t) \<subseteq> (\<Union>u \<in> set us. opt_precedes u)"
  by (induction rule: list_all2_induct) auto

theorem buildScheduleTree_correct:
  assumes new: "newFetchDAG ns = Ok dag" and flat: "flat ns" and acyc: "acyclic_dag dag"
  shows "\<exists>t waves. buildScheduleTree ns dag = Ok t \<and> sched_ok dag (dag_ids dag) t \<and>
    wavesOnly ns dag = Ok waves \<and> sched_ok dag (dag_ids dag) waves \<and> opt_precedes t \<subseteq> opt_precedes waves"
proof -
  note d = newFetchDAG_Ok [OF new] and f = newFetchDAG_flat [OF new flat]
  note c = components_ok [OF new flat]
  let ?Cs = "weaklyConnectedComponents (sort (root_ids ns)) dag"
  have "\<forall>C \<in> set ?Cs. \<exists>t. pickWinner dag C = Inr t \<and>
      (\<exists>waves. sched_ok dag C t \<and> schedule (Suc (length C)) C dag False = Ok waves \<and> sched_ok dag C waves \<and>
        opt_precedes t \<subseteq> opt_precedes waves)"
    using pickWinner_correct [OF d(1) f(1) acyc] c(2) by fastforce
  from res_map_ex [OF this] obtain ts where ts: "res_map (pickWinner dag) ?Cs = Inr ts"
    and all: "list_all2 (\<lambda>C t. \<exists>waves. sched_ok dag C t \<and> schedule (Suc (length C)) C dag False = Ok waves \<and>
        sched_ok dag C waves \<and> opt_precedes t \<subseteq> opt_precedes waves) ?Cs ts" by blast
  from all have "\<exists>us. res_map (\<lambda>C. schedule (Suc (length C)) C dag False) ?Cs = Inr us \<and>
      list_all2 (sched_ok dag) ?Cs us \<and> list_all2 (\<lambda>t u. opt_precedes t \<subseteq> opt_precedes u) ts us \<and>
      list_all2 (sched_ok dag) ?Cs ts"
    by (induction rule: list_all2_induct) auto
  then obtain us where us: "res_map (\<lambda>C. schedule (Suc (length C)) C dag False) ?Cs = Inr us"
    "list_all2 (sched_ok dag) ?Cs us" "list_all2 (\<lambda>t u. opt_precedes t \<subseteq> opt_precedes u) ts us"
    "list_all2 (sched_ok dag) ?Cs ts" by blast
  have ok: "sched_ok dag (dag_ids dag) (parallelOf ts)" "sched_ok dag (dag_ids dag) (parallelOf us)"
    using sched_ok_parallel [OF us(4) c(1)] sched_ok_parallel [OF us(2) c(1)] c(3) by blast+
  have "mset (opt_ids (parallelOf ts)) = mset (dag_ids dag)" using sched_ok_ids [OF d(1) f(1) _ ok(1)] by simp
  moreover have "opt_deps_ok dag (parallelOf ts)" using sched_ok_deps [OF new flat ok(1)] .
  ultimately have "validateSchedule (parallelOf ts) dag = Ok ()"
    using ok(1) unfolding validateSchedule_iff [OF d(1)] by (simp add: sched_ok_def)
  then have "buildScheduleTree ns dag = Ok (parallelOf ts)"
    using ts by (simp add: buildScheduleTree_def Let_def)
  moreover have "wavesOnly ns dag = Ok (parallelOf us)" using us(1) by (simp add: wavesOnly_def)
  moreover have "opt_precedes (parallelOf ts) \<subseteq> opt_precedes (parallelOf us)"
    unfolding parallelOf_spec by (rule precedes_list_all2 [OF us(3)])
  ultimately show ?thesis using ok by blast
qed


section \<open>When the scheduler succeeds\<close>

text \<open>The order of a tree without repetitions is acyclic: it follows the list of identifiers.\<close>

lemma seq_pairs_before: "(x, y) \<in> seq_pairs xss \<Longrightarrow> before_in x y (concat xss)"
proof (induction xss)
  case (Cons xs xss)
  then consider "x \<in> set xs" "y \<in> set (concat xss)" | "(x, y) \<in> seq_pairs xss" by auto
  then show ?case using Cons.IH by cases (simp_all add: before_in_split before_in_append2 del: set_concat)
qed simp

lemma before_in_concat: "xs \<in> set xss \<Longrightarrow> before_in x y xs \<Longrightarrow> before_in x y (concat xss)"
  by (induction xss) (auto intro: before_in_append1 before_in_append2)

lemma precedes_before: "(x, y) \<in> precedes t \<Longrightarrow> before_in x y (tree_ids t)"
proof (induction t)
  case (Sequence ts)
  then consider u where "u \<in> set ts" "before_in x y (tree_ids u)" | "(x, y) \<in> seq_pairs (map tree_ids ts)"
    by auto
  then show ?case using before_in_concat [of _ "map tree_ids ts"] by cases (auto dest: seq_pairs_before)
next
  case (Parallel ts)
  then obtain u where "u \<in> set ts" "before_in x y (tree_ids u)" by auto
  then show ?case using before_in_concat [of "tree_ids u" "map tree_ids ts"] by auto
qed auto

lemma before_in_nth: "before_in x y xs \<Longrightarrow> \<exists>i j. i < j \<and> j < length xs \<and> xs ! i = x \<and> xs ! j = y"
proof -
  assume "before_in x y xs"
  then obtain us vs ws where xs: "xs = us @ x # vs @ y # ws" by (auto simp: before_in_def)
  have "xs = (us @ x # vs) @ y # ws" using xs by simp
  then have "xs ! length (us @ x # vs) = y" by (metis nth_append_length)
  moreover have "xs ! length us = x" using xs by simp
  ultimately show ?thesis using xs
    by (intro exI [of _ "length us"] exI [of _ "length (us @ x # vs)"]) auto
qed

lemma distinct_before_acyclic:
  assumes "distinct xs" and "\<And>x y. (x, y) \<in> R \<Longrightarrow> before_in x y xs"
  shows "acyclic R"
proof (rule acyclicI_order)
  let ?f = "\<lambda>x. - int (the_inv_into {..<length xs} (nth xs) x)"
  have inj: "inj_on (nth xs) {..<length xs}" using assms(1) by (auto simp: inj_on_def nth_eq_iff_index_eq)
  fix x y assume "(x, y) \<in> R"
  then obtain i j where "i < j" "j < length xs" "xs ! i = x" "xs ! j = y"
    using assms(2) before_in_nth by meson
  then show "?f y < ?f x" using the_inv_into_f_f [OF inj, of i] the_inv_into_f_f [OF inj, of j] by auto
qed

text \<open>Whatever the graph, a schedule consists of items of the graph.\<close>

definition dag_tree :: "'v fetchDAG \<Rightarrow> 'v FetchTreeNode option \<Rightarrow> bool" where
  "dag_tree dag t \<longleftrightarrow> set (opt_items t) \<subseteq> dag_item dag ` set (dag_ids dag)"

lemma dag_tree_parallelOf: "dag_tree dag (parallelOf cs) \<longleftrightarrow> list_all (dag_tree dag) cs"
  using mset_eq_setD [OF parallelOf_spec(1) [of cs]] by (auto simp: dag_tree_def list_all_iff)

lemma dag_tree_sequenceOf: "dag_tree dag (sequenceOf cs) \<longleftrightarrow> list_all (dag_tree dag) cs"
  by (auto simp: dag_tree_def list_all_iff sequenceOf_spec)

lemma res_map_all:
  assumes "\<forall>x y. f x = Ok y \<longrightarrow> P y"
  shows "res_map f xs = Ok ys \<Longrightarrow> list_all P ys"
  using assms by (induction xs arbitrary: ys) (auto simp: res_bind_Ok_iff)

lemma dag_tree_node:
  assumes "wf_dag dag" and "single_nodes dag"
  shows "dag_tree dag (map_of (nodes dag) i)"
  using dag_node [OF assms, of i] in_dag_ids [of dag i]
  by (cases "i \<in> set (dag_ids dag)") (simp_all add: dag_tree_def)

lemma schedule_dag_tree:
  assumes "wf_dag dag" and "single_nodes dag"
  shows "schedule fuel S dag inline = Ok t \<Longrightarrow> dag_tree dag t"
proof (induction fuel arbitrary: S t)
  case (Suc fuel)
  note node = dag_tree_node [OF assms]
  have rec: "\<forall>C t. schedule fuel C dag inline = Ok t \<longrightarrow> dag_tree dag t" using Suc.IH by blast
  consider (nil) "sort S = []" | (one) i where "sort S = [i]" | (more) i j rest where "sort S = i # j # rest"
    by (metis list.exhaust)
  then show ?case
  proof cases
    case nil
    with Suc.prems show ?thesis by (auto simp: dag_tree_def)
  next
    case one
    with Suc.prems node [of i] show ?thesis by simp
  next
    case more
    show ?thesis
    proof (cases "length (weaklyConnectedComponents (sort S) dag) > 1")
      case True
      then obtain ts where "res_map (\<lambda>C. schedule fuel C dag inline) (weaklyConnectedComponents (sort S) dag) = Ok ts"
        "t = parallelOf ts"
        using Suc.prems more by (auto simp: Let_def res_bind_Ok_iff)
      then show ?thesis using res_map_all [OF rec, of _ ts] by (simp add: dag_tree_parallelOf)
    next
      case False
      let ?f = "\<lambda>colors root. if exclusiveOf colors root \<noteq> []
                 then res_bind (schedule fuel (exclusiveOf colors root) dag inline)
                        (\<lambda>subtree. Ok (sequenceOf [map_of (nodes dag) root, subtree]))
                 else Ok (map_of (nodes dag) root)"
      from Suc.prems [unfolded schedule_one_component [OF more False] Let_def] obtain roots colors ts rest tr where
        t: "res_map (?f colors) roots = Ok ts" "schedule fuel rest dag inline = Ok tr"
          "t = sequenceOf [parallelOf ts, tr]"
        by (auto simp: res_bind_Ok_iff split: if_split_asm)
      have "\<forall>r t. ?f colors r = Ok t \<longrightarrow> dag_tree dag t"
        using node rec by (auto simp: res_bind_Ok_iff dag_tree_sequenceOf split: if_split_asm)
      from res_map_all [OF this t(1)] rec t(2,3) show ?thesis
        by (simp add: dag_tree_parallelOf dag_tree_sequenceOf)
    qed
  qed
qed simp

lemma buildScheduleTree_dag_tree:
  assumes "wf_dag dag" and "single_nodes dag" and "buildScheduleTree ns dag = Ok t"
  shows "dag_tree dag t"
proof -
  from assms(3) obtain ts where ts: "res_map (pickWinner dag) (weaklyConnectedComponents (sort (root_ids ns)) dag) = Ok ts"
    "t = parallelOf ts" by (auto simp: buildScheduleTree_def Let_def res_bind_Ok_iff)
  have "\<forall>C t. pickWinner dag C = Ok t \<longrightarrow> dag_tree dag t"
    using schedule_dag_tree [OF assms(1,2)]
    by (auto simp: pickWinner_def res_bind_Ok_iff simp del: schedule.simps)
  from res_map_all [OF this ts(1)] ts(2) show ?thesis by (simp add: dag_tree_parallelOf)
qed

lemma buildScheduleTree_acyclic:
  assumes new: "newFetchDAG ns = Ok dag" and flat: "flat ns" and build: "buildScheduleTree ns dag = Ok t"
  shows "acyclic_dag dag"
proof -
  note d = newFetchDAG_Ok [OF new] and f = newFetchDAG_flat [OF new flat]
  from build have "validateSchedule t dag = Ok ()"
    by (auto simp: buildScheduleTree_def Let_def res_bind_Ok_iff)
  then have v: "mset (opt_ids t) = mset (dag_ids dag)" "opt_deps_ok dag t"
    by (simp_all add: validateSchedule_iff [OF d(1)])
  have dist: "distinct (opt_ids t)" using mset_eq_imp_distinct_iff [OF v(1)] wf_dagD(1) [OF d(1)] by simp
  have "before_in p c (opt_ids t)" if pc: "p \<in> set (parents_of dag c)" for p c
  proof -
    have ids: "c \<in> set (dag_ids dag)" "p \<in> set (dag_ids dag)" using wf_dagD(4) [OF d(1) pc] by auto
    then have "c \<in> set (opt_ids t)" using mset_eq_setD [OF v(1)] by simp
    then obtain u it where u: "t = Some u" "it \<in> set (tree_items u)" "c = item_id it"
      by (cases t) (auto simp: tree_ids_def)
    have "(p, c) \<in> precedes u"
    proof -
      have "it = dag_item dag c"
        using buildScheduleTree_dag_tree [OF d(1) f(1) build] u dag_node(2) [OF d(1) f(1)]
        by (auto simp: dag_tree_def)
      then have "p \<in> set (item_deps it)" using f(4) [OF ids(1)] pc by auto
      then show ?thesis using v(2) u ids by (auto simp: opt_deps_ok_def deps_ok_def)
    qed
    then show ?thesis using precedes_before u(1) by simp
  qed
  then show ?thesis unfolding acyclic_dag_def by (intro distinct_before_acyclic [OF dist]) auto
qed


text \<open>The graph of a flat list is built unless an identifier is repeated or a fetch depends on itself.\<close>

lemma register_nodes_total:
  "flat ns \<Longrightarrow> distinct (dag_ids dag @ concat (map tree_ids ns)) \<Longrightarrow>
   \<exists>dag'. register_nodes ns dag = Ok dag' \<and> dag_ids dag' = dag_ids dag @ concat (map tree_ids ns)"
proof (induction ns arbitrary: dag)
  case (Cons n ns)
  then obtain it where n: "n = Single it" by (cases n) (auto simp: flat_def)
  with Cons.prems(2) have new: "map_of (nodes dag) (item_id it) = None" by (auto simp: in_dag_ids)
  let ?dag = "dag\<lparr>nodes := nodes dag @ [(item_id it, n)], parents := AList.update (item_id it) [] (parents dag),
    children := AList.update (item_id it) [] (children dag)\<rparr>"
  have "dag_ids ?dag = dag_ids dag @ [item_id it]" by (simp add: dag_ids_def)
  with Cons.IH [of ?dag] Cons.prems n new show ?case by (simp add: flat_def Let_def)
qed simp

lemma link_deps_total: "i \<notin> set deps \<Longrightarrow> \<exists>dag'. link_deps i deps dag = Ok dag'"
  by (induction i deps dag rule: link_deps.induct) auto

lemma link_nodes_total:
  "\<forall>(i, n) \<in> set ns. i \<notin> set (node_deps n) \<Longrightarrow> \<exists>dag'. link_nodes ns dag = Ok dag'"
proof (induction ns dag rule: link_nodes.induct)
  case (2 i n ns dag)
  then obtain d where d: "link_deps i (node_deps n) dag = Ok d"
    using link_deps_total [of i "node_deps n" dag] by auto
  with 2 show ?case by (auto simp: node_deps_def)
qed simp

lemma newFetchDAG_iff:
  assumes "flat ns"
  shows "(\<exists>dag. newFetchDAG ns = Ok dag) \<longleftrightarrow>
    distinct (concat (map tree_ids ns)) \<and>
    (\<forall>it \<in> set (concat (map tree_items ns)). item_id it \<notin> set (item_deps it))"
    (is "?ok \<longleftrightarrow> ?dist \<and> ?self")
proof (intro iffI conjI)
  {
    assume ?ok
    then obtain dag where new: "newFetchDAG ns = Ok dag" by blast
    note d = newFetchDAG_Ok [OF new] and f = newFetchDAG_flat [OF new assms]
    have "concat (map tree_ids ns) = dag_ids dag" using newFetchDAG_ids [OF new assms] .
    with wf_dagD(1) [OF d(1)] show ?dist by simp
    show ?self
    proof
      fix it assume "it \<in> set (concat (map tree_items ns))"
      then obtain i where i: "i \<in> set (dag_ids dag)" "it = dag_item dag i"
        using f(3) [symmetric] by auto
      have "i \<notin> set (parents_of dag i)" using wf_dagD(4) [OF d(1), of i i] by blast
      then show "item_id it \<notin> set (item_deps it)"
        using f(4) [OF i(1)] i dag_node(2) [OF d(1) f(1) i(1)] by auto
    qed
  }
  assume ok: "?dist \<and> ?self"
  let ?e = "\<lparr>nodes = [], parents = [], children = []\<rparr>"
  obtain d0 where d0: "register_nodes ns ?e = Ok d0"
    using register_nodes_total [OF assms, of ?e] ok by (auto simp: dag_ids_def)
  note reg = register_nodes_spec [OF d0]
  have nodes: "list_all node_ok (nodes d0)" "map snd (nodes d0) = ns"
    using reg by (auto simp: dag_ids_def set_at_def)
  have "i \<notin> set (node_deps n)" if "(i, n) \<in> set (nodes d0)" for i n
  proof -
    have n: "n \<in> set ns" using that nodes(2) by (metis image_eqI list.set_map snd_conv)
    then have "node_kind n = KindSingle" using assms by (auto simp: flat_def list_all_iff)
    then obtain it where "n = Single it" by (cases n) auto
    then show ?thesis using n that nodes(1) ok
      by (auto simp: node_ok_def list_all_iff node_deps_def)
  qed
  then obtain dag where "link_nodes (nodes d0) d0 = Ok dag" using link_nodes_total [of "nodes d0" d0] by blast
  then show ?ok using d0 by (auto simp: newFetchDAG_def)
qed


lemma root_acyclic_no_self:
  assumes "root_acyclic ns" and "it \<in> set (concat (map tree_items ns))"
  shows "item_id it \<notin> set (item_deps it)"
proof
  assume self: "item_id it \<in> set (item_deps it)"
  from assms(2) obtain n where "n \<in> set ns" "it \<in> set (tree_items n)" by auto
  then have "item_id it \<in> set (concat (map tree_ids ns))" using item_id_in by fastforce
  with self assms(2) have "(item_id it, item_id it) \<in> {(dep, item_id it) |dep it. it \<in> set (concat (map tree_items ns)) \<and>
     dep \<in> set (item_deps it) \<and> dep \<in> set (concat (map tree_ids ns))}" by blast
  then show False using assms(1) unfolding root_acyclic_def acyclic_def by blast
qed

lemma newFetchDAG_exists:
  assumes "flat ns" and "distinct (concat (map tree_ids ns))" and "root_acyclic ns"
  shows "\<exists>dag. newFetchDAG ns = Ok dag \<and> acyclic_dag dag"
  using newFetchDAG_iff [OF assms(1)] root_acyclic_iff [OF _ assms(1)] root_acyclic_no_self assms by blast

lemma process_iff:
  assumes "Node root = Sequence ns" and "flat ns"
  shows "(\<exists>root'. scheduleFetches_ProcessFetchTree root = Ok root') \<longleftrightarrow>
    distinct (concat (map tree_ids ns)) \<and> root_acyclic ns"
proof
  assume "\<exists>root'. scheduleFetches_ProcessFetchTree root = Ok root'"
  then obtain dag t where new: "newFetchDAG ns = Ok dag" and "buildScheduleTree ns dag = Ok t"
    using assms(1) by (auto simp: scheduleFetches_ProcessFetchTree_def res_bind_Ok_iff)
  then have "acyclic_dag dag" using buildScheduleTree_acyclic [OF new assms(2)] by blast
  then show "distinct (concat (map tree_ids ns)) \<and> root_acyclic ns"
    using new newFetchDAG_iff [OF assms(2)] root_acyclic_iff [OF new assms(2)] by blast
next
  assume "distinct (concat (map tree_ids ns)) \<and> root_acyclic ns"
  then obtain dag where new: "newFetchDAG ns = Ok dag" and "acyclic_dag dag"
    using newFetchDAG_exists [OF assms(2)] by blast
  then obtain t where "buildScheduleTree ns dag = Ok t" using buildScheduleTree_correct [OF new assms(2)] by blast
  with new assms(1) show "\<exists>root'. scheduleFetches_ProcessFetchTree root = Ok root'"
    by (simp add: scheduleFetches_ProcessFetchTree_def)
qed

text \<open>What the processor leaves in the root.\<close>

lemma process_result:
  assumes seq: "Node root = Sequence ns" and flat: "flat ns"
    and proc: "scheduleFetches_ProcessFetchTree root = Ok root'"
  shows "mset (tree_items (Node root')) = mset (concat (map tree_items ns))"
    and "runnable (Node root')" and "RootTrigger root' = RootTrigger root" and "NormalizedQuery root' = NormalizedQuery root"
    and "RootTrigger root \<noteq> None \<Longrightarrow> node_kind (Node root') = KindSequence"
    and "it \<in> set (concat (map tree_items ns)) \<Longrightarrow> dep \<in> set (item_deps it) \<Longrightarrow>
      dep \<in> set (concat (map tree_ids ns)) \<Longrightarrow> (dep, item_id it) \<in> precedes (Node root')"
proof -
  obtain dag t where new: "newFetchDAG ns = Ok dag" and build: "buildScheduleTree ns dag = Ok t"
    and root': "root' = (case t of None \<Rightarrow> root\<lparr>Node := set_children [] (Node root)\<rparr>
           | Some t \<Rightarrow> (if RootTrigger root \<noteq> None \<and> node_kind t \<noteq> KindSequence
                then root\<lparr>Node := Sequence [t]\<rparr> else root\<lparr>Node := t\<rparr>))"
    using proc seq by (auto simp: scheduleFetches_ProcessFetchTree_def res_bind_Ok_iff)
  obtain t' where "buildScheduleTree ns dag = Ok t'" "sched_ok dag (dag_ids dag) t'"
    using buildScheduleTree_correct [OF new flat buildScheduleTree_acyclic [OF new flat build]] by blast
  with build have ok: "sched_ok dag (dag_ids dag) t" by simp
  have items: "mset (opt_items t) = mset (concat (map tree_items ns))"
    using ok newFetchDAG_flat(3) [OF new flat] unfolding sched_ok_def by simp
  have node: "tree_items (Node root') = opt_items t" "runnable (Node root') = opt_runnable t"
    "precedes (Node root') = opt_precedes t"
    using root' seq by (cases t; auto)+
  show "mset (tree_items (Node root')) = mset (concat (map tree_items ns))" "runnable (Node root')"
    using node items ok by (simp_all add: sched_ok_def)
  show "RootTrigger root' = RootTrigger root" "NormalizedQuery root' = NormalizedQuery root"
    using root' by (auto split: option.splits)
  show "RootTrigger root \<noteq> None \<Longrightarrow> node_kind (Node root') = KindSequence"
    using root' seq by (auto split: option.splits)
  show "(dep, item_id it) \<in> precedes (Node root')" if it: "it \<in> set (concat (map tree_items ns))"
    and dep: "dep \<in> set (item_deps it)" "dep \<in> set (concat (map tree_ids ns))"
  proof -
    have "it \<in> set (opt_items t)" using it mset_eq_setD [OF items] by simp
    moreover have "dep \<in> set (dag_ids dag)" using dep(2) newFetchDAG_ids [OF new flat] by simp
    ultimately have "(dep, item_id it) \<in> opt_precedes t"
      using sched_ok_deps [OF new flat ok] dep(1) by (cases t) (auto simp: opt_deps_ok_def deps_ok_def)
    then show ?thesis using node(3) by simp
  qed
qed

lemma opt_makespan_mono:
  assumes "distinct (opt_ids u)" and "set (opt_ids t) \<subseteq> set (opt_ids u)" and "opt_precedes t \<subseteq> opt_precedes u"
  shows "opt_makespan w t \<le> opt_makespan w u"
proof (cases t)
  case None
  then show ?thesis by (simp add: opt_makespan_def)
next
  case (Some a)
  then show ?thesis
  proof (cases u)
    case None
    have "makespan w a = 0"
      using makespan_chain [of a w] assms(2) Some None by auto
    then show ?thesis using Some None by (simp add: opt_makespan_def)
  next
    case (Some b)
    then show ?thesis using precedes_mono_makespan [of b a w] assms \<open>t = Some a\<close> by (simp add: opt_makespan_def)
  qed
qed

lemma dominates_makespan:
  assumes "distinct (opt_ids A)" and "distinct (opt_ids B)" and "dominates A B"
  shows "opt_makespan w A \<le> opt_makespan w B"
  using assms by (intro opt_makespan_mono) (simp_all add: dominates_iff)

end
