(* ===== verification/Fetch_Waves.thy ===== *)
theory Fetch_Waves
  imports Fetch_Validate "HOL-Library.Product_Lexorder"
begin

text \<open>
  The waves pipeline of \<open>v2/pkg/engine/postprocess\<close>: \<open>orderSequenceByDependencies\<close> sorts
  a flat sequence of fetches, \<open>createParallelNodes\<close> groups the fetches whose dependencies
  earlier nodes provide, \<open>flattenFetchTree\<close> undoes the nesting, and
  \<open>organizeFetchTree\<close> composes them with the scheduler.

  \<open>nodeDependsOn\<close> recurses along the dependencies without a visited set. It is written with
  fuel: on acyclic dependencies as much fuel as there are fetches is enough, on a cycle no fuel
  is (\<open>nodeDependsOn_cycle\<close>), which is the unbounded recursion of the code.
\<close>

section \<open>Transitive dependencies\<close>

datatype wave_error = StackOverflow | NilItem

definition nodeFetchID :: "'v FetchTreeNode \<Rightarrow> int" where
  "nodeFetchID n = (case node_item n of None \<Rightarrow> 0 | Some it \<Rightarrow> item_id it)"

definition nodeByFetchID :: "int \<Rightarrow> 'v FetchTreeNode list \<Rightarrow> 'v FetchTreeNode option" where
  "nodeByFetchID i ns = find (\<lambda>n. nodeFetchID n = i) ns"

fun nodeDependsOn :: "nat \<Rightarrow> 'v FetchTreeNode \<Rightarrow> 'v FetchTreeNode list \<Rightarrow> (wave_error, int list) result" where
  "nodeDependsOn 0 n ns = Err StackOverflow"
| "nodeDependsOn (Suc fuel) n ns =
     res_bind (res_map (\<lambda>dep. case nodeByFetchID dep ns of
           None \<Rightarrow> Ok [dep]
         | Some child \<Rightarrow> res_bind (nodeDependsOn fuel child ns) (\<lambda>ds. Ok (dep # ds)))
         (node_deps n))
       (\<lambda>rs. Ok (remdups_adj (sort (concat rs))))"

text \<open>The declared dependencies between the fetches of a list, and all that a fetch depends on.\<close>

definition dep_edges :: "'v FetchTreeNode list \<Rightarrow> (int \<times> int) set" where
  "dep_edges ns = {(dep, nodeFetchID n) |dep n. n \<in> set ns \<and> dep \<in> set (node_deps n)}"

definition all_deps :: "'v FetchTreeNode list \<Rightarrow> int \<Rightarrow> int set" where
  "all_deps ns i = {d. (d, i) \<in> (dep_edges ns)\<^sup>+}"

lemma flat_nodeFetchID: "flat ns \<Longrightarrow> map nodeFetchID ns = concat (map tree_ids ns)"
proof (induction ns)
  case (Cons n ns)
  then have "node_kind n = KindSingle" "flat ns" by (simp_all add: flat_def)
  then obtain it where "n = Single it" by (cases n) auto
  with Cons \<open>flat ns\<close> show ?case by (simp add: nodeFetchID_def)
qed simp

lemma nodeByFetchID_iff:
  assumes "distinct (map nodeFetchID ns)"
  shows "nodeByFetchID i ns = Some n \<longleftrightarrow> n \<in> set ns \<and> nodeFetchID n = i"
proof
  assume "nodeByFetchID i ns = Some n"
  then show "n \<in> set ns \<and> nodeFetchID n = i" by (auto simp: nodeByFetchID_def find_Some_iff)
next
  assume n: "n \<in> set ns \<and> nodeFetchID n = i"
  then obtain m where m: "nodeByFetchID i ns = Some m"
    by (cases "nodeByFetchID i ns") (auto simp: nodeByFetchID_def find_None_iff)
  then have "m \<in> set ns" "nodeFetchID m = i" by (auto simp: nodeByFetchID_def find_Some_iff)
  with n m assms show "nodeByFetchID i ns = Some n" by (auto simp: distinct_map dest: inj_onD)
qed

lemma nodeByFetchID_None: "nodeByFetchID i ns = None \<longleftrightarrow> i \<notin> nodeFetchID ` set ns"
  by (auto simp: nodeByFetchID_def find_None_iff)

lemma dep_edges_into:
  assumes "distinct (map nodeFetchID ns)" and "n \<in> set ns"
  shows "(d, nodeFetchID n) \<in> dep_edges ns \<longleftrightarrow> d \<in> set (node_deps n)"
  using assms by (auto simp: dep_edges_def distinct_map dest: inj_onD)

lemma all_deps_unfold:
  "all_deps ns i = {d. (d, i) \<in> dep_edges ns} \<union> (\<Union>d \<in> {d. (d, i) \<in> dep_edges ns}. all_deps ns d)"
  unfolding all_deps_def by (auto elim: tranclE)

lemma all_deps_outside: "i \<notin> nodeFetchID ` set ns \<Longrightarrow> all_deps ns i = {}"
  by (subst all_deps_unfold) (auto simp: dep_edges_def)

lemma finite_dep_edges: "finite (dep_edges ns)"
proof -
  have "dep_edges ns = (\<Union>n \<in> set ns. (\<lambda>d. (d, nodeFetchID n)) ` set (node_deps n))"
    by (auto simp: dep_edges_def)
  then show ?thesis by simp
qed

lemma finite_all_deps: "finite (all_deps ns i)"
proof -
  have "all_deps ns i \<subseteq> fst ` ((dep_edges ns)\<^sup>+)" by (force simp: all_deps_def)
  then show ?thesis using finite_dep_edges finite_subset by (metis finite_imageI finite_trancl)
qed

text \<open>
  With enough fuel the result is the sorted list of everything the fetch depends on. The fuel
  counts the fetches of the list among the dependencies.
\<close>

definition known_deps :: "'v FetchTreeNode list \<Rightarrow> int \<Rightarrow> int set" where
  "known_deps ns i = all_deps ns i \<inter> nodeFetchID ` set ns"

lemma known_deps_less:
  assumes "acyclic (dep_edges ns)" and "d \<in> nodeFetchID ` set ns" and "(d, i) \<in> dep_edges ns"
  shows "card (known_deps ns d) < card (known_deps ns i)"
proof (rule psubset_card_mono)
  show "finite (known_deps ns i)" by (simp add: known_deps_def)
  have "d \<in> known_deps ns i" using assms by (auto simp: known_deps_def all_deps_def)
  moreover have "d \<notin> known_deps ns d" using assms(1) by (auto simp: known_deps_def all_deps_def acyclic_def)
  moreover have "known_deps ns d \<subseteq> known_deps ns i" using assms(3) by (auto simp: known_deps_def all_deps_def)
  ultimately show "known_deps ns d \<subset> known_deps ns i" by blast
qed

lemma distinct_remdups_adj_sorted: "sorted (xs :: int list) \<Longrightarrow> distinct (remdups_adj xs)"
  by (induction xs rule: remdups_adj.induct) auto

lemma remdups_adj_sort: "remdups_adj (sort (xs :: int list)) = sorted_list_of_set (set xs)"
proof -
  have "sorted (remdups_adj (sort xs))" "distinct (remdups_adj (sort xs))" "set (remdups_adj (sort xs)) = set xs"
    by (simp_all add: distinct_remdups_adj_sorted sorted_remdups_adj)
  then show ?thesis by (metis sorted_list_of_set.idem_if_sorted_distinct)
qed

lemma nodeDependsOn_correct:
  assumes ac: "acyclic (dep_edges ns)" and dist: "distinct (map nodeFetchID ns)"
  shows "n \<in> set ns \<Longrightarrow> card (known_deps ns (nodeFetchID n)) < fuel \<Longrightarrow>
    nodeDependsOn fuel n ns = Ok (sorted_list_of_set (all_deps ns (nodeFetchID n)))"
proof (induction fuel arbitrary: n)
  case (Suc fuel)
  let ?g = "\<lambda>dep. if dep \<in> nodeFetchID ` set ns then dep # sorted_list_of_set (all_deps ns dep) else [dep]"
  let ?f = "\<lambda>dep. case nodeByFetchID dep ns of None \<Rightarrow> Ok [dep]
         | Some child \<Rightarrow> res_bind (nodeDependsOn fuel child ns) (\<lambda>ds. Ok (dep # ds))"
  have "?f dep = Ok (?g dep)" if dep: "dep \<in> set (node_deps n)" for dep
  proof (cases "nodeByFetchID dep ns")
    case None
    then have "dep \<notin> nodeFetchID ` set ns" by (simp add: nodeByFetchID_None)
    with None show ?thesis by simp
  next
    case (Some child)
    then have c: "child \<in> set ns" "nodeFetchID child = dep" using nodeByFetchID_iff [OF dist] by blast+
    have "(dep, nodeFetchID n) \<in> dep_edges ns" using dep dep_edges_into [OF dist Suc.prems(1)] by blast
    then have "card (known_deps ns dep) < card (known_deps ns (nodeFetchID n))"
      using known_deps_less [OF ac] c by blast
    then have "nodeDependsOn fuel child ns = Ok (sorted_list_of_set (all_deps ns dep))"
      using Suc.IH [OF c(1)] c(2) Suc.prems(2) by simp
    with Some c show ?thesis by auto
  qed
  then have map: "res_map ?f (node_deps n) = Ok (map ?g (node_deps n))" by (intro res_map_Ok) blast
  have "set (?g dep) = insert dep (all_deps ns dep)" for dep
    using set_sorted_list_of_set [OF finite_all_deps, of ns dep] all_deps_outside [of dep ns] by simp
  then have "set (concat (map ?g (node_deps n))) = (\<Union>dep \<in> set (node_deps n). insert dep (all_deps ns dep))"
    unfolding set_concat set_map image_image by (simp only:)
  also have "\<dots> = all_deps ns (nodeFetchID n)"
    unfolding all_deps_unfold [of ns "nodeFetchID n"] dep_edges_into [OF dist Suc.prems(1)] by blast
  finally have "set (concat (map ?g (node_deps n))) = all_deps ns (nodeFetchID n)" .
  then show ?case unfolding nodeDependsOn.simps map res_bind.simps remdups_adj_sort by simp
qed simp

lemma known_deps_bound: "acyclic (dep_edges ns) \<Longrightarrow> n \<in> set ns \<Longrightarrow> card (known_deps ns (nodeFetchID n)) < length ns"
proof -
  assume ac: "acyclic (dep_edges ns)" and n: "n \<in> set ns"
  have "known_deps ns (nodeFetchID n) \<subset> nodeFetchID ` set ns"
    using ac n by (auto simp: known_deps_def all_deps_def acyclic_def)
  then have "card (known_deps ns (nodeFetchID n)) < card (nodeFetchID ` set ns)" by (simp add: psubset_card_mono)
  also have "\<dots> \<le> length ns" using card_image_le [of "set ns" nodeFetchID] card_length [of ns] by simp
  finally show ?thesis .
qed

lemma nodeDependsOn_error: "nodeDependsOn fuel n ns = Err e \<Longrightarrow> e = StackOverflow"
proof (induction fuel arbitrary: n)
  case (Suc fuel)
  have "e = StackOverflow" if "res_map (\<lambda>dep. case nodeByFetchID dep ns of None \<Rightarrow> Ok [dep]
       | Some child \<Rightarrow> res_bind (nodeDependsOn fuel child ns) (\<lambda>ds. Ok (dep # ds))) xs = Inl e" for xs
    using that Suc.IH by (induction xs) (auto simp: res_bind_Err_iff split: option.splits)
  with Suc.prems show ?case by (auto simp: res_bind_Err_iff)
qed simp

lemma res_map_Err: "x \<in> set xs \<Longrightarrow> f x = Inl e \<Longrightarrow> \<exists>e'. res_map f xs = Inl e'"
proof (induction xs)
  case (Cons y ys)
  then show ?case by (cases "f y"; cases "x = y") auto
qed simp

lemma res_map_Err_from: "res_map f xs = Inl e \<Longrightarrow> \<exists>x \<in> set xs. f x = Inl e"
  by (induction xs) (auto simp: res_bind_Err_iff)

text \<open>On a cycle the recursion does not end.\<close>

lemma nodeDependsOn_cycle:
  assumes dist: "distinct (map nodeFetchID ns)" and sub: "C \<subseteq> set ns"
    and cyc: "\<forall>n \<in> C. \<exists>m \<in> C. nodeFetchID m \<in> set (node_deps n)"
  shows "n \<in> C \<Longrightarrow> nodeDependsOn fuel n ns = Err StackOverflow"
proof (induction fuel arbitrary: n)
  case (Suc fuel)
  from Suc.prems cyc obtain m where m: "m \<in> C" "nodeFetchID m \<in> set (node_deps n)" by blast
  then have find: "nodeByFetchID (nodeFetchID m) ns = Some m" using nodeByFetchID_iff [OF dist] sub by blast
  from res_map_Err [OF m(2), of "\<lambda>dep. case nodeByFetchID dep ns of None \<Rightarrow> Ok [dep]
         | Some child \<Rightarrow> res_bind (nodeDependsOn fuel child ns) (\<lambda>ds. Ok (dep # ds))" StackOverflow]
    find Suc.IH [OF m(1)]
  obtain e where "nodeDependsOn (Suc fuel) n ns = Err e" by auto
  with nodeDependsOn_error show ?case by blast
qed simp


section \<open>Ordering the sequence\<close>

text \<open>
  \<open>compareNodes\<close> is the comparison function of the sort, with the transitive dependencies of
  the two nodes already computed. \<open>slices.SortFunc\<close> is modelled as insertion sort;
  \<open>orderSequence_key\<close> shows that the comparison is a total order on acyclic input, so any
  other sorting algorithm returns the same list. With fewer than two nodes the comparison is never
  called, with more every node takes part in one, so that the dependencies of every node are
  computed.
\<close>

definition compareNodes :: "int \<Rightarrow> int list \<Rightarrow> int \<Rightarrow> int list \<Rightarrow> int" where
  "compareNodes a aDeps b bDeps =
     (if aDeps = bDeps then a - b
      else if a \<in> set bDeps then -1
      else if b \<in> set aDeps then 1
      else if length aDeps = length bDeps then a - b
      else int (length aDeps) - int (length bDeps))"

fun insert_by :: "('a \<Rightarrow> 'a \<Rightarrow> int) \<Rightarrow> 'a \<Rightarrow> 'a list \<Rightarrow> 'a list" where
  "insert_by c x [] = [x]"
| "insert_by c x (y # ys) = (if c x y \<le> 0 then x # y # ys else y # insert_by c x ys)"

definition SortFunc :: "('a \<Rightarrow> 'a \<Rightarrow> int) \<Rightarrow> 'a list \<Rightarrow> 'a list" where
  "SortFunc c xs = foldr (insert_by c) xs []"

definition orderSequenceByDependencies ::
  "bool \<Rightarrow> 'v FetchTreeNode list \<Rightarrow> (wave_error, 'v FetchTreeNode list) result" where
  "orderSequenceByDependencies disable ns =
     (if disable then Ok ns
      else if length ns < 2 then Ok ns
      else if list_ex (\<lambda>n. node_item n = None) ns then Err NilItem
      else res_bind (res_map (\<lambda>n. nodeDependsOn (length ns) n ns) ns)
        (\<lambda>deps. Ok (map fst (SortFunc (\<lambda>(a, aDeps) (b, bDeps). compareNodes (nodeFetchID a) aDeps (nodeFetchID b) bDeps)
                      (zip ns deps)))))"

definition deps_of :: "'v FetchTreeNode list \<Rightarrow> 'v FetchTreeNode \<Rightarrow> int list" where
  "deps_of ns n = sorted_list_of_set (all_deps ns (nodeFetchID n))"

definition order_key :: "'v FetchTreeNode list \<Rightarrow> 'v FetchTreeNode \<Rightarrow> nat \<times> int" where
  "order_key ns n = (length (deps_of ns n), nodeFetchID n)"

lemma set_deps_of: "set (deps_of ns n) = all_deps ns (nodeFetchID n)"
  by (simp add: deps_of_def finite_all_deps)

lemma length_deps_of: "length (deps_of ns n) = card (all_deps ns (nodeFetchID n))"
  by (simp add: deps_of_def)

lemma deps_of_less:
  assumes "acyclic (dep_edges ns)" and "d \<in> all_deps ns i"
  shows "card (all_deps ns d) < card (all_deps ns i)"
proof (rule psubset_card_mono [OF finite_all_deps])
  have "d \<notin> all_deps ns d" using assms(1) by (auto simp: all_deps_def acyclic_def)
  moreover have "all_deps ns d \<subseteq> all_deps ns i" using assms(2) by (auto simp: all_deps_def)
  ultimately show "all_deps ns d \<subset> all_deps ns i" using assms(2) by blast
qed

text \<open>The comparison is the lexicographic order of the number of dependencies and the identifier.\<close>

lemma compareNodes_key:
  assumes "acyclic (dep_edges ns)"
  shows "compareNodes (nodeFetchID a) (deps_of ns a) (nodeFetchID b) (deps_of ns b) \<le> 0 \<longleftrightarrow>
    order_key ns a \<le> order_key ns b"
proof -
  have "nodeFetchID a \<in> set (deps_of ns b) \<Longrightarrow> length (deps_of ns a) < length (deps_of ns b)"
    "nodeFetchID b \<in> set (deps_of ns a) \<Longrightarrow> length (deps_of ns b) < length (deps_of ns a)"
    using deps_of_less [OF assms] by (simp_all add: set_deps_of length_deps_of)
  then show ?thesis by (auto simp: compareNodes_def order_key_def less_eq_prod_def)
qed

lemma insert_by_key:
  "\<forall>x \<in> insert x (set ys). \<forall>y \<in> insert x (set ys). c x y \<le> 0 \<longleftrightarrow> k x \<le> k y \<Longrightarrow> insert_by c x ys = insort_key k x ys"
  for k :: "'a \<Rightarrow> 'b :: linorder"
  by (induction ys) auto

lemma SortFunc_key:
  "\<forall>x \<in> set xs. \<forall>y \<in> set xs. c x y \<le> 0 \<longleftrightarrow> k x \<le> k y \<Longrightarrow> SortFunc c xs = sort_key k xs"
  for k :: "'a \<Rightarrow> 'b :: linorder"
proof (induction xs)
  case (Cons x xs)
  then have "SortFunc c xs = sort_key k xs" by simp
  moreover have "insert_by c x (sort_key k xs) = insort_key k x (sort_key k xs)"
    by (rule insert_by_key) (use Cons.prems in auto)
  ultimately show ?case by (simp add: SortFunc_def)
qed (simp add: SortFunc_def)

lemma map_insort_key_zip:
  "map fst (insort_key (\<lambda>p. k (fst p)) p ps) = insort_key k (fst p) (map fst ps)"
  for k :: "'a \<Rightarrow> 'b :: linorder"
  by (induction ps) auto

lemma map_sort_key_zip: "map fst (sort_key (\<lambda>p. k (fst p)) ps) = sort_key k (map fst ps)"
  for k :: "'a \<Rightarrow> 'b :: linorder"
  by (induction ps) (auto simp: map_insort_key_zip)

lemma flat_has_item: "flat ns \<Longrightarrow> \<not> list_ex (\<lambda>n. node_item n = None) ns"
proof -
  assume "flat ns"
  moreover have "node_item n \<noteq> None" if "node_kind n = KindSingle" for n :: "'a FetchTreeNode" using that by (cases n) auto
  ultimately show ?thesis by (auto simp: flat_def list_all_iff list_ex_iff)
qed

lemma orderSequence_key:
  assumes "flat ns" and "distinct (map nodeFetchID ns)" and ac: "acyclic (dep_edges ns)"
  shows "orderSequenceByDependencies False ns = Ok (sort_key (order_key ns) ns)"
proof (cases "length ns < 2")
  case True
  then have "sort_key (order_key ns) ns = ns" by (cases ns; cases "tl ns") auto
  with True show ?thesis by (simp add: orderSequenceByDependencies_def)
next
  case False
  let ?c = "\<lambda>(a, aDeps) (b, bDeps). compareNodes (nodeFetchID a) aDeps (nodeFetchID b) bDeps"
  have "res_map (\<lambda>n. nodeDependsOn (length ns) n ns) ns = Ok (map (deps_of ns) ns)"
    using nodeDependsOn_correct [OF ac assms(2)] known_deps_bound [OF ac]
    by (intro res_map_Ok) (simp add: deps_of_def)
  moreover have "SortFunc ?c (zip ns (map (deps_of ns) ns)) = sort_key (\<lambda>p. order_key ns (fst p)) (zip ns (map (deps_of ns) ns))"
    by (rule SortFunc_key) (auto simp: set_zip compareNodes_key [OF ac])
  ultimately show ?thesis
    using False flat_has_item [OF assms(1)] by (simp add: orderSequenceByDependencies_def map_sort_key_zip)
qed

text \<open>In the result every fetch comes after its dependencies in the list.\<close>

definition topological :: "int set \<Rightarrow> int set \<Rightarrow> 'v FetchTreeNode list \<Rightarrow> bool" where
  "topological K B ns \<longleftrightarrow> (\<forall>us n vs. ns = us @ n # vs \<longrightarrow>
     set (node_deps n) \<inter> K \<subseteq> B \<union> nodeFetchID ` set us)"

lemma orderSequence_topological:
  assumes "distinct (map nodeFetchID ns)" and ac: "acyclic (dep_edges ns)"
  shows "topological (nodeFetchID ` set ns) {} (sort_key (order_key ns) ns)"
  unfolding topological_def
proof (intro allI impI subsetI)
  fix us n vs d assume srt: "sort_key (order_key ns) ns = us @ n # vs"
    and "d \<in> set (node_deps n) \<inter> nodeFetchID ` set ns"
  then obtain m where m: "m \<in> set ns" "d = nodeFetchID m" "d \<in> set (node_deps n)" by auto
  have set: "set ns = set us \<union> {n} \<union> set vs" using arg_cong [OF srt, of set] by auto
  then have n: "n \<in> set ns" by simp
  have "d \<in> all_deps ns (nodeFetchID n)"
    using dep_edges_into [OF assms(1) n] m(3) by (auto simp: all_deps_def)
  from deps_of_less [OF ac this] have less: "order_key ns m < order_key ns n"
    by (simp add: order_key_def length_deps_of m(2) less_prod_def)
  have "sorted (map (order_key ns) (us @ n # vs))" using srt by (metis sorted_sort_key)
  then have "\<forall>v \<in> set vs. order_key ns n \<le> order_key ns v" by (auto simp: sorted_append)
  with less m(1) set have "m \<in> set us" by (auto simp: leD)
  then show "d \<in> {} \<union> nodeFetchID ` set us" using m(2) by blast
qed


section \<open>Grouping into waves\<close>

fun resolveProvidedFetchIDs :: "'v FetchTreeNode list \<Rightarrow> int list"
  and providedByNode :: "'v FetchTreeNode \<Rightarrow> int list" where
  "resolveProvidedFetchIDs [] = []"
| "resolveProvidedFetchIDs (n # ns) = providedByNode n @ resolveProvidedFetchIDs ns"
| "providedByNode (Single it) = [item_id it]"
| "providedByNode (Parallel ts) = resolveProvidedFetchIDs ts"
| "providedByNode (Sequence ts) = resolveProvidedFetchIDs ts"
| "providedByNode (Trigger it) = []"

definition dependenciesCanBeProvided :: "'v FetchItem \<Rightarrow> int list \<Rightarrow> bool" where
  "dependenciesCanBeProvided it provided = list_all (\<lambda>dep. dep \<in> set provided) (item_deps it)"

text \<open>
  The inner loop of \<open>createParallelNodes\<close>: the later nodes whose dependencies are provided
  leave the list and join the group, the others keep their order.
\<close>

fun takeProvided :: "int list \<Rightarrow> 'v FetchTreeNode list \<Rightarrow>
    (wave_error, 'v FetchTreeNode list \<times> 'v FetchTreeNode list) result" where
  "takeProvided provided [] = Ok ([], [])"
| "takeProvided provided (n # ns) =
     (case node_item n of
        None \<Rightarrow> Err NilItem
      | Some it \<Rightarrow>
          res_bind (takeProvided provided ns) (\<lambda>(grp, rest).
            if dependenciesCanBeProvided it provided then Ok (n # grp, rest) else Ok (grp, n # rest)))"

lemma takeProvided_length: "takeProvided provided ns = Ok (grp, rest) \<Longrightarrow> length rest \<le> length ns"
  by (induction ns arbitrary: grp rest) (fastforce simp: res_bind_Ok_iff split: option.splits if_splits)+

function createParallelNodes_loop :: "'v FetchTreeNode list \<Rightarrow> 'v FetchTreeNode list \<Rightarrow>
    (wave_error, 'v FetchTreeNode list) result" where
  "createParallelNodes_loop front [] = Ok front"
| "createParallelNodes_loop front (n # ns) =
     (case takeProvided (resolveProvidedFetchIDs front) ns of
        Inl e \<Rightarrow> Err e
      | Inr (grp, rest) \<Rightarrow>
          createParallelNodes_loop (front @ [if grp = [] then n else Parallel (n # grp)]) rest)"
  by pat_completeness auto
termination
  by (relation "measure (\<lambda>(front, ns). length ns)") (auto dest!: takeProvided_length intro: le_imp_less_Suc)

definition createParallelNodes :: "bool \<Rightarrow> 'v FetchTreeNode list \<Rightarrow> (wave_error, 'v FetchTreeNode list) result" where
  "createParallelNodes disable ns = (if disable then Ok ns else createParallelNodes_loop [] ns)"

text \<open>Which of the stages that organize the tree are disabled.\<close>

record FetchTreeProcessors =
  schedule_disable :: bool
  multi_disable :: bool
  order_disable :: bool
  parallel_disable :: bool

definition organizeFetchTreeInWaves :: "FetchTreeProcessors \<Rightarrow> 'v FetchTreeRoot \<Rightarrow> (wave_error, 'v FetchTreeRoot) result" where
  "organizeFetchTreeInWaves p root =
     res_bind (orderSequenceByDependencies (order_disable p) (ChildNodes (Node root))) (\<lambda>ordered.
     res_bind (createParallelNodes (parallel_disable p) ordered) (\<lambda>ts.
       Ok (root\<lparr>Node := set_children ts (Node root)\<rparr>)))"

fun collectSingles :: "'v FetchTreeNode \<Rightarrow> 'v FetchTreeNode list" where
  "collectSingles (Single it) = [Single it]"
| "collectSingles (Trigger it) = []"
| "collectSingles (Sequence ts) = concat (map collectSingles ts)"
| "collectSingles (Parallel ts) = concat (map collectSingles ts)"

definition flattenFetchTree :: "'v FetchTreeRoot \<Rightarrow> 'v FetchTreeRoot" where
  "flattenFetchTree root =
     (if node_kind (Node root) \<noteq> KindSequence then root
      else root\<lparr>Node := Sequence (concat (map collectSingles (ChildNodes (Node root))))\<rparr>)"

text \<open>
  \<open>organizeFetchTree\<close>. The stage \<open>createMultiFetch\<close>, which merges entity fetches of the
  same wave, is the argument \<open>multi\<close>.
\<close>

definition organizeFetchTree ::
  "FetchTreeProcessors \<Rightarrow> ('v FetchTreeRoot \<Rightarrow> 'v FetchTreeRoot) \<Rightarrow> 'v FetchTreeRoot \<Rightarrow> (wave_error, 'v FetchTreeRoot) result" where
  "organizeFetchTree p multi root =
     (let run_multi = (\<lambda>r. if multi_disable p then r else multi r);
          fallback = (\<lambda>merged r. res_bind (organizeFetchTreeInWaves p r) (\<lambda>r'. Ok (if merged then r' else run_multi r')))
      in if \<not> schedule_disable p \<and> node_kind (Node root) = KindSequence
         then res_bind (if multi_disable p then Ok root
                        else res_bind (organizeFetchTreeInWaves p root) (\<lambda>r. Ok (flattenFetchTree (run_multi r))))
           (\<lambda>r. case scheduleFetches_ProcessFetchTree r of
                  Inr r' \<Rightarrow> Ok r'
                | Inl e \<Rightarrow> fallback (\<not> multi_disable p) r)
         else fallback False root)"

lemma resolveProvided_ids:
  fixes n :: "'v FetchTreeNode" and ns :: "'v FetchTreeNode list"
  shows "resolveProvidedFetchIDs ns = concat (map tree_ids ns)" "providedByNode n = tree_ids n"
  by (induction ns and n rule: resolveProvidedFetchIDs_providedByNode.induct) simp_all

lemma takeProvided_flat:
  "flat ns \<Longrightarrow> takeProvided provided ns =
     Ok (filter (\<lambda>n. set (node_deps n) \<subseteq> set provided) ns, filter (\<lambda>n. \<not> set (node_deps n) \<subseteq> set provided) ns)"
proof (induction ns)
  case (Cons n ns)
  then have "node_kind n = KindSingle" by (simp add: flat_def)
  then obtain it where "n = Single it" by (cases n) auto
  with Cons show ?case
    by (auto simp: flat_def node_deps_def dependenciesCanBeProvided_def list_all_iff)
qed simp

definition in_order :: "int set \<Rightarrow> 'v FetchTreeNode \<Rightarrow> bool" where
  "in_order K t \<longleftrightarrow> (\<forall>it \<in> set (tree_items t). set (item_deps it) \<inter> K \<subseteq> {d. (d, item_id it) \<in> precedes t})"

lemma in_order_iff:
  "in_order K t \<longleftrightarrow> (\<forall>it \<in> set (tree_items t). \<forall>dep \<in> set (item_deps it). dep \<in> K \<longrightarrow> (dep, item_id it) \<in> precedes t)"
  unfolding in_order_def by blast

lemma in_order_snoc:
  assumes "in_order K (Sequence ts)"
    and "\<forall>it \<in> set (tree_items t). set (item_deps it) \<inter> K \<subseteq> set (concat (map tree_ids ts))"
  shows "in_order K (Sequence (ts @ [t]))"
proof -
  have p: "precedes (Sequence (ts @ [t])) = precedes (Sequence ts) \<union> precedes t \<union> set (concat (map tree_ids ts)) \<times> set (tree_ids t)"
    by (auto simp: seq_pairs_append)
  show ?thesis unfolding in_order_def p
  proof
    fix it assume "it \<in> set (tree_items (Sequence (ts @ [t])))"
    then consider "it \<in> set (tree_items (Sequence ts))" | "it \<in> set (tree_items t)" by auto
    then show "set (item_deps it) \<inter> K \<subseteq> {d. (d, item_id it) \<in> precedes (Sequence ts) \<union> precedes t \<union>
        set (concat (map tree_ids ts)) \<times> set (tree_ids t)}"
    proof cases
      case 1
      then show ?thesis using assms(1) unfolding in_order_def by blast
    next
      case 2
      then show ?thesis using assms(2) item_id_in [OF 2] by blast
    qed
  qed
qed

lemma filter_split: "filter P xs = us @ m # vs \<Longrightarrow> \<exists>us' vs'. xs = us' @ m # vs' \<and> us = filter P us'"
proof (induction xs arbitrary: us)
  case (Cons x xs)
  show ?case
  proof (cases "P x \<and> us = []")
    case True
    with Cons.prems show ?thesis by (intro exI [of _ "[]"] exI [of _ xs]) auto
  next
    case False
    with Cons.prems have "\<exists>us2. filter P xs = us2 @ m # vs \<and> us = (if P x then x # us2 else us2)"
      by (cases us) (auto split: if_splits)
    then obtain us2 where u: "filter P xs = us2 @ m # vs" "us = (if P x then x # us2 else us2)" by blast
    from Cons.IH [OF u(1)] obtain us' vs' where "xs = us' @ m # vs'" "us2 = filter P us'" by blast
    with u(2) show ?thesis by (intro exI [of _ "x # us'"] exI [of _ vs']) auto
  qed
qed simp

lemma topological_filter:
  assumes top: "topological K B (n # ns)" and id: "nodeFetchID n \<in> B'"
    and B: "B \<subseteq> B'" "\<forall>m \<in> set ns. P m \<longrightarrow> nodeFetchID m \<in> B'"
  shows "topological K B' (filter (\<lambda>m. \<not> P m) ns)"
  unfolding topological_def
proof (intro allI impI)
  fix us m vs assume f: "filter (\<lambda>m. \<not> P m) ns = us @ m # vs"
  then obtain us' vs' where ns: "ns = us' @ m # vs'" and us: "us = filter (\<lambda>m. \<not> P m) us'"
    using filter_split [OF f] by blast
  have "n # ns = (n # us') @ m # vs'" using ns by simp
  with top have d: "set (node_deps m) \<inter> K \<subseteq> B \<union> nodeFetchID ` set (n # us')" unfolding topological_def by blast
  have "nodeFetchID ` set us' \<subseteq> B' \<union> nodeFetchID ` set us" using B(2) ns us by auto
  moreover have "set (node_deps m) \<inter> K \<subseteq> B \<union> {nodeFetchID n} \<union> nodeFetchID ` set us'" using d by simp
  ultimately show "set (node_deps m) \<inter> K \<subseteq> B' \<union> nodeFetchID ` set us" using id B(1) by blast
qed

lemma flat_filter: "flat ns \<Longrightarrow> flat (filter P ns)"
  by (simp add: flat_def list_all_iff)

lemma flat_items: "flat ns \<Longrightarrow> n \<in> set ns \<Longrightarrow> it \<in> set (tree_items n) \<Longrightarrow> n = Single it"
  by (cases n) (auto simp: flat_def list_all_iff)

lemma createParallelNodes_loop_correct:
  "flat ns \<Longrightarrow> in_order K (Sequence front) \<Longrightarrow> list_all runnable front \<Longrightarrow> topological K (set (concat (map tree_ids front))) ns \<Longrightarrow>
   \<exists>ts. createParallelNodes_loop front ns = Ok ts \<and> in_order K (Sequence ts) \<and> list_all runnable ts \<and>
     mset (concat (map tree_items ts)) = mset (concat (map tree_items (front @ ns)))"
proof (induction front ns rule: createParallelNodes_loop.induct)
  case (2 front n ns)
  let ?B = "set (concat (map tree_ids front))"
  let ?P = "\<lambda>m. set (node_deps m) \<subseteq> ?B"
  let ?grp = "filter ?P ns" and ?rest = "filter (\<lambda>m. \<not> ?P m) ns"
  let ?t = "if ?grp = [] then n else Parallel (n # ?grp)"
  have fl: "flat ns" "flat [n]" using "2.prems"(1) by (simp_all add: flat_def)
  have take: "takeProvided (resolveProvidedFetchIDs front) ns = Ok (?grp, ?rest)"
    using takeProvided_flat [OF fl(1)] by (simp add: resolveProvided_ids)
  obtain it where n: "n = Single it" using fl(2) by (cases n) (auto simp: flat_def)
  have items: "tree_items ?t = tree_items n @ concat (map tree_items ?grp)" by simp
  have ids: "tree_ids ?t = tree_ids n @ concat (map tree_ids ?grp)" by simp
  have head: "set (node_deps n) \<inter> K \<subseteq> ?B" using "2.prems"(4) unfolding topological_def by fastforce
  have "in_order K (Sequence (front @ [?t]))"
  proof (rule in_order_snoc [OF "2.prems"(2)], unfold items, rule ballI)
    fix i assume "i \<in> set (tree_items n @ concat (map tree_items ?grp))"
    then consider "i = it" | m where "m \<in> set ?grp" "i \<in> set (tree_items m)" using n by auto
    then show "set (item_deps i) \<inter> K \<subseteq> ?B"
    proof cases
      case 1
      then show ?thesis using head n by (simp add: node_deps_def)
    next
      case 2
      then have "m = Single i" using flat_items [OF flat_filter [OF fl(1)]] by blast
      then show ?thesis using 2(1) by (auto simp: node_deps_def)
    qed
  qed
  moreover have "topological K (set (concat (map tree_ids (front @ [?t])))) ?rest"
  proof (rule topological_filter [OF "2.prems"(4)])
    show "nodeFetchID n \<in> set (concat (map tree_ids (front @ [?t])))" using n by (simp add: nodeFetchID_def)
    show "\<forall>m \<in> set ns. ?P m \<longrightarrow> nodeFetchID m \<in> set (concat (map tree_ids (front @ [?t])))"
    proof (intro ballI impI)
      fix m assume m: "m \<in> set ns" "?P m"
      obtain i where "m = Single i" using fl(1) m(1) by (cases m) (auto simp: flat_def list_all_iff)
      then have "nodeFetchID m \<in> set (tree_ids m)" by (simp add: nodeFetchID_def)
      moreover have "m \<in> set ?grp" using m by simp
      ultimately have "nodeFetchID m \<in> set (concat (map tree_ids ?grp))" by fastforce
      then show "nodeFetchID m \<in> set (concat (map tree_ids (front @ [?t])))" unfolding map_append concat_append
        by (simp only: list.map concat.simps ids set_append Un_iff append_Nil2 simp_thms)
    qed
  qed auto
  moreover have "list_all runnable (front @ [?t])"
    using "2.prems"(1,3) n by (auto simp: flat_def list_all_iff) (metis FetchTreeNodeKind.distinct node_kind.simps runnable.simps(1) FetchTreeNode.exhaust)+
  ultimately obtain ts where ts: "createParallelNodes_loop (front @ [?t]) ?rest = Ok ts" "in_order K (Sequence ts)"
    "list_all runnable ts" "mset (concat (map tree_items ts)) = mset (concat (map tree_items ((front @ [?t]) @ ?rest)))"
    using "2.IH" [OF take refl flat_filter [OF fl(1)]] by blast
  have "mset (concat (map tree_items ?grp)) + mset (concat (map tree_items ?rest)) = mset (concat (map tree_items ns))"
    by (induction ns) auto
  then have "mset (concat (map tree_items ((front @ [?t]) @ ?rest))) = mset (concat (map tree_items (front @ n # ns)))"
    unfolding map_append concat_append list.map concat.simps items mset_append by (simp add: ac_simps)
  with ts take show ?case by (auto simp del: map_append)
qed auto


section \<open>The pipeline\<close>

lemma flat_nodes: "flat ns \<Longrightarrow> n \<in> set ns \<Longrightarrow> \<exists>it. n = Single it"
  by (cases n) (auto simp: flat_def list_all_iff)

lemma flat_ids: "flat ns \<Longrightarrow> nodeFetchID ` set ns = set (concat (map tree_ids ns))"
  using arg_cong [OF flat_nodeFetchID, of ns set] by simp

lemma dep_edges_known:
  assumes "(x, y) \<in> (dep_edges ns)\<^sup>+" and "x \<in> nodeFetchID ` set ns"
  shows "(x, y) \<in> (dep_edges ns \<inter> (nodeFetchID ` set ns) \<times> UNIV)\<^sup>+"
  using assms
proof (induction rule: trancl_induct)
  case (step y z)
  have "y \<in> nodeFetchID ` set ns" using step.hyps(1) by (auto simp: dep_edges_def elim: tranclE)
  with step show ?case by (meson IntI SigmaI UNIV_I trancl.trancl_into_trancl)
qed auto

lemma root_acyclic_dep_edges:
  assumes "flat ns" and "root_acyclic ns"
  shows "acyclic (dep_edges ns)"
proof -
  let ?R = "{(dep, item_id it) |dep it. it \<in> set (concat (map tree_items ns)) \<and>
     dep \<in> set (item_deps it) \<and> dep \<in> set (concat (map tree_ids ns))}"
  have sub: "dep_edges ns \<inter> (nodeFetchID ` set ns) \<times> UNIV \<subseteq> ?R"
  proof
    fix e assume "e \<in> dep_edges ns \<inter> (nodeFetchID ` set ns) \<times> UNIV"
    then obtain d n where e: "e = (d, nodeFetchID n)" "n \<in> set ns" "d \<in> set (node_deps n)" "d \<in> nodeFetchID ` set ns"
      by (auto simp: dep_edges_def)
    obtain it where n: "n = Single it" using flat_nodes [OF assms(1) e(2)] by blast
    have "it \<in> set (concat (map tree_items ns))" using e(2) n by force
    moreover have "d \<in> set (item_deps it)" "nodeFetchID n = item_id it"
      using e(3) n by (simp_all add: node_deps_def nodeFetchID_def)
    ultimately show "e \<in> ?R" using e(1,4) flat_ids [OF assms(1)] by blast
  qed
  have "(x, x) \<notin> (dep_edges ns)\<^sup>+" for x
  proof
    assume c: "(x, x) \<in> (dep_edges ns)\<^sup>+"
    then have "x \<in> nodeFetchID ` set ns" by (auto simp: dep_edges_def elim: tranclE)
    from dep_edges_known [OF c this] have "(x, x) \<in> ?R\<^sup>+" using sub trancl_mono by blast
    then show False using assms(2) unfolding root_acyclic_def acyclic_def by blast
  qed
  then show ?thesis by (simp add: acyclic_def)
qed

lemma flat_sort: "flat ns \<Longrightarrow> flat (sort_key k ns)"
  by (simp add: flat_def list_all_iff)

lemma topological_in_order:
  "flat ns \<Longrightarrow> in_order K (Sequence front) \<Longrightarrow> topological K (set (concat (map tree_ids front))) ns \<Longrightarrow> in_order K (Sequence (front @ ns))"
proof (induction ns arbitrary: front)
  case (Cons n ns)
  obtain it where n: "n = Single it" using flat_nodes [OF Cons.prems(1), of n] by auto
  have fl: "flat ns" using Cons.prems(1) by (simp add: flat_def)
  have "set (node_deps n) \<inter> K \<subseteq> set (concat (map tree_ids front))" using Cons.prems(3) unfolding topological_def by fastforce
  then have "in_order K (Sequence (front @ [n]))"
    by (intro in_order_snoc [OF Cons.prems(2)]) (simp add: n node_deps_def)
  moreover have "topological K (set (concat (map tree_ids (front @ [n])))) (filter (\<lambda>m. \<not> False) ns)"
    by (rule topological_filter [OF Cons.prems(3)]) (auto simp: n nodeFetchID_def)
  ultimately show ?case using Cons.IH [OF fl, of "front @ [n]"] by simp
qed simp

text \<open>Unless the ordering is disabled, the waves are in dependency order, with and without the grouping.\<close>

lemma waves_correct:
  assumes seq: "Node root = Sequence ns" and fl: "flat ns" and dist: "distinct (concat (map tree_ids ns))"
    and ac: "root_acyclic ns" and ord: "\<not> order_disable p"
  shows "\<exists>root'. organizeFetchTreeInWaves p root = Ok root' \<and> node_kind (Node root') = KindSequence \<and>
    mset (tree_items (Node root')) = mset (concat (map tree_items ns)) \<and> runnable (Node root') \<and>
    in_order (set (concat (map tree_ids ns))) (Node root') \<and>
    RootTrigger root' = RootTrigger root \<and> NormalizedQuery root' = NormalizedQuery root"
proof -
  let ?s = "sort_key (order_key ns) ns"
  let ?K = "set (concat (map tree_ids ns))"
  have d: "distinct (map nodeFetchID ns)" using dist flat_nodeFetchID [OF fl] by simp
  note acyc = root_acyclic_dep_edges [OF fl ac]
  have fls: "flat ?s" by (rule flat_sort [OF fl])
  have top: "topological ?K {} ?s" using orderSequence_topological [OF d acyc] flat_ids [OF fl] by simp
  have "\<exists>ts. createParallelNodes (parallel_disable p) ?s = Ok ts \<and> in_order ?K (Sequence ts) \<and>
    list_all runnable ts \<and> mset (concat (map tree_items ts)) = mset (concat (map tree_items ns))"
  proof (cases "parallel_disable p")
    case True
    have "in_order ?K (Sequence ?s)" using topological_in_order [OF fls, of ?K "[]"] top by (simp add: in_order_def)
    moreover have "list_all runnable ?s" using flat_nodes [OF fls] by (fastforce simp: list_all_iff)
    moreover have "mset (concat (map tree_items ?s)) = mset (concat (map tree_items ns))"
      by (simp add: mset_concat flip: sum_mset_sum_list)
    ultimately show ?thesis using True by (simp add: createParallelNodes_def)
  next
    case False
    then show ?thesis using createParallelNodes_loop_correct [OF fls, of ?K "[]"] top
      by (auto simp: createParallelNodes_def in_order_def)
  qed
  with orderSequence_key [OF fl d acyc] seq ord show ?thesis
    by (auto simp: organizeFetchTreeInWaves_def)
qed

lemma schedule_in_order:
  assumes seq: "Node root = Sequence ns" and fl: "flat ns" and dist: "distinct (concat (map tree_ids ns))"
    and ac: "root_acyclic ns"
  obtains r where "scheduleFetches_ProcessFetchTree root = Ok r" "mset (tree_items (Node r)) = mset (concat (map tree_items ns))"
    "runnable (Node r)" "in_order (set (concat (map tree_ids ns))) (Node r)" "RootTrigger r = RootTrigger root"
    "NormalizedQuery r = NormalizedQuery root"
proof -
  obtain r where r: "scheduleFetches_ProcessFetchTree root = Ok r" using process_iff [OF seq fl] dist ac by blast
  note p = process_result [OF seq fl r]
  have "in_order (set (concat (map tree_ids ns))) (Node r)"
    unfolding in_order_def using p(6) mset_eq_setD [OF p(1)] by blast
  with p r show ?thesis using that by blast
qed

lemma organizeFetchTree_correct:
  assumes seq: "Node root = Sequence ns" and fl: "flat ns" and dist: "distinct (concat (map tree_ids ns))"
    and ac: "root_acyclic ns" and multi: "multi_disable p" and ord: "order_disable p \<Longrightarrow> \<not> schedule_disable p"
  shows "\<exists>root'. organizeFetchTree p multi root = Ok root' \<and>
    mset (tree_items (Node root')) = mset (concat (map tree_items ns)) \<and> runnable (Node root') \<and>
    in_order (set (concat (map tree_ids ns))) (Node root') \<and>
    RootTrigger root' = RootTrigger root \<and> NormalizedQuery root' = NormalizedQuery root"
proof (cases "schedule_disable p")
  case True
  then have "\<not> order_disable p" using ord by blast
  from waves_correct [OF assms(1-4) this] show ?thesis using seq True multi by (auto simp: organizeFetchTree_def)
next
  case False
  obtain r where "scheduleFetches_ProcessFetchTree root = Ok r" "mset (tree_items (Node r)) = mset (concat (map tree_items ns))"
    "runnable (Node r)" "in_order (set (concat (map tree_ids ns))) (Node r)" "RootTrigger r = RootTrigger root"
    "NormalizedQuery r = NormalizedQuery root" by (rule schedule_in_order [OF assms(1-4)])
  with False seq multi show ?thesis by (auto simp: organizeFetchTree_def)
qed

text \<open>
  With the merging stage and the scheduler enabled, what is scheduled is the merged tree, flattened: the
  result has its fetches in dependency order whenever merging leaves a sequence in which no
  identifier is repeated and no dependencies are cyclic.
\<close>

lemma flat_collect: "flat (concat (map collectSingles ts))"
proof -
  have "node_kind n = KindSingle" if "n \<in> set (collectSingles t)" for n and t :: "'v FetchTreeNode"
    using that by (induction t) auto
  then show ?thesis by (auto simp: flat_def list_all_iff)
qed

lemma organizeFetchTree_merged:
  assumes seq: "Node root = Sequence ns" and enabled: "\<not> multi_disable p" "\<not> schedule_disable p"
    and waves: "organizeFetchTreeInWaves p root = Ok w" and m: "Node (multi w) = Sequence ts"
    and ms: "ms = concat (map collectSingles ts)" "distinct (concat (map tree_ids ms))" "root_acyclic ms"
  shows "\<exists>root'. organizeFetchTree p multi root = Ok root' \<and>
    mset (tree_items (Node root')) = mset (concat (map tree_items ms)) \<and> runnable (Node root') \<and>
    in_order (set (concat (map tree_ids ms))) (Node root') \<and>
    RootTrigger root' = RootTrigger (multi w) \<and> NormalizedQuery root' = NormalizedQuery (multi w)"
proof -
  let ?r = "flattenFetchTree (multi w)"
  have r: "Node ?r = Sequence ms" "RootTrigger ?r = RootTrigger (multi w)" "NormalizedQuery ?r = NormalizedQuery (multi w)"
    using m ms(1) by (simp_all add: flattenFetchTree_def)
  have fl: "flat ms" by (simp add: ms(1) flat_collect)
  obtain s where "scheduleFetches_ProcessFetchTree ?r = Ok s" "mset (tree_items (Node s)) = mset (concat (map tree_items ms))"
    "runnable (Node s)" "in_order (set (concat (map tree_ids ms))) (Node s)" "RootTrigger s = RootTrigger ?r"
    "NormalizedQuery s = NormalizedQuery ?r" by (rule schedule_in_order [OF r(1) fl ms(2,3)])
  then show ?thesis using enabled waves seq r by (auto simp: organizeFetchTree_def)
qed

text \<open>Cyclic dependencies: the scheduler reports them, the fallback recurses without end.\<close>

lemma fallback_cycle:
  assumes seq: "Node root = Sequence ns" and fl: "flat ns" and dist: "distinct (concat (map tree_ids ns))"
    and C: "C \<subseteq> set ns" "n \<in> C" "\<forall>n \<in> C. \<exists>m \<in> C. nodeFetchID m \<in> set (node_deps n)" and len: "length ns \<ge> 2"
    and ord: "\<not> order_disable p"
  shows "organizeFetchTreeInWaves p root = Err StackOverflow"
proof -
  have d: "distinct (map nodeFetchID ns)" using dist flat_nodeFetchID [OF fl] by simp
  have "nodeDependsOn (length ns) n ns = Err StackOverflow" using nodeDependsOn_cycle [OF d C(1,3,2)] .
  moreover have "n \<in> set ns" using C(1,2) by blast
  ultimately obtain e where e: "res_map (\<lambda>n. nodeDependsOn (length ns) n ns) ns = Inl e"
    using res_map_Err [of n ns "\<lambda>n. nodeDependsOn (length ns) n ns"] by blast
  then have "e = StackOverflow" using res_map_Err_from [OF e] nodeDependsOn_error by blast
  with e len seq ord flat_has_item [OF fl] show ?thesis
    by (simp add: organizeFetchTreeInWaves_def orderSequenceByDependencies_def)
qed

lemma cycle_not_acyclic:
  assumes fl: "flat ns" and C: "C \<subseteq> set ns" "n \<in> C" "\<forall>n \<in> C. \<exists>m \<in> C. nodeFetchID m \<in> set (node_deps n)"
  shows "\<not> acyclic (dep_edges ns)"
proof
  assume ac: "acyclic (dep_edges ns)"
  have "wf (dep_edges ns)" using ac by (rule finite_acyclic_wf [OF finite_dep_edges])
  then obtain z where z: "z \<in> nodeFetchID ` C" "\<And>y. (y, z) \<in> dep_edges ns \<Longrightarrow> y \<notin> nodeFetchID ` C"
    using C(2) by (metis wfE_min imageI)
  then obtain k where k: "k \<in> C" "z = nodeFetchID k" by auto
  obtain m where m: "m \<in> C" "nodeFetchID m \<in> set (node_deps k)" using C(3) k(1) by blast
  have "(nodeFetchID m, z) \<in> dep_edges ns" using m(2) k C(1) unfolding dep_edges_def by blast
  from z(2) [OF this] m(1) show False by blast
qed

lemma organize_cycle:
  assumes "Node root = Sequence ns" and "flat ns" and "distinct (concat (map tree_ids ns))"
    and "C \<subseteq> set ns" "n \<in> C" "\<forall>n \<in> C. \<exists>m \<in> C. nodeFetchID m \<in> set (node_deps n)" and "length ns \<ge> 2"
    and "\<not> order_disable p" "multi_disable p"
  shows "organizeFetchTree p multi root = Err StackOverflow"
proof -
  note fb = fallback_cycle [OF assms(1-8)]
  have "\<not> root_acyclic ns" using cycle_not_acyclic [OF assms(2,4-6)] root_acyclic_dep_edges [OF assms(2)] by blast
  then obtain e where "scheduleFetches_ProcessFetchTree root = Inl e"
    using process_iff [OF assms(1,2)] by (cases "scheduleFetches_ProcessFetchTree root") auto
  with fb assms(1,9) show ?thesis by (cases "schedule_disable p") (auto simp: organizeFetchTree_def)
qed

end
