(* ===== verification/Lexer.thy ===== *)
theory Lexer
  imports GQL_Prelude "HOL-Library.Char_ord" "HOL-Library.Word"
begin

text \<open>
  The GraphQL lexer: \<open>ast.Input\<close> (\<open>v2/pkg/ast/input.go\<close>), positions and tokens
  (\<open>v2/pkg/lexer/position\<close>, \<open>token\<close>, \<open>keyword\<close>, \<open>identkeyword\<close>, \<open>runes\<close>) and the
  functions of \<open>v2/pkg/lexer/lexer.go\<close>. A byte is a \<open>char\<close>, the \<open>uint32\<close> positions are
  \<open>32 word\<close>. The input is the state every function passes on; the guards of the code keep
  \<open>InputPosition\<close> below \<open>Length\<close>, and \<open>input_ok\<close> says that \<open>Length\<close> is the
  length of the bytes, so that no access is out of range.
\<close>

section \<open>Input, positions and tokens\<close>

record Position =
  LineStart :: "32 word"
  LineEnd :: "32 word"
  CharStart :: "32 word"
  CharEnd :: "32 word"

definition Position_Reset :: Position where
  "Position_Reset = \<lparr>LineStart = 1, LineEnd = 1, CharStart = 1, CharEnd = 1\<rparr>"

definition MergeStartIntoStart :: "Position \<Rightarrow> Position \<Rightarrow> Position" where
  "MergeStartIntoStart p q = p\<lparr>LineStart := LineStart q, CharStart := CharStart q\<rparr>"

definition MergeStartIntoEnd :: "Position \<Rightarrow> Position \<Rightarrow> Position" where
  "MergeStartIntoEnd p q = p\<lparr>LineEnd := LineStart q, CharEnd := CharStart q\<rparr>"

definition MergeEndIntoEnd :: "Position \<Rightarrow> Position \<Rightarrow> Position" where
  "MergeEndIntoEnd p q = p\<lparr>LineEnd := LineEnd q, CharEnd := CharEnd q\<rparr>"

definition IsBefore :: "Position \<Rightarrow> Position \<Rightarrow> bool" where
  "IsBefore p q \<longleftrightarrow> LineEnd p < LineStart q \<or> (LineEnd p = LineStart q \<and> CharEnd p < CharStart q)"

record ByteSliceReference =
  RefStart :: "32 word"
  RefEnd :: "32 word"

definition Ref_Length :: "ByteSliceReference \<Rightarrow> 32 word" where
  "Ref_Length b = RefEnd b - RefStart b"

record Input =
  RawBytes :: string
  Length :: nat
  InputPosition :: nat
  TextPosition :: Position
  InputVariables :: string

definition Input_Reset :: "Input \<Rightarrow> Input" where
  "Input_Reset i = i\<lparr>RawBytes := [], InputVariables := [], InputPosition := 0, TextPosition := Position_Reset\<rparr>"

definition AppendInputBytes :: "string \<Rightarrow> Input \<Rightarrow> ByteSliceReference \<times> Input" where
  "AppendInputBytes bytes i =
     (let raw = RawBytes i @ bytes in
      (\<lparr>RefStart = of_nat (length (RawBytes i)), RefEnd = of_nat (length raw)\<rparr>,
       i\<lparr>RawBytes := raw, Length := length raw\<rparr>))"

definition ResetInputBytes :: "string \<Rightarrow> Input \<Rightarrow> Input" where
  "ResetInputBytes bytes i =
     (case AppendInputBytes bytes (Input_Reset i) of (ref, i') \<Rightarrow> i'\<lparr>Length := length (RawBytes i')\<rparr>)"

text \<open>Slicing panics in Go unless \<open>start \<le> end \<le> len\<close>; \<open>None\<close> is the panic.\<close>

definition Input_ByteSlice :: "Input \<Rightarrow> ByteSliceReference \<Rightarrow> string option" where
  "Input_ByteSlice i r =
     (if RefStart r \<le> RefEnd r \<and> unat (RefEnd r) \<le> length (RawBytes i)
      then Some (take (unat (RefEnd r) - unat (RefStart r)) (drop (unat (RefStart r)) (RawBytes i)))
      else None)"

text \<open>
  \<open>ByteSliceReferenceContentEquals\<close> compares the bytes at the two references; an index out of
  range panics.
\<close>

definition ByteSliceReferenceContentEquals :: "Input \<Rightarrow> ByteSliceReference \<Rightarrow> ByteSliceReference \<Rightarrow> bool option" where
  "ByteSliceReferenceContentEquals i left right =
     (if Ref_Length left \<noteq> Ref_Length right then Some False
      else (let n = unat (Ref_Length left); s = unat (RefStart left); t = unat (RefStart right); raw = RawBytes i in
        foldl (\<lambda>acc k. case acc of
                   Some True \<Rightarrow> (if s + k < length raw \<and> t + k < length raw then Some (raw ! (s + k) = raw ! (t + k)) else None)
                 | _ \<Rightarrow> acc) (Some True) [0..<n]))"

datatype Keyword =
  K_UNDEFINED | K_IDENT | K_COMMENT | K_EOF | K_COLON | K_BANG | K_LT | K_TAB | K_SPACE | K_COMMA | K_AT | K_DOT
| K_SPREAD | K_PIPE | K_SLASH | K_EQUALS | K_SUB | K_AND | K_QUOTE | K_DOLLAR | K_STRING | K_BLOCKSTRING
| K_INTEGER | K_FLOAT | K_LPAREN | K_RPAREN | K_LBRACK | K_RBRACK | K_LBRACE | K_RBRACE

record Token =
  TokKeyword :: Keyword
  Literal :: ByteSliceReference
  TokPosition :: Position

definition zero_token :: Token where
  "zero_token = \<lparr>TokKeyword = K_UNDEFINED, Literal = \<lparr>RefStart = 0, RefEnd = 0\<rparr>,
     TokPosition = \<lparr>LineStart = 0, LineEnd = 0, CharStart = 0, CharEnd = 0\<rparr>\<rparr>"

definition SetStart :: "nat \<Rightarrow> Position \<Rightarrow> Token \<Rightarrow> Token" where
  "SetStart pos tp t = t\<lparr>Literal := (Literal t)\<lparr>RefStart := of_nat pos\<rparr>,
     TokPosition := (TokPosition t)\<lparr>LineStart := LineStart tp, CharStart := CharStart tp\<rparr>\<rparr>"

definition SetEnd :: "nat \<Rightarrow> Position \<Rightarrow> Token \<Rightarrow> Token" where
  "SetEnd pos tp t = t\<lparr>Literal := (Literal t)\<lparr>RefEnd := of_nat pos\<rparr>,
     TokPosition := (TokPosition t)\<lparr>LineEnd := LineStart tp, CharEnd := CharStart tp\<rparr>\<rparr>"

section \<open>Keywords of identifiers\<close>

datatype IdentKeyword =
  I_UNDEFINED | I_ON | I_TRUE | I_FALSE | I_NULL | I_QUERY | I_MUTATION | I_SUBSCRIPTION | I_FRAGMENT
| I_IMPLEMENTS | I_SCHEMA | I_SCALAR | I_TYPE | I_INTERFACE | I_UNION | I_ENUM | I_INPUT | I_DIRECTIVE
| I_EXTEND | I_REPEATABLE

text \<open>The source dispatches on the length and compares byte by byte.\<close>

definition KeywordFromLiteral :: "string \<Rightarrow> IdentKeyword" where
  "KeywordFromLiteral lit =
     (let n = length lit in
      if n = 2 then (if lit = ''on'' then I_ON else I_UNDEFINED)
      else if n = 4 then (if lit = ''null'' then I_NULL else if lit = ''enum'' then I_ENUM
            else if lit ! 0 = CHR ''t''
                 then (if drop 1 lit = ''rue'' then I_TRUE else if drop 1 lit = ''ype'' then I_TYPE else I_UNDEFINED)
            else I_UNDEFINED)
      else if n = 5 then (if lit = ''false'' then I_FALSE else if lit = ''union'' then I_UNION
            else if lit = ''query'' then I_QUERY else if lit = ''input'' then I_INPUT else I_UNDEFINED)
      else if n = 6 then (if lit = ''extend'' then I_EXTEND
            else if lit ! 0 = CHR ''s''
                 then (if drop 1 lit = ''chema'' then I_SCHEMA else if drop 1 lit = ''calar'' then I_SCALAR else I_UNDEFINED)
            else I_UNDEFINED)
      else if n = 8 then (if lit = ''mutation'' then I_MUTATION else if lit = ''fragment'' then I_FRAGMENT else I_UNDEFINED)
      else if n = 9 then (if lit = ''interface'' then I_INTERFACE else if lit = ''directive'' then I_DIRECTIVE else I_UNDEFINED)
      else if n = 10 then (if lit = ''implements'' then I_IMPLEMENTS else if lit = ''repeatable'' then I_REPEATABLE else I_UNDEFINED)
      else if n = 12 then (if lit = ''subscription'' then I_SUBSCRIPTION else I_UNDEFINED)
      else I_UNDEFINED)"


section \<open>The lexer\<close>

text \<open>The constants of package \<open>runes\<close>.\<close>

abbreviation "R_EOF \<equiv> CHR 0x00"
abbreviation "R_CR \<equiv> CHR 0x0D"
abbreviation "R_LF \<equiv> CHR 0x0A"
abbreviation "R_TAB \<equiv> CHR 0x09"
abbreviation "R_SPACE \<equiv> CHR 0x20"
abbreviation "R_COMMA \<equiv> CHR 0x2C"
abbreviation "R_HASHTAG \<equiv> CHR 0x23"
abbreviation "R_QUOTE \<equiv> CHR 0x22"
abbreviation "R_BACKSLASH \<equiv> CHR 0x5C"
abbreviation "R_DOT \<equiv> CHR 0x2E"
abbreviation "R_SUB \<equiv> CHR 0x2D"
abbreviation "R_ADD \<equiv> CHR 0x2B"

definition runeIsDigit :: "char \<Rightarrow> bool" where
  "runeIsDigit r \<longleftrightarrow> CHR ''0'' \<le> r \<and> r \<le> CHR ''9''"

definition runeIsIdent :: "char \<Rightarrow> bool" where
  "runeIsIdent r \<longleftrightarrow>
     (CHR ''a'' \<le> r \<and> r \<le> CHR ''z'') \<or> (CHR ''A'' \<le> r \<and> r \<le> CHR ''Z'') \<or> (CHR ''0'' \<le> r \<and> r \<le> CHR ''9'') \<or>
     r = R_SUB \<or> r = CHR ''_''"

definition byteIsWhitespace :: "char \<Rightarrow> bool" where
  "byteIsWhitespace r \<longleftrightarrow> r = R_SPACE \<or> r = R_TAB \<or> r = R_CR \<or> r = R_LF \<or> r = R_COMMA"

definition advance :: "char \<Rightarrow> Input \<Rightarrow> Input" where
  "advance r i = i\<lparr>TextPosition := (if r = R_LF
       then (TextPosition i)\<lparr>LineStart := LineStart (TextPosition i) + 1, CharStart := 1\<rparr>
       else (TextPosition i)\<lparr>CharStart := CharStart (TextPosition i) + 1\<rparr>),
     InputPosition := InputPosition i + 1\<rparr>"

definition readRune :: "Input \<Rightarrow> char \<times> Input" where
  "readRune i =
     (if InputPosition i < Length i
      then (let r = RawBytes i ! InputPosition i in (r, advance r i))
      else (R_EOF, i))"

text \<open>The bytes left to read; every loop of the lexer makes this list shorter.\<close>

definition remaining :: "Input \<Rightarrow> nat" where
  "remaining i = Length i - InputPosition i"

lemma readRune_less: "readRune i = (r, i') \<Longrightarrow> r \<noteq> R_EOF \<Longrightarrow> remaining i' < remaining i"
  by (auto simp: readRune_def remaining_def advance_def Let_def split: if_splits)

fun peekRune_from :: "bool \<Rightarrow> string \<Rightarrow> char" where
  "peekRune_from ignoreWhitespace [] = R_EOF"
| "peekRune_from ignoreWhitespace (r # rs) =
     (if \<not> ignoreWhitespace then r
      else if \<not> byteIsWhitespace r then r
      else peekRune_from ignoreWhitespace rs)"

text \<open>The loop of \<open>peekRune\<close> runs over the bytes from \<open>InputPosition\<close> to \<open>Length\<close>.\<close>

definition bytes_left :: "Input \<Rightarrow> string" where
  "bytes_left i = take (Length i - InputPosition i) (drop (InputPosition i) (RawBytes i))"

definition peekRune :: "bool \<Rightarrow> Input \<Rightarrow> char" where
  "peekRune ignoreWhitespace i = peekRune_from ignoreWhitespace (bytes_left i)"

definition peekWhitespaceLength :: "Input \<Rightarrow> nat" where
  "peekWhitespaceLength i = length (takeWhile byteIsWhitespace (bytes_left i))"

definition peekEquals :: "bool \<Rightarrow> string \<Rightarrow> Input \<Rightarrow> bool" where
  "peekEquals ignoreWhitespace equals i =
     (let whitespaceOffset = (if ignoreWhitespace then peekWhitespaceLength i else 0);
          start = InputPosition i + whitespaceOffset;
          end' = InputPosition i + length equals + whitespaceOffset
      in if end' > Length i then False
         else list_all (\<lambda>k. RawBytes i ! (start + k) = equals ! k) [0..<length equals])"

fun swallowAmount :: "nat \<Rightarrow> Input \<Rightarrow> Input" where
  "swallowAmount 0 i = i"
| "swallowAmount (Suc n) i = swallowAmount n (snd (readRune i))"

fun matchSingleRuneToken :: "char \<Rightarrow> Keyword option" where
  "matchSingleRuneToken r =
     (if r = R_EOF then Some K_EOF
      else if r = CHR ''|'' then Some K_PIPE
      else if r = CHR ''='' then Some K_EQUALS
      else if r = CHR ''@'' then Some K_AT
      else if r = CHR '':'' then Some K_COLON
      else if r = CHR ''!'' then Some K_BANG
      else if r = CHR ''('' then Some K_LPAREN
      else if r = CHR '')'' then Some K_RPAREN
      else if r = CHR ''{'' then Some K_LBRACE
      else if r = CHR ''}'' then Some K_RBRACE
      else if r = CHR ''['' then Some K_LBRACK
      else if r = CHR '']'' then Some K_RBRACK
      else if r = CHR ''&'' then Some K_AND
      else if r = R_SUB then Some K_SUB
      else if r = CHR ''$'' then Some K_DOLLAR
      else None)"

declare matchSingleRuneToken.simps [simp del]

definition endHere :: "Input \<Rightarrow> Token \<Rightarrow> Token" where
  "endHere i tok = SetEnd (InputPosition i) (TextPosition i) tok"

definition withKeyword :: "Keyword \<Rightarrow> Token \<Rightarrow> Token" where
  "withKeyword k tok = tok\<lparr>TokKeyword := k\<rparr>"

text \<open>\<open>readIdent\<close> advances without looking for line ends; no identifier byte is one.\<close>

function readIdent :: "Input \<Rightarrow> Input" where
  "readIdent i =
     (if InputPosition i < Length i then
        (if \<not> runeIsIdent (RawBytes i ! InputPosition i) then i
         else readIdent (i\<lparr>TextPosition := (TextPosition i)\<lparr>CharStart := CharStart (TextPosition i) + 1\<rparr>,
                           InputPosition := InputPosition i + 1\<rparr>))
      else i)"
  by pat_completeness auto
termination by (relation "measure remaining") (auto simp: remaining_def)

declare readIdent.simps [simp del]

definition readDotOrSpread :: "Token \<Rightarrow> Input \<Rightarrow> Token \<times> Input" where
  "readDotOrSpread tok i =
     (if peekEquals False [R_DOT, R_DOT] i
      then (let i' = swallowAmount 2 i in (endHere i' (withKeyword K_SPREAD tok), i'))
      else (endHere i (withKeyword K_DOT tok), i))"

function readComment_loop :: "Token \<Rightarrow> Input \<Rightarrow> Token \<times> Input" where
  "readComment_loop tok i =
     (case readRune i of (next, i') \<Rightarrow>
        if next = R_EOF then (tok, i')
        else if next = R_CR \<or> next = R_LF
             then (if peekRune True i' \<noteq> R_HASHTAG then (tok, i') else readComment_loop tok i')
             else readComment_loop (endHere i' tok) i')"
  by pat_completeness auto
termination by (relation "measure (\<lambda>(tok, i). remaining i)") (auto dest: readRune_less [OF sym])

declare readComment_loop.simps [simp del]

definition readComment :: "Token \<Rightarrow> Input \<Rightarrow> Token \<times> Input" where
  "readComment tok i = readComment_loop (endHere i (withKeyword K_COMMENT tok)) i"


lemma peekRune_nonempty: "peekRune False i \<noteq> R_EOF \<Longrightarrow> InputPosition i < Length i"
  by (rule ccontr) (simp add: peekRune_def bytes_left_def)

lemma runeIsDigit_EOF [simp]: "\<not> runeIsDigit R_EOF"
  by (simp add: runeIsDigit_def less_eq_char_def)

text \<open>The loop that reads digits, in \<open>readDigit\<close> and twice in \<open>readFloat\<close>.\<close>

function skipDigits :: "Input \<Rightarrow> char \<times> Input" where
  "skipDigits i =
     (let r = peekRune False i in
      if \<not> runeIsDigit r then (r, i) else skipDigits (snd (readRune i)))"
  by pat_completeness auto
termination
proof (relation "measure remaining", goal_cases)
  case (2 i r)
  then have "peekRune False i \<noteq> R_EOF" by auto
  then have "InputPosition i < Length i" by (rule peekRune_nonempty)
  then show ?case by (simp add: readRune_def remaining_def advance_def Let_def)
qed simp

declare skipDigits.simps [simp del]

definition readFloat :: "bool \<Rightarrow> Token \<Rightarrow> Input \<Rightarrow> Token \<times> Input" where
  "readFloat hasReadExponentAlready tok i =
     (case skipDigits i of (r, i1) \<Rightarrow>
        if hasReadExponentAlready then (endHere i1 (withKeyword K_FLOAT tok), i1)
        else
          (let optionalExponent = peekRune False i1;
               i2 = (if optionalExponent = CHR ''e'' \<or> optionalExponent = CHR ''E'' then snd (readRune i1) else i1);
               optionalPlusMinus = peekRune False i2;
               i3 = (if optionalPlusMinus = R_SUB \<or> optionalPlusMinus = R_ADD then snd (readRune i2) else i2)
           in case skipDigits i3 of (r', i4) \<Rightarrow> (endHere i4 (withKeyword K_FLOAT tok), i4)))"

definition readDigit :: "Token \<Rightarrow> Input \<Rightarrow> Token \<times> Input" where
  "readDigit tok i =
     (case skipDigits i of (r, i1) \<Rightarrow>
        (let hasExponent = (r = CHR ''e'' \<or> r = CHR ''E'');
             isFloat = (r = R_DOT \<or> hasExponent)
         in if isFloat then readFloat hasExponent tok (snd (readRune i1))
            else (endHere i1 (withKeyword K_INTEGER tok), i1)))"

text \<open>
  The loop of \<open>readBlockString\<close>. \<open>trim\<close> is the adjustment of both ends on the way out.
\<close>

definition trim :: "nat \<Rightarrow> nat \<Rightarrow> Token \<Rightarrow> Token" where
  "trim leading whitespaceCount tok =
     tok\<lparr>Literal := \<lparr>RefStart = RefStart (Literal tok) + of_nat leading,
                     RefEnd = RefEnd (Literal tok) - of_nat whitespaceCount\<rparr>\<rparr>"

function blockString_loop :: "bool \<Rightarrow> nat \<Rightarrow> nat \<Rightarrow> bool \<Rightarrow> nat \<Rightarrow> Token \<Rightarrow> Input \<Rightarrow> Token \<times> Input" where
  "blockString_loop escaped quoteCount whitespaceCount reached leading tok i =
     (case readRune i of (next, i') \<Rightarrow>
        if next = R_SPACE \<or> next = R_TAB \<or> next = R_CR \<or> next = R_LF
        then blockString_loop False 0 (whitespaceCount + 1) reached leading tok i'
        else if next = R_EOF
        then (trim leading whitespaceCount (SetEnd (InputPosition i') (TextPosition i') tok), i')
        else if next = R_QUOTE
        then (if escaped then blockString_loop False quoteCount whitespaceCount reached leading tok i'
              else if quoteCount + 1 = 3
              then (trim leading whitespaceCount (SetEnd (InputPosition i' - 3) (TextPosition i') tok), i')
              else blockString_loop escaped (quoteCount + 1) whitespaceCount reached leading tok i')
        else if next = R_BACKSLASH
        then blockString_loop (\<not> escaped) 0 0 reached leading tok i'
        else blockString_loop False 0 0 True (if reached then leading else whitespaceCount) tok i')"
  by pat_completeness auto
termination
  by (relation "measure (\<lambda>(_, _, _, _, _, _, i). remaining i)") (auto dest: readRune_less [OF sym])

declare blockString_loop.simps [simp del]

definition shiftBack :: "32 word \<Rightarrow> Token \<Rightarrow> Token" where
  "shiftBack n tok = tok\<lparr>TokPosition := (TokPosition tok)\<lparr>CharStart := CharStart (TokPosition tok) - n\<rparr>\<rparr>"

definition readBlockString :: "Token \<Rightarrow> Input \<Rightarrow> Token \<times> Input" where
  "readBlockString tok i =
     blockString_loop False 0 0 False 0
       (shiftBack 3 (SetStart (InputPosition i) (TextPosition i) (withKeyword K_BLOCKSTRING tok))) i"

function singleLineString_loop :: "bool \<Rightarrow> Token \<Rightarrow> Input \<Rightarrow> Token \<times> Input" where
  "singleLineString_loop escaped tok i =
     (case readRune i of (next, i') \<Rightarrow>
        if next = R_SPACE \<or> next = R_TAB then singleLineString_loop False tok i'
        else if next = R_EOF then (SetEnd (InputPosition i') (TextPosition i') tok, i')
        else if next = R_QUOTE \<or> next = R_CR \<or> next = R_LF
        then (if escaped then singleLineString_loop False tok i'
              else (SetEnd (InputPosition i' - 1) (TextPosition i') tok, i'))
        else if next = R_BACKSLASH then singleLineString_loop (\<not> escaped) tok i'
        else singleLineString_loop False tok i')"
  by pat_completeness auto
termination
  by (relation "measure (\<lambda>(_, _, i). remaining i)") (auto dest: readRune_less [OF sym])

declare singleLineString_loop.simps [simp del]

definition readSingleLineString :: "Token \<Rightarrow> Input \<Rightarrow> Token \<times> Input" where
  "readSingleLineString tok i =
     singleLineString_loop False
       (shiftBack 1 (SetStart (InputPosition i) (TextPosition i) (withKeyword K_STRING tok))) i"

definition readString :: "Token \<Rightarrow> Input \<Rightarrow> Token \<times> Input" where
  "readString tok i =
     (if peekEquals False [R_QUOTE, R_QUOTE] i then readBlockString tok (swallowAmount 2 i)
      else readSingleLineString tok i)"

text \<open>The loop at the start of \<open>Read\<close>: the state before the first other byte, that byte, the state after it.\<close>

function skipWhitespace :: "Input \<Rightarrow> Input \<times> char \<times> Input" where
  "skipWhitespace i =
     (case readRune i of (next, i') \<Rightarrow>
        if \<not> byteIsWhitespace next then (i, next, i') else skipWhitespace i')"
  by pat_completeness auto
termination
  by (relation "measure remaining") (auto dest!: readRune_less [OF sym] simp: byteIsWhitespace_def)

declare skipWhitespace.simps [simp del]

definition Read :: "Input \<Rightarrow> Token \<times> Input" where
  "Read i =
     (case skipWhitespace i of (i0, next, i1) \<Rightarrow>
        (let tok = SetStart (InputPosition i0) (TextPosition i0) zero_token in
         case matchSingleRuneToken next of
           Some k \<Rightarrow> (endHere i1 (withKeyword k tok), i1)
         | None \<Rightarrow>
             if next = R_HASHTAG then readComment tok i1
             else if next = R_QUOTE then readString tok i1
             else if next = R_DOT then readDotOrSpread tok i1
             else if runeIsDigit next then readDigit tok i1
             else (let i2 = readIdent i1 in (endHere i2 (withKeyword K_IDENT tok), i2))))"

section \<open>Progress\<close>

text \<open>Every function leaves the bytes alone and moves the position forward, never past the end.\<close>

definition input_ok :: "Input \<Rightarrow> bool" where
  "input_ok i \<longleftrightarrow> Length i = length (RawBytes i) \<and> InputPosition i \<le> Length i"

definition forward :: "Input \<Rightarrow> Input \<Rightarrow> bool" where
  "forward i i' \<longleftrightarrow> RawBytes i' = RawBytes i \<and> Length i' = Length i \<and>
     InputPosition i \<le> InputPosition i' \<and> (InputPosition i \<le> Length i \<longrightarrow> InputPosition i' \<le> Length i)"

lemma forward_refl [simp, intro]: "forward i i"
  by (simp add: forward_def)

lemma forward_trans: "forward i j \<Longrightarrow> forward j k \<Longrightarrow> forward i k"
  by (auto simp: forward_def)

lemma forward_ok: "forward i j \<Longrightarrow> input_ok i \<Longrightarrow> input_ok j"
  by (auto simp: forward_def input_ok_def)

lemma forward_readRune: "readRune i = (r, j) \<Longrightarrow> forward i j"
  by (auto simp: readRune_def forward_def advance_def Let_def split: if_splits)

lemma forward_snd_readRune [simp]: "forward i (snd (readRune i))"
  using forward_readRune [of i] by (cases "readRune i") auto

lemma forward_swallow: "forward i (swallowAmount n i)"
  by (induction n i rule: swallowAmount.induct) (auto intro: forward_trans forward_snd_readRune)

lemma forward_readIdent: "forward i (readIdent i)"
proof (induction i rule: readIdent.induct)
  case (1 i)
  then show ?case
    by (subst readIdent.simps) (auto intro!: forward_trans [OF _ "1.IH"] simp: forward_def)
qed

lemma forward_skipDigits: "skipDigits i = (r, j) \<Longrightarrow> forward i j"
proof (induction i arbitrary: r j rule: skipDigits.induct)
  case (1 i)
  show ?case
  proof (cases "runeIsDigit (peekRune False i)")
    case True
    with "1.prems" have "skipDigits (snd (readRune i)) = (r, j)" by (subst (asm) skipDigits.simps) simp
    with "1.IH" [OF refl] True show ?thesis by (meson forward_trans forward_snd_readRune)
  next
    case False
    with "1.prems" show ?thesis by (subst (asm) skipDigits.simps) auto
  qed
qed

lemma forward_comment: "readComment_loop tok i = (t, j) \<Longrightarrow> forward i j"
proof (induction tok i rule: readComment_loop.induct)
  case (1 tok i)
  obtain c i' where r: "readRune i = (c, i')" by force
  note f = forward_readRune [OF r]
  show ?case using "1.prems" "1.IH" [OF r [symmetric]] r f
    by (subst (asm) readComment_loop.simps) (auto split: if_splits intro: forward_trans)
qed

lemma forward_block: "blockString_loop e q w r l tok i = (t, j) \<Longrightarrow> forward i j"
proof (induction e q w r l tok i rule: blockString_loop.induct)
  case (1 e q w r l tok i)
  obtain c i' where rr: "readRune i = (c, i')" by force
  note f = forward_readRune [OF rr]
  show ?case using "1.prems" "1.IH" [OF rr [symmetric]] rr f
    by (subst (asm) blockString_loop.simps) (auto split: if_splits intro: forward_trans)
qed

lemma forward_single: "singleLineString_loop e tok i = (t, j) \<Longrightarrow> forward i j"
proof (induction e tok i rule: singleLineString_loop.induct)
  case (1 e tok i)
  obtain c i' where rr: "readRune i = (c, i')" by force
  note f = forward_readRune [OF rr]
  show ?case using "1.prems" "1.IH" [OF rr [symmetric]] rr f
    by (subst (asm) singleLineString_loop.simps) (auto split: if_splits intro: forward_trans)
qed


lemma forward_skipWhitespace:
  "skipWhitespace i = (i0, c, i1) \<Longrightarrow> forward i i0 \<and> readRune i0 = (c, i1) \<and> \<not> byteIsWhitespace c"
proof (induction i rule: skipWhitespace.induct)
  case (1 i)
  obtain c' i' where rr: "readRune i = (c', i')" by force
  show ?case using "1.prems" "1.IH" [OF rr [symmetric]] rr forward_readRune [OF rr]
    by (subst (asm) skipWhitespace.simps) (auto split: if_splits intro: forward_trans)
qed

lemma forward_readFloat: "readFloat b tok i = (t, j) \<Longrightarrow> forward i j"
proof -
  assume r: "readFloat b tok i = (t, j)"
  obtain r1 i1 where s1: "skipDigits i = (r1, i1)" by force
  note f = forward_skipDigits [OF s1]
  show ?thesis
  proof (cases b)
    case True
    with r s1 f show ?thesis by (simp add: readFloat_def)
  next
    case False
    define i2 where "i2 = (if peekRune False i1 = CHR ''e'' \<or> peekRune False i1 = CHR ''E'' then snd (readRune i1) else i1)"
    define i3 where "i3 = (if peekRune False i2 = R_SUB \<or> peekRune False i2 = R_ADD then snd (readRune i2) else i2)"
    obtain r4 i4 where s4: "skipDigits i3 = (r4, i4)" by force
    have "j = i4" using r False unfolding readFloat_def s1 prod.case Let_def
      unfolding i2_def [symmetric] unfolding i3_def [symmetric] s4 by simp
    moreover have "forward i1 i2" "forward i2 i3" by (simp_all add: i2_def i3_def)
    ultimately show ?thesis using f forward_skipDigits [OF s4] by (blast intro: forward_trans)
  qed
qed

lemma forward_readDigit: "readDigit tok i = (t, j) \<Longrightarrow> forward i j"
proof -
  assume r: "readDigit tok i = (t, j)"
  obtain r1 i1 where s1: "skipDigits i = (r1, i1)" by force
  note f = forward_skipDigits [OF s1]
  show ?thesis
  proof (cases "r1 = R_DOT \<or> r1 = CHR ''e'' \<or> r1 = CHR ''E''")
    case True
    with r s1 have "readFloat (r1 = CHR ''e'' \<or> r1 = CHR ''E'') tok (snd (readRune i1)) = (t, j)"
      by (auto simp: readDigit_def)
    then show ?thesis using forward_readFloat f by (meson forward_trans forward_snd_readRune)
  next
    case False
    with r s1 f show ?thesis by (simp add: readDigit_def)
  qed
qed

text \<open>The literal of a token lies between two positions.\<close>

definition span_in :: "nat \<Rightarrow> nat \<Rightarrow> Token \<Rightarrow> bool" where
  "span_in a b tok \<longleftrightarrow> (\<exists>s e. RefStart (Literal tok) = of_nat s \<and> RefEnd (Literal tok) = of_nat e \<and> a \<le> s \<and> s \<le> e \<and> e \<le> b)"

definition starts_at :: "nat \<Rightarrow> Token \<Rightarrow> bool" where
  "starts_at s tok \<longleftrightarrow> RefStart (Literal tok) = of_nat s"

lemma span_inI: "starts_at s tok \<Longrightarrow> RefEnd (Literal tok) = of_nat e \<Longrightarrow> a \<le> s \<Longrightarrow> s \<le> e \<Longrightarrow> e \<le> b \<Longrightarrow> span_in a b tok"
  by (auto simp: span_in_def starts_at_def)

lemma span_in_mono: "span_in a b tok \<Longrightarrow> a' \<le> a \<Longrightarrow> b \<le> b' \<Longrightarrow> span_in a' b' tok"
  unfolding span_in_def by (meson le_trans)

lemma token_simps [simp]:
  "RefStart (Literal (endHere i tok)) = RefStart (Literal tok)"
  "RefEnd (Literal (endHere i tok)) = of_nat (InputPosition i)"
  "Literal (withKeyword k tok) = Literal tok" "TokKeyword (withKeyword k tok) = k"
  "TokKeyword (endHere i tok) = TokKeyword tok"
  "RefStart (Literal (SetEnd p tp tok)) = RefStart (Literal tok)" "RefEnd (Literal (SetEnd p tp tok)) = of_nat p"
  "RefStart (Literal (SetStart p tp tok)) = of_nat p" "TokKeyword (SetStart p tp tok) = TokKeyword tok"
  "TokKeyword (SetEnd p tp tok) = TokKeyword tok" "Literal (shiftBack n tok) = Literal tok"
  "TokKeyword (shiftBack n tok) = TokKeyword tok" "TokKeyword (trim l w tok) = TokKeyword tok"
  "RefStart (Literal (trim l w tok)) = RefStart (Literal tok) + of_nat l"
  "RefEnd (Literal (trim l w tok)) = RefEnd (Literal tok) - of_nat w"
  by (simp_all add: endHere_def withKeyword_def SetEnd_def SetStart_def shiftBack_def trim_def)

lemma span_endHere: "starts_at s tok \<Longrightarrow> a \<le> s \<Longrightarrow> s \<le> InputPosition i \<Longrightarrow> span_in a (InputPosition i) (endHere i tok)"
  by (rule span_inI [of s _ "InputPosition i"]) (auto simp: starts_at_def)

lemma starts_at_withKeyword [simp]: "starts_at s (withKeyword k tok) = starts_at s tok"
  by (simp add: starts_at_def)

lemma readRune_pos: "readRune i = (c, j) \<Longrightarrow> c \<noteq> R_EOF \<Longrightarrow> InputPosition j = Suc (InputPosition i)"
  by (auto simp: readRune_def advance_def Let_def split: if_splits)

lemma span_comment:
  "readComment_loop tok i = (t, j) \<Longrightarrow> span_in a (InputPosition i) tok \<Longrightarrow> starts_at s tok \<Longrightarrow> a \<le> s \<Longrightarrow> s \<le> InputPosition i \<Longrightarrow>
   span_in a (InputPosition j) t \<and> TokKeyword t = TokKeyword tok"
proof (induction tok i rule: readComment_loop.induct)
  case (1 tok i)
  obtain c i' where r: "readRune i = (c, i')" by force
  have le: "InputPosition i \<le> InputPosition i'" using forward_readRune [OF r] by (simp add: forward_def)
  have "span_in a (InputPosition i') tok" using "1.prems"(2) le by (rule span_in_mono [OF _ order_refl])
  moreover have "span_in a (InputPosition i') (endHere i' tok)" using "1.prems"(3-5) le by (intro span_endHere [of s]) auto
  moreover have "starts_at s (endHere i' tok)" using "1.prems"(3) by (simp add: starts_at_def)
  ultimately show ?case
    using "1.prems" "1.IH" [OF r [symmetric]] r le by (subst (asm) readComment_loop.simps) (auto split: if_splits)
qed

lemma span_single:
  "singleLineString_loop e tok i = (t, j) \<Longrightarrow> starts_at s tok \<Longrightarrow> a \<le> s \<Longrightarrow> s \<le> InputPosition i \<Longrightarrow>
   span_in a (InputPosition j) t \<and> TokKeyword t = TokKeyword tok"
proof (induction e tok i rule: singleLineString_loop.induct)
  case (1 e tok i)
  obtain c i' where r: "readRune i = (c, i')" by force
  have le: "InputPosition i \<le> InputPosition i'" using forward_readRune [OF r] by (simp add: forward_def)
  have s1: "span_in a (InputPosition i') (SetEnd (InputPosition i') (TextPosition i') tok)"
    using "1.prems"(2-4) le by (intro span_inI [of s _ "InputPosition i'"]) (auto simp: starts_at_def)
  have s2: "span_in a (InputPosition i') (SetEnd (InputPosition i' - 1) (TextPosition i') tok)" if "c \<noteq> R_EOF"
    using "1.prems"(2-4) readRune_pos [OF r that] by (intro span_inI [of s _ "InputPosition i"]) (auto simp: starts_at_def)
  show ?case
    using "1.prems" "1.IH" [OF r [symmetric]] r le s1 s2 by (subst (asm) singleLineString_loop.simps) (auto split: if_splits)
qed

lemma span_trim:
  assumes "starts_at s tok" and "a \<le> s" and "s + l + w \<le> e" and "e \<le> b"
  shows "span_in a b (trim l w (SetEnd e tp tok))"
proof (rule span_inI [of "s + l" _ "e - w"])
  show "starts_at (s + l) (trim l w (SetEnd e tp tok))" using assms(1) by (simp add: starts_at_def)
  show "RefEnd (Literal (trim l w (SetEnd e tp tok))) = of_nat (e - w)" using assms(3) by (simp add: of_nat_diff)
qed (use assms in auto)

lemma span_block:
  "blockString_loop e q w r l tok i = (t, j) \<Longrightarrow> starts_at s tok \<Longrightarrow> a \<le> s \<Longrightarrow> q \<le> 2 \<Longrightarrow>
   s + l + w + q \<le> InputPosition i \<Longrightarrow> span_in a (InputPosition j) t \<and> TokKeyword t = TokKeyword tok"
proof (induction e q w r l tok i rule: blockString_loop.induct)
  case (1 e q w r l tok i)
  obtain c i' where rr: "readRune i = (c, i')" by force
  have le: "InputPosition i \<le> InputPosition i'" using forward_readRune [OF rr] by (simp add: forward_def)
  have pos: "InputPosition i' = Suc (InputPosition i)" if "c \<noteq> R_EOF" using readRune_pos [OF rr that] .
  have s1: "span_in a (InputPosition i') (trim l w (SetEnd (InputPosition i') (TextPosition i') tok))"
    using "1.prems"(2-5) le by (intro span_trim) auto
  have s2: "span_in a (InputPosition i') (trim l w (SetEnd (InputPosition i' - 3) (TextPosition i') tok))"
    if "c \<noteq> R_EOF" "q + 1 = 3" using "1.prems"(2-5) pos that by (intro span_trim) auto
  show ?case
    using "1.prems" "1.IH" [OF rr [symmetric]] rr le pos s1 s2
    by (subst (asm) blockString_loop.simps) (auto split: if_splits)
qed


text \<open>The specification every reader of a token kind meets, from the state after its first byte.\<close>

definition reads :: "nat \<Rightarrow> Input \<Rightarrow> Token \<times> Input \<Rightarrow> bool" where
  "reads a i r \<longleftrightarrow> forward i (snd r) \<and> span_in a (InputPosition (snd r)) (fst r) \<and> TokKeyword (fst r) \<noteq> K_EOF"

lemma readsI: "forward i j \<Longrightarrow> starts_at s tok \<Longrightarrow> a \<le> s \<Longrightarrow> s \<le> InputPosition i \<Longrightarrow> TokKeyword tok \<noteq> K_EOF \<Longrightarrow>
   reads a i (endHere j tok, j)"
  by (auto simp: reads_def forward_def intro: span_endHere [of s])

lemma reads_comment:
  assumes "starts_at s tok" "a \<le> s" "s \<le> InputPosition i"
  shows "reads a i (readComment tok i)"
proof -
  obtain t j where r: "readComment_loop (endHere i (withKeyword K_COMMENT tok)) i = (t, j)" by force
  have "span_in a (InputPosition i) (endHere i (withKeyword K_COMMENT tok))" using assms by (intro span_endHere [of s]) auto
  moreover have "starts_at s (endHere i (withKeyword K_COMMENT tok))" using assms by (simp add: starts_at_def)
  ultimately show ?thesis
    using span_comment [OF r, of a s] assms forward_comment [OF r] r by (simp add: reads_def readComment_def)
qed

lemma reads_string:
  assumes "a \<le> InputPosition i"
  shows "reads a i (readString tok i)"
proof (cases "peekEquals False [R_QUOTE, R_QUOTE] i")
  case True
  let ?i = "swallowAmount 2 i"
  let ?tok = "shiftBack 3 (SetStart (InputPosition ?i) (TextPosition ?i) (withKeyword K_BLOCKSTRING tok))"
  obtain t j where r: "blockString_loop False 0 0 False 0 ?tok ?i = (t, j)" by force
  have "a \<le> InputPosition ?i" using assms forward_swallow [of i 2] by (simp add: forward_def)
  then have "span_in a (InputPosition j) t \<and> TokKeyword t = TokKeyword ?tok"
    by (intro span_block [OF r, of "InputPosition ?i"]) (auto simp: starts_at_def)
  with r forward_block [OF r] True forward_swallow [of i 2] show ?thesis
    by (auto simp: reads_def readString_def readBlockString_def intro: forward_trans)
next
  case False
  let ?tok = "shiftBack 1 (SetStart (InputPosition i) (TextPosition i) (withKeyword K_STRING tok))"
  obtain t j where r: "singleLineString_loop False ?tok i = (t, j)" by force
  have "span_in a (InputPosition j) t \<and> TokKeyword t = TokKeyword ?tok"
    using assms by (intro span_single [OF r, of "InputPosition i"]) (auto simp: starts_at_def)
  with r forward_single [OF r] False show ?thesis by (simp add: reads_def readString_def readSingleLineString_def)
qed

lemma readFloat_result: "\<exists>j. readFloat b tok i = (endHere j (withKeyword K_FLOAT tok), j)"
  by (simp add: readFloat_def Let_def split: prod.splits)

lemma readDigit_result:
  "readDigit tok i = (t, j) \<Longrightarrow> \<exists>k. t = endHere j (withKeyword k tok) \<and> k \<in> {K_FLOAT, K_INTEGER}"
  using readFloat_result [of _ tok]
  by (auto simp: readDigit_def Let_def split: prod.splits if_splits) (metis prod.inject)+

lemma reads_digit:
  assumes "starts_at s tok" "a \<le> s" "s \<le> InputPosition i"
  shows "reads a i (readDigit tok i)"
proof -
  obtain t j where r: "readDigit tok i = (t, j)" by force
  obtain k where "t = endHere j (withKeyword k tok)" "k \<in> {K_FLOAT, K_INTEGER}"
    using readDigit_result [OF r] by blast
  with readsI [OF forward_readDigit [OF r], of s "withKeyword k tok" a] assms r show ?thesis by auto
qed

lemma reads_dot:
  assumes "starts_at s tok" "a \<le> s" "s \<le> InputPosition i"
  shows "reads a i (readDotOrSpread tok i)"
  using readsI [OF forward_swallow, of s "withKeyword K_SPREAD tok" a i 2]
    readsI [OF forward_refl, of s "withKeyword K_DOT tok" a i] assms
  by (simp add: readDotOrSpread_def Let_def)

text \<open>
  \<open>Read\<close> moves forward, returns a literal inside what it has read, and consumes a byte unless
  it returns the end of the input.
\<close>

lemma Read_spec:
  assumes "Read i = (tok, j)"
  shows "forward i j" and "span_in (InputPosition i) (InputPosition j) tok"
    and "TokKeyword tok \<noteq> K_EOF \<Longrightarrow> InputPosition i < InputPosition j \<and> InputPosition i < Length i"
proof -
  obtain i0 c i1 where w: "skipWhitespace i = (i0, c, i1)" by (metis prod.exhaust)
  note f = forward_skipWhitespace [OF w]
  let ?tok = "SetStart (InputPosition i0) (TextPosition i0) zero_token"
  let ?a = "InputPosition i"
  have st: "starts_at (InputPosition i0) ?tok" by (simp add: starts_at_def)
  have a: "?a \<le> InputPosition i0" using f by (simp add: forward_def)
  have f1: "forward i0 i1" using f forward_readRune by blast
  then have le: "InputPosition i0 \<le> InputPosition i1" by (simp add: forward_def)
  have "span_in ?a (InputPosition j) tok \<and> forward i1 j \<and> (TokKeyword tok \<noteq> K_EOF \<longrightarrow> c \<noteq> R_EOF)"
  proof (cases "matchSingleRuneToken c")
    case (Some k)
    then have "tok = endHere i1 (withKeyword k ?tok)" "j = i1" using assms w by (auto simp: Read_def)
    moreover have "k = K_EOF" if "c = R_EOF" using Some that by (simp add: matchSingleRuneToken.simps)
    ultimately show ?thesis using span_endHere [of _ "withKeyword k ?tok" ?a i1] st a le by auto
  next
    case None
    then have c: "c \<noteq> R_EOF" by (auto simp: matchSingleRuneToken.simps)
    have "reads ?a i1 (tok, j)"
    proof -
      consider "c = R_HASHTAG" | "c = R_QUOTE" | "c = R_DOT" | "runeIsDigit c" "c \<notin> {R_HASHTAG, R_QUOTE, R_DOT}"
        | "\<not> runeIsDigit c" "c \<notin> {R_HASHTAG, R_QUOTE, R_DOT}" by blast
      then show ?thesis
      proof cases
        case 1
        then show ?thesis using assms w None reads_comment [OF st a le] by (simp add: Read_def)
      next
        case 2
        then show ?thesis using assms w None reads_string [of ?a i1 ?tok] a le by (simp add: Read_def)
      next
        case 3
        then show ?thesis using assms w None reads_dot [OF st a le] by (simp add: Read_def)
      next
        case 4
        then show ?thesis using assms w None reads_digit [OF st a le] by (simp add: Read_def)
      next
        case 5
        have "(tok, j) = (endHere (readIdent i1) (withKeyword K_IDENT ?tok), readIdent i1)"
          using assms w None 5 by (auto simp: Read_def Let_def)
        with readsI [OF forward_readIdent, of _ "withKeyword K_IDENT ?tok" ?a i1] st a le show ?thesis by simp
      qed
    qed
    with c show ?thesis by (simp add: reads_def)
  qed
  then have span: "span_in ?a (InputPosition j) tok" and fj: "forward i1 j" and c: "TokKeyword tok \<noteq> K_EOF \<longrightarrow> c \<noteq> R_EOF"
    by auto
  show "forward i j" using f f1 fj by (blast intro: forward_trans)
  show "span_in (InputPosition i) (InputPosition j) tok" by (rule span)
  show "InputPosition i < InputPosition j \<and> InputPosition i < Length i" if "TokKeyword tok \<noteq> K_EOF"
    using readRune_pos [of i0 c i1] f c that a fj by (auto simp: forward_def readRune_def split: if_splits)
qed

end
