(* ===== verification/Tokenizer.thy ===== *)
theory Tokenizer
  imports Lexer
begin

text \<open>
  The tokenizer of \<open>v2/pkg/astparser/tokenizer.go\<close>: reading all tokens of an input, with and
  without the limits on depth and fields, and the cursor \<open>Read\<close>/\<open>Peek\<close> the parser uses.
\<close>

section \<open>Operations\<close>

record Tokenizer =
  tokens :: "Token list"
  maxTokens :: int
  currentToken :: int
  skipComments :: bool

definition NewTokenizer :: Tokenizer where
  "NewTokenizer = \<lparr>tokens = [], maxTokens = 0, currentToken = 0, skipComments = True\<rparr>"

record TokenizerStats =
  TotalDepth :: int
  TotalFields :: int

record TokenizerLimits =
  MaxDepth :: int
  MaxFields :: int

datatype limit_error = ErrDepthLimitExceeded int | ErrFieldsLimitExceeded int

lemma Read_remaining: "Read i = (tok, j) \<Longrightarrow> TokKeyword tok \<noteq> K_EOF \<Longrightarrow> remaining j < remaining i"
  using Read_spec(1,3) [of i tok j] by (auto simp: forward_def remaining_def)

function Tokenize_loop :: "Token list \<Rightarrow> Input \<Rightarrow> Token list \<times> Input" where
  "Tokenize_loop toks i =
     (case Read i of (next, i') \<Rightarrow>
        if TokKeyword next = K_EOF then (toks, i') else Tokenize_loop (toks @ [next]) i')"
  by pat_completeness auto
termination by (relation "measure (\<lambda>(toks, i). remaining i)") (auto dest: Read_remaining [OF sym])


declare Tokenize_loop.simps [simp del]

definition Tokenize :: "Input \<Rightarrow> Tokenizer \<Rightarrow> Tokenizer" where
  "Tokenize i t =
     (case Tokenize_loop [] i of (toks, i') \<Rightarrow> t\<lparr>tokens := toks, maxTokens := int (length toks), currentToken := -1\<rparr>)"

text \<open>
  The loop of \<open>TokenizeWithLimits\<close> with its local variables. An identifier's literal is inside
  the input (\<open>Tokens_in_range\<close>), so that slicing it does not panic; \<open>the\<close> reads that slice.
\<close>

record LimitState =
  globalDepth :: int
  localDepth :: int
  localDepthPeak :: int
  fieldsCount :: int
  lastWasSpread :: bool

definition stats :: "LimitState \<Rightarrow> TokenizerStats" where
  "stats st = \<lparr>TotalDepth = globalDepth st + localDepthPeak st, TotalFields = fieldsCount st\<rparr>"

definition limit_step :: "TokenizerLimits \<Rightarrow> Input \<Rightarrow> Token \<Rightarrow> LimitState \<Rightarrow> (limit_error \<times> LimitState, LimitState) result" where
  "limit_step limits i tok st =
     (case TokKeyword tok of
        K_LBRACE \<Rightarrow>
          (let st1 = st\<lparr>globalDepth := globalDepth st + 1\<rparr> in
           if MaxDepth limits > 0 \<and> globalDepth st1 > MaxDepth limits
           then Err (ErrDepthLimitExceeded (MaxDepth limits), st1)
           else (let st2 = st1\<lparr>localDepth := localDepth st1 + 1\<rparr> in
             Ok (st2\<lparr>localDepthPeak := (if localDepth st2 > localDepthPeak st2 then localDepth st2 else localDepthPeak st2),
                     lastWasSpread := False\<rparr>)))
      | K_RBRACE \<Rightarrow>
          Ok (st\<lparr>globalDepth := globalDepth st - 1, localDepth := localDepth st - 1, lastWasSpread := False\<rparr>)
      | K_SPREAD \<Rightarrow> Ok (st\<lparr>lastWasSpread := True\<rparr>)
      | K_IDENT \<Rightarrow>
          (let key = KeywordFromLiteral (the (Input_ByteSlice i (Literal tok))) in
           if key \<in> {I_FRAGMENT, I_QUERY, I_MUTATION, I_SUBSCRIPTION}
           then Ok (st\<lparr>globalDepth := globalDepth st + localDepthPeak st, localDepth := 0, localDepthPeak := 0,
                       lastWasSpread := False\<rparr>)
           else (let st1 = st\<lparr>fieldsCount := (if localDepth st > 0 \<and> \<not> lastWasSpread st then fieldsCount st + 1 else fieldsCount st)\<rparr> in
             if MaxFields limits > 0 \<and> fieldsCount st1 > MaxFields limits
             then Err (ErrFieldsLimitExceeded (MaxFields limits), st1)
             else Ok (st1\<lparr>lastWasSpread := False\<rparr>)))
      | _ \<Rightarrow> Ok st)"

function Limits_loop :: "TokenizerLimits \<Rightarrow> LimitState \<Rightarrow> Token list \<Rightarrow> Input \<Rightarrow>
    (limit_error option \<times> LimitState) \<times> Token list" where
  "Limits_loop limits st toks i =
     (case Read i of (next, i') \<Rightarrow>
        if TokKeyword next = K_EOF then ((None, st), toks)
        else (case limit_step limits i' next st of
                Inl (e, st') \<Rightarrow> ((Some e, st'), toks)
              | Inr st' \<Rightarrow> Limits_loop limits st' (toks @ [next]) i'))"
  by pat_completeness auto
termination
  by (relation "measure (\<lambda>(limits, st, toks, i). remaining i)") (auto dest: Read_remaining [OF sym])

declare Limits_loop.simps [simp del]

definition limit_init :: LimitState where
  "limit_init = \<lparr>globalDepth = 0, localDepth = 0, localDepthPeak = 0, fieldsCount = 0, lastWasSpread = False\<rparr>"

definition TokenizeWithLimits :: "TokenizerLimits \<Rightarrow> Input \<Rightarrow> Tokenizer \<Rightarrow> (TokenizerStats \<times> limit_error option) \<times> Tokenizer" where
  "TokenizeWithLimits limits i t =
     (case Limits_loop limits limit_init [] i of
        ((None, st), toks) \<Rightarrow>
          ((stats st, None), t\<lparr>tokens := toks, maxTokens := int (length toks), currentToken := -1\<rparr>)
      | ((Some e, st), toks) \<Rightarrow> ((stats st, Some e), t\<lparr>tokens := toks\<rparr>))"

definition EOF_token :: Token where
  "EOF_token = zero_token\<lparr>TokKeyword := K_EOF\<rparr>"

text \<open>The cursor. Its index is in range whenever \<open>maxTokens\<close> is the number of tokens.\<close>

definition read_token :: "Tokenizer \<Rightarrow> Token \<times> Tokenizer" where
  "read_token t =
     (if currentToken t + 1 < maxTokens t
      then (tokens t ! nat (currentToken t + 1), t\<lparr>currentToken := currentToken t + 1\<rparr>)
      else (EOF_token, t))"

definition Tokenizer_Read :: "Tokenizer \<Rightarrow> Token \<times> Tokenizer" where
  "Tokenizer_Read t =
     (case read_token t of (tok, t') \<Rightarrow>
        if skipComments t' \<and> TokKeyword tok = K_COMMENT then read_token t' else (tok, t'))"

definition peek_token :: "int \<Rightarrow> Tokenizer \<Rightarrow> Token" where
  "peek_token skip t =
     (if currentToken t + 1 + skip < maxTokens t then tokens t ! nat (currentToken t + 1 + skip) else EOF_token)"

definition Tokenizer_Peek :: "Tokenizer \<Rightarrow> Token" where
  "Tokenizer_Peek t =
     (let tok = peek_token 0 t in if skipComments t \<and> TokKeyword tok = K_COMMENT then peek_token 1 t else tok)"

section \<open>The tokens of an input\<close>

text \<open>\<open>Tokenize_loop\<close> without its accumulator.\<close>

function lex_all :: "Input \<Rightarrow> Token list" where
  "lex_all i = (case Read i of (next, i') \<Rightarrow> if TokKeyword next = K_EOF then [] else next # lex_all i')"
  by pat_completeness auto
termination by (relation "measure remaining") (auto dest: Read_remaining [OF sym])

declare lex_all.simps [simp del]

lemma lex_all_unfold:
  "Read i = (tok, j) \<Longrightarrow> lex_all i = (if TokKeyword tok = K_EOF then [] else tok # lex_all j)"
  by (subst lex_all.simps) simp

lemma Tokenize_loop_lex: "fst (Tokenize_loop toks i) = toks @ lex_all i"
proof (induction toks i rule: Tokenize_loop.induct)
  case (1 toks i)
  obtain tok j where r: "Read i = (tok, j)" by force
  show ?case using "1.IH" [OF r [symmetric]] r
    by (subst Tokenize_loop.simps) (simp add: lex_all_unfold [OF r])
qed

lemma Tokenize_tokens: "tokens (Tokenize i t) = lex_all i" "maxTokens (Tokenize i t) = int (length (lex_all i))"
  "currentToken (Tokenize i t) = -1" "skipComments (Tokenize i t) = skipComments t"
  using Tokenize_loop_lex [of "[]" i] by (auto simp: Tokenize_def split: prod.splits)

text \<open>The literals follow each other in the input.\<close>

fun spans_from :: "nat \<Rightarrow> nat \<Rightarrow> Token list \<Rightarrow> bool" where
  "spans_from a b [] \<longleftrightarrow> a \<le> b"
| "spans_from a b (t # ts) \<longleftrightarrow> (\<exists>m. a < m \<and> span_in a m t \<and> spans_from m b ts)"

lemma lex_all_spans: "InputPosition i \<le> Length i \<Longrightarrow> spans_from (InputPosition i) (Length i) (lex_all i)"
proof (induction i rule: lex_all.induct)
  case (1 i)
  obtain tok j where r: "Read i = (tok, j)" by force
  note sp = Read_spec [OF r]
  show ?case
  proof (cases "TokKeyword tok = K_EOF")
    case True
    with "1.prems" show ?thesis by (simp add: lex_all_unfold [OF r])
  next
    case False
    have "InputPosition j \<le> Length j" "Length j = Length i" using sp(1) "1.prems" by (auto simp: forward_def)
    with "1.IH" [OF r [symmetric] False] False sp(2,3) show ?thesis by (auto simp: lex_all_unfold [OF r])
  qed
qed


lemma spans_from_le: "spans_from a b ts \<Longrightarrow> a \<le> b"
  by (induction ts arbitrary: a) (auto intro: less_imp_le_nat order_less_le_trans)

lemma spans_from_all: "spans_from a b ts \<Longrightarrow> t \<in> set ts \<Longrightarrow> span_in a b t"
proof (induction ts arbitrary: a)
  case (Cons u ts)
  then obtain m where m: "a < m" "span_in a m u" "spans_from m b ts" by auto
  show ?case
  proof (cases "t = u")
    case True
    with m(2) spans_from_le [OF m(3)] show ?thesis by (simp add: span_in_mono)
  next
    case False
    with Cons.prems(2) Cons.IH [OF m(3)] m(1) show ?thesis by (auto intro: span_in_mono)
  qed
qed simp

lemma span_in_unat:
  assumes "span_in a b t" and "b < 2 ^ 32"
  shows "a \<le> unat (RefStart (Literal t))" and "unat (RefStart (Literal t)) \<le> unat (RefEnd (Literal t))"
    and "unat (RefEnd (Literal t)) \<le> b"
proof -
  obtain s e where se: "RefStart (Literal t) = of_nat s" "RefEnd (Literal t) = of_nat e" "a \<le> s" "s \<le> e" "e \<le> b"
    using assms(1) by (auto simp: span_in_def)
  have "unat (of_nat s :: 32 word) = s" "unat (of_nat e :: 32 word) = e"
    using se assms(2) by (simp_all add: unat_of_nat take_bit_nat_eq_self)
  with se show "a \<le> unat (RefStart (Literal t))" "unat (RefStart (Literal t)) \<le> unat (RefEnd (Literal t))"
    "unat (RefEnd (Literal t)) \<le> b" by simp_all
qed

lemma spans_sorted:
  assumes "b < 2 ^ 32"
  shows "spans_from a b ts \<Longrightarrow>
    sorted_wrt (\<lambda>t u. unat (RefEnd (Literal t)) \<le> unat (RefStart (Literal u))) ts"
proof (induction ts arbitrary: a)
  case (Cons t ts)
  then obtain m where m: "span_in a m t" "spans_from m b ts" by auto
  then have "m < 2 ^ 32" using spans_from_le assms by fastforce
  then have "unat (RefEnd (Literal t)) \<le> m" using span_in_unat(3) [OF m(1)] by simp
  moreover have "m \<le> unat (RefStart (Literal u))" if "u \<in> set ts" for u
    using span_in_unat(1) [OF spans_from_all [OF m(2) that] assms] .
  ultimately show ?case using Cons.IH [OF m(2)] by (fastforce intro: order_trans)
qed simp

lemma Tokens_in_range:
  assumes "input_ok i" and "Length i < 2 ^ 32" and "t \<in> set (lex_all i)"
  shows "Input_ByteSlice i (Literal t) \<noteq> None"
proof -
  have "spans_from (InputPosition i) (Length i) (lex_all i)" using assms(1) by (intro lex_all_spans) (simp add: input_ok_def)
  from span_in_unat(2,3) [OF spans_from_all [OF this assms(3)] assms(2)] assms(1) show ?thesis
    by (simp add: Input_ByteSlice_def input_ok_def word_le_nat_alt)
qed

section \<open>Comments\<close>

lemma readRune_bytes [consumes 1]:
  assumes "input_ok i"
  obtains (at_end) "bytes_left i = []" "readRune i = (R_EOF, i)"
    | (byte) c j where "bytes_left i = c # bytes_left j" "readRune i = (c, j)" "input_ok j" "RawBytes j = RawBytes i"
proof (cases "InputPosition i < Length i")
  case True
  let ?c = "RawBytes i ! InputPosition i"
  have "bytes_left i = ?c # bytes_left (advance ?c i)" "input_ok (advance ?c i)"
    using True assms by (auto simp: bytes_left_def advance_def input_ok_def Cons_nth_drop_Suc)
  with True byte show ?thesis by (simp add: readRune_def Let_def advance_def)
next
  case False
  with assms at_end show ?thesis by (simp add: readRune_def bytes_left_def)
qed

lemma bytes_left_subset: "set (bytes_left i) \<subseteq> set (RawBytes i)"
  by (metis bytes_left_def set_drop_subset set_take_subset subset_trans)

lemma comment_end:
  "readComment_loop tok i = (t, j) \<Longrightarrow> input_ok i \<Longrightarrow> R_EOF \<notin> set (RawBytes i) \<Longrightarrow> peekRune True j \<noteq> R_HASHTAG"
proof (induction tok i rule: readComment_loop.induct)
  case (1 tok i)
  from "1.prems"(2) show ?case
  proof (cases rule: readRune_bytes)
    case at_end
    then have "j = i" using "1.prems"(1) by (subst (asm) readComment_loop.simps) simp
    with at_end show ?thesis by (simp add: peekRune_def)
  next
    case (byte c i')
    have "c \<noteq> R_EOF" using byte(1) bytes_left_subset [of i] "1.prems"(3) by auto
    with "1.prems" "1.IH" [OF byte(2) [symmetric]] byte show ?thesis
      by (subst (asm) readComment_loop.simps) (auto split: if_splits)
  qed
qed

lemma skipWhitespace_peek: "skipWhitespace i = (i0, c, i1) \<Longrightarrow> input_ok i \<Longrightarrow> c = peekRune True i"
proof (induction i rule: skipWhitespace.induct)
  case (1 i)
  from "1.prems"(2) show ?case
  proof (cases rule: readRune_bytes)
    case at_end
    with "1.prems"(1) show ?thesis
      by (subst (asm) skipWhitespace.simps) (auto simp: peekRune_def byteIsWhitespace_def)
  next
    case (byte c' i')
    with "1.prems"(1) "1.IH" [OF byte(2) [symmetric]] show ?thesis
      by (subst (asm) skipWhitespace.simps) (auto simp: peekRune_def split: if_splits)
  qed
qed

lemma not_comment_keyword:
  "matchSingleRuneToken c \<noteq> Some K_COMMENT" "TokKeyword (fst (readString tok i)) \<noteq> K_COMMENT"
  "TokKeyword (fst (readDotOrSpread tok i)) \<noteq> K_COMMENT" "TokKeyword (fst (readDigit tok i)) \<noteq> K_COMMENT"
proof -
  show "matchSingleRuneToken c \<noteq> Some K_COMMENT" by (simp add: matchSingleRuneToken.simps)
  show "TokKeyword (fst (readDotOrSpread tok i)) \<noteq> K_COMMENT" by (simp add: readDotOrSpread_def Let_def)
  show "TokKeyword (fst (readDigit tok i)) \<noteq> K_COMMENT"
    using readDigit_result [of tok i] by (cases "readDigit tok i") auto
  obtain t j where s: "readString tok i = (t, j)" by force
  have "span_in 0 (InputPosition j) t \<and> TokKeyword t \<in> {K_STRING, K_BLOCKSTRING}"
  proof (cases "peekEquals False [R_QUOTE, R_QUOTE] i")
    case True
    with s show ?thesis
      using span_block [of False 0 0 False 0 _ "swallowAmount 2 i" t j "InputPosition (swallowAmount 2 i)" 0]
      by (auto simp: readString_def readBlockString_def starts_at_def)
  next
    case False
    with s show ?thesis
      using span_single [of False _ i t j "InputPosition i" 0]
      by (auto simp: readString_def readSingleLineString_def starts_at_def)
  qed
  with s show "TokKeyword (fst (readString tok i)) \<noteq> K_COMMENT" by auto
qed

lemma Read_comment:
  assumes "Read i = (tok, j)" and "TokKeyword tok = K_COMMENT"
  shows "\<exists>i0 i1 t. skipWhitespace i = (i0, R_HASHTAG, i1) \<and> readComment t i1 = (tok, j)"
proof -
  obtain i0 c i1 where w: "skipWhitespace i = (i0, c, i1)" by (metis prod.exhaust)
  let ?tok = "SetStart (InputPosition i0) (TextPosition i0) zero_token"
  have "c = R_HASHTAG"
    using assms w not_comment_keyword(1) [of c] not_comment_keyword(2-4) [of ?tok i1]
    by (auto simp: Read_def Let_def split: option.splits if_splits)
  with assms w show ?thesis
    using not_comment_keyword(1) [of c] by (auto simp: Read_def Let_def split: option.splits if_splits)
qed

fun no_adjacent_comments :: "Token list \<Rightarrow> bool" where
  "no_adjacent_comments (t # u # ts) \<longleftrightarrow>
     \<not> (TokKeyword t = K_COMMENT \<and> TokKeyword u = K_COMMENT) \<and> no_adjacent_comments (u # ts)"
| "no_adjacent_comments ts \<longleftrightarrow> True"

lemma lex_all_no_adjacent:
  "input_ok i \<Longrightarrow> R_EOF \<notin> set (RawBytes i) \<Longrightarrow> no_adjacent_comments (lex_all i)"
proof (induction i rule: lex_all.induct)
  case (1 i)
  obtain tok j where r: "Read i = (tok, j)" by force
  note f = Read_spec(1) [OF r]
  have j: "input_ok j" "RawBytes j = RawBytes i" using f "1.prems"(1) by (auto simp: forward_def input_ok_def)
  show ?case
  proof (cases "TokKeyword tok = K_EOF")
    case True
    then show ?thesis by (simp add: lex_all_unfold [OF r])
  next
    case False
    obtain u k where u: "Read j = (u, k)" by force
    have "\<not> (TokKeyword tok = K_COMMENT \<and> TokKeyword u = K_COMMENT)"
    proof
      assume c: "TokKeyword tok = K_COMMENT \<and> TokKeyword u = K_COMMENT"
      obtain i0 i1 t where w: "skipWhitespace i = (i0, R_HASHTAG, i1)" "readComment t i1 = (tok, j)"
        using Read_comment [OF r] c by blast
      have "input_ok i1" "RawBytes i1 = RawBytes i"
        using forward_skipWhitespace [OF w(1)] forward_readRune [of i0] "1.prems"(1)
        by (auto simp: forward_def input_ok_def)
      then have "peekRune True j \<noteq> R_HASHTAG" using w(2) "1.prems"(2) comment_end by (auto simp: readComment_def)
      moreover obtain j0 j1 where "skipWhitespace j = (j0, R_HASHTAG, j1)" using Read_comment [OF u] c by blast
      ultimately show False using skipWhitespace_peek [OF _ j(1)] by metis
    qed
    moreover have "no_adjacent_comments (lex_all j)" using "1.IH" [OF r [symmetric] False] j "1.prems"(2) by simp
    ultimately show ?thesis using False
      by (auto simp: lex_all_unfold [OF r] lex_all_unfold [OF u] split: if_splits)
  qed
qed


section \<open>The cursor\<close>

lemma Peek_Read: "Tokenizer_Peek t = fst (Tokenizer_Read t)"
  by (auto simp: Tokenizer_Peek_def Tokenizer_Read_def read_token_def peek_token_def Let_def EOF_token_def
      intro: arg_cong [of _ _ nat])

definition cursor_ok :: "Tokenizer \<Rightarrow> bool" where
  "cursor_ok t \<longleftrightarrow> maxTokens t = int (length (tokens t)) \<and> -1 \<le> currentToken t \<and> skipComments t \<and>
     no_adjacent_comments (tokens t)"

text \<open>The tokens the parser has still to see.\<close>

definition unread :: "Tokenizer \<Rightarrow> Token list" where
  "unread t = drop (nat (currentToken t + 1)) (tokens t)"

definition visible :: "Token list \<Rightarrow> Token list" where
  "visible ts = filter (\<lambda>t. TokKeyword t \<noteq> K_COMMENT) ts"

lemma no_adjacent_drop: "no_adjacent_comments ts \<Longrightarrow> no_adjacent_comments (drop n ts)"
proof (induction n arbitrary: ts)
  case (Suc n)
  then show ?case by (cases ts rule: no_adjacent_comments.cases) auto
qed simp

lemma read_token_unread:
  assumes "cursor_ok t" and "read_token t = (tok, t')"
  shows "cursor_ok t' \<and> (case unread t of [] \<Rightarrow> tok = EOF_token \<and> t' = t | u # us \<Rightarrow> tok = u \<and> unread t' = us)"
proof (cases "currentToken t + 1 < maxTokens t")
  case True
  define k where "k = nat (currentToken t + 1)"
  have k: "k < length (tokens t)" "currentToken t + 1 = int k"
    using True assms(1) by (auto simp: cursor_ok_def k_def)
  have "read_token t = (tokens t ! k, t\<lparr>currentToken := int k\<rparr>)"
    using True unfolding read_token_def k_def [symmetric] k(2) [symmetric] by simp
  then have "tok = tokens t ! k" "t' = t\<lparr>currentToken := int k\<rparr>" using assms(2) by simp_all
  moreover have "unread t = tokens t ! k # drop (Suc k) (tokens t)"
    using k by (simp add: unread_def Cons_nth_drop_Suc)
  moreover have "nat (int k + 1) = Suc k" by simp
  ultimately show ?thesis using assms(1) by (auto simp: cursor_ok_def unread_def)
next
  case False
  then have "unread t = []" using assms(1) by (simp add: cursor_ok_def unread_def)
  with False assms show ?thesis by (simp add: read_token_def)
qed

lemma Tokenizer_Read_visible:
  assumes ok: "cursor_ok t" and r: "Tokenizer_Read t = (tok, t')"
  shows "cursor_ok t'"
    and "case visible (unread t) of [] \<Rightarrow> tok = EOF_token \<and> visible (unread t') = [] | u # us \<Rightarrow> tok = u \<and> visible (unread t') = us"
proof -
  obtain tok1 t1 where r1: "read_token t = (tok1, t1)" by force
  note s1 = read_token_unread [OF ok r1]
  obtain tok2 t2 where r2: "read_token t1 = (tok2, t2)" by force
  have ok1: "cursor_ok t1" using s1 by simp
  note s2 = read_token_unread [OF ok1 r2]
  have skip: "skipComments t1" using ok1 by (simp add: cursor_ok_def)
  have adj: "no_adjacent_comments (unread t)" using ok no_adjacent_drop by (auto simp: cursor_ok_def unread_def)
  have eof: "TokKeyword EOF_token \<noteq> K_COMMENT" by (simp add: EOF_token_def)
  show "cursor_ok t'"
    using r r1 r2 s1 s2 by (auto simp: Tokenizer_Read_def split: if_splits)
  show "case visible (unread t) of [] \<Rightarrow> tok = EOF_token \<and> visible (unread t') = [] | u # us \<Rightarrow> tok = u \<and> visible (unread t') = us"
  proof (cases "unread t")
    case Nil
    with s1 r r1 eof show ?thesis by (auto simp: Tokenizer_Read_def visible_def)
  next
    case (Cons u us)
    then have u: "tok1 = u" "unread t1 = us" using s1 by auto
    show ?thesis
    proof (cases "TokKeyword u = K_COMMENT")
      case False
      with Cons u r r1 show ?thesis by (auto simp: Tokenizer_Read_def visible_def)
    next
      case True
      then have "(tok, t') = (tok2, t2)" using r r1 r2 u skip by (simp add: Tokenizer_Read_def)
      with s2 u Cons True adj show ?thesis
        by (cases us) (auto simp: visible_def)
    qed
  qed
qed

section \<open>Limits\<close>

lemma Limits_loop_lex:
  "Limits_loop limits st toks i = ((None, st'), toks') \<Longrightarrow> toks' = toks @ lex_all i"
proof (induction limits st toks i rule: Limits_loop.induct)
  case (1 limits st toks i)
  obtain tok j where r: "Read i = (tok, j)" by force
  show ?case
  proof (cases "TokKeyword tok = K_EOF")
    case True
    with "1.prems" r show ?thesis by (subst (asm) Limits_loop.simps) (simp add: lex_all_unfold [OF r])
  next
    case False
    with "1.prems" r obtain st1 where st1: "limit_step limits j tok st = Inr st1"
      by (subst (asm) Limits_loop.simps) (auto split: sum.splits)
    with "1.prems" r False have "Limits_loop limits st1 (toks @ [tok]) j = ((None, st'), toks')"
      by (subst (asm) Limits_loop.simps) simp
    from "1.IH" [OF r [symmetric] False st1 this] False show ?thesis by (simp add: lex_all_unfold [OF r])
  qed
qed

lemma limit_step_unlimited:
  assumes "MaxDepth limits \<le> 0" and "MaxFields limits \<le> 0"
  shows "\<exists>st'. limit_step limits i tok st = Inr st'"
  using assms by (auto simp: limit_step_def Let_def split: Keyword.splits)

lemma Limits_loop_unlimited:
  "MaxDepth limits \<le> 0 \<Longrightarrow> MaxFields limits \<le> 0 \<Longrightarrow> fst (fst (Limits_loop limits st toks i)) = None"
proof (induction limits st toks i rule: Limits_loop.induct)
  case (1 limits st toks i)
  obtain tok j where r: "Read i = (tok, j)" by force
  obtain st1 where st1: "limit_step limits j tok st = Inr st1" using limit_step_unlimited "1.prems" by blast
  show ?case
    using "1.IH" [OF r [symmetric] _ st1] "1.prems" r st1 by (subst Limits_loop.simps) auto
qed

definition depth :: "Token list \<Rightarrow> int" where
  "depth ts = int (length (filter (\<lambda>t. TokKeyword t = K_LBRACE) ts)) - int (length (filter (\<lambda>t. TokKeyword t = K_RBRACE) ts))"

definition depth_inv :: "TokenizerLimits \<Rightarrow> LimitState \<Rightarrow> Token list \<Rightarrow> bool" where
  "depth_inv limits st toks \<longleftrightarrow> depth toks \<le> globalDepth st \<and> 0 \<le> localDepthPeak st \<and>
     (\<forall>us vs. toks = us @ vs \<longrightarrow> depth us \<le> MaxDepth limits)"

lemma depth_snoc:
  "depth (ts @ [t]) = depth ts + (if TokKeyword t = K_LBRACE then 1 else if TokKeyword t = K_RBRACE then -1 else 0)"
  by (auto simp: depth_def)

lemma depth_inv_step:
  assumes "MaxDepth limits > 0" and inv: "depth_inv limits st toks" and st: "limit_step limits i tok st = Inr st'"
  shows "depth_inv limits st' (toks @ [tok])"
proof -
  have bounds: "depth toks \<le> globalDepth st" "0 \<le> localDepthPeak st" "depth toks \<le> MaxDepth limits"
    using inv by (auto simp: depth_inv_def)
  have "depth (toks @ [tok]) \<le> globalDepth st' \<and> 0 \<le> localDepthPeak st' \<and> depth (toks @ [tok]) \<le> MaxDepth limits"
    using st assms(1) bounds
    by (cases "TokKeyword tok") (auto simp: limit_step_def Let_def depth_snoc split: if_splits)
  moreover have "depth us \<le> MaxDepth limits" if "toks @ [tok] = us @ vs" "vs \<noteq> []" for us vs
  proof -
    have "toks = us @ butlast vs" using that by (metis butlast_append butlast_snoc)
    then show ?thesis using inv unfolding depth_inv_def by blast
  qed
  ultimately show ?thesis unfolding depth_inv_def by (metis append.right_neutral)
qed

lemma Limits_loop_depth:
  "Limits_loop limits st toks i = ((None, st'), toks') \<Longrightarrow> MaxDepth limits > 0 \<Longrightarrow> depth_inv limits st toks \<Longrightarrow>
   depth_inv limits st' toks'"
proof (induction limits st toks i rule: Limits_loop.induct)
  case (1 limits st toks i)
  obtain tok j where r: "Read i = (tok, j)" by force
  show ?case
  proof (cases "TokKeyword tok = K_EOF")
    case True
    with "1.prems" r show ?thesis by (subst (asm) Limits_loop.simps) simp
  next
    case False
    with "1.prems" r obtain st1 where st1: "limit_step limits j tok st = Inr st1"
      by (subst (asm) Limits_loop.simps) (auto split: sum.splits)
    with "1.prems"(1) r False have l: "Limits_loop limits st1 (toks @ [tok]) j = ((None, st'), toks')"
      by (subst (asm) Limits_loop.simps) simp
    show ?thesis using "1.IH" [OF r [symmetric] False st1 l] "1.prems"(2) depth_inv_step [OF "1.prems"(2,3) st1] by blast
  qed
qed

end
