(* ===== verification/Lexer_Roundtrip.thy ===== *)
theory Lexer_Roundtrip
  imports Tokenizer
begin

text \<open>
  Rendering and lexing: a list of lexemes written with a blank before each of them is read back
  by \<open>Lexer.Read\<close> as the same kinds with the same contents. The lemmas follow the bytes left
  to read through the functions of the lexer.
\<close>

section \<open>Lexemes\<close>

datatype lexeme = Punct Keyword | Dots | Name string | Digits string | Quoted string

definition punctuators :: "(Keyword \<times> char) list" where
  "punctuators = [(K_PIPE, CHR ''|''), (K_EQUALS, CHR ''=''), (K_AT, CHR ''@''), (K_COLON, CHR '':''), (K_BANG, CHR ''!''),
     (K_LPAREN, CHR ''(''), (K_RPAREN, CHR '')''), (K_LBRACE, CHR ''{''), (K_RBRACE, CHR ''}''), (K_LBRACK, CHR ''[''),
     (K_RBRACK, CHR '']''), (K_AND, CHR ''&''), (K_SUB, R_SUB), (K_DOLLAR, CHR ''$'')]"

fun lexeme_ok :: "lexeme \<Rightarrow> bool" where
  "lexeme_ok (Punct k) \<longleftrightarrow> map_of punctuators k \<noteq> None"
| "lexeme_ok Dots \<longleftrightarrow> True"
| "lexeme_ok (Name xs) \<longleftrightarrow> xs \<noteq> [] \<and> list_all runeIsIdent xs \<and> \<not> runeIsDigit (hd xs) \<and> hd xs \<noteq> R_SUB"
| "lexeme_ok (Digits xs) \<longleftrightarrow> xs \<noteq> [] \<and> list_all runeIsDigit xs"
| "lexeme_ok (Quoted xs) \<longleftrightarrow> list_all (\<lambda>c. c \<notin> {R_QUOTE, R_CR, R_LF, R_BACKSLASH, R_EOF}) xs"

fun render :: "lexeme \<Rightarrow> string" where
  "render (Punct k) = [the (map_of punctuators k)]"
| "render Dots = [R_DOT, R_DOT, R_DOT]"
| "render (Name xs) = xs"
| "render (Digits xs) = xs"
| "render (Quoted xs) = R_QUOTE # xs @ [R_QUOTE]"

fun kind :: "lexeme \<Rightarrow> Keyword" where
  "kind (Punct k) = k"
| "kind Dots = K_SPREAD"
| "kind (Name xs) = K_IDENT"
| "kind (Digits xs) = K_INTEGER"
| "kind (Quoted xs) = K_STRING"

fun content :: "lexeme \<Rightarrow> string" where
  "content (Quoted xs) = xs"
| "content l = render l"

definition render_all :: "lexeme list \<Rightarrow> string" where
  "render_all ls = concat (map (\<lambda>l. R_SPACE # render l) ls)"

definition new_input :: "string \<Rightarrow> Input" where
  "new_input bytes = ResetInputBytes bytes
     \<lparr>RawBytes = [], Length = 0, InputPosition = 0, TextPosition = Position_Reset, InputVariables = []\<rparr>"

section \<open>Following the bytes\<close>

text \<open>\<open>at i xs j rest\<close>: from state \<open>i\<close> the bytes \<open>xs\<close> have been read to reach \<open>j\<close>, where \<open>rest\<close> is left.\<close>

definition consumed :: "Input \<Rightarrow> string \<Rightarrow> Input \<Rightarrow> string \<Rightarrow> bool" where
  "consumed i xs j rest \<longleftrightarrow> input_ok i \<and> input_ok j \<and> RawBytes j = RawBytes i \<and>
     InputPosition j = InputPosition i + length xs \<and> bytes_left i = xs @ rest \<and> bytes_left j = rest"

lemma consumed_refl: "input_ok i \<Longrightarrow> bytes_left i = rest \<Longrightarrow> consumed i [] i rest"
  by (simp add: consumed_def)

lemma consumed_trans: "consumed i xs j (ys @ rest) \<Longrightarrow> consumed j ys k rest \<Longrightarrow> consumed i (xs @ ys) k rest"
  by (simp add: consumed_def)

lemma bytes_left_ok: "input_ok i \<Longrightarrow> bytes_left i = drop (InputPosition i) (RawBytes i)"
  by (simp add: bytes_left_def input_ok_def)

lemma readRune_consumed:
  assumes "input_ok i" and "bytes_left i = c # rest"
  shows "\<exists>j. readRune i = (c, j) \<and> consumed i [c] j rest"
  using assms(1)
proof (cases rule: readRune_bytes)
  case (byte c' j)
  moreover have "InputPosition j = Suc (InputPosition i)"
    using byte(1,2) assms by (auto simp: readRune_def advance_def Let_def bytes_left_def split: if_splits)
  ultimately show ?thesis using assms by (auto simp: consumed_def)
qed (use assms in simp)

lemma peekRune_consumed: "bytes_left i = rest \<Longrightarrow> peekRune False i = (case rest of [] \<Rightarrow> R_EOF | c # _ \<Rightarrow> c)"
  by (cases rest) (simp_all add: peekRune_def)

lemma readIdent_consumed:
  "input_ok i \<Longrightarrow> bytes_left i = xs @ rest \<Longrightarrow> list_all runeIsIdent xs \<Longrightarrow> (rest = [] \<or> \<not> runeIsIdent (hd rest)) \<Longrightarrow>
   consumed i xs (readIdent i) rest"
proof (induction xs arbitrary: i)
  case Nil
  have "\<not> runeIsIdent (RawBytes i ! InputPosition i)" if "InputPosition i < Length i"
  proof -
    have "rest = drop (InputPosition i) (RawBytes i)" "InputPosition i < length (RawBytes i)"
      using Nil.prems(1,2) that by (auto simp: bytes_left_ok input_ok_def)
    then show ?thesis using Nil.prems(4) by (auto simp: hd_drop_conv_nth)
  qed
  then have "readIdent i = i" by (subst readIdent.simps) auto
  with Nil show ?case by (simp add: consumed_refl)
next
  case (Cons x xs)
  have pos: "InputPosition i < Length i" "RawBytes i ! InputPosition i = x"
    "drop (Suc (InputPosition i)) (RawBytes i) = xs @ rest"
    using Cons.prems(1,2) bytes_left_ok [OF Cons.prems(1)]
    by (auto simp: input_ok_def bytes_left_def nth_via_drop drop_Suc tl_drop [symmetric] intro!: leI)
  let ?i = "i\<lparr>TextPosition := (TextPosition i)\<lparr>CharStart := CharStart (TextPosition i) + 1\<rparr>, InputPosition := InputPosition i + 1\<rparr>"
  have ok: "input_ok ?i" using pos(1) Cons.prems(1) by (simp add: input_ok_def)
  then have b: "bytes_left ?i = xs @ rest" using pos(3) by (simp add: bytes_left_ok)
  have "readIdent i = readIdent ?i" using pos Cons.prems(3) by (subst readIdent.simps) simp
  moreover have "consumed ?i xs (readIdent ?i) rest" using Cons.IH [OF ok b] Cons.prems(3,4) by simp
  moreover have "consumed i [x] ?i (xs @ rest)" using Cons.prems(1,2) ok b by (simp add: consumed_def)
  ultimately show ?case using consumed_trans by fastforce
qed

lemma skipDigits_consumed:
  "input_ok i \<Longrightarrow> bytes_left i = xs @ rest \<Longrightarrow> list_all runeIsDigit xs \<Longrightarrow> (rest = [] \<or> \<not> runeIsDigit (hd rest)) \<Longrightarrow>
   \<exists>j. skipDigits i = (case rest of [] \<Rightarrow> R_EOF | c # _ \<Rightarrow> c, j) \<and> consumed i xs j rest"
proof (induction xs arbitrary: i)
  case Nil
  then have "\<not> runeIsDigit (peekRune False i)" by (cases rest) (auto simp: peekRune_consumed)
  then have "skipDigits i = (peekRune False i, i)" by (subst skipDigits.simps) (simp add: Let_def)
  with Nil show ?case by (simp add: consumed_refl peekRune_consumed)
next
  case (Cons x xs)
  obtain j where j: "readRune i = (x, j)" "consumed i [x] j (xs @ rest)"
    using readRune_consumed [OF Cons.prems(1)] Cons.prems(2) by auto
  have "skipDigits i = skipDigits j"
    using Cons.prems j(1) by (subst skipDigits.simps) (simp add: Let_def peekRune_consumed)
  moreover obtain k where "skipDigits j = (case rest of [] \<Rightarrow> R_EOF | c # _ \<Rightarrow> c, k)" "consumed j xs k rest"
    using Cons.IH [of j] j(2) Cons.prems(3,4) by (auto simp: consumed_def)
  ultimately show ?case using consumed_trans [OF j(2)] by auto
qed

lemma singleLineString_consumed:
  "input_ok i \<Longrightarrow> bytes_left i = xs @ R_QUOTE # rest \<Longrightarrow> list_all (\<lambda>c. c \<notin> {R_QUOTE, R_CR, R_LF, R_BACKSLASH, R_EOF}) xs \<Longrightarrow>
   \<exists>j. singleLineString_loop False tok i = (SetEnd (InputPosition i + length xs) (TextPosition j) tok, j) \<and>
     consumed i (xs @ [R_QUOTE]) j rest"
proof (induction xs arbitrary: i)
  case Nil
  then obtain j where j: "readRune i = (R_QUOTE, j)" "consumed i [R_QUOTE] j rest"
    using readRune_consumed [of i R_QUOTE rest] by auto
  then show ?case by (subst singleLineString_loop.simps) (auto simp: consumed_def)
next
  case (Cons x xs)
  obtain j where j: "readRune i = (x, j)" "consumed i [x] j (xs @ R_QUOTE # rest)"
    using readRune_consumed [OF Cons.prems(1)] Cons.prems(2) by auto
  have "singleLineString_loop False tok i = singleLineString_loop False tok j"
    using Cons.prems(3) j(1) by (subst singleLineString_loop.simps) auto
  moreover obtain k where "singleLineString_loop False tok j = (SetEnd (InputPosition j + length xs) (TextPosition k) tok, k)"
    "consumed j (xs @ [R_QUOTE]) k rest"
    using Cons.IH [of j] j(2) Cons.prems(3) by (auto simp: consumed_def)
  ultimately show ?case using j(2) by (auto simp: consumed_def)
qed


lemma peekEquals_prefix:
  assumes "input_ok i"
  shows "peekEquals False eq i \<longleftrightarrow> take (length eq) (bytes_left i) = eq"
proof (cases "InputPosition i + length eq \<le> Length i")
  case True
  then have len: "length (take (length eq) (bytes_left i)) = length eq"
    using assms by (simp add: bytes_left_ok input_ok_def)
  have nth: "take (length eq) (bytes_left i) ! k = RawBytes i ! (InputPosition i + k)" if "k < length eq" for k
    using that True assms by (simp add: bytes_left_ok input_ok_def)
  have "peekEquals False eq i \<longleftrightarrow> (\<forall>k < length eq. RawBytes i ! (InputPosition i + k) = eq ! k)"
    using True by (auto simp: peekEquals_def list_all_iff)
  also have "\<dots> \<longleftrightarrow> (\<forall>k < length eq. take (length eq) (bytes_left i) ! k = eq ! k)" using nth by simp
  also have "\<dots> \<longleftrightarrow> take (length eq) (bytes_left i) = eq" using len by (metis nth_equalityI)
  finally show ?thesis .
next
  case False
  then have "length (take (length eq) (bytes_left i)) < length eq"
    using assms by (auto simp: bytes_left_ok input_ok_def)
  then have "take (length eq) (bytes_left i) \<noteq> eq" by auto
  with False show ?thesis by (simp add: peekEquals_def)
qed

lemma skipWhitespace_blank:
  assumes "input_ok i" and "bytes_left i = R_SPACE # c # rest" and "\<not> byteIsWhitespace c"
  shows "\<exists>i0 i1. skipWhitespace i = (i0, c, i1) \<and> consumed i [R_SPACE] i0 (c # rest) \<and> consumed i0 [c] i1 rest"
proof -
  obtain i0 where i0: "readRune i = (R_SPACE, i0)" "consumed i [R_SPACE] i0 (c # rest)"
    using readRune_consumed [OF assms(1,2)] by blast
  then obtain i1 where i1: "readRune i0 = (c, i1)" "consumed i0 [c] i1 rest"
    using readRune_consumed [of i0 c rest] by (auto simp: consumed_def)
  have "skipWhitespace i = skipWhitespace i0" using i0(1) by (subst skipWhitespace.simps) (simp add: byteIsWhitespace_def)
  also have "\<dots> = (i0, c, i1)" using i1(1) assms(3) by (subst skipWhitespace.simps) simp
  finally show ?thesis using i0 i1 by blast
qed

lemma unat_of_nat32: "n < 2 ^ 32 \<Longrightarrow> unat (of_nat n :: 32 word) = n"
  by (simp add: unat_of_nat take_bit_nat_eq_self)

lemma slice_drop:
  assumes "drop p (RawBytes k) = xs @ rest" and "p \<le> length (RawBytes k)" and "length (RawBytes k) < 2 ^ 32"
    and "RefStart r = of_nat p" and "RefEnd r = of_nat (p + length xs)"
  shows "Input_ByteSlice k r = Some xs"
proof -
  have "length (RawBytes k) - p = length xs + length rest" using arg_cong [OF assms(1), of length] by simp
  then have le: "p + length xs \<le> length (RawBytes k)" using assms(2) by simp
  then have "p < 2 ^ 32" "p + length xs < 2 ^ 32" using assms(2,3) by linarith+
  then have "unat (RefStart r) = p" "unat (RefEnd r) = p + length xs"
    unfolding assms(4,5) using unat_of_nat32 [of p] unat_of_nat32 [of "p + length xs"] by blast+
  then show ?thesis using le assms(1) by (simp add: Input_ByteSlice_def word_le_nat_alt)
qed

lemma slice_consumed:
  assumes "consumed i xs j rest" and "Length i < 2 ^ 32" and "RawBytes k = RawBytes i"
    and "RefStart r = of_nat (InputPosition i)" and "RefEnd r = of_nat (InputPosition i + length xs)"
  shows "Input_ByteSlice k r = Some xs"
  using assms(1,2,3) by (intro slice_drop [OF _ _ _ assms(4,5), of _ rest]) (auto simp: consumed_def input_ok_def bytes_left_ok)

text \<open>What reading one lexeme must give.\<close>

definition reads_lexeme :: "Input \<Rightarrow> lexeme \<Rightarrow> string \<Rightarrow> bool" where
  "reads_lexeme i l rest \<longleftrightarrow> (\<exists>tok j. Read i = (tok, j) \<and> consumed i (R_SPACE # render l) j rest \<and>
     TokKeyword tok = kind l \<and> Input_ByteSlice i (Literal tok) = Some (content l))"

lemma reads_lexemeI:
  assumes "consumed i [R_SPACE] i0 (render l @ rest)" and "consumed i0 (render l) j rest" and "Length i < 2 ^ 32"
    and "Read i = (tok, j)" and "TokKeyword tok = kind l" and "content l = render l"
    and "RefStart (Literal tok) = of_nat (InputPosition i0)" and "RefEnd (Literal tok) = of_nat (InputPosition j)"
  shows "reads_lexeme i l rest"
proof -
  have "Length i0 = Length i" "RawBytes i = RawBytes i0" "InputPosition j = InputPosition i0 + length (render l)"
    using assms(1,2) by (auto simp: consumed_def input_ok_def)
  then have "Input_ByteSlice i (Literal tok) = Some (render l)"
    using slice_consumed [OF assms(2)] assms(3,7,8) by simp
  moreover have "consumed i (R_SPACE # render l) j rest" using consumed_trans [OF assms(1,2)] by simp
  ultimately show ?thesis using assms(4-6) by (auto simp: reads_lexeme_def)
qed

lemma punctuators_match:
  "\<forall>(k, c) \<in> set punctuators. matchSingleRuneToken c = Some k \<and> \<not> byteIsWhitespace c"
  by (simp add: punctuators_def matchSingleRuneToken.simps byteIsWhitespace_def)

lemma Read_Punct:
  assumes "input_ok i" "Length i < 2 ^ 32" "lexeme_ok (Punct k)" "bytes_left i = R_SPACE # render (Punct k) @ rest"
  shows "reads_lexeme i (Punct k) rest"
proof -
  obtain c where c: "map_of punctuators k = Some c" using assms(3) by auto
  then have "(k, c) \<in> set punctuators" by (rule map_of_SomeD)
  then have m: "matchSingleRuneToken c = Some k" and ws: "\<not> byteIsWhitespace c"
    using punctuators_match by auto
  obtain i0 i1 where w: "skipWhitespace i = (i0, c, i1)" "consumed i [R_SPACE] i0 (c # rest)" "consumed i0 [c] i1 rest"
    using skipWhitespace_blank [OF assms(1) _ ws, of rest] assms(4) c by auto
  have r: "Read i = (endHere i1 (withKeyword k (SetStart (InputPosition i0) (TextPosition i0) zero_token)), i1)"
    using w(1) m by (simp add: Read_def)
  show ?thesis
    by (rule reads_lexemeI [of i i0, OF _ _ assms(2) r]) (use w(2,3) c in simp_all)
qed

lemma ident_not_special:
  assumes "runeIsIdent c" and "\<not> runeIsDigit c" and "c \<noteq> R_SUB"
  shows "matchSingleRuneToken c = None" and "\<not> byteIsWhitespace c" and "c \<notin> {R_HASHTAG, R_QUOTE, R_DOT}"
proof -
  have "c \<notin> {R_EOF, CHR ''|'', CHR ''='', CHR ''@'', CHR '':'', CHR ''!'', CHR ''('', CHR '')'', CHR ''{'', CHR ''}'', CHR ''['',
      CHR '']'', CHR ''&'', CHR ''$'', R_HASHTAG, R_QUOTE, R_DOT, R_SPACE, R_TAB, R_CR, R_LF, R_COMMA}"
    using assms(1) by (auto simp: runeIsIdent_def less_eq_char_def)
  with assms(3) show "matchSingleRuneToken c = None" "\<not> byteIsWhitespace c" "c \<notin> {R_HASHTAG, R_QUOTE, R_DOT}"
    by (auto simp: matchSingleRuneToken.simps byteIsWhitespace_def)
qed

lemma digit_not_special:
  assumes "runeIsDigit c"
  shows "matchSingleRuneToken c = None" and "\<not> byteIsWhitespace c" and "c \<notin> {R_HASHTAG, R_QUOTE, R_DOT}"
proof -
  have "c \<notin> {R_EOF, CHR ''|'', CHR ''='', CHR ''@'', CHR '':'', CHR ''!'', CHR ''('', CHR '')'', CHR ''{'', CHR ''}'', CHR ''['',
      CHR '']'', CHR ''&'', CHR ''$'', R_SUB, R_HASHTAG, R_QUOTE, R_DOT, R_SPACE, R_TAB, R_CR, R_LF, R_COMMA}"
    using assms(1) by (auto simp: runeIsDigit_def less_eq_char_def)
  then show "matchSingleRuneToken c = None" "\<not> byteIsWhitespace c" "c \<notin> {R_HASHTAG, R_QUOTE, R_DOT}"
    by (auto simp: matchSingleRuneToken.simps byteIsWhitespace_def)
qed

lemma blank_not: "\<not> runeIsIdent R_SPACE" "\<not> runeIsDigit R_SPACE"
  by (simp_all add: runeIsIdent_def runeIsDigit_def less_eq_char_def)

lemma Read_Name:
  assumes "input_ok i" "Length i < 2 ^ 32" "lexeme_ok (Name xs)" "bytes_left i = R_SPACE # xs @ rest"
    and "rest = [] \<or> hd rest = R_SPACE"
  shows "reads_lexeme i (Name xs) rest"
proof -
  obtain c cs where xs: "xs = c # cs" using assms(3) by (cases xs) auto
  have c: "runeIsIdent c" "\<not> runeIsDigit c" "c \<noteq> R_SUB" "list_all runeIsIdent cs" using assms(3) xs by auto
  note sp = ident_not_special [OF c(1-3)]
  obtain i0 i1 where w: "skipWhitespace i = (i0, c, i1)" "consumed i [R_SPACE] i0 (c # cs @ rest)" "consumed i0 [c] i1 (cs @ rest)"
    using skipWhitespace_blank [OF assms(1) _ sp(2), of "cs @ rest"] assms(4) xs by auto
  have j: "consumed i1 cs (readIdent i1) rest"
    using w(3) c(4) assms(5) blank_not by (intro readIdent_consumed) (auto simp: consumed_def)
  have r: "Read i = (endHere (readIdent i1) (withKeyword K_IDENT (SetStart (InputPosition i0) (TextPosition i0) zero_token)), readIdent i1)"
    using w(1) sp c(2) by (simp add: Read_def Let_def)
  show ?thesis
    by (rule reads_lexemeI [of i i0, OF _ _ assms(2) r]) (use w xs consumed_trans [OF w(3) j] in simp_all)
qed

lemma Read_Digits:
  assumes "input_ok i" "Length i < 2 ^ 32" "lexeme_ok (Digits xs)" "bytes_left i = R_SPACE # xs @ rest"
    and "rest = [] \<or> hd rest = R_SPACE"
  shows "reads_lexeme i (Digits xs) rest"
proof -
  obtain c cs where xs: "xs = c # cs" using assms(3) by (cases xs) auto
  have c: "runeIsDigit c" "list_all runeIsDigit cs" using assms(3) xs by auto
  note sp = digit_not_special [OF c(1)]
  obtain i0 i1 where w: "skipWhitespace i = (i0, c, i1)" "consumed i [R_SPACE] i0 (c # cs @ rest)" "consumed i0 [c] i1 (cs @ rest)"
    using skipWhitespace_blank [OF assms(1) _ sp(2), of "cs @ rest"] assms(4) xs by auto
  obtain j where j: "skipDigits i1 = (case rest of [] \<Rightarrow> R_EOF | c # _ \<Rightarrow> c, j)" "consumed i1 cs j rest"
    using skipDigits_consumed [of i1 cs rest] w(3) c(2) assms(5) blank_not by (auto simp: consumed_def)
  have "(case rest of [] \<Rightarrow> R_EOF | c # _ \<Rightarrow> c) \<in> {R_EOF, R_SPACE}" using assms(5) by (cases rest) auto
  then have r: "Read i = (endHere j (withKeyword K_INTEGER (SetStart (InputPosition i0) (TextPosition i0) zero_token)), j)"
    using w(1) sp c(1) j(1) by (auto simp: Read_def readDigit_def Let_def)
  show ?thesis
    by (rule reads_lexemeI [of i i0, OF _ _ assms(2) r]) (use w xs consumed_trans [OF w(3) j(2)] in simp_all)
qed

lemma Read_Dots:
  assumes "input_ok i" "Length i < 2 ^ 32" "bytes_left i = R_SPACE # [R_DOT, R_DOT, R_DOT] @ rest"
  shows "reads_lexeme i Dots rest"
proof -
  have sp: "\<not> byteIsWhitespace R_DOT" "matchSingleRuneToken R_DOT = None"
    by (simp_all add: byteIsWhitespace_def matchSingleRuneToken.simps)
  obtain i0 i1 where w: "skipWhitespace i = (i0, R_DOT, i1)" "consumed i [R_SPACE] i0 (R_DOT # R_DOT # R_DOT # rest)"
    "consumed i0 [R_DOT] i1 (R_DOT # R_DOT # rest)"
    using skipWhitespace_blank [OF assms(1) _ sp(1), of "R_DOT # R_DOT # rest"] assms(3) by auto
  obtain i2 where i2: "readRune i1 = (R_DOT, i2)" "consumed i1 [R_DOT] i2 (R_DOT # rest)"
    using readRune_consumed [of i1] w(3) by (auto simp: consumed_def)
  obtain i3 where i3: "readRune i2 = (R_DOT, i3)" "consumed i2 [R_DOT] i3 rest"
    using readRune_consumed [of i2] i2(2) by (auto simp: consumed_def)
  have sw: "swallowAmount 2 i1 = i3" using i2(1) i3(1) by (simp add: numeral_2_eq_2)
  have "peekEquals False [R_DOT, R_DOT] i1" using w(3) by (subst peekEquals_prefix) (auto simp: consumed_def)
  then have r: "Read i = (endHere i3 (withKeyword K_SPREAD (SetStart (InputPosition i0) (TextPosition i0) zero_token)), i3)"
    using w(1) sp sw by (simp add: Read_def readDotOrSpread_def Let_def)
  show ?thesis
    by (rule reads_lexemeI [of i i0, OF _ _ assms(2) r]) (use w i2 i3 in \<open>auto simp: consumed_def\<close>)
qed

lemma Read_Quoted:
  assumes "input_ok i" "Length i < 2 ^ 32" "lexeme_ok (Quoted xs)" "bytes_left i = R_SPACE # R_QUOTE # xs @ R_QUOTE # rest"
    and "rest = [] \<or> hd rest = R_SPACE"
  shows "reads_lexeme i (Quoted xs) rest"
proof -
  have sp: "\<not> byteIsWhitespace R_QUOTE" "matchSingleRuneToken R_QUOTE = None"
    by (simp_all add: byteIsWhitespace_def matchSingleRuneToken.simps)
  obtain i0 i1 where w: "skipWhitespace i = (i0, R_QUOTE, i1)" "consumed i [R_SPACE] i0 (R_QUOTE # xs @ R_QUOTE # rest)"
    "consumed i0 [R_QUOTE] i1 (xs @ R_QUOTE # rest)"
    using skipWhitespace_blank [OF assms(1) _ sp(1), of "xs @ R_QUOTE # rest"] assms(4) by auto
  let ?tok = "shiftBack 1 (SetStart (InputPosition i1) (TextPosition i1) (withKeyword K_STRING
      (SetStart (InputPosition i0) (TextPosition i0) zero_token)))"
  have "take (length [R_QUOTE, R_QUOTE]) (xs @ R_QUOTE # rest) \<noteq> [R_QUOTE, R_QUOTE]"
    using assms(3,5) by (cases xs; cases rest) auto
  moreover have "input_ok i1" "bytes_left i1 = xs @ R_QUOTE # rest" using w(3) by (simp_all add: consumed_def)
  ultimately have "\<not> peekEquals False [R_QUOTE, R_QUOTE] i1" by (simp only: peekEquals_prefix simp_thms)
  moreover obtain j where j: "singleLineString_loop False ?tok i1 = (SetEnd (InputPosition i1 + length xs) (TextPosition j) ?tok, j)"
    "consumed i1 (xs @ [R_QUOTE]) j rest"
    using singleLineString_consumed [of i1 xs rest ?tok] w(3) assms(3) by (auto simp: consumed_def)
  ultimately have r: "Read i = (SetEnd (InputPosition i1 + length xs) (TextPosition j) ?tok, j)"
    using w(1) sp by (simp add: Read_def readString_def readSingleLineString_def Let_def)
  have "consumed i0 (R_QUOTE # xs @ [R_QUOTE]) j rest" using consumed_trans [of i0 "[R_QUOTE]" i1] w(3) j(2) by fastforce
  then have "consumed i (R_SPACE # render (Quoted xs)) j rest" using consumed_trans [of i "[R_SPACE]" i0] w(2) by fastforce
  moreover have "Input_ByteSlice i (Literal (SetEnd (InputPosition i1 + length xs) (TextPosition j) ?tok)) = Some xs"
  proof (rule slice_drop)
    show "drop (InputPosition i1) (RawBytes i) = xs @ R_QUOTE # rest"
      using w(2,3) by (auto simp: consumed_def bytes_left_ok)
    show "InputPosition i1 \<le> length (RawBytes i)" "length (RawBytes i) < 2 ^ 32"
      using w(2,3) assms(1,2) by (auto simp: consumed_def input_ok_def)
  qed simp_all
  ultimately show ?thesis using r unfolding reads_lexeme_def
    by (intro exI [of _ "SetEnd (InputPosition i1 + length xs) (TextPosition j) ?tok"] exI [of _ j]) simp
qed


lemma Read_lexeme:
  assumes "input_ok i" "Length i < 2 ^ 32" "lexeme_ok l" "bytes_left i = R_SPACE # render l @ rest"
    and "rest = [] \<or> hd rest = R_SPACE"
  shows "reads_lexeme i l rest"
  using assms Read_Punct Read_Dots Read_Name Read_Digits Read_Quoted by (cases l) auto

lemma kind_not_EOF: "lexeme_ok l \<Longrightarrow> kind l \<noteq> K_EOF"
  by (cases l) (auto simp: punctuators_def)

lemma render_all_rest: "render_all ls = [] \<or> hd (render_all ls) = R_SPACE"
  by (cases ls) (auto simp: render_all_def)

lemma lex_all_end: "bytes_left i = [] \<Longrightarrow> input_ok i \<Longrightarrow> lex_all i = []"
proof -
  assume i: "bytes_left i = []" "input_ok i"
  then have "readRune i = (R_EOF, i)" by (auto simp: readRune_def bytes_left_ok input_ok_def)
  then have "skipWhitespace i = (i, R_EOF, i)" by (subst skipWhitespace.simps) (simp add: byteIsWhitespace_def)
  then have "\<exists>tok. Read i = (tok, i) \<and> TokKeyword tok = K_EOF" by (simp add: Read_def matchSingleRuneToken.simps)
  then show ?thesis using lex_all_unfold by auto
qed

lemma lex_render:
  "input_ok i \<Longrightarrow> Length i < 2 ^ 32 \<Longrightarrow> list_all lexeme_ok ls \<Longrightarrow> bytes_left i = render_all ls \<Longrightarrow> RawBytes k = RawBytes i \<Longrightarrow>
   map (\<lambda>t. (TokKeyword t, Input_ByteSlice k (Literal t))) (lex_all i) = map (\<lambda>l. (kind l, Some (content l))) ls"
proof (induction ls arbitrary: i)
  case Nil
  then show ?case by (simp add: render_all_def lex_all_end)
next
  case (Cons l ls)
  have b: "bytes_left i = R_SPACE # render l @ render_all ls" using Cons.prems(4) by (simp add: render_all_def)
  have "reads_lexeme i l (render_all ls)"
    using Read_lexeme [OF Cons.prems(1,2) _ b render_all_rest] Cons.prems(3) by simp
  then obtain tok j where r: "Read i = (tok, j)" "consumed i (R_SPACE # render l) j (render_all ls)"
    "TokKeyword tok = kind l" "Input_ByteSlice i (Literal tok) = Some (content l)" by (auto simp: reads_lexeme_def)
  have "lex_all i = tok # lex_all j" using lex_all_unfold [OF r(1)] r(3) kind_not_EOF Cons.prems(3) by simp
  moreover have "Input_ByteSlice k (Literal tok) = Some (content l)" using r(4) unfolding Input_ByteSlice_def Cons.prems(5) .
  moreover have "input_ok j" "Length j < 2 ^ 32" "bytes_left j = render_all ls" "RawBytes k = RawBytes j"
    using r(2) Cons.prems(2,5) by (auto simp: consumed_def input_ok_def)
  ultimately show ?case using Cons.IH [of j] Cons.prems(3) r(3) by simp
qed

lemma new_input_ok: "input_ok (new_input bs)" "Length (new_input bs) = length bs" "RawBytes (new_input bs) = bs"
  "bytes_left (new_input bs) = bs" "InputPosition (new_input bs) = 0"
  by (simp_all add: new_input_def ResetInputBytes_def AppendInputBytes_def Input_Reset_def Let_def input_ok_def bytes_left_def)

lemma tokenize_render:
  assumes "list_all lexeme_ok ls" and "length (render_all ls) < 2 ^ 32"
  shows "map (\<lambda>t. (TokKeyword t, Input_ByteSlice (new_input (render_all ls)) (Literal t)))
      (tokens (Tokenize (new_input (render_all ls)) NewTokenizer)) = map (\<lambda>l. (kind l, Some (content l))) ls"
  using lex_render [OF new_input_ok(1)] assms by (simp add: Tokenize_tokens new_input_ok)


section \<open>Inputs the lexer splits in an unexpected way\<close>

definition lexed :: "string \<Rightarrow> (Keyword \<times> string option) list" where
  "lexed bytes = map (\<lambda>t. (TokKeyword t, Input_ByteSlice (new_input bytes) (Literal t))) (lex_all (new_input bytes))"

text \<open>A signed exponent without a fraction is three tokens, a sign after a fraction is part of the number.\<close>

lemma exponent_sign_split: "lexed ''1e-5'' = [(K_FLOAT, Some ''1e''), (K_SUB, Some ''-''), (K_INTEGER, Some ''5'')]"
  by code_simp

lemma fraction_sign_joined: "lexed ''1.5-3'' = [(K_FLOAT, Some ''1.5-3'')]"
  by code_simp

text \<open>A quote between blanks is trimmed away from a block string.\<close>

lemma block_string_loses_quote:
  "lexed [R_QUOTE, R_QUOTE, R_QUOTE, R_SPACE, R_QUOTE, R_SPACE, R_QUOTE, R_QUOTE, R_QUOTE] = [(K_BLOCKSTRING, Some '' '')]"
  by code_simp

text \<open>A NUL byte ends the document.\<close>

lemma nul_ends_document: "lexed (''a'' @ [R_SPACE, R_EOF, R_SPACE] @ ''b'') = [(K_IDENT, Some ''a'')]"
  by code_simp

text \<open>After a field named like an operation no field of the selection set is counted.\<close>

lemma keyword_field_hides_fields:
  "fst (TokenizeWithLimits \<lparr>MaxDepth = 0, MaxFields = 1\<rparr> (new_input ''{query a b c}'') NewTokenizer)
     = (\<lparr>TotalDepth = 1, TotalFields = 0\<rparr>, None)"
  by code_simp

text \<open>\<open>Input.Reset\<close> leaves the length of the old input behind.\<close>

lemma Input_Reset_stale_length: "\<not> input_ok (Input_Reset (new_input ''a''))"
  by code_simp

end
