(* ===== verification/Cache_Control.thy ===== *)
theory Cache_Control
  imports GQL_Prelude "HOL-Library.Word"
begin

text \<open>
  The \<open>Cache-Control\<close> response header: the lexer of \<open>v2/pkg/engine/cache/lex.go\<close> and the
  parser of \<open>v2/pkg/engine/cache/cache_control.go\<close>. A byte is a \<open>char\<close>, a rune an \<open>int\<close>
  with \<open>-1\<close> for the end of the input, \<open>DeltaSeconds\<close> (an \<open>int32\<close>) a \<open>32 word\<close>
  read by \<open>sint\<close>. Every \<open>error\<close> the code creates is a value of \<open>cc_error\<close>.
\<close>

section \<open>Lexer\<close>

datatype tokenType = tokenTypeIdent | tokenTypeEOF | tokenTypeComma | tokenTypeEquals | tokenTypeString

record token_cc =
  tt :: tokenType
  lit :: string
  token_start :: nat
  token_end :: nat

definition zero_token_cc :: token_cc where
  "zero_token_cc = \<lparr>tt = tokenTypeIdent, lit = [], token_start = 0, token_end = 0\<rparr>"

definition setStart :: "nat \<Rightarrow> token_cc \<Rightarrow> token_cc" where
  "setStart s t = t\<lparr>token_start := s\<rparr>"

text \<open>The slice \<open>input[start:end]\<close>; the callers keep \<open>start \<le> end \<le> len(input)\<close>.\<close>

definition setEnd :: "nat \<Rightarrow> string \<Rightarrow> token_cc \<Rightarrow> token_cc" where
  "setEnd e inp t = t\<lparr>token_end := e, lit := take (e - token_start t) (drop (token_start t) inp)\<rparr>"

record directiveArgument =
  present :: bool
  arg_text :: string

record lexer_cc =
  lx_pos :: nat
  tokenPos :: nat
  lx_input :: string
  lx_tokens :: "token_cc list"

definition newLexer :: "string \<Rightarrow> lexer_cc" where
  "newLexer inp = \<lparr>lx_pos = 0, tokenPos = 0, lx_input = inp, lx_tokens = []\<rparr>"

datatype cc_error =
  ControlCharacter int nat
| InvalidCharacter int nat
| UnexpectedEnd nat
| UnexpectedAfterQuoted string nat
| ExpectedComma string nat
| UnexpectedToken string nat
| RequiresValue string
| NotANumber string string

definition byte_rune :: "char \<Rightarrow> int" where
  "byte_rune c = of_char c"

lemma byte_rune_nonneg [simp]: "byte_rune c \<ge> 0" "byte_rune c \<noteq> -1"
proof -
  show "byte_rune c \<ge> 0" by (cases c) (simp add: byte_rune_def)
  then show "byte_rune c \<noteq> -1" by linarith
qed

lemma byte_rune_eq_iff [simp]: "byte_rune c = byte_rune d \<longleftrightarrow> c = d"
  by (simp add: byte_rune_def)

definition isWhitespace_cc :: "int \<Rightarrow> bool" where
  "isWhitespace_cc r \<longleftrightarrow> r = 0x20 \<or> r = 0x09"

definition isControlCharacter :: "int \<Rightarrow> bool" where
  "isControlCharacter r \<longleftrightarrow> r \<ge> 0 \<and> (r \<le> 0x1F \<or> r = 0x7F)"

definition isForbiddenCharacter :: "int \<Rightarrow> bool" where
  "isForbiddenCharacter r \<longleftrightarrow> r \<noteq> 0x09 \<and> isControlCharacter r"

text \<open>The separators of the \<open>switch\<close>, in its order.\<close>

definition isInvalidTokenCharacter :: "int \<Rightarrow> bool" where
  "isInvalidTokenCharacter r \<longleftrightarrow>
     r \<in> set (map byte_rune [CHR ''('', CHR '')'', CHR ''<'', CHR ''>'', CHR ''@'', CHR '','', CHR '';'', CHR '':'',
       CHR 0x5C, CHR 0x22, CHR ''/'', CHR ''['', CHR '']'', CHR ''?'', CHR ''='', CHR ''{'', CHR ''}'',
       CHR '' '', CHR 0x09])"

definition isPrintableCharacter :: "int \<Rightarrow> bool" where
  "isPrintableCharacter r \<longleftrightarrow> r \<ge> 0x20 \<and> r \<le> 0x7E"

definition peek_cc :: "nat \<Rightarrow> lexer_cc \<Rightarrow> int" where
  "peek_cc n l = (if lx_pos l + n \<ge> length (lx_input l) then -1 else byte_rune (lx_input l ! (lx_pos l + n)))"

definition advance_cc :: "nat \<Rightarrow> lexer_cc \<Rightarrow> lexer_cc" where
  "advance_cc n l =
     (if lx_pos l + n \<ge> length (lx_input l) then l\<lparr>lx_pos := length (lx_input l)\<rparr> else l\<lparr>lx_pos := lx_pos l + n\<rparr>)"

definition read_cc :: "lexer_cc \<Rightarrow> int \<times> lexer_cc" where
  "read_cc l =
     (if lx_pos l \<ge> length (lx_input l) then (-1, l)
      else (byte_rune (lx_input l ! lx_pos l), l\<lparr>lx_pos := lx_pos l + 1\<rparr>))"

definition atEnd :: "lexer_cc \<Rightarrow> bool" where
  "atEnd l \<longleftrightarrow> lx_pos l \<ge> length (lx_input l)"

text \<open>\<open>None\<close> is the result \<open>false\<close>, which leaves the token as it is.\<close>

definition matchSingleRuneToken_cc :: "int \<Rightarrow> token_cc \<Rightarrow> token_cc option" where
  "matchSingleRuneToken_cc r tok =
     (if r = -1 then Some (tok\<lparr>tt := tokenTypeEOF\<rparr>)
      else if r = 0x3D then Some (tok\<lparr>tt := tokenTypeEquals\<rparr>)
      else if r = 0x2C then Some (tok\<lparr>tt := tokenTypeComma\<rparr>)
      else None)"

definition lx_left :: "lexer_cc \<Rightarrow> nat" where
  "lx_left l = length (lx_input l) - lx_pos l"

lemma lx_left_advance: "\<not> atEnd l \<Longrightarrow> lx_left (advance_cc (Suc 0) l) < lx_left l"
  by (auto simp: atEnd_def advance_cc_def lx_left_def)

lemma lx_left_read: "\<not> atEnd l \<Longrightarrow> read_cc l = (r, l') \<Longrightarrow> lx_left l' < lx_left l"
  by (auto simp: atEnd_def read_cc_def lx_left_def)

function readIdent_loop_cc :: "token_cc \<Rightarrow> lexer_cc \<Rightarrow> (cc_error, token_cc \<times> lexer_cc) result" where
  "readIdent_loop_cc tok l =
     (if atEnd l then Inr (setEnd (lx_pos l) (lx_input l) tok, l)
      else (let r = peek_cc 0 l in
        if isForbiddenCharacter r then Inl (ControlCharacter r (lx_pos l))
        else if r = 0x2C \<or> r = 0x3D \<or> r = 0x20 \<or> r = 0x09 then Inr (setEnd (lx_pos l) (lx_input l) tok, l)
        else if \<not> isPrintableCharacter r \<or> isInvalidTokenCharacter r then Inl (InvalidCharacter r (lx_pos l))
        else readIdent_loop_cc tok (advance_cc 1 l)))"
  by pat_completeness auto
termination by (relation "measure (\<lambda>(tok, l). lx_left l)") (auto simp: lx_left_advance)

definition readIdent_cc :: "token_cc \<Rightarrow> lexer_cc \<Rightarrow> (cc_error, token_cc \<times> lexer_cc) result" where
  "readIdent_cc tok l = readIdent_loop_cc (tok\<lparr>tt := tokenTypeIdent\<rparr>) l"

function readString_loop_cc :: "token_cc \<Rightarrow> lexer_cc \<Rightarrow> (cc_error, token_cc \<times> lexer_cc) result" where
  "readString_loop_cc tok l =
     (if atEnd l then Inl (UnexpectedEnd (lx_pos l))
      else (let r = peek_cc 0 l in
        if isForbiddenCharacter r then Inl (ControlCharacter r (lx_pos l))
        else if r = 0x22 then Inr (setEnd (lx_pos l) (lx_input l) tok, advance_cc 1 l)
        else readString_loop_cc tok (advance_cc 1 l)))"
  by pat_completeness auto
termination by (relation "measure (\<lambda>(tok, l). lx_left l)") (auto simp: lx_left_advance)

definition readString_cc :: "token_cc \<Rightarrow> lexer_cc \<Rightarrow> (cc_error, token_cc \<times> lexer_cc) result" where
  "readString_cc tok l = readString_loop_cc ((setStart (lx_pos l) tok)\<lparr>tt := tokenTypeString\<rparr>) l"

function nextToken :: "lexer_cc \<Rightarrow> (cc_error, token_cc \<times> lexer_cc) result" where
  "nextToken l =
     (let tok = setStart (lx_pos l) zero_token_cc in
      if atEnd l then Inr (setEnd (lx_pos l) (lx_input l) (tok\<lparr>tt := tokenTypeEOF\<rparr>), l)
      else (case read_cc l of (r, l') \<Rightarrow>
        if isForbiddenCharacter r then Inl (ControlCharacter r (lx_pos l' - 1))
        else if isWhitespace_cc r then nextToken l'
        else (case matchSingleRuneToken_cc r tok of
            Some tok' \<Rightarrow> Inr (setEnd (lx_pos l') (lx_input l') tok', l')
          | None \<Rightarrow> if r = 0x22 then readString_cc tok l' else readIdent_cc tok l')))"
  by pat_completeness auto
termination by (relation "measure lx_left") (auto dest: lx_left_read [OF _ sym])

declare readIdent_loop_cc.simps [simp del] readString_loop_cc.simps [simp del] nextToken.simps [simp del]

subsection \<open>Progress\<close>

text \<open>\<open>lx_step l l'\<close>: the same input, read from a position that has not moved back or past its end.\<close>

definition lx_step :: "lexer_cc \<Rightarrow> lexer_cc \<Rightarrow> bool" where
  "lx_step l l' \<longleftrightarrow> lx_input l' = lx_input l \<and> lx_tokens l' = lx_tokens l \<and> tokenPos l' = tokenPos l \<and>
     lx_pos l \<le> lx_pos l' \<and> (lx_pos l \<le> length (lx_input l) \<longrightarrow> lx_pos l' \<le> length (lx_input l))"

lemma lx_step_refl: "lx_step l l"
  by (simp add: lx_step_def)

lemma lx_step_trans: "lx_step a b \<Longrightarrow> lx_step b c \<Longrightarrow> lx_step a c"
  by (auto simp: lx_step_def)

lemma advance_step: "\<not> atEnd l \<Longrightarrow> lx_step l (advance_cc (Suc 0) l) \<and> lx_pos (advance_cc (Suc 0) l) = Suc (lx_pos l)"
  by (auto simp: lx_step_def advance_cc_def atEnd_def)

lemma read_step: "\<not> atEnd l \<Longrightarrow> read_cc l = (r, l') \<Longrightarrow> lx_step l l' \<and> lx_pos l' = Suc (lx_pos l)"
  by (auto simp: lx_step_def read_cc_def atEnd_def)

text \<open>\<open>tok_ok inp t\<close>: the literal of the token is the slice its positions name.\<close>

definition tok_ok :: "string \<Rightarrow> token_cc \<Rightarrow> bool" where
  "tok_ok inp t \<longleftrightarrow> token_start t \<le> token_end t \<and> token_end t \<le> length inp \<and>
     lit t = take (token_end t - token_start t) (drop (token_start t) inp)"

lemma tok_ok_setEnd: "token_start t \<le> e \<Longrightarrow> e \<le> length inp \<Longrightarrow> tok_ok inp (setEnd e inp t)"
  by (simp add: tok_ok_def setEnd_def)

lemma setEnd_fields [simp]: "tt (setEnd e inp t) = tt t" "token_start (setEnd e inp t) = token_start t"
  "token_end (setEnd e inp t) = e"
  by (simp_all add: setEnd_def)

lemma setStart_fields [simp]: "tt (setStart s t) = tt t" "token_start (setStart s t) = s"
  by (simp_all add: setStart_def)

lemma readIdent_loop_step:
  "readIdent_loop_cc tok l = Inr (t, l') \<Longrightarrow> token_start tok \<le> lx_pos l \<Longrightarrow> lx_pos l \<le> length (lx_input l) \<Longrightarrow>
   lx_step l l' \<and> tok_ok (lx_input l) t \<and> tt t = tt tok \<and> token_start t = token_start tok \<and> token_end t = lx_pos l'"
proof (induction tok l rule: readIdent_loop_cc.induct)
  case (1 tok l)
  show ?case
  proof (cases "atEnd l \<or> peek_cc 0 l \<in> {0x2C, 0x3D, 0x20, 0x09}")
    case True
    with "1.prems" show ?thesis
      by (subst (asm) readIdent_loop_cc.simps)
        (auto simp: Let_def lx_step_refl tok_ok_setEnd split: if_splits)
  next
    case False
    then have e: "\<not> atEnd l" and s: "\<not> (peek_cc 0 l = 44 \<or> peek_cc 0 l = 61 \<or> peek_cc 0 l = 32 \<or> peek_cc 0 l = 9)"
      by auto
    from "1.prems"(1) e s have f: "\<not> isForbiddenCharacter (peek_cc 0 l)"
      and p: "\<not> (\<not> isPrintableCharacter (peek_cc 0 l) \<or> isInvalidTokenCharacter (peek_cc 0 l))"
      and r: "readIdent_loop_cc tok (advance_cc 1 l) = Inr (t, l')"
      by (auto simp: readIdent_loop_cc.simps [of tok l] Let_def split: if_splits)
    have a: "lx_step l (advance_cc 1 l)" "lx_pos (advance_cc 1 l) = Suc (lx_pos l)"
      using advance_step [OF e] by auto
    have b: "lx_input (advance_cc 1 l) = lx_input l" "lx_pos (advance_cc 1 l) \<le> length (lx_input l)"
      using a "1.prems"(3) by (auto simp: lx_step_def)
    show ?thesis
      using "1.IH" [OF e refl f s p r] a b "1.prems"(2) lx_step_trans [OF a(1)] by auto
  qed
qed

lemma readString_loop_step:
  "readString_loop_cc tok l = Inr (t, l') \<Longrightarrow> token_start tok \<le> lx_pos l \<Longrightarrow> lx_pos l \<le> length (lx_input l) \<Longrightarrow>
   lx_step l l' \<and> tok_ok (lx_input l) t \<and> tt t = tt tok \<and> token_start t = token_start tok \<and> lx_pos l' = Suc (token_end t)"
proof (induction tok l rule: readString_loop_cc.induct)
  case (1 tok l)
  from "1.prems"(1) have e: "\<not> atEnd l" and f: "\<not> isForbiddenCharacter (peek_cc 0 l)"
    by (auto simp: readString_loop_cc.simps [of tok l] Let_def split: if_splits)
  have a: "lx_step l (advance_cc 1 l)" "lx_pos (advance_cc 1 l) = Suc (lx_pos l)"
    using advance_step [OF e] by auto
  have b: "lx_input (advance_cc 1 l) = lx_input l" "lx_pos (advance_cc 1 l) \<le> length (lx_input l)"
    using a "1.prems"(3) by (auto simp: lx_step_def)
  show ?case
  proof (cases "peek_cc 0 l = 0x22")
    case True
    with "1.prems" a e f show ?thesis
      by (auto simp: readString_loop_cc.simps [of tok l] Let_def tok_ok_setEnd)
  next
    case False
    with "1.prems"(1) e f have r: "readString_loop_cc tok (advance_cc 1 l) = Inr (t, l')"
      by (auto simp: readString_loop_cc.simps [of tok l] Let_def)
    show ?thesis
      using "1.IH" [OF e refl f False r] a b "1.prems"(2) lx_step_trans [OF a(1)] by auto
  qed
qed

text \<open>
  What a token is: at the end of the input the end token, otherwise a slice behind the position
  the reading started from, with the position moved behind the token.
\<close>

lemma nextToken_step:
  "nextToken l = Inr (t, l') \<Longrightarrow> lx_pos l \<le> length (lx_input l) \<Longrightarrow>
   lx_step l l' \<and> tok_ok (lx_input l) t \<and> lx_pos l \<le> token_start t \<and> token_end t \<le> lx_pos l' \<and>
   (if tt t = tokenTypeEOF then lx_pos l' = length (lx_input l) else lx_pos l < lx_pos l')"
proof (induction l rule: nextToken.induct)
  case (1 l)
  show ?case
  proof (cases "atEnd l")
    case True
    with "1.prems" show ?thesis
      by (auto simp: nextToken.simps [of l] lx_step_refl tok_ok_setEnd atEnd_def)
  next
    case e: False
    obtain r m where rm: "read_cc l = (r, m)" by fastforce
    have f: "\<not> isForbiddenCharacter r"
      using "1.prems"(1) e rm by (auto simp: nextToken.simps [of l] split: if_splits)
    have r: "r \<noteq> -1" using e rm by (auto simp: read_cc_def atEnd_def)
    have m: "lx_step l m" "lx_pos m = Suc (lx_pos l)" using read_step [OF e rm] by auto
    have n: "lx_input m = lx_input l" "lx_pos m \<le> length (lx_input l)"
      using m "1.prems"(2) by (auto simp: lx_step_def)
    let ?tok = "setStart (lx_pos l) zero_token_cc"
    show ?thesis
    proof (cases "isWhitespace_cc r")
      case True
      with "1.prems"(1) e rm f have "nextToken m = Inr (t, l')" by (simp add: nextToken.simps [of l])
      from "1.IH" [OF refl e rm [symmetric] f True this] n m lx_step_trans [OF m(1)]
      show ?thesis by (auto split: if_splits)
    next
      case w: False
      show ?thesis
      proof (cases "matchSingleRuneToken_cc r ?tok")
        case (Some tok')
        with "1.prems"(1) e rm f w m n r show ?thesis
          by (auto simp: nextToken.simps [of l] matchSingleRuneToken_cc_def tok_ok_setEnd split: if_splits)
      next
        case None
        with "1.prems"(1) e rm f w
        have q: "(if r = 0x22 then readString_cc ?tok m else readIdent_cc ?tok m) = Inr (t, l')"
          by (simp add: nextToken.simps [of l] Let_def)
        show ?thesis
        proof (cases "r = 0x22")
          case True
          with q readString_loop_step [of _ m t l'] m n lx_step_trans [OF m(1)] show ?thesis
            by (force simp: readString_cc_def lx_step_def)
        next
          case False
          with q readIdent_loop_step [of _ m t l'] m n lx_step_trans [OF m(1)] show ?thesis
            by (force simp: readIdent_cc_def lx_step_def)
        qed
      qed
    qed
  qed
qed

subsection \<open>The token list\<close>

lemma nextToken_left: "nextToken l = Inr (t, l') \<Longrightarrow> tt t \<noteq> tokenTypeEOF \<Longrightarrow> lx_left l' < lx_left l"
proof (cases "lx_pos l \<le> length (lx_input l)")
  case True
  then show "nextToken l = Inr (t, l') \<Longrightarrow> tt t \<noteq> tokenTypeEOF \<Longrightarrow> lx_left l' < lx_left l"
    using nextToken_step [of l t l'] by (auto simp: lx_left_def lx_step_def)
next
  case False
  then show "nextToken l = Inr (t, l') \<Longrightarrow> tt t \<noteq> tokenTypeEOF \<Longrightarrow> lx_left l' < lx_left l"
    by (auto simp: nextToken.simps [of l] atEnd_def)
qed

function tokenize :: "lexer_cc \<Rightarrow> (cc_error, lexer_cc) result" where
  "tokenize l =
     (case nextToken l of
        Inl e \<Rightarrow> Inl e
      | Inr (t, l') \<Rightarrow>
          if tt t = tokenTypeEOF then Inr l' else tokenize (l'\<lparr>lx_tokens := lx_tokens l' @ [t]\<rparr>))"
  by pat_completeness auto
termination
proof (relation "measure lx_left")
  fix l y t l'
  assume "nextToken l = Inr y" "(t, l') = y" "tt t \<noteq> tokenTypeEOF"
  then have "lx_left l' < lx_left l" using nextToken_left by auto
  then show "(l'\<lparr>lx_tokens := lx_tokens l' @ [t]\<rparr>, l) \<in> measure lx_left" by (simp add: lx_left_def)
qed simp

declare tokenize.simps [simp del]

definition eof_token :: token_cc where
  "eof_token = zero_token_cc\<lparr>tt := tokenTypeEOF\<rparr>"

definition peekToken :: "lexer_cc \<Rightarrow> token_cc" where
  "peekToken l = (if tokenPos l < length (lx_tokens l) then lx_tokens l ! tokenPos l else eof_token)"

definition readToken :: "nat \<Rightarrow> lexer_cc \<Rightarrow> token_cc \<times> lexer_cc" where
  "readToken offset l =
     (if tokenPos l + offset < length (lx_tokens l)
      then (lx_tokens l ! (tokenPos l + offset), l\<lparr>tokenPos := tokenPos l + offset + 1\<rparr>)
      else (eof_token, l))"

definition readArgument :: "lexer_cc \<Rightarrow> (cc_error, directiveArgument \<times> lexer_cc) result" where
  "readArgument l =
     (if tt (peekToken l) \<noteq> tokenTypeEquals then Inr (\<lparr>present = False, arg_text = []\<rparr>, l)
      else (let l1 = snd (readToken 0 l); arg = \<lparr>present = True, arg_text = []\<rparr>; v = peekToken l1 in
        case tt v of
          tokenTypeString \<Rightarrow>
            (let l2 = snd (readToken 0 l1); after = peekToken l2 in
             if tt after \<noteq> tokenTypeComma \<and> tt after \<noteq> tokenTypeEOF
             then Inl (UnexpectedAfterQuoted (lit after) (token_start after))
             else Inr (arg\<lparr>arg_text := lit v\<rparr>, l2))
        | tokenTypeIdent \<Rightarrow> Inr (arg\<lparr>arg_text := lit v\<rparr>, snd (readToken 0 l1))
        | _ \<Rightarrow> Inr (arg, l1)))"

section \<open>Field names\<close>

text \<open>
  The set of names \<open>map[string]struct{}\<close> is a list without repetitions, \<open>None\<close> the nil map.
  \<open>Fields\<close> yields the names one by one until the consumer stops; it is the list of what it
  would yield, in some order.
\<close>

record FieldNames =
  noFields :: bool
  field_set :: "string list option"

definition NewFieldNames :: FieldNames where
  "NewFieldNames = \<lparr>noFields = False, field_set = Some []\<rparr>"

definition Add :: "string \<Rightarrow> FieldNames \<Rightarrow> FieldNames" where
  "Add name f =
     (let g = (if field_set f = None then f\<lparr>field_set := Some []\<rparr> else f) in
      if noFields g then g else g\<lparr>field_set := map_option (List.insert name) (field_set g)\<rparr>)"

definition Fields :: "FieldNames \<Rightarrow> string list" where
  "Fields f = (if field_set f = None \<or> noFields f then [] else the (field_set f))"

definition has :: "string \<Rightarrow> FieldNames option \<Rightarrow> bool" where
  "has name f =
     (case f of None \<Rightarrow> False
      | Some f \<Rightarrow> if noFields f then False else (case field_set f of None \<Rightarrow> False | Some ns \<Rightarrow> name \<in> set ns))"

definition LockFields :: "FieldNames \<Rightarrow> FieldNames" where
  "LockFields f = f\<lparr>noFields := True\<rparr>"

section \<open>Delta seconds\<close>

text \<open>
  \<open>strconv.ParseInt(s, 10, 64)\<close>: an optional sign and at least one digit; \<open>None\<close> is its error
  (syntax, or a value outside \<open>int64\<close>).
\<close>

definition is_digit :: "char \<Rightarrow> bool" where
  "is_digit c \<longleftrightarrow> byte_rune CHR ''0'' \<le> byte_rune c \<and> byte_rune c \<le> byte_rune CHR ''9''"

definition digits_value :: "string \<Rightarrow> int" where
  "digits_value = foldl (\<lambda>n c. 10 * n + (byte_rune c - byte_rune CHR ''0'')) 0"

definition ParseInt10 :: "string \<Rightarrow> int option" where
  "ParseInt10 s =
     (let neg = (s \<noteq> [] \<and> hd s = CHR ''-'');
          ds = (if s \<noteq> [] \<and> (hd s = CHR ''-'' \<or> hd s = CHR ''+'') then tl s else s) in
      if ds = [] \<or> \<not> list_all is_digit ds then None
      else if \<not> neg \<and> digits_value ds \<ge> 2 ^ 63 then None
      else if neg \<and> digits_value ds > 2 ^ 63 then None
      else Some (if neg then - digits_value ds else digits_value ds))"

type_synonym DeltaSeconds = "32 word"

definition MaxInt32 :: int where
  "MaxInt32 = 2147483647"

definition parseDeltaSeconds :: "string \<Rightarrow> DeltaSeconds option" where
  "parseDeltaSeconds s =
     (case ParseInt10 s of
        None \<Rightarrow> None
      | Some num \<Rightarrow> if num < 0 then Some (-1) else if num > MaxInt32 then Some (word_of_int MaxInt32)
                    else Some (word_of_int num))"

text \<open>\<open>time.Duration\<close> is an \<open>int64\<close> of nanoseconds.\<close>

definition AsDuration :: "DeltaSeconds \<Rightarrow> 64 word" where
  "AsDuration d = signed d * 1000000000"

section \<open>The parser\<close>

record CacheControlResponse =
  MaxAge :: "DeltaSeconds option"
  SMaxAge :: "DeltaSeconds option"
  NoStore :: bool
  NoCache :: "FieldNames option"
  Public :: bool
  Private :: "FieldNames option"

definition emptyCC :: CacheControlResponse where
  "emptyCC = \<lparr>MaxAge = None, SMaxAge = None, NoStore = False, NoCache = None, Public = False, Private = None\<rparr>"

definition deltaSecondsArgument :: "string \<Rightarrow> directiveArgument \<Rightarrow> (cc_error, DeltaSeconds) result" where
  "deltaSecondsArgument name arg =
     (if \<not> present arg \<or> arg_text arg = [] then Inl (RequiresValue name)
      else if \<not> list_all is_digit (arg_text arg) then Inl (NotANumber name (arg_text arg))
      else (case parseDeltaSeconds (arg_text arg) of None \<Rightarrow> Inr (word_of_int MaxInt32) | Some v \<Rightarrow> Inr v))"

text \<open>\<open>strings.SplitSeq(s, ",")\<close>: the pieces between the separators, always at least one.\<close>

fun split_on :: "char \<Rightarrow> string \<Rightarrow> string list" where
  "split_on c [] = [[]]"
| "split_on c (x # xs) =
     (if x = c then [] # split_on c xs
      else (case split_on c xs of y # ys \<Rightarrow> (x # y) # ys | [] \<Rightarrow> [[x]]))"

text \<open>
  \<open>strings.TrimSpace\<close> drops the UTF-8 encodings of the code points \<open>unicode.IsSpace\<close> holds of
  from both ends: the six ASCII ones, U+0085, U+00A0, U+1680, U+2000 to U+200A, U+2028, U+2029,
  U+202F, U+205F and U+3000.
\<close>

definition space_encodings :: "string list" where
  "space_encodings = [[CHR 0x09], [CHR 0x0A], [CHR 0x0B], [CHR 0x0C], [CHR 0x0D], [CHR 0x20],
     [CHR 0xC2, CHR 0x85], [CHR 0xC2, CHR 0xA0], [CHR 0xE1, CHR 0x9A, CHR 0x80],
     [CHR 0xE2, CHR 0x80, CHR 0x80], [CHR 0xE2, CHR 0x80, CHR 0x81], [CHR 0xE2, CHR 0x80, CHR 0x82],
     [CHR 0xE2, CHR 0x80, CHR 0x83], [CHR 0xE2, CHR 0x80, CHR 0x84], [CHR 0xE2, CHR 0x80, CHR 0x85],
     [CHR 0xE2, CHR 0x80, CHR 0x86], [CHR 0xE2, CHR 0x80, CHR 0x87], [CHR 0xE2, CHR 0x80, CHR 0x88],
     [CHR 0xE2, CHR 0x80, CHR 0x89], [CHR 0xE2, CHR 0x80, CHR 0x8A], [CHR 0xE2, CHR 0x80, CHR 0xA8],
     [CHR 0xE2, CHR 0x80, CHR 0xA9], [CHR 0xE2, CHR 0x80, CHR 0xAF], [CHR 0xE2, CHR 0x81, CHR 0x9F],
     [CHR 0xE3, CHR 0x80, CHR 0x80]]"

fun strip_prefix :: "string list \<Rightarrow> string \<Rightarrow> string option" where
  "strip_prefix [] s = None"
| "strip_prefix (p # ps) s = (if p \<noteq> [] \<and> take (length p) s = p then Some (drop (length p) s) else strip_prefix ps s)"

lemma strip_prefix_length: "strip_prefix ps s = Some t \<Longrightarrow> length t < length s"
proof (induction ps)
  case (Cons p ps)
  show ?case
  proof (cases "p \<noteq> [] \<and> take (length p) s = p")
    case True
    then have "length p \<le> length s" by (metis length_take min.cobounded2 min.absorb_iff2)
    with True Cons.prems show ?thesis by (cases p) auto
  next
    case False
    with Cons show ?thesis by auto
  qed
qed simp

function trim_left :: "string list \<Rightarrow> string \<Rightarrow> string" where
  "trim_left ps s = (case strip_prefix ps s of None \<Rightarrow> s | Some t \<Rightarrow> trim_left ps t)"
  by pat_completeness auto
termination by (relation "measure (\<lambda>(ps, s). length s)") (auto simp: strip_prefix_length)

declare trim_left.simps [simp del]

definition TrimSpace :: "string \<Rightarrow> string" where
  "TrimSpace s = rev (trim_left (map rev space_encodings) (rev (trim_left space_encodings s)))"

fun fieldNames_loop :: "bool \<Rightarrow> string list \<Rightarrow> FieldNames \<Rightarrow> bool \<times> FieldNames" where
  "fieldNames_loop added [] fs = (added, fs)"
| "fieldNames_loop added (field # rest) fs =
     (let field' = TrimSpace field in
      if field' = [] then fieldNames_loop added rest fs else fieldNames_loop True rest (Add field' fs))"

definition fieldNamesArgument :: "directiveArgument \<Rightarrow> FieldNames \<Rightarrow> FieldNames" where
  "fieldNamesArgument arg fs =
     (if \<not> present arg then LockFields fs
      else (case fieldNames_loop False (split_on CHR '','' (arg_text arg)) fs of
          (added, fs') \<Rightarrow> if \<not> added then LockFields fs' else fs'))"

text \<open>
  \<open>strings.ToLower\<close> of a token: ASCII letters are lowered, and a byte from \<open>0x80\<close> on, which in a
  token can only be its first and so is no UTF-8 encoding, becomes the replacement character.
\<close>

definition lower_byte :: "char \<Rightarrow> string" where
  "lower_byte c =
     (if byte_rune c \<ge> 0x80 then [CHR 0xEF, CHR 0xBF, CHR 0xBD]
      else if byte_rune CHR ''A'' \<le> byte_rune c \<and> byte_rune c \<le> byte_rune CHR ''Z'' then [char_of (of_char c + 32 :: nat)]
      else [c])"

definition ToLower :: "string \<Rightarrow> string" where
  "ToLower s = concat (map lower_byte s)"

text \<open>The \<open>switch\<close> of \<open>parseIdent\<close> on the lowered name, once its argument has been read.\<close>

definition applyDirective :: "string \<Rightarrow> directiveArgument \<Rightarrow> CacheControlResponse \<Rightarrow> (cc_error, CacheControlResponse) result" where
  "applyDirective name arg cc =
     (if name = ''max-age'' then
        (if MaxAge cc \<noteq> None then Inr cc
         else res_bind (deltaSecondsArgument ''max-age'' arg) (\<lambda>v. Inr (cc\<lparr>MaxAge := Some v\<rparr>)))
      else if name = ''s-maxage'' then
        (if SMaxAge cc \<noteq> None then Inr cc
         else res_bind (deltaSecondsArgument ''s-maxage'' arg) (\<lambda>v. Inr (cc\<lparr>SMaxAge := Some v\<rparr>)))
      else if name = ''no-store'' then Inr (cc\<lparr>NoStore := True\<rparr>)
      else if name = ''public'' then Inr (cc\<lparr>Public := True\<rparr>)
      else if name = ''no-cache'' then
        Inr (cc\<lparr>NoCache := Some (fieldNamesArgument arg (case NoCache cc of None \<Rightarrow> NewFieldNames | Some f \<Rightarrow> f))\<rparr>)
      else if name = ''private'' then
        Inr (cc\<lparr>Private := Some (fieldNamesArgument arg (case Private cc of None \<Rightarrow> NewFieldNames | Some f \<Rightarrow> f))\<rparr>)
      else Inr cc)"

definition parseIdent :: "token_cc \<Rightarrow> lexer_cc \<Rightarrow> CacheControlResponse \<Rightarrow> (cc_error, lexer_cc \<times> CacheControlResponse) result" where
  "parseIdent name l cc =
     res_bind (readArgument l) (\<lambda>(arg, l').
       res_bind (applyDirective (ToLower (lit name)) arg cc) (\<lambda>cc'. Inr (l', cc')))"

text \<open>Reading tokens never changes the list and never moves back.\<close>

definition tok_step :: "lexer_cc \<Rightarrow> lexer_cc \<Rightarrow> bool" where
  "tok_step l l' \<longleftrightarrow> lx_tokens l' = lx_tokens l \<and> tokenPos l \<le> tokenPos l'"

lemma readToken_step: "tok_step l (snd (readToken 0 l))"
  by (simp add: tok_step_def readToken_def)

lemma tok_step_trans: "tok_step a b \<Longrightarrow> tok_step b c \<Longrightarrow> tok_step a c"
  by (simp add: tok_step_def)

lemma readArgument_step: "readArgument l = Inr (arg, l') \<Longrightarrow> tok_step l l'"
  using readToken_step [of l] readToken_step [of "snd (readToken 0 l)"] tok_step_trans
  by (auto simp: readArgument_def Let_def tok_step_def split: if_splits tokenType.splits)

lemma parseIdent_step: "parseIdent name l cc = Inr (l', cc') \<Longrightarrow> tok_step l l'"
  by (auto simp: parseIdent_def res_bind_Ok_iff intro: readArgument_step)

definition tokens_left :: "lexer_cc \<Rightarrow> nat" where
  "tokens_left l = length (lx_tokens l) - tokenPos l"

lemma tokens_left_readToken:
  "readToken 0 l = (t, l') \<Longrightarrow> tt t \<noteq> tokenTypeEOF \<Longrightarrow> tokens_left l' < tokens_left l"
  by (auto simp: readToken_def tokens_left_def eof_token_def split: if_splits)

lemma tokens_left_step: "tok_step l l' \<Longrightarrow> tokens_left l' \<le> tokens_left l"
  by (auto simp: tok_step_def tokens_left_def)

lemma parse_step_left:
  "readToken 0 l = (t, l1) \<Longrightarrow> tt t = tokenTypeIdent \<Longrightarrow> parseIdent t l1 cc = Inr (l2, cc') \<Longrightarrow>
   tokens_left l2 < tokens_left l"
  using tokens_left_readToken [of l t l1] tokens_left_step [OF parseIdent_step, of t l1 cc l2 cc'] by simp

function parse_loop :: "lexer_cc \<Rightarrow> CacheControlResponse \<Rightarrow> (cc_error, CacheControlResponse) result" where
  "parse_loop l cc =
     (case readToken 0 l of (t, l1) \<Rightarrow>
        (case tt t of
           tokenTypeIdent \<Rightarrow>
             (case parseIdent t l1 cc of
                Inl e \<Rightarrow> Inl e
              | Inr (l2, cc') \<Rightarrow>
                  (let after = peekToken l2 in
                   if tt after \<noteq> tokenTypeComma \<and> tt after \<noteq> tokenTypeEOF
                   then Inl (ExpectedComma (lit t) (token_start after))
                   else parse_loop l2 cc'))
         | tokenTypeComma \<Rightarrow> parse_loop l1 cc
         | tokenTypeEOF \<Rightarrow> Inr cc
         | _ \<Rightarrow> Inl (UnexpectedToken (lit t) (token_start t))))"
  by pat_completeness auto
termination by (relation "measure (\<lambda>(l, cc). tokens_left l)")
  (auto dest: parse_step_left [OF sym] tokens_left_readToken [OF sym])

declare parse_loop.simps [simp del]

definition parse_cc :: "string \<Rightarrow> (cc_error, CacheControlResponse) result" where
  "parse_cc s = res_bind (tokenize (newLexer s)) (\<lambda>l. parse_loop l emptyCC)"

text \<open>
  \<open>http.Header\<close> is a map from canonical names to lists of values. \<open>strings.Join\<close> and
  \<open>strings.Trim\<close> with the cutset of the source.
\<close>

fun join :: "char \<Rightarrow> string list \<Rightarrow> string" where
  "join c [] = []"
| "join c [v] = v"
| "join c (v # vs) = v @ c # join c vs"

definition trim_cutset :: "char list \<Rightarrow> string \<Rightarrow> string" where
  "trim_cutset cs s = rev (dropWhile (\<lambda>c. c \<in> set cs) (rev (dropWhile (\<lambda>c. c \<in> set cs) s)))"

definition ParseCacheControlResponse :: "(string \<rightharpoonup> string list) \<Rightarrow> (cc_error, CacheControlResponse) result" where
  "ParseCacheControlResponse headers =
     (let value = trim_cutset [CHR 0x09, CHR 0x0D, CHR 0x0A]
                    (join CHR '','' (case headers ''Cache-Control'' of None \<Rightarrow> [] | Some vs \<Rightarrow> vs)) in
      if value = [] then Inr emptyCC else parse_cc value)"

end
