(* ===== verification/Cache_Spec.thy ===== *)
theory Cache_Spec
  imports Cache_Control
begin

text \<open>
  What the \<open>Cache-Control\<close> parser promises: the concrete syntax of a field value
  (\<open>cc_element\<close>, \<open>print_field\<close>) with the theorem that parsing a printed value applies its directives
  in order, and the meaning of a sequence of directives (first occurrence, clamping, field names).
\<close>

section \<open>Reading one token from the rest of the input\<close>

definition rest_cc :: "lexer_cc \<Rightarrow> string" where
  "rest_cc l = drop (lx_pos l) (lx_input l)"

abbreviation skip_cc :: "nat \<Rightarrow> lexer_cc \<Rightarrow> lexer_cc" where
  "skip_cc n l \<equiv> l\<lparr>lx_pos := lx_pos l + n\<rparr>"

definition mk_token :: "tokenType \<Rightarrow> nat \<Rightarrow> string \<Rightarrow> token_cc" where
  "mk_token k p s = \<lparr>tt = k, lit = s, token_start = p, token_end = p + length s\<rparr>"

lemma mk_token_simps [simp]: "tt (mk_token k p s) = k" "lit (mk_token k p s) = s"
  by (simp_all add: mk_token_def)

lemma rest_Cons:
  assumes "rest_cc l = c # r"
  shows "\<not> atEnd l" "peek_cc 0 l = byte_rune c" "read_cc l = (byte_rune c, skip_cc 1 l)"
    "advance_cc (Suc 0) l = skip_cc 1 l" "rest_cc (skip_cc 1 l) = r" "lx_input l ! lx_pos l = c"
proof -
  have p: "lx_pos l < length (lx_input l)"
    using assms by (metis rest_cc_def drop_all linorder_not_less list.distinct(1))
  then have h: "lx_input l ! lx_pos l = c" and t: "drop (Suc (lx_pos l)) (lx_input l) = r"
    using assms Cons_nth_drop_Suc [OF p] by (simp_all add: rest_cc_def)
  show "\<not> atEnd l" "peek_cc 0 l = byte_rune c" "read_cc l = (byte_rune c, skip_cc 1 l)"
    "advance_cc (Suc 0) l = skip_cc 1 l" "rest_cc (skip_cc 1 l) = r" "lx_input l ! lx_pos l = c"
    using p h t by (auto simp: atEnd_def peek_cc_def read_cc_def advance_cc_def rest_cc_def)
qed

lemma rest_append: "rest_cc l = s @ r \<Longrightarrow> rest_cc (skip_cc (length s) l) = r"
  by (simp add: rest_cc_def) (metis add.commute append_eq_conv_conj drop_drop)

lemma rest_Nil: "rest_cc l = [] \<Longrightarrow> atEnd l"
  by (simp add: rest_cc_def atEnd_def)

definition ows :: "string \<Rightarrow> bool" where
  "ows w \<longleftrightarrow> list_all (\<lambda>c. isWhitespace_cc (byte_rune c)) w"

lemma ws_not_forbidden: "isWhitespace_cc r \<Longrightarrow> \<not> isForbiddenCharacter r"
  by (auto simp: isWhitespace_cc_def isForbiddenCharacter_def isControlCharacter_def)

lemma nextToken_ows: "ows w \<Longrightarrow> rest_cc l = w @ r \<Longrightarrow> nextToken l = nextToken (skip_cc (length w) l)"
proof (induction w arbitrary: l)
  case (Cons c w)
  then have r: "rest_cc l = c # w @ r" and c: "isWhitespace_cc (byte_rune c)" and w: "ows w"
    by (auto simp: ows_def)
  note f = rest_Cons [OF r]
  have "nextToken l = nextToken (skip_cc 1 l)"
    using f c ws_not_forbidden [OF c] by (simp add: nextToken.simps [of l] Let_def)
  also have "\<dots> = nextToken (skip_cc (length w) (skip_cc 1 l))"
    by (rule Cons.IH [OF w f(5)])
  finally show ?case by simp
qed simp

lemma nextToken_end: "rest_cc l = [] \<Longrightarrow> \<exists>t. nextToken l = Inr (t, l) \<and> tt t = tokenTypeEOF"
  using rest_Nil [of l] by (simp add: nextToken.simps [of l] Let_def)

lemma nextToken_comma:
  assumes "rest_cc l = CHR '','' # r"
  shows "nextToken l = Inr (mk_token tokenTypeComma (lx_pos l) '','', skip_cc 1 l)"
  using rest_Cons [OF assms] assms
  by (simp add: nextToken.simps [of l] Let_def byte_rune_def isForbiddenCharacter_def isControlCharacter_def
      isWhitespace_cc_def matchSingleRuneToken_cc_def setEnd_def setStart_def zero_token_cc_def mk_token_def rest_cc_def)

lemma nextToken_equals:
  assumes "rest_cc l = CHR ''='' # r"
  shows "nextToken l = Inr (mk_token tokenTypeEquals (lx_pos l) ''='', skip_cc 1 l)"
  using rest_Cons [OF assms] assms
  by (simp add: nextToken.simps [of l] Let_def byte_rune_def isForbiddenCharacter_def isControlCharacter_def
      isWhitespace_cc_def matchSingleRuneToken_cc_def setEnd_def setStart_def zero_token_cc_def mk_token_def rest_cc_def)

text \<open>
  The tokens of RFC 9110: every byte is printable and no separator, as \<open>readIdent\<close> requires of all
  bytes but the first (see \<open>first_byte_unchecked\<close>).
\<close>

definition ident_char :: "char \<Rightarrow> bool" where
  "ident_char c \<longleftrightarrow> isPrintableCharacter (byte_rune c) \<and> \<not> isInvalidTokenCharacter (byte_rune c)"

definition ident_ok :: "string \<Rightarrow> bool" where
  "ident_ok s \<longleftrightarrow> s \<noteq> [] \<and> list_all ident_char s"

definition qdtext :: "string \<Rightarrow> bool" where
  "qdtext s \<longleftrightarrow> list_all (\<lambda>c. \<not> isForbiddenCharacter (byte_rune c) \<and> byte_rune c \<noteq> 0x22) s"

definition delimits :: "string \<Rightarrow> bool" where
  "delimits r \<longleftrightarrow> (r = [] \<or> byte_rune (hd r) \<in> {0x2C, 0x3D, 0x20, 0x09})"

lemma ident_char_not: "ident_char c \<Longrightarrow> \<not> isForbiddenCharacter (byte_rune c) \<and> byte_rune c \<notin> {0x2C, 0x3D, 0x20, 0x09}"
  by (auto simp: ident_char_def isPrintableCharacter_def isInvalidTokenCharacter_def isForbiddenCharacter_def
      isControlCharacter_def byte_rune_def)

lemma ident_char_first: "ident_char c \<Longrightarrow> \<not> isForbiddenCharacter (byte_rune c) \<and> \<not> isWhitespace_cc (byte_rune c) \<and>
    byte_rune c \<notin> {0x2C, 0x3D, 0x22}"
  using ident_char_not [of c] by (auto simp: ident_char_def isWhitespace_cc_def isInvalidTokenCharacter_def byte_rune_def)

lemma readIdent_loop_rest:
  "list_all ident_char s \<Longrightarrow> delimits r \<Longrightarrow> rest_cc l = s @ r \<Longrightarrow>
   readIdent_loop_cc tok l = Inr (setEnd (lx_pos l + length s) (lx_input l) tok, skip_cc (length s) l)"
proof (induction s arbitrary: l)
  case Nil
  show ?case
  proof (cases r)
    case Nil
    with Nil.prems rest_Nil [of l] show ?thesis by (simp add: readIdent_loop_cc.simps [of tok l])
  next
    case (Cons c r')
    with Nil.prems have c: "rest_cc l = c # r'" and d: "byte_rune c \<in> {0x2C, 0x3D, 0x20, 0x09}"
      by (auto simp: delimits_def)
    then have f: "\<not> isForbiddenCharacter (byte_rune c)"
      by (auto simp: isForbiddenCharacter_def isControlCharacter_def)
    from rest_Cons [OF c] d f show ?thesis by (auto simp: readIdent_loop_cc.simps [of tok l] Let_def)
  qed
next
  case (Cons c s)
  then have r: "rest_cc l = c # s @ r" and c: "ident_char c" and s: "list_all ident_char s" by auto
  note f = rest_Cons [OF r]
  have "readIdent_loop_cc tok l = readIdent_loop_cc tok (skip_cc 1 l)"
    using f c ident_char_not [OF c] by (auto simp: readIdent_loop_cc.simps [of tok l] Let_def ident_char_def)
  also have "\<dots> = Inr (setEnd (lx_pos l + 1 + length s) (lx_input l) tok, skip_cc (length s) (skip_cc 1 l))"
    using Cons.IH [OF s Cons.prems(2) f(5)] by simp
  finally show ?case by simp
qed

lemma take_rest: "rest_cc l = s @ r \<Longrightarrow> take (length s) (drop (lx_pos l) (lx_input l)) = s"
  by (simp add: rest_cc_def)

lemma nextToken_ident:
  assumes "ident_ok s" "delimits r" "rest_cc l = s @ r"
  shows "nextToken l = Inr (mk_token tokenTypeIdent (lx_pos l) s, skip_cc (length s) l)"
proof -
  obtain c cs where s: "s = c # cs" "ident_char c" "list_all ident_char cs"
    using assms(1) by (cases s) (auto simp: ident_ok_def)
  have r: "rest_cc l = c # cs @ r" using assms(3) s by simp
  note f = rest_Cons [OF r]
  have "nextToken l = readIdent_cc (setStart (lx_pos l) zero_token_cc) (skip_cc 1 l)"
    using f ident_char_first [OF s(2)] by (auto simp: nextToken.simps [of l] Let_def matchSingleRuneToken_cc_def)
  also have "\<dots> = Inr (setEnd (lx_pos l + length s) (lx_input l) ((setStart (lx_pos l) zero_token_cc)\<lparr>tt := tokenTypeIdent\<rparr>),
      skip_cc (length s) l)"
    using readIdent_loop_rest [OF s(3) assms(2) f(5)] s(1) by (simp add: readIdent_cc_def)
  finally show ?thesis
    using take_rest [OF assms(3)] by (simp add: setEnd_def setStart_def zero_token_cc_def mk_token_def)
qed

lemma readString_loop_rest:
  "qdtext s \<Longrightarrow> rest_cc l = s @ CHR 0x22 # r \<Longrightarrow>
   readString_loop_cc tok l = Inr (setEnd (lx_pos l + length s) (lx_input l) tok, skip_cc (Suc (length s)) l)"
proof (induction s arbitrary: l)
  case Nil
  then have r: "rest_cc l = CHR 0x22 # r" by simp
  from rest_Cons [OF r] show ?case
    by (simp add: readString_loop_cc.simps [of tok l] Let_def byte_rune_def isForbiddenCharacter_def isControlCharacter_def)
next
  case (Cons c s)
  then have r: "rest_cc l = c # s @ CHR 0x22 # r" and s: "qdtext s"
    and c: "\<not> isForbiddenCharacter (byte_rune c)" "byte_rune c \<noteq> 0x22" by (auto simp: qdtext_def)
  note f = rest_Cons [OF r]
  have "readString_loop_cc tok l = readString_loop_cc tok (skip_cc 1 l)"
    using f c by (simp add: readString_loop_cc.simps [of tok l] Let_def)
  also have "\<dots> = Inr (setEnd (lx_pos l + 1 + length s) (lx_input l) tok, skip_cc (Suc (length s)) (skip_cc 1 l))"
    using Cons.IH [OF s f(5)] by simp
  finally show ?case by simp
qed

lemma nextToken_string:
  assumes "qdtext s" "rest_cc l = CHR 0x22 # s @ CHR 0x22 # r"
  shows "nextToken l = Inr (mk_token tokenTypeString (Suc (lx_pos l)) s, skip_cc (length s + 2) l)"
proof -
  note f = rest_Cons [OF assms(2)]
  have "nextToken l = readString_cc (setStart (lx_pos l) zero_token_cc) (skip_cc 1 l)"
    using f by (simp add: nextToken.simps [of l] Let_def byte_rune_def isForbiddenCharacter_def isControlCharacter_def
        isWhitespace_cc_def matchSingleRuneToken_cc_def)
  then show ?thesis
    using readString_loop_rest [OF assms(1) f(5)] take_rest [OF f(5)]
    by (simp add: readString_cc_def setEnd_def setStart_def zero_token_cc_def mk_token_def)
qed

section \<open>Reading a whole field value\<close>

definition shape :: "token_cc list \<Rightarrow> (tokenType \<times> string) list" where
  "shape = map (\<lambda>t. (tt t, lit t))"

text \<open>\<open>reads_as s r ts\<close>: in front of \<open>r\<close>, the text \<open>s\<close> is read as the tokens \<open>ts\<close>.\<close>

definition reads_as :: "string \<Rightarrow> string \<Rightarrow> (tokenType \<times> string) list \<Rightarrow> bool" where
  "reads_as s r ts \<longleftrightarrow> (\<forall>l. rest_cc l = s @ r \<longrightarrow> (\<exists>toks. shape toks = ts \<and>
     tokenize l = tokenize (l\<lparr>lx_pos := lx_pos l + length s, lx_tokens := lx_tokens l @ toks\<rparr>)))"

lemma reads_Nil: "reads_as [] r []"
  by (auto simp: reads_as_def shape_def)

lemma rest_more: "rest_cc (l\<lparr>lx_pos := p, lx_tokens := ts\<rparr>) = rest_cc (l\<lparr>lx_pos := p\<rparr>)"
  by (simp add: rest_cc_def)

lemma reads_append:
  assumes "reads_as s (s' @ r) ts" "reads_as s' r ts'"
  shows "reads_as (s @ s') r (ts @ ts')"
  unfolding reads_as_def
proof (intro allI impI)
  fix l
  assume "rest_cc l = (s @ s') @ r"
  then have r: "rest_cc l = s @ s' @ r" by simp
  with assms(1) obtain toks where t: "shape toks = ts"
    "tokenize l = tokenize (l\<lparr>lx_pos := lx_pos l + length s, lx_tokens := lx_tokens l @ toks\<rparr>)"
    unfolding reads_as_def by blast
  have "rest_cc (l\<lparr>lx_pos := lx_pos l + length s, lx_tokens := lx_tokens l @ toks\<rparr>) = s' @ r"
    using rest_append [OF r] by (simp add: rest_more)
  then obtain toks' where t': "shape toks' = ts'"
    "tokenize (l\<lparr>lx_pos := lx_pos l + length s, lx_tokens := lx_tokens l @ toks\<rparr>) =
     tokenize (l\<lparr>lx_pos := lx_pos l + length s + length s', lx_tokens := (lx_tokens l @ toks) @ toks'\<rparr>)"
    using assms(2) unfolding reads_as_def by fastforce
  then have "shape (toks @ toks') = ts @ ts'" using t(1) by (simp add: shape_def)
  then show "\<exists>toks. shape toks = ts @ ts' \<and>
      tokenize l = tokenize (l\<lparr>lx_pos := lx_pos l + length (s @ s'), lx_tokens := lx_tokens l @ toks\<rparr>)"
    using t t' by (intro exI [of _ "toks @ toks'"]) (simp add: add.assoc)
qed

lemma reads_ows: "ows w \<Longrightarrow> reads_as w r []"
  unfolding reads_as_def
proof (intro allI impI exI conjI)
  fix l
  assume "ows w" "rest_cc l = w @ r"
  then have "nextToken l = nextToken (skip_cc (length w) l)" by (rule nextToken_ows)
  then have "tokenize l = tokenize (skip_cc (length w) l)"
    by (simp add: tokenize.simps [of l] tokenize.simps [of "skip_cc (length w) l"])
  then show "tokenize l = tokenize (l\<lparr>lx_pos := lx_pos l + length w, lx_tokens := lx_tokens l @ []\<rparr>)" by simp
qed (simp add: shape_def)

lemma reads_token:
  assumes "\<forall>l. rest_cc l = s @ r \<longrightarrow> (\<exists>p. nextToken l = Inr (mk_token k p x, skip_cc (length s) l))"
    and "k \<noteq> tokenTypeEOF"
  shows "reads_as s r [(k, x)]"
  unfolding reads_as_def
proof (intro allI impI)
  fix l
  assume "rest_cc l = s @ r"
  with assms(1) obtain p where "nextToken l = Inr (mk_token k p x, skip_cc (length s) l)" by blast
  with assms(2) show "\<exists>toks. shape toks = [(k, x)] \<and>
      tokenize l = tokenize (l\<lparr>lx_pos := lx_pos l + length s, lx_tokens := lx_tokens l @ toks\<rparr>)"
    by (intro exI [of _ "[mk_token k p x]"]) (simp add: shape_def tokenize.simps [of l])
qed

lemma reads_comma: "reads_as '','' r [(tokenTypeComma, '','')]"
  by (rule reads_token) (use nextToken_comma in auto)

lemma reads_equals: "reads_as ''='' r [(tokenTypeEquals, ''='')]"
  by (rule reads_token) (use nextToken_equals in auto)

lemma reads_ident: "ident_ok s \<Longrightarrow> delimits r \<Longrightarrow> reads_as s r [(tokenTypeIdent, s)]"
  by (rule reads_token) (use nextToken_ident in auto)

lemma reads_quoted: "qdtext s \<Longrightarrow> reads_as (CHR 0x22 # s @ [CHR 0x22]) r [(tokenTypeString, s)]"
  by (rule reads_token) (use nextToken_string in auto)

subsection \<open>Concrete syntax\<close>

text \<open>
  An element of the list is empty or a directive: white space, a name, white space, and for a
  directive with an argument \<open>=\<close>, white space, a token or a quoted string (or nothing, which the
  parser takes as an empty argument) and white space.
\<close>

datatype cc_value = NoValue | EmptyValue | TokenValue string | QuotedValue string

datatype cc_element = EmptyElement string | Directive string string string string cc_value string

fun value_text :: "cc_value \<Rightarrow> string" where
  "value_text NoValue = []"
| "value_text EmptyValue = []"
| "value_text (TokenValue s) = s"
| "value_text (QuotedValue s) = CHR 0x22 # s @ [CHR 0x22]"

fun value_ok :: "cc_value \<Rightarrow> bool" where
  "value_ok NoValue = True"
| "value_ok EmptyValue = True"
| "value_ok (TokenValue s) = ident_ok s"
| "value_ok (QuotedValue s) = qdtext s"

fun value_arg :: "cc_value \<Rightarrow> directiveArgument" where
  "value_arg NoValue = \<lparr>present = False, arg_text = []\<rparr>"
| "value_arg EmptyValue = \<lparr>present = True, arg_text = []\<rparr>"
| "value_arg (TokenValue s) = \<lparr>present = True, arg_text = s\<rparr>"
| "value_arg (QuotedValue s) = \<lparr>present = True, arg_text = s\<rparr>"

fun element_ok :: "cc_element \<Rightarrow> bool" where
  "element_ok (EmptyElement w) = ows w"
| "element_ok (Directive w0 n w1 w2 v w3) = (ows w0 \<and> ident_ok n \<and> ows w1 \<and> ows w2 \<and> value_ok v \<and> ows w3)"

fun print_element :: "cc_element \<Rightarrow> string" where
  "print_element (EmptyElement w) = w"
| "print_element (Directive w0 n w1 w2 v w3) =
     (if v = NoValue then w0 @ n @ w1 else w0 @ n @ w1 @ ''='' @ w2 @ value_text v @ w3)"

definition print_field :: "cc_element list \<Rightarrow> string" where
  "print_field es = join CHR '','' (map print_element es)"

fun directives :: "cc_element list \<Rightarrow> (string \<times> directiveArgument) list" where
  "directives [] = []"
| "directives (EmptyElement w # es) = directives es"
| "directives (Directive w0 n w1 w2 v w3 # es) = (n, value_arg v) # directives es"

fun value_tokens :: "cc_value \<Rightarrow> (tokenType \<times> string) list" where
  "value_tokens NoValue = []"
| "value_tokens EmptyValue = [(tokenTypeEquals, ''='')]"
| "value_tokens (TokenValue s) = [(tokenTypeEquals, ''=''), (tokenTypeIdent, s)]"
| "value_tokens (QuotedValue s) = [(tokenTypeEquals, ''=''), (tokenTypeString, s)]"

fun element_tokens :: "cc_element \<Rightarrow> (tokenType \<times> string) list" where
  "element_tokens (EmptyElement w) = []"
| "element_tokens (Directive w0 n w1 w2 v w3) = (tokenTypeIdent, n) # value_tokens v"

fun field_tokens :: "cc_element list \<Rightarrow> (tokenType \<times> string) list" where
  "field_tokens [] = []"
| "field_tokens [e] = element_tokens e"
| "field_tokens (e # es) = element_tokens e @ (tokenTypeComma, '','') # field_tokens es"

definition list_end :: "string \<Rightarrow> bool" where
  "list_end r \<longleftrightarrow> (r = [] \<or> hd r = CHR '','')"

lemma delimits_after_ows: "ows w \<Longrightarrow> list_end r \<Longrightarrow> delimits (w @ r)"
  by (cases w) (auto simp: delimits_def list_end_def ows_def isWhitespace_cc_def byte_rune_def)

lemma delimits_after_ows_equals: "ows w \<Longrightarrow> delimits (w @ CHR ''='' # r)"
  by (cases w) (auto simp: delimits_def ows_def isWhitespace_cc_def byte_rune_def)

lemma reads_value:
  assumes "value_ok v" "v \<noteq> NoValue" "ows w2" "ows w3" "list_end r"
  shows "reads_as (''='' @ w2 @ value_text v @ w3) r (value_tokens v)"
proof -
  have v: "reads_as (value_text v) (w3 @ r) (tl (value_tokens v))"
    using assms(1,2) delimits_after_ows [OF assms(4,5)]
    by (cases v) (auto simp: reads_Nil reads_ident reads_quoted)
  have "reads_as (w2 @ value_text v @ w3) r (tl (value_tokens v))"
    using reads_append [OF reads_ows [OF assms(3)] reads_append [OF v reads_ows [OF assms(4)]]] by simp
  from reads_append [OF reads_equals this] show ?thesis
    using assms(2) by (cases v) auto
qed

lemma reads_element: "element_ok e \<Longrightarrow> list_end r \<Longrightarrow> reads_as (print_element e) r (element_tokens e)"
proof (cases e)
  case (Directive w0 n w1 w2 v w3)
  assume ok: "element_ok e" and r: "list_end r"
  with Directive have w: "ows w0" "ident_ok n" "ows w1" "ows w2" "value_ok v" "ows w3" by auto
  show ?thesis
  proof (cases "v = NoValue")
    case True
    have "reads_as (w0 @ n @ w1) r ([] @ [(tokenTypeIdent, n)] @ [])"
      by (intro reads_append reads_ows reads_ident w delimits_after_ows r)
    with True Directive show ?thesis by simp
  next
    case False
    have "reads_as (w0 @ n @ w1 @ ''='' @ w2 @ value_text v @ w3) r ([] @ [(tokenTypeIdent, n)] @ [] @ value_tokens v)"
      using delimits_after_ows_equals [OF w(3)]
      by (intro reads_append reads_ows reads_ident w reads_value False r) auto
    with False Directive show ?thesis by simp
  qed
qed (simp add: reads_ows)

lemma reads_field: "list_all element_ok es \<Longrightarrow> reads_as (print_field es) [] (field_tokens es)"
proof (induction es rule: field_tokens.induct)
  case (3 e e' es)
  let ?rest = "print_field (e' # es)"
  have "reads_as (print_element e) (CHR '','' # ?rest) (element_tokens e)"
    using "3.prems" by (intro reads_element) (auto simp: list_end_def)
  moreover have "reads_as ('','' @ ?rest) [] ([(tokenTypeComma, '','')] @ field_tokens (e' # es))"
    using "3.IH" "3.prems" by (intro reads_append reads_comma) auto
  ultimately show ?case
    using reads_append [of "print_element e" "'','' @ ?rest" "[]"] by (simp add: print_field_def)
qed (auto simp: print_field_def reads_Nil reads_element list_end_def)

lemma tokenize_end: "rest_cc l = [] \<Longrightarrow> tokenize l = Inr l"
  using nextToken_end [of l] by (auto simp: tokenize.simps [of l])

lemma tokenize_field:
  assumes "list_all element_ok es"
  obtains l where "tokenize (newLexer (print_field es)) = Inr l" "shape (lx_tokens l) = field_tokens es" "tokenPos l = 0"
proof -
  let ?l = "newLexer (print_field es)"
  have "rest_cc ?l = print_field es @ []" by (simp add: rest_cc_def newLexer_def)
  with reads_field [OF assms] obtain toks where t: "shape toks = field_tokens es"
    "tokenize ?l = tokenize (?l\<lparr>lx_pos := lx_pos ?l + length (print_field es), lx_tokens := lx_tokens ?l @ toks\<rparr>)"
    unfolding reads_as_def by blast
  moreover have "rest_cc (?l\<lparr>lx_pos := lx_pos ?l + length (print_field es), lx_tokens := lx_tokens ?l @ toks\<rparr>) = []"
    by (simp add: rest_cc_def newLexer_def)
  ultimately show thesis using that [OF trans [OF t(2) tokenize_end]] by (simp add: newLexer_def)
qed

section \<open>Parsing the tokens of a field value\<close>

fun applyAll :: "(string \<times> directiveArgument) list \<Rightarrow> CacheControlResponse \<Rightarrow> (cc_error, CacheControlResponse) result" where
  "applyAll [] cc = Inr cc"
| "applyAll ((n, arg) # ds) cc = res_bind (applyDirective (ToLower n) arg cc) (applyAll ds)"

definition ahead :: "lexer_cc \<Rightarrow> (tokenType \<times> string) list" where
  "ahead l = shape (drop (tokenPos l) (lx_tokens l))"

lemma ahead_Nil: "ahead l = [] \<Longrightarrow> peekToken l = eof_token \<and> readToken 0 l = (eof_token, l)"
  by (auto simp: ahead_def shape_def peekToken_def readToken_def)

lemma ahead_Cons:
  assumes "ahead l = (k, x) # ts"
  obtains t l' where "peekToken l = t" "readToken 0 l = (t, l')" "tt t = k" "lit t = x" "ahead l' = ts"
proof -
  from assms have p: "tokenPos l < length (lx_tokens l)"
    by (metis ahead_def drop_all linorder_not_less list.distinct(1) list.map_disc_iff shape_def)
  then have "drop (tokenPos l) (lx_tokens l) = lx_tokens l ! tokenPos l # drop (Suc (tokenPos l)) (lx_tokens l)"
    by (simp add: Cons_nth_drop_Suc)
  with assms p that [of "lx_tokens l ! tokenPos l" "l\<lparr>tokenPos := tokenPos l + 1\<rparr>"] show thesis
    by (simp add: ahead_def shape_def peekToken_def readToken_def)
qed

definition at_delimiter :: "(tokenType \<times> string) list \<Rightarrow> bool" where
  "at_delimiter ts \<longleftrightarrow> (ts = [] \<or> fst (hd ts) = tokenTypeComma)"

lemma peek_at_delimiter: "at_delimiter (ahead l) \<Longrightarrow> tt (peekToken l) = tokenTypeComma \<or> tt (peekToken l) = tokenTypeEOF"
proof (cases "ahead l")
  case Nil
  then show ?thesis using ahead_Nil by (simp add: eof_token_def)
next
  case (Cons a ts)
  moreover obtain k x where "a = (k, x)" by fastforce
  moreover assume "at_delimiter (ahead l)"
  ultimately show ?thesis using ahead_Cons [of l k x ts] by (auto simp: at_delimiter_def)
qed

lemma readArgument_value:
  assumes "ahead l = value_tokens v @ ts" "at_delimiter ts"
  shows "\<exists>l'. readArgument l = Inr (value_arg v, l') \<and> ahead l' = ts"
proof (cases "v = NoValue")
  case True
  with assms peek_at_delimiter [of l] show ?thesis by (auto simp: readArgument_def)
next
  case False
  then have "ahead l = (tokenTypeEquals, ''='') # tl (value_tokens v) @ ts"
    using assms(1) by (cases v) auto
  then obtain t l1 where r1: "peekToken l = t" "readToken 0 l = (t, l1)" "tt t = tokenTypeEquals"
    and a1: "ahead l1 = tl (value_tokens v) @ ts" by (rule ahead_Cons) auto
  show ?thesis
  proof (cases v)
    case NoValue
    with False show ?thesis by simp
  next
    case EmptyValue
    with a1 r1 assms(2) peek_at_delimiter [of l1] show ?thesis
      by (auto simp: readArgument_def Let_def)
  next
    case (TokenValue s)
    with a1 have "ahead l1 = (tokenTypeIdent, s) # ts" by simp
    then obtain u l2 where "peekToken l1 = u" "readToken 0 l1 = (u, l2)" "tt u = tokenTypeIdent" "lit u = s" "ahead l2 = ts"
      by (rule ahead_Cons) auto
    with r1 TokenValue show ?thesis by (auto simp: readArgument_def Let_def)
  next
    case (QuotedValue s)
    with a1 have "ahead l1 = (tokenTypeString, s) # ts" by simp
    then obtain u l2 where "peekToken l1 = u" "readToken 0 l1 = (u, l2)" "tt u = tokenTypeString" "lit u = s" "ahead l2 = ts"
      by (rule ahead_Cons) auto
    with r1 QuotedValue assms(2) peek_at_delimiter [of l2] show ?thesis
      by (auto simp: readArgument_def Let_def)
  qed
qed

lemma parse_loop_Nil: "ahead l = [] \<Longrightarrow> parse_loop l cc = Inr cc"
  using ahead_Nil [of l] by (simp add: parse_loop.simps [of l] eof_token_def)

lemma parse_loop_comma:
  assumes "ahead l = (tokenTypeComma, x) # ts"
  shows "\<exists>l'. parse_loop l cc = parse_loop l' cc \<and> ahead l' = ts"
  using assms by (rule ahead_Cons) (auto simp: parse_loop.simps [of l])

lemma parse_loop_element:
  assumes "ahead l = element_tokens e @ ts" "at_delimiter ts"
  shows "\<exists>l'. parse_loop l cc = res_bind (applyAll (directives [e]) cc) (parse_loop l') \<and> ahead l' = ts"
proof (cases e)
  case (EmptyElement w)
  with assms show ?thesis by auto
next
  case (Directive w0 n w1 w2 v w3)
  with assms(1) have "ahead l = (tokenTypeIdent, n) # value_tokens v @ ts" by simp
  then obtain t l1 where r1: "readToken 0 l = (t, l1)" "tt t = tokenTypeIdent" "lit t = n"
    and a1: "ahead l1 = value_tokens v @ ts" by (rule ahead_Cons) auto
  obtain l2 where r2: "readArgument l1 = Inr (value_arg v, l2)" and a2: "ahead l2 = ts"
    using readArgument_value [OF a1 assms(2)] by auto
  have d: "tt (peekToken l2) = tokenTypeComma \<or> tt (peekToken l2) = tokenTypeEOF"
    using peek_at_delimiter a2 assms(2) by simp
  have "parse_loop l cc = res_bind (applyDirective (ToLower n) (value_arg v) cc) (parse_loop l2)"
    using r1 r2 d by (cases "applyDirective (ToLower n) (value_arg v) cc")
      (auto simp: parse_loop.simps [of l] parseIdent_def Let_def)
  moreover have "applyAll (directives [e]) cc = applyDirective (ToLower n) (value_arg v) cc"
    using Directive by (cases "applyDirective (ToLower n) (value_arg v) cc") auto
  ultimately show ?thesis using a2 by auto
qed

lemma applyAll_append: "applyAll (ds @ es) cc = res_bind (applyAll ds cc) (applyAll es)"
proof (induction ds cc rule: applyAll.induct)
  case (2 n arg ds cc)
  then show ?case by (cases "applyDirective (ToLower n) arg cc") auto
qed simp

lemma directives_Cons: "directives (e # es) = directives [e] @ directives es"
  by (cases e) auto

lemma parse_loop_field: "ahead l = field_tokens es \<Longrightarrow> parse_loop l cc = applyAll (directives es) cc"
proof (induction es arbitrary: l cc rule: field_tokens.induct)
  case 1
  then show ?case by (simp add: parse_loop_Nil)
next
  case (2 e)
  then obtain l' where "parse_loop l cc = res_bind (applyAll (directives [e]) cc) (parse_loop l')" "ahead l' = []"
    using parse_loop_element [of l e "[]" cc] by (auto simp: at_delimiter_def)
  then show ?case using parse_loop_Nil by (cases "applyAll (directives [e]) cc") auto
next
  case (3 e e' es)
  then obtain l1 where p: "parse_loop l cc = res_bind (applyAll (directives [e]) cc) (parse_loop l1)"
    and a: "ahead l1 = (tokenTypeComma, '','') # field_tokens (e' # es)"
    using parse_loop_element [of l e "(tokenTypeComma, '','') # field_tokens (e' # es)" cc] by (auto simp: at_delimiter_def)
  have "parse_loop l1 c = applyAll (directives (e' # es)) c" for c
    using parse_loop_comma [OF a, of c] "3.IH" by auto
  then have "parse_loop l1 = applyAll (directives (e' # es))" by (rule ext)
  then show ?case using p applyAll_append [of "directives [e]" "directives (e' # es)" cc] directives_Cons [of e "e' # es"] by simp
qed

lemma parse_print: "list_all element_ok es \<Longrightarrow> parse_cc (print_field es) = applyAll (directives es) emptyCC"
  by (erule tokenize_field) (simp add: parse_cc_def parse_loop_field ahead_def)

section \<open>Meaning of a sequence of directives\<close>

subsection \<open>Ages\<close>

definition age_ok :: "directiveArgument \<Rightarrow> bool" where
  "age_ok a \<longleftrightarrow> present a \<and> arg_text a \<noteq> [] \<and> list_all is_digit (arg_text a)"

definition clamped_age :: "directiveArgument \<Rightarrow> DeltaSeconds" where
  "clamped_age a = word_of_int (min MaxInt32 (digits_value (arg_text a)))"

lemma digits_value_nonneg: "list_all is_digit s \<Longrightarrow> digits_value s \<ge> 0"
proof -
  have "list_all is_digit s \<Longrightarrow> n \<ge> 0 \<Longrightarrow> foldl (\<lambda>n c. 10 * n + (byte_rune c - byte_rune CHR ''0'')) n s \<ge> 0" for n
    by (induction s arbitrary: n) (auto simp: is_digit_def)
  then show "list_all is_digit s \<Longrightarrow> digits_value s \<ge> 0" by (simp add: digits_value_def)
qed

lemma ParseInt10_digits:
  assumes "s \<noteq> []" "list_all is_digit s"
  shows "ParseInt10 s = (if digits_value s < 2 ^ 63 then Some (digits_value s) else None)"
proof -
  have "is_digit (hd s)" using assms by (cases s) auto
  then have "hd s \<noteq> CHR ''-''" "hd s \<noteq> CHR ''+''" by (auto simp: is_digit_def byte_rune_def)
  with assms show ?thesis by (simp add: ParseInt10_def)
qed

lemma parseDeltaSeconds_digits:
  assumes "s \<noteq> []" "list_all is_digit s"
  shows "parseDeltaSeconds s =
    (if digits_value s < 2 ^ 63 then Some (word_of_int (min MaxInt32 (digits_value s))) else None)"
  using digits_value_nonneg [OF assms(2)]
  by (auto simp: parseDeltaSeconds_def ParseInt10_digits [OF assms] MaxInt32_def min_def)

lemma deltaSecondsArgument_ok: "age_ok a \<Longrightarrow> deltaSecondsArgument nm a = Inr (clamped_age a)"
  by (auto simp: deltaSecondsArgument_def age_ok_def clamped_age_def parseDeltaSeconds_digits MaxInt32_def)

lemma deltaSecondsArgument_error:
  "\<not> age_ok a \<Longrightarrow> deltaSecondsArgument nm a =
     Inl (if \<not> present a \<or> arg_text a = [] then RequiresValue nm else NotANumber nm (arg_text a))"
  by (auto simp: deltaSecondsArgument_def age_ok_def)

lemma clamped_age_value:
  assumes "age_ok a"
  shows "sint (clamped_age a) = min MaxInt32 (digits_value (arg_text a))"
proof -
  have "0 \<le> digits_value (arg_text a)" using assms digits_value_nonneg by (simp add: age_ok_def)
  then have "0 \<le> min MaxInt32 (digits_value (arg_text a))" "min MaxInt32 (digits_value (arg_text a)) < 2 ^ 31"
    by (auto simp: MaxInt32_def)
  then show ?thesis
    unfolding clamped_age_def by (subst sint_sbintrunc') (auto simp: signed_take_bit_int_eq_self)
qed

subsection \<open>Field names\<close>

definition argument_names :: "directiveArgument \<Rightarrow> string list" where
  "argument_names a = filter (\<lambda>f. f \<noteq> []) (map TrimSpace (split_on CHR '','' (arg_text a)))"

definition unqualified :: "directiveArgument \<Rightarrow> bool" where
  "unqualified a \<longleftrightarrow> \<not> present a \<or> argument_names a = []"

text \<open>
  What a field-name list stands for: \<open>None\<close> the whole response (the directive without names),
  \<open>Some S\<close> the fields in \<open>S\<close>.
\<close>

definition names_abs :: "FieldNames \<Rightarrow> string set option" where
  "names_abs f = (if noFields f then None else Some (case field_set f of None \<Rightarrow> {} | Some ns \<Rightarrow> set ns))"

text \<open>
  The contract the parser relies on: an empty list, adding a name and locking, seen through what
  the list stands for. A locked list stays locked whatever is added.
\<close>

locale name_list =
  fixes new :: 'f and add :: "string \<Rightarrow> 'f \<Rightarrow> 'f" and lock :: "'f \<Rightarrow> 'f" and stands_for :: "'f \<Rightarrow> string set option"
  assumes new: "stands_for new = Some {}"
    and add: "stands_for (add x f) = map_option (insert x) (stands_for f)"
    and lock: "stands_for (lock f) = None"
begin

lemma add_all: "stands_for (fold add ns f) = map_option ((\<union>) (set ns)) (stands_for f)"
  by (induction ns arbitrary: f) (auto simp: add map_option_case split: option.splits)

lemma lock_then_add: "stands_for (fold add ns (lock f)) = None"
  by (simp add: add_all lock)

end

interpretation fn: name_list NewFieldNames Add LockFields names_abs
  by unfold_locales
    (auto simp: names_abs_def NewFieldNames_def LockFields_def Add_def Let_def split: option.splits)

lemma has_iff: "has x (Some f) \<longleftrightarrow> (\<exists>S. names_abs f = Some S \<and> x \<in> S)"
  by (auto simp: has_def names_abs_def split: option.splits)

lemma Fields_set: "set (Fields f) = {x. has x (Some f)}"
  by (auto simp: Fields_def has_def split: option.splits)

lemma fieldNames_loop_eq:
  "fieldNames_loop added ls fs =
     (added \<or> filter (\<lambda>f. f \<noteq> []) (map TrimSpace ls) \<noteq> [],
      fold Add (filter (\<lambda>f. f \<noteq> []) (map TrimSpace ls)) fs)"
  by (induction added ls fs rule: fieldNames_loop.induct) (auto simp: Let_def)

lemma names_abs_argument:
  "names_abs (fieldNamesArgument a f) =
     (if unqualified a then None else map_option ((\<union>) (set (argument_names a))) (names_abs f))"
  by (auto simp: fieldNamesArgument_def fieldNames_loop_eq unqualified_def argument_names_def fn.add_all fn.lock)

subsection \<open>The directives of a field value\<close>

definition args_of :: "string \<Rightarrow> (string \<times> directiveArgument) list \<Rightarrow> directiveArgument list" where
  "args_of nm ds = map snd (filter (\<lambda>d. ToLower (fst d) = nm) ds)"

definition spec_age :: "string \<Rightarrow> (string \<times> directiveArgument) list \<Rightarrow> DeltaSeconds option" where
  "spec_age nm ds = (case args_of nm ds of [] \<Rightarrow> None | a # as \<Rightarrow> Some (clamped_age a))"

definition spec_names :: "string \<Rightarrow> (string \<times> directiveArgument) list \<Rightarrow> string set option option" where
  "spec_names nm ds =
     (let as = args_of nm ds in
      if as = [] then None
      else Some (if list_ex unqualified as then None else Some (\<Union>a \<in> set as. set (argument_names a))))"

definition spec_ok :: "(string \<times> directiveArgument) list \<Rightarrow> bool" where
  "spec_ok ds \<longleftrightarrow> (\<forall>nm \<in> {''max-age'', ''s-maxage''}. args_of nm ds \<noteq> [] \<longrightarrow> age_ok (hd (args_of nm ds)))"

text \<open>\<open>meaning ds cc\<close>: the response is what the directives say.\<close>

definition meaning :: "(string \<times> directiveArgument) list \<Rightarrow> CacheControlResponse \<Rightarrow> bool" where
  "meaning ds cc \<longleftrightarrow>
     MaxAge cc = spec_age ''max-age'' ds \<and> SMaxAge cc = spec_age ''s-maxage'' ds \<and>
     NoStore cc = (args_of ''no-store'' ds \<noteq> []) \<and> Public cc = (args_of ''public'' ds \<noteq> []) \<and>
     map_option names_abs (NoCache cc) = spec_names ''no-cache'' ds \<and>
     map_option names_abs (Private cc) = spec_names ''private'' ds"

lemma args_of_append [simp]:
  "args_of nm (ds @ [(n, a)]) = args_of nm ds @ (if ToLower n = nm then [a] else [])"
  by (simp add: args_of_def)

lemma spec_age_append [simp]:
  "spec_age nm (ds @ [(n, a)]) =
     (if ToLower n = nm \<and> spec_age nm ds = None then Some (clamped_age a) else spec_age nm ds)"
  by (cases "args_of nm ds") (auto simp: spec_age_def)

lemma spec_age_None: "spec_age nm ds = None \<longleftrightarrow> args_of nm ds = []"
  by (auto simp: spec_age_def split: list.splits)

lemma spec_names_other: "ToLower n \<noteq> nm \<Longrightarrow> spec_names nm (ds @ [(n, a)]) = spec_names nm ds"
  by (simp add: spec_names_def Let_def)

lemma spec_names_same:
  assumes "map_option names_abs fo = spec_names nm ds" "ToLower n = nm"
  shows "spec_names nm (ds @ [(n, a)]) =
    Some (names_abs (fieldNamesArgument a (case fo of None \<Rightarrow> NewFieldNames | Some f \<Rightarrow> f)))"
proof (cases fo)
  case None
  with assms have "args_of nm ds = []" by (simp add: spec_names_def Let_def split: if_splits)
  with None assms(2) show ?thesis by (simp add: spec_names_def names_abs_argument fn.new)
next
  case (Some f)
  with assms have "args_of nm ds \<noteq> []" and
    "names_abs f = (if list_ex unqualified (args_of nm ds) then None else Some (\<Union>a \<in> set (args_of nm ds). set (argument_names a)))"
    by (auto simp: spec_names_def Let_def split: if_splits)
  with Some assms(2) show ?thesis by (auto simp: spec_names_def Let_def names_abs_argument)
qed

text \<open>One directive keeps the meaning, and fails exactly on an unusable first age.\<close>

lemma meaning_step:
  assumes "meaning ds cc" "applyDirective (ToLower n) a cc = Inr cc'"
  shows "meaning (ds @ [(n, a)]) cc'"
proof -
  note c = spec_names_same [of "NoCache cc" "''no-cache''" ds n a] and p = spec_names_same [of "Private cc" "''private''" ds n a]
  have v: "v = clamped_age a" if "deltaSecondsArgument nm a = Inr v" for nm v
    using that deltaSecondsArgument_ok [of a nm] deltaSecondsArgument_error [of a nm] by (cases "age_ok a") auto
  show ?thesis
    using assms c p
    by (auto simp: applyDirective_def meaning_def res_bind_Ok_iff spec_names_other dest!: v split: if_splits)
qed

lemma applyDirective_ok_iff:
  assumes "meaning ds cc"
  shows "(\<exists>cc'. applyDirective (ToLower n) a cc = Inr cc') \<longleftrightarrow>
    (ToLower n \<in> {''max-age'', ''s-maxage''} \<and> args_of (ToLower n) ds = [] \<longrightarrow> age_ok a)"
  using assms deltaSecondsArgument_ok [of a] deltaSecondsArgument_error [of a]
  by (cases "age_ok a") (auto simp: applyDirective_def meaning_def spec_age_None)

lemma spec_ok_append: "spec_ok (ds @ es) \<Longrightarrow> spec_ok ds"
  by (auto simp: spec_ok_def args_of_def hd_append split: if_splits)

lemma spec_ok_snoc:
  "spec_ok (ds @ [(n, a)]) \<longleftrightarrow>
     spec_ok ds \<and> (ToLower n \<in> {''max-age'', ''s-maxage''} \<and> args_of (ToLower n) ds = [] \<longrightarrow> age_ok a)"
  by (auto simp: spec_ok_def hd_append split: if_splits)

lemma applyAll_meaning: "meaning ds cc \<Longrightarrow> applyAll es cc = Inr cc' \<Longrightarrow> meaning (ds @ es) cc'"
proof (induction es arbitrary: ds cc)
  case (Cons e es)
  obtain n a where e: "e = (n, a)" by fastforce
  with Cons.prems(2) obtain c where c: "applyDirective (ToLower n) a cc = Inr c" "applyAll es c = Inr cc'"
    by (auto simp: res_bind_Ok_iff)
  from Cons.IH [OF meaning_step [OF Cons.prems(1) c(1)] c(2)] e show ?case by simp
qed simp

lemma applyAll_ok_iff:
  "meaning ds cc \<Longrightarrow> spec_ok ds \<Longrightarrow> (\<exists>cc'. applyAll es cc = Inr cc') \<longleftrightarrow> spec_ok (ds @ es)"
proof (induction es arbitrary: ds cc)
  case (Cons e es)
  obtain n a where e: "e = (n, a)" by fastforce
  show ?case
  proof (cases "applyDirective (ToLower n) a cc")
    case (Inl x)
    then have "\<not> spec_ok (ds @ [(n, a)])"
      using applyDirective_ok_iff [OF Cons.prems(1), of n a] by (simp add: spec_ok_snoc)
    then have "\<not> spec_ok (ds @ e # es)" using spec_ok_append [of "ds @ [(n, a)]" es] e by auto
    with Inl e show ?thesis by simp
  next
    case (Inr c)
    then have "spec_ok (ds @ [(n, a)])"
      using applyDirective_ok_iff [OF Cons.prems(1), of n a] Cons.prems(2) by (simp add: spec_ok_snoc)
    from Cons.IH [OF meaning_step [OF Cons.prems(1) Inr] this] Inr e show ?thesis by simp
  qed
qed simp

lemma meaning_empty: "meaning [] emptyCC"
  by (simp add: meaning_def emptyCC_def spec_age_def spec_names_def args_of_def)

lemma spec_ok_empty: "spec_ok []"
  by (simp add: spec_ok_def args_of_def)

text \<open>Parsing a printed field value: when it succeeds and what it returns.\<close>

lemma parse_print_meaning:
  assumes "list_all element_ok es"
  shows "(\<exists>cc. parse_cc (print_field es) = Inr cc) \<longleftrightarrow> spec_ok (directives es)"
    and "parse_cc (print_field es) = Inr cc \<Longrightarrow> meaning (directives es) cc"
  using applyAll_ok_iff [OF meaning_empty spec_ok_empty, of "directives es"]
    applyAll_meaning [OF meaning_empty, of "directives es" cc]
  by (simp_all add: parse_print [OF assms])

section \<open>Header values\<close>

text \<open>Several header lines are one field value, whose elements are those of the lines.\<close>

lemma join_append: "xs \<noteq> [] \<Longrightarrow> ys \<noteq> [] \<Longrightarrow> join c (xs @ ys) = join c xs @ c # join c ys"
proof (induction xs rule: induct_list012)
  case (2 x)
  then show ?case by (cases ys) auto
qed auto

lemma join_print_fields:
  "list_all (\<lambda>es. es \<noteq> []) ess \<Longrightarrow> join CHR '','' (map print_field ess) = print_field (concat ess)"
proof (induction ess rule: induct_list012)
  case (3 es es' ess)
  then have "concat (es' # ess) \<noteq> []" by auto
  with 3 show ?case by (simp add: print_field_def join_append)
qed (auto simp: print_field_def)

definition trimmed :: "string \<Rightarrow> bool" where
  "trimmed s \<longleftrightarrow> s = [] \<or> hd s \<notin> {CHR 0x09, CHR 0x0D, CHR 0x0A} \<and> last s \<notin> {CHR 0x09, CHR 0x0D, CHR 0x0A}"

lemma trim_trimmed: "trimmed s \<Longrightarrow> trim_cutset [CHR 0x09, CHR 0x0D, CHR 0x0A] s = s"
proof (cases s rule: rev_cases)
  case (snoc xs x)
  assume t: "trimmed s"
  then obtain c cs where s: "s = c # cs" by (metis append_is_Nil_conv list.exhaust not_Cons_self2 snoc)
  have "dropWhile (\<lambda>c. c \<in> set [CHR 0x09, CHR 0x0D, CHR 0x0A]) s = s"
    using t s by (auto simp: trimmed_def)
  then show ?thesis using t snoc by (auto simp: trim_cutset_def trimmed_def)
qed (simp add: trim_cutset_def)

lemma parse_empty: "parse_cc [] = Inr emptyCC"
  using parse_print [of "[]"] by (simp add: print_field_def)

lemma header_fields:
  assumes "list_all (list_all element_ok) ess" "list_all (\<lambda>es. es \<noteq> []) ess"
    and "trimmed (print_field (concat ess))" "headers ''Cache-Control'' = Some (map print_field ess)"
  shows "ParseCacheControlResponse headers = applyAll (directives (concat ess)) emptyCC"
proof -
  have "list_all element_ok (concat ess)" using assms(1) by (auto simp: list_all_iff)
  then have "parse_cc (print_field (concat ess)) = applyAll (directives (concat ess)) emptyCC" by (rule parse_print)
  moreover have "print_field (concat ess) = [] \<Longrightarrow> applyAll (directives (concat ess)) emptyCC = Inr emptyCC"
    using calculation parse_empty by simp
  ultimately show ?thesis
    using assms(4) trim_trimmed [OF assms(3)] by (simp add: ParseCacheControlResponse_def join_print_fields [OF assms(2)] Let_def)
qed

lemma header_absent: "headers ''Cache-Control'' = None \<Longrightarrow> ParseCacheControlResponse headers = Inr emptyCC"
  by (simp add: ParseCacheControlResponse_def trim_cutset_def)

section \<open>Bounds of the ages\<close>

definition ages_ok :: "CacheControlResponse \<Rightarrow> bool" where
  "ages_ok cc \<longleftrightarrow> (\<forall>v. MaxAge cc = Some v \<or> SMaxAge cc = Some v \<longrightarrow> 0 \<le> sint v)"

lemma deltaSecondsArgument_nonneg: "deltaSecondsArgument nm a = Inr v \<Longrightarrow> 0 \<le> sint v"
  using deltaSecondsArgument_ok [of a nm] deltaSecondsArgument_error [of a nm] clamped_age_value [of a]
    digits_value_nonneg [of "arg_text a"]
  by (cases "age_ok a") (auto simp: age_ok_def MaxInt32_def)

lemma applyDirective_ages: "ages_ok cc \<Longrightarrow> applyDirective nm a cc = Inr cc' \<Longrightarrow> ages_ok cc'"
  by (auto simp: applyDirective_def ages_ok_def res_bind_Ok_iff dest: deltaSecondsArgument_nonneg split: if_splits)

lemma parse_loop_ages: "ages_ok cc \<Longrightarrow> parse_loop l cc = Inr cc' \<Longrightarrow> ages_ok cc'"
proof (induction l cc rule: parse_loop.induct)
  case (1 l cc)
  obtain t l1 where r: "readToken 0 l = (t, l1)" by fastforce
  show ?case
  proof (cases "tt t")
    case tokenTypeIdent
    with "1.prems"(2) r obtain l2 c where p: "parseIdent t l1 cc = Inr (l2, c)"
      and q: "\<not> (tt (peekToken l2) \<noteq> tokenTypeComma \<and> tt (peekToken l2) \<noteq> tokenTypeEOF)" "parse_loop l2 c = Inr cc'"
      by (auto simp: parse_loop.simps [of l] Let_def split: sum.splits prod.splits if_splits)
    have "ages_ok c" using p "1.prems"(1) by (auto simp: parseIdent_def res_bind_Ok_iff intro: applyDirective_ages)
    from "1.IH"(1) [OF r [symmetric] _ p _ refl q(1) this q(2)] tokenTypeIdent show ?thesis by auto
  next
    case tokenTypeComma
    with "1.prems" r "1.IH"(2) [OF r [symmetric]] show ?thesis by (auto simp: parse_loop.simps [of l])
  qed (use "1.prems" r in \<open>auto simp: parse_loop.simps [of l]\<close>)
qed

lemma ages_ok_empty: "ages_ok emptyCC"
  by (simp add: ages_ok_def emptyCC_def)

lemma parse_ages: "parse_cc s = Inr cc \<Longrightarrow> ages_ok cc"
  by (auto simp: parse_cc_def res_bind_Ok_iff intro: parse_loop_ages [OF ages_ok_empty])

lemma header_ages: "ParseCacheControlResponse headers = Inr cc \<Longrightarrow> ages_ok cc"
  by (auto simp: ParseCacheControlResponse_def Let_def intro: parse_ages ages_ok_empty split: if_splits)

lemma AsDuration_exact: "sint (AsDuration d) = sint d * 1000000000"
proof -
  have b: "- (2 ^ 31) \<le> sint d" "sint d < 2 ^ 31" using sint_range_size [of d] by (auto simp: word_size)
  have "AsDuration d = word_of_int (sint d * 1000000000)"
    by (simp add: AsDuration_def flip: signed_of_int)
  also have "sint \<dots> = signed_take_bit 63 (sint d * 1000000000)" unfolding sint_sbintrunc' by simp
  also have "\<dots> = sint d * 1000000000"
    by (rule signed_take_bit_int_eq_self) (use b in auto)
  finally show ?thesis .
qed

section \<open>What the lexer lets through\<close>

text \<open>
  The first byte of a token is never checked, although RFC 9110 allows no separator and no
  \<open>obs-text\<close> there and \<open>readIdent\<close> rejects both later in a token.
\<close>

lemma first_byte_unchecked:
  "parse_cc ''@x'' = Inr emptyCC" "parse_cc ''x@'' = Inl (InvalidCharacter 0x40 1)"
  "parse_cc [CHR 0xFF] = Inr emptyCC" "parse_cc [CHR ''x'', CHR 0xFF] = Inl (InvalidCharacter 0xFF 1)"
  by code_simp+

end
