(* ===== verification/Fetch_Flat.thy ===== *)
theory Fetch_Flat
  imports Fetch_Tree "HOL-Library.List_Lexorder" "HOL-Library.Char_ord"
begin

text \<open>
  The stages of \<open>v2/pkg/engine/postprocess\<close> that work on the flat fetch tree, before it is
  organized: building it (\<open>createFetchTree\<close>), merging equal fetches
  (\<open>deduplicate_single_fetches.go\<close>), adding the dependencies of nested fetches
  (\<open>add_missing_nested_dependencies.go\<close>) and appending the fetch identifier to the operation name
  (\<open>fetch_id_appender.go\<close>). \<open>None\<close> is a panic: a node without an item or a fetch that is no
  \<open>SingleFetch\<close>. Slices are values here; a stage that appends to a slice of a fetch owns it.
\<close>

section \<open>Strings\<close>

definition HasPrefix :: "string \<Rightarrow> string \<Rightarrow> bool" where
  "HasPrefix s p \<longleftrightarrow> take (length p) s = p"

fun Join :: "string list \<Rightarrow> string \<Rightarrow> string" where
  "Join [] sep = []"
| "Join [x] sep = x"
| "Join (x # xs) sep = x @ sep @ Join xs sep"

text \<open>\<open>strings.Replace(s, old, new, 1)\<close> for a non-empty \<open>old\<close>: the first occurrence.\<close>

fun replace_first :: "string \<Rightarrow> string \<Rightarrow> string \<Rightarrow> string" where
  "replace_first old new s =
     (if HasPrefix s old then new @ drop (length old) s
      else (case s of [] \<Rightarrow> [] | c # cs \<Rightarrow> c # replace_first old new cs))"

declare replace_first.simps [simp del]

fun decimal :: "nat \<Rightarrow> string" where
  "decimal n = (if n < 10 then [char_of (48 + n)] else decimal (n div 10) @ [char_of (48 + n mod 10)])"

declare decimal.simps [simp del]

definition itoa :: "int \<Rightarrow> string" where
  "itoa i = (if i < 0 then CHR ''-'' # decimal (nat (- i)) else decimal (nat i))"

section \<open>Building the flat tree\<close>

record DataSourceInfo =
  InfoID :: string
  InfoName :: string

record 'v GraphQLResponse =
  RawFetches :: "'v FetchItem list"
  Fetches :: "'v FetchTreeNode option"
  DataSources :: "DataSourceInfo list"

definition collectDataSources :: "'v FetchItem list \<Rightarrow> DataSourceInfo list" where
  "collectDataSources fetches =
     foldl (\<lambda>list fetch. case FetchInfo_of (Fetch fetch) of
          None \<Rightarrow> list
        | Some info \<Rightarrow> (let dsInfo = \<lparr>InfoID = DataSourceID info, InfoName = DataSourceName info\<rparr> in
            if dsInfo \<in> set list then list else list @ [dsInfo])) [] fetches"

definition createFetchTree :: "bool \<Rightarrow> bool \<Rightarrow> 'v GraphQLResponse \<Rightarrow> 'v GraphQLResponse" where
  "createFetchTree disableExtractFetches collectDataSourceInfo res =
     (if disableExtractFetches then res
      else (let fetches = RawFetches res; res1 = res\<lparr>RawFetches := []\<rparr>;
                res2 = (if collectDataSourceInfo then res1\<lparr>DataSources := collectDataSources fetches\<rparr> else res1)
            in res2\<lparr>Fetches := Some (Sequence (map Single fetches))\<rparr>))"

section \<open>Merging equal fetches\<close>

definition mergeTypeNames :: "string list \<Rightarrow> string list \<Rightarrow> string list" where
  "mergeTypeNames left right = (if left = [] \<or> right = [] then [] else remdups_adj (sort (left @ right)))"

text \<open>\<open>right[i]\<close> panics when the right path is shorter.\<close>

fun mergeFetchPath :: "FetchItemPathElement list \<Rightarrow> FetchItemPathElement list \<Rightarrow> FetchItemPathElement list option" where
  "mergeFetchPath [] right = Some []"
| "mergeFetchPath (l # ls) [] = None"
| "mergeFetchPath (l # ls) (r # rs) =
     map_option ((#) (l\<lparr>TypeNames := mergeTypeNames (TypeNames l) (TypeNames r)\<rparr>)) (mergeFetchPath ls rs)"

definition rename :: "int \<Rightarrow> int \<Rightarrow> int \<Rightarrow> int" where
  "rename oldId newId d = (if d = oldId then newId else d)"

definition rename_coordinates :: "int \<Rightarrow> int \<Rightarrow> FetchInfo \<Rightarrow> FetchInfo" where
  "rename_coordinates oldId newId info = info\<lparr>CoordinateDependencies :=
     map (\<lambda>c. c\<lparr>DependsOn := map (\<lambda>orig. orig\<lparr>OriginFetchID := rename oldId newId (OriginFetchID orig)\<rparr>) (DependsOn c)\<rparr>)
       (CoordinateDependencies info)\<rparr>"

definition replace_in_item :: "int \<Rightarrow> int \<Rightarrow> 'v FetchItem \<Rightarrow> 'v FetchItem" where
  "replace_in_item oldId newId it =
     (let f = Fetch it; deps = DependsOnFetchIDs (Dependencies f);
          d = (Dependencies f)\<lparr>DependsOnFetchIDs := map (rename oldId newId) deps\<rparr> in
      if oldId \<notin> set deps then it
      else it\<lparr>Fetch := set_deps_info d (map_option (rename_coordinates oldId newId) (FetchInfo_of f)) f\<rparr>)"

fun replace_in_node :: "int \<Rightarrow> int \<Rightarrow> 'v FetchTreeNode \<Rightarrow> 'v FetchTreeNode" where
  "replace_in_node oldId newId (Sequence ts) = Sequence (map (replace_in_node oldId newId) ts)"
| "replace_in_node oldId newId (Parallel ts) = Parallel (map (replace_in_node oldId newId) ts)"
| "replace_in_node oldId newId (Single it) = Single (replace_in_item oldId newId it)"
| "replace_in_node oldId newId (Trigger it) = Trigger (replace_in_item oldId newId it)"

definition replaceDependsOnFetchID :: "'v FetchTreeNode list \<Rightarrow> int \<Rightarrow> int \<Rightarrow> 'v FetchTreeNode list" where
  "replaceDependsOnFetchID children oldId newId = map (replace_in_node oldId newId) children"

fun set_node_item :: "'v FetchItem \<Rightarrow> 'v FetchTreeNode \<Rightarrow> 'v FetchTreeNode" where
  "set_node_item it (Single _) = Single it"
| "set_node_item it (Trigger _) = Trigger it"
| "set_node_item it t = t"

definition remove_at :: "nat \<Rightarrow> 'a list \<Rightarrow> 'a list" where
  "remove_at j xs = take j xs @ drop (Suc j) xs"

text \<open>
  The body of the inner loop for the pair \<open>(i, j)\<close>: \<open>Inr\<close> the children with \<open>j\<close> merged
  into \<open>i\<close>, \<open>Inl\<close> when they are not equal.
\<close>

definition dedupe_pair ::
  "('v \<Rightarrow> 'v \<Rightarrow> bool) \<Rightarrow> nat \<Rightarrow> nat \<Rightarrow> 'v FetchTreeNode list \<Rightarrow> (unit + 'v FetchTreeNode list) option" where
  "dedupe_pair var_equals i j ns =
     (case (node_item (ns ! i), node_item (ns ! j)) of
        (Some a, Some b) \<Rightarrow>
          if EqualSingleFetch var_equals a b
          then (case mergeFetchPath (FetchPath a) (FetchPath b) of
                  None \<Rightarrow> None
                | Some p \<Rightarrow>
                    (let ns1 = ns[i := set_node_item (a\<lparr>FetchPath := p\<rparr>) (ns ! i)];
                         newId = item_id a; oldId = item_id b;
                         ns2 = remove_at j ns1
                     in Some (Inr (replaceDependsOnFetchID ns2 oldId newId))))
          else Some (Inl ())
      | _ \<Rightarrow> None)"

lemma dedupe_pair_length:
  "dedupe_pair var_equals i j ns = Some (Inr ns') \<Longrightarrow> j < length ns \<Longrightarrow> Suc (length ns') = length ns"
  by (auto simp: dedupe_pair_def Let_def replaceDependsOnFetchID_def remove_at_def
      split: option.splits if_splits)

function dedupe_from :: "('v \<Rightarrow> 'v \<Rightarrow> bool) \<Rightarrow> nat \<Rightarrow> nat \<Rightarrow> 'v FetchTreeNode list \<Rightarrow> 'v FetchTreeNode list option" where
  "dedupe_from var_equals i j ns =
     (if j < length ns
      then (case dedupe_pair var_equals i j ns of
              None \<Rightarrow> None
            | Some (Inr ns') \<Rightarrow> dedupe_from var_equals i j ns'
            | Some (Inl _) \<Rightarrow> dedupe_from var_equals i (Suc j) ns)
      else Some ns)"
  by pat_completeness auto
termination by (relation "measure (\<lambda>(v, i, j, ns). length ns - j)") (auto dest!: dedupe_pair_length)

declare dedupe_from.simps [simp del]

text \<open>\<open>for i := range root.ChildNodes\<close> counts up to the length before the loop.\<close>

definition dedupe_children :: "('v \<Rightarrow> 'v \<Rightarrow> bool) \<Rightarrow> 'v FetchTreeNode list \<Rightarrow> 'v FetchTreeNode list option" where
  "dedupe_children var_equals ns =
     fold (\<lambda>i acc. Option.bind acc (dedupe_from var_equals i (Suc i))) [0..<length ns] (Some ns)"

definition set_children :: "'v FetchTreeNode list \<Rightarrow> 'v FetchTreeNode \<Rightarrow> 'v FetchTreeNode" where
  "set_children ns t = (case t of Sequence _ \<Rightarrow> Sequence ns | Parallel _ \<Rightarrow> Parallel ns | _ \<Rightarrow> t)"

definition dedupe_ProcessFetchTree ::
  "bool \<Rightarrow> ('v \<Rightarrow> 'v \<Rightarrow> bool) \<Rightarrow> 'v FetchTreeNode \<Rightarrow> 'v FetchTreeNode option" where
  "dedupe_ProcessFetchTree disable var_equals root =
     (if disable then Some root
      else map_option (\<lambda>ns. set_children ns root) (dedupe_children var_equals (ChildNodes root)))"

section \<open>Dependencies of nested fetches\<close>

fun single_fetch :: "'v FetchTreeNode \<Rightarrow> ('v FetchItem \<times> 'v FetchConfiguration \<times> FetchDependencies \<times> FetchInfo option) option" where
  "single_fetch n =
     (case node_item n of
        None \<Rightarrow> None
      | Some it \<Rightarrow> (case Fetch it of SingleFetch c d i \<Rightarrow> Some (it, c, d, i) | _ \<Rightarrow> None))"

definition providedPathByNode :: "'v FetchTreeNode \<Rightarrow> string option" where
  "providedPathByNode n =
     (case single_fetch n of
        None \<Rightarrow> None
      | Some (it, c, d, i) \<Rightarrow>
          (let mergePath = Join (MergePath (PostProcessing c)) ''.'' in
           Some (if ResponsePath it \<noteq> [] then ResponsePath it @ ''.'' @ mergePath else mergePath)))"

text \<open>The inner loop over the other nodes: the identifiers it appends.\<close>

fun missing_deps :: "string \<Rightarrow> nat \<Rightarrow> nat \<Rightarrow> 'v FetchTreeNode list \<Rightarrow> int list option" where
  "missing_deps path i j [] = Some []"
| "missing_deps path i j (other # rest) =
     (if i = j then missing_deps path i (Suc j) rest
      else (case (providedPathByNode other, single_fetch other) of
          (Some p, Some (it, c, d, info)) \<Rightarrow>
            (if HasPrefix path p then map_option ((#) (FetchID d)) (missing_deps path i (Suc j) rest)
             else missing_deps path i (Suc j) rest)
        | _ \<Rightarrow> None))"

definition addMissing_step :: "nat \<Rightarrow> 'v FetchTreeNode list \<Rightarrow> 'v FetchTreeNode list option" where
  "addMissing_step i ns =
     (case node_item (ns ! i) of
        None \<Rightarrow> None
      | Some it \<Rightarrow>
          if ResponsePath it = [] then Some ns
          else (case single_fetch (ns ! i) of
              None \<Rightarrow> None
            | Some (_, c, d, info) \<Rightarrow>
                if DependsOnFetchIDs d \<noteq> [] then Some ns
                else map_option (\<lambda>new.
                       ns[i := set_node_item (it\<lparr>Fetch := SingleFetch c (d\<lparr>DependsOnFetchIDs := DependsOnFetchIDs d @ new\<rparr>) info\<rparr>) (ns ! i)])
                     (missing_deps (ResponsePath it) i 0 ns)))"

definition addMissing_ProcessFetchTree :: "bool \<Rightarrow> 'v FetchTreeNode \<Rightarrow> 'v FetchTreeNode option" where
  "addMissing_ProcessFetchTree disable root =
     (if disable then Some root
      else map_option (\<lambda>ns. set_children ns root)
        (fold (\<lambda>i acc. Option.bind acc (addMissing_step i)) [0..<length (ChildNodes root)] (Some (ChildNodes root))))"

section \<open>Operation names\<close>

definition traverseSingleFetch :: "FetchDependencies \<Rightarrow> 'v FetchConfiguration \<Rightarrow> 'v FetchConfiguration" where
  "traverseSingleFetch d c =
     (if OperationName c \<noteq> [] then
        (let expandedName = OperationName c @ ''__'' @ itoa (FetchID d);
             c1 = c\<lparr>Input := replace_first (OperationName c) expandedName (Input c)\<rparr>
         in c1\<lparr>ConfigQueryPlan := map_option (\<lambda>q. q\<lparr>Query := replace_first (OperationName c) expandedName (Query q)\<rparr>) (ConfigQueryPlan c1)\<rparr>)
      else c)"

fun traverseNode :: "'v FetchTreeNode \<Rightarrow> 'v FetchTreeNode" where
  "traverseNode (Single it) =
     (case Fetch it of SingleFetch c d i \<Rightarrow> Single (it\<lparr>Fetch := SingleFetch (traverseSingleFetch d c) d i\<rparr>) | _ \<Rightarrow> Single it)"
| "traverseNode (Parallel ts) = Parallel (map traverseNode ts)"
| "traverseNode (Sequence ts) = Sequence (map traverseNode ts)"
| "traverseNode (Trigger it) = Trigger it"

definition appendFetchID_ProcessFetchTree :: "bool \<Rightarrow> 'v FetchTreeNode \<Rightarrow> 'v FetchTreeNode" where
  "appendFetchID_ProcessFetchTree disable root = (if disable then root else traverseNode root)"

section \<open>What merging equal fetches guarantees\<close>

text \<open>The part of an item that \<open>EqualSingleFetch\<close> compares.\<close>

definition item_config :: "'v FetchItem \<Rightarrow> 'v FetchConfiguration option" where
  "item_config it = (case Fetch it of SingleFetch c d i \<Rightarrow> Some c | _ \<Rightarrow> None)"

definition item_key :: "'v FetchItem \<Rightarrow> int \<times> (FetchItemPathElementKind \<times> string list) list \<times> 'v FetchConfiguration option" where
  "item_key it = (DeferID (Dependencies (Fetch it)), map (\<lambda>p. (PathKind p, Path p)) (FetchPath it), item_config it)"

lemma list_all2_map_eq: "list_all2 (\<lambda>x y. f x = f y \<and> g x = g y) xs ys \<longleftrightarrow> map (\<lambda>x. (f x, g x)) xs = map (\<lambda>x. (f x, g x)) ys"
proof (induction xs arbitrary: ys)
  case (Cons x xs)
  then show ?case by (cases ys) auto
qed auto

lemma EqualSingleFetch_iff:
  "EqualSingleFetch v a b \<longleftrightarrow> DeferID (Dependencies (Fetch a)) = DeferID (Dependencies (Fetch b)) \<and>
     map (\<lambda>p. (PathKind p, Path p)) (FetchPath a) = map (\<lambda>p. (PathKind p, Path p)) (FetchPath b) \<and>
     (\<exists>c d. item_config a = Some c \<and> item_config b = Some d \<and> FetchConfiguration_Equals v c d)"
  by (auto simp: EqualSingleFetch_def item_config_def list_all2_map_eq [symmetric] dest: list_all2_lengthD split: Fetch.splits)

lemma EqualSingleFetch_key: "item_key a = item_key a' \<Longrightarrow> item_key b = item_key b' \<Longrightarrow> EqualSingleFetch v a b = EqualSingleFetch v a' b'"
  by (auto simp: EqualSingleFetch_iff item_key_def)

lemma Dependencies_set [simp]: "Dependencies (set_deps_info d i f) = d"
  by (cases f) auto

lemma replace_in_item_simps [simp]:
  "item_id (replace_in_item x y it) = item_id it"
  "item_key (replace_in_item x y it) = item_key it"
  "item_deps (replace_in_item x y it) = map (rename x y) (item_deps it)"
proof -
  show "item_id (replace_in_item x y it) = item_id it"
    by (simp add: replace_in_item_def Let_def item_id_def)
  show "item_key (replace_in_item x y it) = item_key it"
    by (cases "Fetch it") (simp_all add: replace_in_item_def Let_def item_key_def item_config_def)
  have "x \<notin> set (item_deps it) \<Longrightarrow> map (rename x y) (item_deps it) = item_deps it"
    by (auto simp: rename_def intro: map_idI)
  then show "item_deps (replace_in_item x y it) = map (rename x y) (item_deps it)"
    by (simp add: replace_in_item_def Let_def item_deps_def)
qed

text \<open>
  Merging type conditions: no condition if either path has none, otherwise the sorted union.
\<close>

lemma mergeTypeNames_set: "left \<noteq> [] \<Longrightarrow> right \<noteq> [] \<Longrightarrow> set (mergeTypeNames left right) = set left \<union> set right"
  by (simp add: mergeTypeNames_def)

lemma remdups_adj_strict: "sorted xs \<Longrightarrow> distinct (remdups_adj xs)"
  by (induction xs rule: remdups_adj.induct) (auto simp: le_less dest!: order.antisym)

lemma mergeTypeNames_sorted: "sorted (mergeTypeNames left right) \<and> distinct (mergeTypeNames left right)"
  by (simp add: mergeTypeNames_def sorted_remdups_adj remdups_adj_strict)

lemma mergeFetchPath_ok:
  "length right = length left \<Longrightarrow>
   mergeFetchPath left right = Some (map2 (\<lambda>l r. l\<lparr>TypeNames := mergeTypeNames (TypeNames l) (TypeNames r)\<rparr>) left right)"
  by (induction left right rule: mergeFetchPath.induct) auto

definition merge_items :: "nat \<Rightarrow> nat \<Rightarrow> 'v FetchItem list \<Rightarrow> 'v FetchItem list" where
  "merge_items i j its =
     map (replace_in_item (item_id (its ! j)) (item_id (its ! i)))
       (remove_at j (its[i := (its ! i)\<lparr>FetchPath := the (mergeFetchPath (FetchPath (its ! i)) (FetchPath (its ! j)))\<rparr>]))"

lemma remove_at_map: "remove_at j (map f xs) = map f (remove_at j xs)"
  by (simp add: remove_at_def take_map drop_map)

lemma dedupe_pair_flat:
  assumes "i < j" "j < length its"
  shows "dedupe_pair v i j (map Single its) =
    Some (if EqualSingleFetch v (its ! i) (its ! j) then Inr (map Single (merge_items i j its)) else Inl ())"
proof (cases "EqualSingleFetch v (its ! i) (its ! j)")
  case True
  then have "length (FetchPath (its ! j)) = length (FetchPath (its ! i))"
    by (auto simp: EqualSingleFetch_iff dest: map_eq_imp_length_eq)
  with True assms show ?thesis
    by (simp add: dedupe_pair_def Let_def mergeFetchPath_ok replaceDependsOnFetchID_def merge_items_def
        map_update [symmetric] remove_at_map comp_def)
qed (use assms in \<open>simp add: dedupe_pair_def\<close>)

lemma merged_key:
  "length (FetchPath b) = length (FetchPath a) \<Longrightarrow>
   item_key (a\<lparr>FetchPath := the (mergeFetchPath (FetchPath a) (FetchPath b))\<rparr>) = item_key a"
proof -
  assume len: "length (FetchPath b) = length (FetchPath a)"
  have "length ys = length xs \<Longrightarrow>
    map (\<lambda>p. (PathKind p, Path p)) (map2 (\<lambda>l r. l\<lparr>TypeNames := mergeTypeNames (TypeNames l) (TypeNames r)\<rparr>) xs ys) =
    map (\<lambda>p. (PathKind p, Path p)) xs" for xs ys :: "FetchItemPathElement list"
    by (induction ys xs rule: list_induct2) auto
  with len show ?thesis by (simp add: item_key_def item_config_def mergeFetchPath_ok)
qed

lemma length_remove_at [simp]: "j < length xs \<Longrightarrow> length (remove_at j xs) = length xs - 1"
  by (simp add: remove_at_def)

lemma nth_remove_at: "j < length xs \<Longrightarrow> k < length xs - 1 \<Longrightarrow> remove_at j xs ! k = xs ! (if k < j then k else Suc k)"
  by (auto simp: remove_at_def nth_append min_def)

lemma nth_merge_items:
  assumes "i < j" "j < length its" "EqualSingleFetch v (its ! i) (its ! j)" "k < length its - 1"
  defines "m \<equiv> (if k < j then k else Suc k)"
  shows "item_id (merge_items i j its ! k) = item_id (its ! m)" "item_key (merge_items i j its ! k) = item_key (its ! m)"
    "item_deps (merge_items i j its ! k) = map (rename (item_id (its ! j)) (item_id (its ! i))) (item_deps (its ! m))"
proof -
  have len: "length (FetchPath (its ! j)) = length (FetchPath (its ! i))"
    using assms(3) by (auto simp: EqualSingleFetch_iff dest: map_eq_imp_length_eq)
  have k: "merge_items i j its ! k = replace_in_item (item_id (its ! j)) (item_id (its ! i))
      (its[i := (its ! i)\<lparr>FetchPath := the (mergeFetchPath (FetchPath (its ! i)) (FetchPath (its ! j)))\<rparr>] ! m)"
    using assms by (simp add: merge_items_def nth_remove_at)
  have "i < length its" using assms by simp
  then show "item_id (merge_items i j its ! k) = item_id (its ! m)" "item_key (merge_items i j its ! k) = item_key (its ! m)"
    "item_deps (merge_items i j its ! k) = map (rename (item_id (its ! j)) (item_id (its ! i))) (item_deps (its ! m))"
    unfolding k using len by (auto simp: nth_list_update merged_key) (auto simp: item_id_def item_deps_def)
qed

text \<open>
  The state of the loop for the pair \<open>(i, j)\<close>: \<open>\<rho>\<close> tells which fetch represents which. Every
  fetch still there has the configuration and the renamed dependencies of the original one, every
  original one is represented by itself or an equal one, only fetches up to \<open>i\<close> represent
  others, and no pair compared so far is equal.
\<close>

definition dedupe_inv ::
  "('v \<Rightarrow> 'v \<Rightarrow> bool) \<Rightarrow> 'v FetchItem list \<Rightarrow> (int \<Rightarrow> int) \<Rightarrow> nat \<Rightarrow> nat \<Rightarrow> 'v FetchItem list \<Rightarrow> bool" where
  "dedupe_inv v its0 \<rho> i j its \<longleftrightarrow>
     distinct (map item_id its) \<and>
     (\<forall>a \<in> set its. \<exists>b \<in> set its0. item_id a = item_id b \<and> item_key a = item_key b \<and> item_deps a = map \<rho> (item_deps b)) \<and>
     (\<forall>b \<in> set its0. \<exists>a \<in> set its. item_id a = \<rho> (item_id b) \<and> (item_id a = item_id b \<or> EqualSingleFetch v a b)) \<and>
     (\<forall>x. \<rho> x \<noteq> x \<longrightarrow> x \<notin> set (map item_id its) \<and> (\<exists>k \<le> i. k < length its \<and> \<rho> x = item_id (its ! k))) \<and>
     (\<forall>p q. p < q \<longrightarrow> q < length its \<longrightarrow> p < i \<or> p = i \<and> q < j \<longrightarrow> \<not> EqualSingleFetch v (its ! p) (its ! q))"

lemma set_conv_merge:
  assumes "i < j" "j < length its" "EqualSingleFetch v (its ! i) (its ! j)"
  shows "a \<in> set (merge_items i j its) \<Longrightarrow> \<exists>m < length its. m \<noteq> j \<and> item_id a = item_id (its ! m) \<and> item_key a = item_key (its ! m) \<and>
      item_deps a = map (rename (item_id (its ! j)) (item_id (its ! i))) (item_deps (its ! m))"
    and "m < length its \<Longrightarrow> m \<noteq> j \<Longrightarrow> \<exists>a \<in> set (merge_items i j its). item_id a = item_id (its ! m) \<and> item_key a = item_key (its ! m)"
proof -
  have len: "length (merge_items i j its) = length its - 1" using assms by (simp add: merge_items_def)
  show "\<exists>m < length its. m \<noteq> j \<and> item_id a = item_id (its ! m) \<and> item_key a = item_key (its ! m) \<and>
      item_deps a = map (rename (item_id (its ! j)) (item_id (its ! i))) (item_deps (its ! m))" if a: "a \<in> set (merge_items i j its)"
  proof -
    obtain k where k: "k < length its - 1" "a = merge_items i j its ! k" using a len by (auto simp: in_set_conv_nth)
    show ?thesis
      by (rule exI [of _ "if k < j then k else Suc k"]) (use nth_merge_items [OF assms k(1)] k in auto)
  qed
  show "\<exists>a \<in> set (merge_items i j its). item_id a = item_id (its ! m) \<and> item_key a = item_key (its ! m)"
    if m: "m < length its" "m \<noteq> j"
  proof -
    let ?k = "if m < j then m else m - 1"
    have k: "?k < length its - 1" using m assms(2) by auto
    have e: "(if ?k < j then ?k else Suc ?k) = m" using m by auto
    have "merge_items i j its ! ?k \<in> set (merge_items i j its)" using len k by (intro nth_mem) simp
    then show ?thesis using nth_merge_items(1,2) [OF assms k, unfolded e] by blast
  qed
qed

lemma distinct_nth_ids:
  "distinct (map item_id its) \<Longrightarrow> p < length its \<Longrightarrow> q < length its \<Longrightarrow> item_id (its ! p) = item_id (its ! q) \<Longrightarrow> p = q"
  using nth_eq_iff_index_eq [of "map item_id its" p q] by simp

lemma map_ids_merge:
  assumes "i < j" "j < length its" "EqualSingleFetch v (its ! i) (its ! j)"
  shows "map item_id (merge_items i j its) = remove_at j (map item_id its)"
proof (rule nth_equalityI)
  show "length (map item_id (merge_items i j its)) = length (remove_at j (map item_id its))"
    using assms by (simp add: merge_items_def)
  fix k assume "k < length (map item_id (merge_items i j its))"
  then have k: "k < length its - 1" "k < length (merge_items i j its)" using assms by (auto simp: merge_items_def)
  with assms show "map item_id (merge_items i j its) ! k = remove_at j (map item_id its) ! k"
    using nth_merge_items(1) [OF assms k(1)] by (auto simp: nth_remove_at)
qed

lemma distinct_remove_at: "distinct xs \<Longrightarrow> distinct (remove_at j xs)"
  by (auto simp: remove_at_def dest: in_set_dropD in_set_takeD set_take_disj_set_drop_if_distinct [of xs j "Suc j"])

lemma dedupe_inv_merge:
  assumes inv: "dedupe_inv v its0 \<rho> i j its" and ij: "i < j" "j < length its"
    and eq: "EqualSingleFetch v (its ! i) (its ! j)" and d0: "distinct (map item_id its0)"
  shows "dedupe_inv v its0 (rename (item_id (its ! j)) (item_id (its ! i)) \<circ> \<rho>) i j (merge_items i j its)"
proof -
  let ?old = "item_id (its ! j)" and ?new = "item_id (its ! i)" and ?its = "merge_items i j its"
  let ?\<rho> = "rename ?old ?new \<circ> \<rho>"
  note c = set_conv_merge [OF ij eq] and n = nth_merge_items [OF ij eq]
  have len: "length ?its = length its - 1" using ij by (simp add: merge_items_def)
  have d: "distinct (map item_id its)"
    and orig: "\<forall>a \<in> set its. \<exists>b \<in> set its0. item_id a = item_id b \<and> item_key a = item_key b \<and> item_deps a = map \<rho> (item_deps b)"
    and rep: "\<forall>b \<in> set its0. \<exists>a \<in> set its. item_id a = \<rho> (item_id b) \<and> (item_id a = item_id b \<or> EqualSingleFetch v a b)"
    and moved: "\<forall>x. \<rho> x \<noteq> x \<longrightarrow> x \<notin> set (map item_id its) \<and> (\<exists>k \<le> i. k < length its \<and> \<rho> x = item_id (its ! k))"
    and pairs: "\<forall>p q. p < q \<longrightarrow> q < length its \<longrightarrow> p < i \<or> p = i \<and> q < j \<longrightarrow> \<not> EqualSingleFetch v (its ! p) (its ! q)"
    using inv unfolding dedupe_inv_def by blast+
  have old_fixed: "\<rho> x = ?old \<Longrightarrow> x = ?old" for x
    using moved ij distinct_nth_ids [OF d, of _ j] by (metis leD)
  have d': "distinct (map item_id ?its)"
    using d by (simp add: map_ids_merge [OF ij eq] distinct_remove_at)
  have orig': "\<exists>b \<in> set its0. item_id a = item_id b \<and> item_key a = item_key b \<and> item_deps a = map ?\<rho> (item_deps b)"
    if a: "a \<in> set ?its" for a
    using c(1) [OF a] orig by (metis list.map_comp nth_mem)
  have rep': "\<exists>a \<in> set ?its. item_id a = ?\<rho> (item_id b) \<and> (item_id a = item_id b \<or> EqualSingleFetch v a b)"
    if b: "b \<in> set its0" for b
  proof -
    obtain m where m: "m < length its" "item_id (its ! m) = \<rho> (item_id b)" "item_id (its ! m) = item_id b \<or> EqualSingleFetch v (its ! m) b"
      using rep b by (metis in_set_conv_nth)
    show ?thesis
    proof (cases "m = j")
      case True
      then have "item_id b = ?old" using m old_fixed by simp
      moreover obtain b' where b': "b' \<in> set its0" "?old = item_id b'" "item_key (its ! j) = item_key b'" using orig ij by (metis nth_mem)
      ultimately have "b' = b" using d0 b by (metis distinct_map inj_onD)
      then have "EqualSingleFetch v (its ! i) b" using eq b'(3) EqualSingleFetch_key by metis
      moreover obtain a where "a \<in> set ?its" "item_id a = ?new" "item_key a = item_key (its ! i)" using c(2) [of i] ij by auto
      ultimately show ?thesis using True m EqualSingleFetch_key [of a "its ! i" b b] by (auto simp: rename_def)
    next
      case False
      then have "\<rho> (item_id b) \<noteq> ?old" using m distinct_nth_ids [OF d m(1) ij(2)] by auto
      moreover obtain a where "a \<in> set ?its" "item_id a = item_id (its ! m)" "item_key a = item_key (its ! m)" using c(2) m False by blast
      ultimately show ?thesis using m EqualSingleFetch_key [of a "its ! m" b b v] by (auto simp: rename_def)
    qed
  qed
  have moved': "x \<notin> set (map item_id ?its) \<and> (\<exists>k \<le> i. k < length ?its \<and> ?\<rho> x = item_id (?its ! k))" if x: "?\<rho> x \<noteq> x" for x
  proof -
    have front: "k \<le> i \<Longrightarrow> k < length ?its \<and> item_id (?its ! k) = item_id (its ! k)" for k
      using n(1) [of k] len ij by auto
    have sub: "set (map item_id ?its) \<subseteq> set (map item_id its) - {?old}"
      using c(1) distinct_nth_ids [OF d _ ij(2)] by fastforce
    show ?thesis
    proof (cases "x = ?old")
      case True
      then have "\<rho> x = x" using moved ij by (metis image_eqI list.set_map nth_mem)
      then have "?\<rho> x = ?new" using True by (simp add: rename_def)
      then show ?thesis using True sub front [of i] by auto
    next
      case False
      then have "\<rho> x \<noteq> ?old" using old_fixed by auto
      then have r: "?\<rho> x = \<rho> x" by (simp add: rename_def)
      with x moved obtain k where "x \<notin> set (map item_id its)" "k \<le> i" "\<rho> x = item_id (its ! k)" by force
      with r sub front [of k] show ?thesis by auto
    qed
  qed
  have pairs': "\<not> EqualSingleFetch v (?its ! p) (?its ! q)" if pq: "p < q" "q < length ?its" "p < i \<or> p = i \<and> q < j" for p q
  proof -
    let ?m = "if q < j then q else Suc q"
    have "p < length its - 1" "q < length its - 1" "p < j" using pq len ij by auto
    then have "item_key (?its ! p) = item_key (its ! p)" "item_key (?its ! q) = item_key (its ! ?m)" using n(2) [of p] n(2) [of q] by auto
    moreover have "\<not> EqualSingleFetch v (its ! p) (its ! ?m)" using pairs pq len ij by auto
    ultimately show ?thesis using EqualSingleFetch_key [of "?its ! p" "its ! p" "?its ! q" "its ! ?m" v] by simp
  qed
  show ?thesis
    unfolding dedupe_inv_def using d' orig' rep' moved' pairs' by blast
qed

lemma dedupe_inv_mono:
  "dedupe_inv v its0 \<rho> i j its \<Longrightarrow> \<not> EqualSingleFetch v (its ! i) (its ! j) \<Longrightarrow> dedupe_inv v its0 \<rho> i (Suc j) its"
  unfolding dedupe_inv_def by (auto simp: less_Suc_eq)

lemma dedupe_inv_next:
  "dedupe_inv v its0 \<rho> i (length its) its \<Longrightarrow> dedupe_inv v its0 \<rho> (Suc i) (Suc (Suc i)) its"
  unfolding dedupe_inv_def by (auto simp: less_Suc_eq) (metis le_SucI)

lemma dedupe_from_flat:
  assumes "dedupe_inv v its0 \<rho> i j its" "i < j" "distinct (map item_id its0)"
  shows "\<exists>its' \<rho>'. dedupe_from v i j (map Single its) = Some (map Single its') \<and> length its' \<le> length its \<and>
    dedupe_inv v its0 \<rho>' i (length its') its'"
  using assms(1,2)
proof (induction "length its - j" arbitrary: its \<rho> j rule: less_induct)
  case less
  show ?case
  proof (cases "j < length its")
    case False
    with less.prems have "dedupe_inv v its0 \<rho> i (length its) its" unfolding dedupe_inv_def by auto
    with False show ?thesis by (auto simp: dedupe_from.simps [of v i j])
  next
    case True
    note pair = dedupe_pair_flat [OF less.prems(2) True, of v]
    show ?thesis
    proof (cases "EqualSingleFetch v (its ! i) (its ! j)")
      case eq: True
      have len: "length (merge_items i j its) = length its - 1" using True by (simp add: merge_items_def)
      have "\<exists>its' \<rho>'. dedupe_from v i j (map Single (merge_items i j its)) = Some (map Single its') \<and>
          length its' \<le> length (merge_items i j its) \<and> dedupe_inv v its0 \<rho>' i (length its') its'"
        by (rule less.hyps) (use dedupe_inv_merge [OF less.prems True eq assms(3)] len True less.prems(2) in auto)
      with len True eq pair show ?thesis by (auto simp: dedupe_from.simps [of v i j "map Single its"])
    next
      case False
      have "\<exists>its' \<rho>'. dedupe_from v i (Suc j) (map Single its) = Some (map Single its') \<and>
          length its' \<le> length its \<and> dedupe_inv v its0 \<rho>' i (length its') its'"
        by (rule less.hyps) (use dedupe_inv_mono [OF less.prems(1) False] True less.prems(2) in auto)
      with True False pair show ?thesis by (simp add: dedupe_from.simps [of v i j "map Single its"])
    qed
  qed
qed

lemma dedupe_inv_init: "distinct (map item_id its) \<Longrightarrow> dedupe_inv v its id 0 (Suc 0) its"
  by (auto simp: dedupe_inv_def)

lemma dedupe_children_flat:
  assumes "distinct (map item_id its0)"
  shows "\<exists>its \<rho>. dedupe_children v (map Single its0) = Some (map Single its) \<and> length its \<le> length its0 \<and>
    dedupe_inv v its0 \<rho> (length its0) (Suc (length its0)) its"
proof -
  have "\<exists>its \<rho>. fold (\<lambda>i acc. Option.bind acc (dedupe_from v i (Suc i))) [0..<n] (Some (map Single its0)) = Some (map Single its) \<and>
      length its \<le> length its0 \<and> dedupe_inv v its0 \<rho> n (Suc n) its" for n
  proof (induction n)
    case 0
    then show ?case using dedupe_inv_init [OF assms] by auto
  next
    case (Suc n)
    then obtain its \<rho> where f: "fold (\<lambda>i acc. Option.bind acc (dedupe_from v i (Suc i))) [0..<n] (Some (map Single its0)) = Some (map Single its)"
      "length its \<le> length its0" "dedupe_inv v its0 \<rho> n (Suc n) its" by blast
    from dedupe_from_flat [OF f(3) _ assms] obtain its' \<rho>' where
      g: "dedupe_from v n (Suc n) (map Single its) = Some (map Single its')" "length its' \<le> length its" "dedupe_inv v its0 \<rho>' n (length its') its'"
      by auto
    from dedupe_inv_next [OF g(3)] f g show ?case by (intro exI [of _ its'] exI [of _ \<rho>']) simp
  qed
  then show ?thesis by (simp add: dedupe_children_def)
qed

text \<open>What the stage leaves: no two equal fetches, every fetch represented, dependencies renamed.\<close>

lemma dedupe_correct:
  assumes "distinct (map item_id its0)"
  shows "\<exists>its \<rho>. dedupe_ProcessFetchTree False v (Sequence (map Single its0)) = Some (Sequence (map Single its)) \<and>
    distinct (map item_id its) \<and> set (map item_id its) = \<rho> ` set (map item_id its0) \<and>
    (\<forall>a \<in> set its. \<exists>b \<in> set its0. item_id a = item_id b \<and> item_key a = item_key b \<and> item_deps a = map \<rho> (item_deps b)) \<and>
    (\<forall>b \<in> set its0. \<exists>a \<in> set its. item_id a = \<rho> (item_id b) \<and> (item_id a = item_id b \<or> EqualSingleFetch v a b)) \<and>
    (\<forall>p q. p < q \<longrightarrow> q < length its \<longrightarrow> \<not> EqualSingleFetch v (its ! p) (its ! q))"
proof -
  obtain its \<rho> where f: "dedupe_children v (map Single its0) = Some (map Single its)" "length its \<le> length its0"
    and inv: "dedupe_inv v its0 \<rho> (length its0) (Suc (length its0)) its"
    using dedupe_children_flat [OF assms] by blast
  have fixed: "x \<in> set (map item_id its) \<Longrightarrow> \<rho> x = x" for x using inv unfolding dedupe_inv_def by blast
  have "set (map item_id its) = \<rho> ` set (map item_id its0)"
  proof
    show "set (map item_id its) \<subseteq> \<rho> ` set (map item_id its0)"
    proof
      fix x assume x: "x \<in> set (map item_id its)"
      then obtain b where "b \<in> set its0" "x = item_id b" using inv unfolding dedupe_inv_def by (metis (no_types) imageE list.set_map)
      with fixed [OF x] show "x \<in> \<rho> ` set (map item_id its0)" by (metis image_eqI list.set_map)
    qed
    have "b \<in> set its0 \<Longrightarrow> \<rho> (item_id b) \<in> set (map item_id its)" for b
      using inv unfolding dedupe_inv_def by (metis (no_types) image_eqI list.set_map)
    then show "\<rho> ` set (map item_id its0) \<subseteq> set (map item_id its)" by auto
  qed
  moreover have "\<not> EqualSingleFetch v (its ! p) (its ! q)" if pq: "p < q" "q < length its" for p q
  proof -
    have "p < length its0" using pq f(2) by simp
    then show ?thesis using inv pq unfolding dedupe_inv_def by blast
  qed
  ultimately show ?thesis using f(1) inv
    by (intro exI [of _ its] exI [of _ \<rho>]) (simp add: dedupe_ProcessFetchTree_def set_children_def dedupe_inv_def)
qed

section \<open>What adding dependencies guarantees\<close>

definition all_single :: "'v FetchItem list \<Rightarrow> bool" where
  "all_single its \<longleftrightarrow> list_all (\<lambda>it. item_config it \<noteq> None) its"

definition provided :: "'v FetchItem \<Rightarrow> string" where
  "provided it =
     (let mergePath = (case item_config it of None \<Rightarrow> [] | Some c \<Rightarrow> Join (MergePath (PostProcessing c)) ''.'') in
      if ResponsePath it \<noteq> [] then ResponsePath it @ ''.'' @ mergePath else mergePath)"

text \<open>The dependencies the stage gives the fetch at index \<open>k\<close>.\<close>

definition nested_ids :: "'v FetchItem list \<Rightarrow> nat \<Rightarrow> int list" where
  "nested_ids its k =
     map (\<lambda>j. item_id (its ! j)) (filter (\<lambda>j. j \<noteq> k \<and> HasPrefix (ResponsePath (its ! k)) (provided (its ! j))) [0..<length its])"

definition completed_deps :: "'v FetchItem list \<Rightarrow> nat \<Rightarrow> int list" where
  "completed_deps its k =
     (if ResponsePath (its ! k) = [] \<or> item_deps (its ! k) \<noteq> [] then item_deps (its ! k) else nested_ids its k)"

definition set_item_deps :: "int list \<Rightarrow> 'v FetchItem \<Rightarrow> 'v FetchItem" where
  "set_item_deps ds it = it\<lparr>Fetch := set_deps_info ((Dependencies (Fetch it))\<lparr>DependsOnFetchIDs := ds\<rparr>) (FetchInfo_of (Fetch it)) (Fetch it)\<rparr>"

lemma set_item_deps_simps [simp]:
  "item_id (set_item_deps ds it) = item_id it" "item_deps (set_item_deps ds it) = ds"
  "ResponsePath (set_item_deps ds it) = ResponsePath it" "item_config (set_item_deps ds it) = item_config it"
  "provided (set_item_deps ds it) = provided it"
proof -
  show c: "item_config (set_item_deps ds it) = item_config it"
    by (cases "Fetch it") (simp_all add: set_item_deps_def item_config_def)
  show p: "ResponsePath (set_item_deps ds it) = ResponsePath it" by (simp add: set_item_deps_def)
  show "provided (set_item_deps ds it) = provided it" by (simp add: provided_def c p Let_def)
qed (simp_all add: set_item_deps_def item_id_def item_deps_def)

lemma set_item_deps_same: "set_item_deps (item_deps it) it = it"
  by (cases "Fetch it") (simp_all add: set_item_deps_def item_deps_def)

lemma single_fetch_Single:
  assumes "item_config it = Some c"
  shows "single_fetch (Single it) = Some (it, c, Dependencies (Fetch it), FetchInfo_of (Fetch it))"
  using assms by (auto simp: item_config_def split: Fetch.splits)

lemma providedPathByNode_Single: "item_config it \<noteq> None \<Longrightarrow> providedPathByNode (Single it) = Some (provided it)"
  by (auto simp: providedPathByNode_def single_fetch_Single provided_def Let_def simp del: single_fetch.simps)

lemma missing_deps_Single:
  "all_single its \<Longrightarrow> missing_deps path i j (map Single its) =
     Some (map (\<lambda>m. item_id (its ! m)) (filter (\<lambda>m. m + j \<noteq> i \<and> HasPrefix path (provided (its ! m))) [0..<length its]))"
proof (induction its arbitrary: j)
  case (Cons it its)
  then have it: "item_config it \<noteq> None" and its: "all_single its" by (auto simp: all_single_def)
  obtain c where c: "item_config it = Some c" using it by auto
  have up: "[0..<length (it # its)] = 0 # map Suc [0..<length its]" by (simp add: map_Suc_upt upt_conv_Cons del: upt_Suc)
  have rest: "missing_deps path i (Suc j) (map Single its) =
      Some (map (\<lambda>m. item_id ((it # its) ! m)) (filter (\<lambda>m. m + j \<noteq> i \<and> HasPrefix path (provided ((it # its) ! m))) (map Suc [0..<length its])))"
    using Cons.IH [OF its, of "Suc j"] by (simp add: filter_map comp_def)
  show ?case
    unfolding up using rest it
    by (auto simp: providedPathByNode_Single single_fetch_Single [OF c] item_id_def simp del: single_fetch.simps)
qed simp

lemma addMissing_step_Single:
  assumes "all_single its" "k < length its"
  shows "addMissing_step k (map Single its) = Some (map Single (its[k := set_item_deps (completed_deps its k) (its ! k)]))"
proof -
  have "item_config (its ! k) \<noteq> None" using assms by (simp add: all_single_def list_all_length)
  then obtain c where c: "item_config (its ! k) = Some c" by auto
  have s: "single_fetch (Single (its ! k)) = Some (its ! k, c, Dependencies (Fetch (its ! k)), FetchInfo_of (Fetch (its ! k)))"
    by (rule single_fetch_Single [OF c])
  show ?thesis
  proof (cases "ResponsePath (its ! k) = [] \<or> item_deps (its ! k) \<noteq> []")
    case True
    have id: "its[k := set_item_deps (completed_deps its k) (its ! k)] = its"
      using True by (simp add: completed_deps_def set_item_deps_same)
    show ?thesis unfolding id using True assms(2) s by (auto simp: addMissing_step_def item_deps_def simp del: single_fetch.simps)
  next
    case False
    let ?it = "its ! k" and ?new = "nested_ids its k"
    have "set_item_deps ds it = it\<lparr>Fetch := SingleFetch c' ((Dependencies (Fetch it))\<lparr>DependsOnFetchIDs := ds\<rparr>) (FetchInfo_of (Fetch it))\<rparr>"
      if "item_config it = Some c'" for ds c' and it :: "'a FetchItem"
      using that by (auto simp: set_item_deps_def item_config_def split: Fetch.splits)
    from this [OF c]
    have "set_item_deps ?new ?it = ?it\<lparr>Fetch := SingleFetch c ((Dependencies (Fetch ?it))\<lparr>DependsOnFetchIDs := ?new\<rparr>) (FetchInfo_of (Fetch ?it))\<rparr>" .
    then show ?thesis using False assms s
      by (simp add: addMissing_step_def missing_deps_Single item_deps_def completed_deps_def nested_ids_def
          map_update [symmetric] del: single_fetch.simps)
  qed
qed

text \<open>The steps do not influence each other: they change only the dependencies of their own node.\<close>

definition completed :: "nat \<Rightarrow> 'v FetchItem list \<Rightarrow> 'v FetchItem list" where
  "completed n its = map (\<lambda>k. if k < n then set_item_deps (completed_deps its k) (its ! k) else its ! k) [0..<length its]"

lemma completed_simps [simp]:
  "length (completed n its) = length its"
  "k < length its \<Longrightarrow> completed n its ! k = (if k < n then set_item_deps (completed_deps its k) (its ! k) else its ! k)"
  by (simp_all add: completed_def)

lemma all_single_completed: "all_single (completed n its) = all_single its"
  by (auto simp: all_single_def list_all_length split: if_splits)

lemma nested_ids_completed: "k < length its \<Longrightarrow> nested_ids (completed n its) k = nested_ids its k"
  unfolding nested_ids_def by (intro map_cong filter_cong) auto

lemma completed_Suc:
  assumes "k < length its"
  shows "(completed k its)[k := set_item_deps (completed_deps (completed k its) k) (completed k its ! k)] = completed (Suc k) its"
proof (rule nth_equalityI)
  have "completed_deps (completed k its) k = completed_deps its k"
    using assms by (simp add: completed_deps_def nested_ids_completed)
  then show "m < length ((completed k its)[k := set_item_deps (completed_deps (completed k its) k) (completed k its ! k)]) \<Longrightarrow>
    (completed k its)[k := set_item_deps (completed_deps (completed k its) k) (completed k its ! k)] ! m = completed (Suc k) its ! m" for m
    using assms by (auto simp: nth_list_update less_Suc_eq)
qed simp

lemma addMissing_flat:
  assumes "all_single its"
  shows "addMissing_ProcessFetchTree False (Sequence (map Single its)) = Some (Sequence (map Single (completed (length its) its)))"
proof -
  have "n \<le> length its \<Longrightarrow>
    fold (\<lambda>i acc. Option.bind acc (addMissing_step i)) [0..<n] (Some (map Single its)) = Some (map Single (completed n its))" for n
  proof (induction n)
    case 0
    then show ?case by (simp add: completed_def map_nth)
  next
    case (Suc n)
    then show ?case
      using addMissing_step_Single [of "completed n its" n] assms completed_Suc [of n its] by (simp add: all_single_completed)
  qed
  then show ?thesis by (simp add: addMissing_ProcessFetchTree_def set_children_def)
qed

text \<open>An added dependency leads to a fetch with a strictly shorter response path, or to a root fetch.\<close>

lemma nested_ids_shorter:
  assumes "x \<in> set (nested_ids its k)"
  shows "\<exists>j < length its. x = item_id (its ! j) \<and> j \<noteq> k \<and>
    (ResponsePath (its ! j) = [] \<or> length (ResponsePath (its ! j)) < length (ResponsePath (its ! k)))"
proof -
  obtain j where j: "j < length its" "j \<noteq> k" "x = item_id (its ! j)" "HasPrefix (ResponsePath (its ! k)) (provided (its ! j))"
    using assms by (auto simp: nested_ids_def)
  have "length (provided (its ! j)) \<le> length (ResponsePath (its ! k))"
    using j(4) unfolding HasPrefix_def by (metis length_take min.cobounded1)
  then have "ResponsePath (its ! j) = [] \<or> length (ResponsePath (its ! j)) < length (ResponsePath (its ! k))"
    by (auto simp: provided_def Let_def split: if_splits)
  with j show ?thesis by blast
qed

definition depends_rel :: "'v FetchItem list \<Rightarrow> (nat \<times> nat) set" where
  "depends_rel its = {(j, k). j < length its \<and> k < length its \<and> item_id (its ! j) \<in> set (item_deps (its ! k))}"

text \<open>
  Hence the stage adds no cycle to fetches that depend only on fetches at shorter paths or the same
  one.
\<close>

lemma addMissing_acyclic:
  assumes "distinct (map item_id its)" "acyclic (depends_rel its)"
    and "\<forall>(j, k) \<in> depends_rel its. length (ResponsePath (its ! j)) \<le> length (ResponsePath (its ! k))"
  shows "acyclic (depends_rel (completed (length its) its))"
proof -
  let ?len = "\<lambda>k. length (ResponsePath (its ! k))"
  let ?R = "depends_rel (completed (length its) its)"
  have step: "?len j < ?len k \<or> ?len j \<le> ?len k \<and> (j, k) \<in> depends_rel its" if r: "(j, k) \<in> ?R" for j k
  proof -
    have jk: "j < length its" "k < length its" "item_id (its ! j) \<in> set (completed_deps its k)"
      using r by (auto simp: depends_rel_def)
    show ?thesis
    proof (cases "ResponsePath (its ! k) = [] \<or> item_deps (its ! k) \<noteq> []")
      case True
      with jk have "(j, k) \<in> depends_rel its" by (auto simp: completed_deps_def depends_rel_def)
      with assms(3) show ?thesis by auto
    next
      case False
      with jk obtain m where m: "m < length its" "item_id (its ! j) = item_id (its ! m)"
        "ResponsePath (its ! m) = [] \<or> ?len m < ?len k"
        using nested_ids_shorter [of "item_id (its ! j)" its k] by (auto simp: completed_deps_def)
      then have "m = j" using distinct_nth_ids [OF assms(1) m(1) jk(1)] by simp
      with m False show ?thesis by auto
    qed
  qed
  have "?len x < ?len y \<or> ?len x \<le> ?len y \<and> (x, y) \<in> (depends_rel its)\<^sup>+" if "(x, y) \<in> ?R\<^sup>+" for x y
    using that
  proof induction
    case (base y)
    then show ?case using step by blast
  next
    case (step y z)
    then have "?len y < ?len z \<or> ?len y \<le> ?len z \<and> (y, z) \<in> depends_rel its" using \<open>\<And>j k. (j, k) \<in> ?R \<Longrightarrow> _\<close> by blast
    with step.IH show ?case by (meson le_less_trans less_le_trans order_trans trancl.trancl_into_trancl less_imp_le)
  qed
  then show ?thesis using assms(2) unfolding acyclic_def by blast
qed

section \<open>What renaming operations guarantees\<close>

text \<open>The traversal changes only the request texts.\<close>

lemma traverseNode_items: "tree_items (traverseNode t) = map (\<lambda>it. case Fetch it of
    SingleFetch c d i \<Rightarrow> it\<lparr>Fetch := SingleFetch (traverseSingleFetch d c) d i\<rparr> | _ \<Rightarrow> it) (tree_items t)"
proof (induction t)
  case (Single it)
  then show ?case by (cases "Fetch it") auto
next
  case (Sequence ts)
  then show ?case by (simp add: map_concat comp_def cong: map_cong)
next
  case (Parallel ts)
  then show ?case by (simp add: map_concat comp_def cong: map_cong)
qed simp

lemma traverseNode_ids: "tree_ids (traverseNode t) = tree_ids t"
  unfolding tree_ids_def traverseNode_items map_map
  by (intro map_cong refl) (simp add: item_id_def split: Fetch.split)

end
