(* ===== verification/Defer_Tree.thy ===== *)
theory Defer_Tree
  imports Fetch_Flat
begin

text \<open>
  Deferred fetches: splitting the flat tree into the initial response and one group per
  \<open>@defer\<close> (\<open>v2/pkg/engine/postprocess/extract_defer_fetches.go\<close>), ordering the groups into a
  tree that runs a parent before its children (\<open>build_defer_tree.go\<close>), and pruning the tree of
  the defers whose anchor is gone (\<open>v2/pkg/engine/resolve/defer_tree.go\<close>). A Go map with slices as
  values is a function with \<open>[]\<close> for absent keys, together with the list of its keys where the
  code ranges over them.
\<close>

section \<open>Data\<close>

record 'v DeferFetchGroup =
  GroupDeferID :: int
  GroupFetches :: "'v FetchTreeNode"

record DeferDescriptor =
  DescriptorID :: int
  ParentID :: int
  Label :: string
  DescriptorPath :: "string list"

datatype 'v DeferTreeNode =
  DeferSingleNode "'v DeferFetchGroup option"
| DeferSequenceNode "'v DeferTreeNode list"
| DeferParallelNode "'v DeferTreeNode list"

definition DeferSingle :: "'v DeferFetchGroup \<Rightarrow> 'v DeferTreeNode" where
  "DeferSingle g = DeferSingleNode (Some g)"

definition DeferSequence :: "'v DeferTreeNode list \<Rightarrow> 'v DeferTreeNode" where
  "DeferSequence children = DeferSequenceNode children"

definition DeferParallel :: "'v DeferTreeNode list \<Rightarrow> 'v DeferTreeNode" where
  "DeferParallel children = DeferParallelNode children"

record 'v GraphQLDeferResponse =
  Response :: "'v GraphQLResponse"
  Defers :: "'v DeferFetchGroup list"
  DeferDescriptors :: "int \<rightharpoonup> DeferDescriptor"
  DeferTree :: "'v DeferTreeNode option"

section \<open>Splitting the fetches\<close>

text \<open>\<open>None\<close> is the panic on a node without an item.\<close>

fun fetchGroups ::
  "'v FetchTreeNode list \<Rightarrow> 'v FetchTreeNode list \<Rightarrow> int list \<Rightarrow> (int \<Rightarrow> 'v FetchTreeNode list) \<Rightarrow>
   ('v FetchTreeNode list \<times> int list \<times> (int \<Rightarrow> 'v FetchTreeNode list)) option" where
  "fetchGroups [] root keys groups = Some (root, keys, groups)"
| "fetchGroups (fetch # rest) root keys groups =
     (case node_item fetch of
        None \<Rightarrow> None
      | Some it \<Rightarrow>
          (let deferID = DeferID (Dependencies (Fetch it)) in
           if deferID = 0 then fetchGroups rest (root @ [fetch]) keys groups
           else fetchGroups rest root (List.insert deferID keys) (groups(deferID := groups deferID @ [fetch]))))"

definition extractDeferFetches_Process :: "bool \<Rightarrow> 'v GraphQLDeferResponse \<Rightarrow> 'v GraphQLDeferResponse option" where
  "extractDeferFetches_Process disable resp =
     (if disable then Some resp
      else (case Fetches (Response resp) of
          None \<Rightarrow> None
        | Some tree \<Rightarrow>
            (case fetchGroups (ChildNodes tree) [] [] (\<lambda>k. []) of
               None \<Rightarrow> None
             | Some (root, keys, groups) \<Rightarrow>
                 Some (resp\<lparr>Response := (Response resp)\<lparr>Fetches := Some (Sequence root)\<rparr>,
                   Defers := Defers resp @
                     map (\<lambda>deferID. \<lparr>GroupDeferID = deferID, GroupFetches = Sequence (groups deferID)\<rparr>) (sort keys)\<rparr>))))"

section \<open>Building the tree\<close>

definition childrenOf_map :: "(int \<rightharpoonup> DeferDescriptor) \<Rightarrow> 'v DeferFetchGroup list \<Rightarrow> int \<Rightarrow> 'v DeferFetchGroup list" where
  "childrenOf_map descs groups =
     foldl (\<lambda>m g. case descs (GroupDeferID g) of
                None \<Rightarrow> m
              | Some desc \<Rightarrow> m(ParentID desc := m (ParentID desc) @ [g])) (\<lambda>k. []) groups"

definition sorted_children :: "(int \<rightharpoonup> DeferDescriptor) \<Rightarrow> 'v DeferFetchGroup list \<Rightarrow> int \<Rightarrow> 'v DeferFetchGroup list" where
  "sorted_children descs groups k = sort_key GroupDeferID (childrenOf_map descs groups k)"

fun all_some :: "'a option list \<Rightarrow> 'a list option" where
  "all_some [] = Some []"
| "all_some (None # xs) = None"
| "all_some (Some x # xs) = map_option ((#) x) (all_some xs)"

text \<open>The recursion on the children of a group, with fuel; \<open>None\<close> when it does not suffice.\<close>

fun buildChain :: "nat \<Rightarrow> 'v DeferFetchGroup \<Rightarrow> (int \<Rightarrow> 'v DeferFetchGroup list) \<Rightarrow> 'v DeferTreeNode option" where
  "buildChain 0 g childrenOf = None"
| "buildChain (Suc n) g childrenOf =
     (let single = DeferSingle g; children = childrenOf (GroupDeferID g) in
      if children = [] then Some single
      else (case all_some (map (\<lambda>child. buildChain n child childrenOf) children) of
          None \<Rightarrow> None
        | Some childNodes \<Rightarrow>
            (let subtree = (if length childNodes = 1 then hd childNodes else DeferParallel childNodes)
             in Some (DeferSequence [single, subtree]))))"

definition buildDeferTree_Process :: "bool \<Rightarrow> 'v GraphQLDeferResponse \<Rightarrow> 'v GraphQLDeferResponse option" where
  "buildDeferTree_Process disable response =
     (if disable \<or> Defers response = [] then Some response
      else (let childrenOf = sorted_children (DeferDescriptors response) (Defers response);
                fuel = Suc (length (Defers response)); roots = childrenOf 0 in
        if roots = [] then Some response
        else if length roots = 1
        then map_option (\<lambda>t. response\<lparr>DeferTree := Some t\<rparr>) (buildChain fuel (hd roots) childrenOf)
        else map_option (\<lambda>branches. response\<lparr>DeferTree := Some (DeferParallel branches)\<rparr>)
               (all_some (map (\<lambda>root. buildChain fuel root childrenOf) roots))))"

section \<open>Pruning the tree\<close>

fun topDeferID :: "'v DeferTreeNode \<Rightarrow> int option" where
  "topDeferID (DeferSingleNode item) = map_option GroupDeferID item"
| "topDeferID (DeferSequenceNode []) = None"
| "topDeferID (DeferSequenceNode (c # cs)) = topDeferID c"
| "topDeferID (DeferParallelNode cs) = None"

definition keep_live :: "(int \<rightharpoonup> DeferDescriptor) \<Rightarrow> 'v DeferTreeNode \<Rightarrow> 'v DeferTreeNode option" where
  "keep_live liveTop node =
     (case topDeferID node of None \<Rightarrow> None | Some i \<Rightarrow> if liveTop i \<noteq> None then Some node else None)"

lemma map_filter_cong [fundef_cong]:
  "xs = ys \<Longrightarrow> (\<And>x. x \<in> set ys \<Longrightarrow> f x = g x) \<Longrightarrow> List.map_filter f xs = List.map_filter g ys"
  unfolding List.map_filter_def by (auto intro!: map_cong filter_cong)

fun pruneDeadDefers :: "(int \<rightharpoonup> DeferDescriptor) \<Rightarrow> 'v DeferTreeNode \<Rightarrow> 'v DeferTreeNode option" where
  "pruneDeadDefers liveTop (DeferParallelNode cs) =
     (let kept = List.map_filter (pruneDeadDefers liveTop) cs in
      if kept = [] then None else Some (DeferParallelNode kept))"
| "pruneDeadDefers liveTop (DeferSequenceNode cs) = keep_live liveTop (DeferSequenceNode cs)"
| "pruneDeadDefers liveTop (DeferSingleNode item) = keep_live liveTop (DeferSingleNode item)"

section \<open>Splitting keeps every fetch\<close>

definition node_defer :: "'v FetchTreeNode \<Rightarrow> int" where
  "node_defer n = (case node_item n of None \<Rightarrow> 0 | Some it \<Rightarrow> DeferID (Dependencies (Fetch it)))"

lemma fetchGroups_spec:
  "list_all (\<lambda>n. node_item n \<noteq> None) ns \<Longrightarrow> distinct keys \<Longrightarrow>
   \<exists>keys' groups'. fetchGroups ns root keys groups = Some (root @ filter (\<lambda>n. node_defer n = 0) ns, keys', groups') \<and>
     distinct keys' \<and> set keys' = set keys \<union> (node_defer ` set ns - {0}) \<and>
     (\<forall>k. k \<noteq> 0 \<longrightarrow> groups' k = groups k @ filter (\<lambda>n. node_defer n = k) ns)"
proof (induction ns arbitrary: root keys groups)
  case Nil
  then show ?case by simp
next
  case (Cons n ns)
  then obtain it where it: "node_item n = Some it" by auto
  show ?case
  proof (cases "node_defer n = 0")
    case True
    then have "DeferID (Dependencies (Fetch it)) = 0" using it by (simp add: node_defer_def)
    with Cons.IH [of keys "root @ [n]" groups] Cons.prems it True show ?thesis by (auto simp: Let_def)
  next
    case False
    let ?d = "node_defer n"
    have d: "DeferID (Dependencies (Fetch it)) = ?d" using it by (simp add: node_defer_def)
    obtain keys' groups' where r: "fetchGroups ns root (List.insert ?d keys) (groups(?d := groups ?d @ [n])) =
        Some (root @ filter (\<lambda>n. node_defer n = 0) ns, keys', groups')" "distinct keys'"
      "set keys' = set (List.insert ?d keys) \<union> (node_defer ` set ns - {0})"
      "\<forall>k. k \<noteq> 0 \<longrightarrow> groups' k = (groups(?d := groups ?d @ [n])) k @ filter (\<lambda>n. node_defer n = k) ns"
      using Cons.IH [OF _ distinct_list_insert [OF Cons.prems(2)], of root ?d "groups(?d := groups ?d @ [n])"] Cons.prems(1)
      unfolding list.pred_inject by blast
    then show ?thesis using it d False by (auto simp: Let_def)
  qed
qed

lemma extract_spec:
  assumes "Fetches (Response resp) = Some (Sequence ns)" "list_all (\<lambda>n. node_item n \<noteq> None) ns" "Defers resp = []"
  obtains resp' where "extractDeferFetches_Process False resp = Some resp'"
    "Fetches (Response resp') = Some (Sequence (filter (\<lambda>n. node_defer n = 0) ns))"
    "Defers resp' = map (\<lambda>k. \<lparr>GroupDeferID = k, GroupFetches = Sequence (filter (\<lambda>n. node_defer n = k) ns)\<rparr>)
       (sorted_list_of_set (node_defer ` set ns - {0}))"
    "DeferDescriptors resp' = DeferDescriptors resp"
proof -
  obtain keys groups where f: "fetchGroups ns [] [] (\<lambda>k. []) = Some ([] @ filter (\<lambda>n. node_defer n = 0) ns, keys, groups)"
    "distinct keys" "set keys = set [] \<union> (node_defer ` set ns - {0})"
    "\<forall>k. k \<noteq> 0 \<longrightarrow> groups k = [] @ filter (\<lambda>n. node_defer n = k) ns"
    using fetchGroups_spec [OF assms(2), of "[]" "[]" "\<lambda>k. []"] by auto
  have keys: "sort keys = sorted_list_of_set (node_defer ` set ns - {0})"
    using f(2,3) sorted_list_of_set_sort_remdups [of keys] by (simp add: distinct_remdups_id)
  have "map (\<lambda>k. \<lparr>GroupDeferID = k, GroupFetches = Sequence (groups k)\<rparr>) (sort keys) =
      map (\<lambda>k. \<lparr>GroupDeferID = k, GroupFetches = Sequence (filter (\<lambda>n. node_defer n = k) ns)\<rparr>) (sort keys)"
    using f(3,4) by (intro map_cong) auto
  then show thesis
    using that assms f(1) keys by (simp add: extractDeferFetches_Process_def)
qed

section \<open>The forest of defers\<close>

text \<open>
  \<open>defer_parent\<close> is the parent of a group that has a descriptor, 0 for a top-level one; a defer is
  rooted when its chain of parents ends at 0, at the depth of that chain.
\<close>

definition group_ids :: "'v DeferFetchGroup list \<Rightarrow> int list" where
  "group_ids gs = map GroupDeferID gs"

definition defer_parent :: "(int \<rightharpoonup> DeferDescriptor) \<Rightarrow> 'v DeferFetchGroup list \<Rightarrow> int \<Rightarrow> int option" where
  "defer_parent descs gs i = (if i \<in> set (group_ids gs) then map_option ParentID (descs i) else None)"

inductive rooted :: "(int \<Rightarrow> int option) \<Rightarrow> int \<Rightarrow> nat \<Rightarrow> bool" for par where
  top: "par i = Some 0 \<Longrightarrow> rooted par i 0"
| nested: "par i = Some p \<Longrightarrow> p \<noteq> 0 \<Longrightarrow> rooted par p n \<Longrightarrow> rooted par i (Suc n)"

inductive_cases rooted_0E: "rooted par i 0"
inductive_cases rooted_SucE: "rooted par i (Suc n)"

definition below :: "(int \<Rightarrow> int option) \<Rightarrow> (int \<times> int) set" where
  "below par = {(p, c). par c = Some p}"

lemma rooted_unique: "rooted par i n \<Longrightarrow> rooted par i m \<Longrightarrow> m = n"
proof (induction arbitrary: m rule: rooted.induct)
  case (top i)
  from top(2) show ?case by cases (use top(1) in auto)
next
  case (nested i p n)
  show ?case
  proof (cases m)
    case 0
    with nested.prems nested.hyps show ?thesis by (auto elim: rooted_0E)
  next
    case (Suc k)
    with nested.prems nested.hyps(1) have "rooted par p k" by (auto elim: rooted_SucE)
    from nested.IH [OF this] Suc show ?thesis by simp
  qed
qed

lemma rooted_bound:
  assumes "rooted par i n" "\<forall>i. par i \<noteq> None \<longrightarrow> i \<in> A" "finite A"
  shows "n < card A"
proof -
  have "\<exists>S. finite S \<and> S \<subseteq> A \<and> card S = Suc n \<and> (\<forall>x \<in> S. \<exists>k \<le> n. rooted par x k)"
    using assms(1)
  proof induction
    case (top i)
    with assms(2) show ?case by (intro exI [of _ "{i}"]) (auto intro: rooted.top)
  next
    case (nested i p n)
    then obtain S where S: "finite S" "S \<subseteq> A" "card S = Suc n" "\<forall>x \<in> S. \<exists>k \<le> n. rooted par x k" by blast
    have i: "rooted par i (Suc n)" using nested.hyps by (intro rooted.nested)
    then have "i \<notin> S" using S(4) rooted_unique [OF i] by fastforce
    moreover have "i \<in> A" using nested.hyps(1) assms(2) by simp
    ultimately show ?case using S i by (intro exI [of _ "insert i S"]) (auto, metis le_SucI)
  qed
  then show ?thesis using assms(3) by (metis card_mono Suc_le_lessD)
qed

lemma rooted_below:
  assumes "rooted par x n" "(x, y) \<in> below par ^^ k" "\<forall>i. par i \<noteq> None \<longrightarrow> i \<noteq> 0"
  shows "rooted par y (n + k)"
  using assms(2)
proof (induction k arbitrary: y)
  case (Suc k)
  then obtain z where z: "(x, z) \<in> below par ^^ k" "par y = Some z" by (auto simp: below_def)
  then have "rooted par z (n + k)" using Suc.IH by blast
  moreover then have "z \<noteq> 0" using assms(3) by cases auto
  ultimately show ?case using z(2) by (auto intro: rooted.nested)
qed (simp add: assms(1))

lemma below_unique: "(a, y) \<in> below par ^^ k \<Longrightarrow> (b, y) \<in> below par ^^ k \<Longrightarrow> a = b"
proof (induction k arbitrary: y)
  case (Suc k)
  then show ?case by (auto simp: below_def)
qed simp

text \<open>Defers of the same depth have no common descendant.\<close>

lemma below_same_depth:
  assumes "rooted par a n" "rooted par b n" "(a, y) \<in> (below par)\<^sup>*" "(b, y) \<in> (below par)\<^sup>*" "\<forall>i. par i \<noteq> None \<longrightarrow> i \<noteq> 0"
  shows "a = b"
proof -
  obtain k m where km: "(a, y) \<in> below par ^^ k" "(b, y) \<in> below par ^^ m" using assms(3,4) by (auto simp: rtrancl_power)
  have "n + k = n + m"
    using rooted_unique rooted_below [OF assms(1) km(1) assms(5)] rooted_below [OF assms(2) km(2) assms(5)] by metis
  with km show ?thesis using below_unique by auto
qed

lemma below_deeper:
  assumes "rooted par a (Suc n)" "(a, y) \<in> (below par)\<^sup>*" "\<forall>i. par i \<noteq> None \<longrightarrow> i \<noteq> 0" "rooted par y n"
  shows False
proof -
  obtain k where "(a, y) \<in> below par ^^ k" using assms(2) by (auto simp: rtrancl_power)
  from rooted_unique [OF assms(4) rooted_below [OF assms(1) this assms(3)]] show False by simp
qed

section \<open>What the tree means\<close>

fun tree_defers :: "'v DeferTreeNode \<Rightarrow> int list" where
  "tree_defers (DeferSingleNode item) = (case item of None \<Rightarrow> [] | Some g \<Rightarrow> [GroupDeferID g])"
| "tree_defers (DeferSequenceNode cs) = concat (map tree_defers cs)"
| "tree_defers (DeferParallelNode cs) = concat (map tree_defers cs)"

fun in_order :: "'a \<Rightarrow> 'a \<Rightarrow> 'a list list \<Rightarrow> bool" where
  "in_order a b [] = False"
| "in_order a b (xs # xss) = (a \<in> set xs \<and> b \<in> set (concat xss) \<or> in_order a b xss)"

text \<open>\<open>runs_before a b t\<close>: some sequence of \<open>t\<close> has \<open>a\<close> in an earlier part than \<open>b\<close>.\<close>

fun runs_before :: "int \<Rightarrow> int \<Rightarrow> 'v DeferTreeNode \<Rightarrow> bool" where
  "runs_before a b (DeferSingleNode item) = False"
| "runs_before a b (DeferSequenceNode cs) = (in_order a b (map tree_defers cs) \<or> list_ex (runs_before a b) cs)"
| "runs_before a b (DeferParallelNode cs) = list_ex (runs_before a b) cs"

lemma all_some_map:
  "(\<And>x. x \<in> set xs \<Longrightarrow> f x = Some (g x)) \<Longrightarrow> all_some (map f xs) = Some (map g xs)"
  by (induction xs) auto

definition forest :: "'v DeferFetchGroup list \<Rightarrow> (int \<Rightarrow> 'v DeferFetchGroup list) \<Rightarrow> (int \<Rightarrow> int option) \<Rightarrow> bool" where
  "forest gs children par \<longleftrightarrow> distinct (group_ids gs) \<and> 0 \<notin> set (group_ids gs) \<and>
     (\<forall>i. par i \<noteq> None \<longrightarrow> i \<in> set (group_ids gs)) \<and>
     (\<forall>k. distinct (group_ids (children k)) \<and> set (group_ids (children k)) = {i. par i = Some k})"

text \<open>\<open>chain_ok\<close>: the subtree of a group runs all its descendants once, each after its parent.\<close>

definition chain_ok :: "(int \<Rightarrow> int option) \<Rightarrow> int \<Rightarrow> 'v DeferTreeNode \<Rightarrow> bool" where
  "chain_ok par i t \<longleftrightarrow> set (tree_defers t) = {y. (i, y) \<in> (below par)\<^sup>*} \<and> distinct (tree_defers t) \<and>
     (\<forall>y \<in> set (tree_defers t). \<forall>p. y \<noteq> i \<longrightarrow> par y = Some p \<longrightarrow> runs_before p y t) \<and> topDeferID t = Some i"

lemma distinct_siblings:
  assumes "forest gs children par" "\<forall>c \<in> set cs. rooted par (GroupDeferID c) n" "distinct (group_ids cs)"
    and "\<forall>c \<in> set cs. chain_ok par (GroupDeferID c) (f c)"
  shows "distinct (concat (map (tree_defers \<circ> f) cs))"
  using assms(2,3,4)
proof (induction cs)
  case (Cons c cs)
  have z: "\<forall>i. par i \<noteq> None \<longrightarrow> i \<noteq> 0" using assms(1) unfolding forest_def by metis
  have "set (tree_defers (f c)) \<inter> set (tree_defers (f c')) = {}" if c': "c' \<in> set cs" for c'
  proof -
    have "GroupDeferID c \<noteq> GroupDeferID c'" using Cons.prems(2) c' by (auto simp: group_ids_def)
    then show ?thesis
      using Cons.prems(1,3) c' below_same_depth [OF _ _ _ _ z, of "GroupDeferID c" n "GroupDeferID c'"]
      by (auto simp: chain_ok_def)
  qed
  moreover have "distinct (tree_defers (f c))" using Cons.prems(3) by (auto simp: chain_ok_def)
  ultimately show ?case using Cons.IH Cons.prems by (auto simp: group_ids_def)
qed simp

lemma forest_child: "forest gs children par \<Longrightarrow> c \<in> set (children i) \<Longrightarrow> par (GroupDeferID c) = Some i"
proof -
  assume "forest gs children par" and c: "c \<in> set (children i)"
  then have "set (group_ids (children i)) = {c. par c = Some i}" unfolding forest_def by blast
  then have "GroupDeferID c \<in> {c. par c = Some i}" using c by (metis group_ids_def image_eqI list.set_map)
  then show "par (GroupDeferID c) = Some i" by simp
qed

lemma forest_parent: "forest gs children par \<Longrightarrow> par y = Some i \<Longrightarrow> \<exists>c \<in> set (children i). GroupDeferID c = y"
proof -
  assume "forest gs children par" "par y = Some i"
  then have "y \<in> set (group_ids (children i))" unfolding forest_def by blast
  then show "\<exists>c \<in> set (children i). GroupDeferID c = y" by (auto simp: group_ids_def)
qed

lemma forest_top: "forest gs children par \<Longrightarrow> c \<in> set (children 0) \<Longrightarrow> rooted par (GroupDeferID c) 0"
  by (rule rooted.top) (rule forest_child)

lemma below_children:
  assumes "forest gs children par"
  shows "{y. (i, y) \<in> (below par)\<^sup>*} = insert i (\<Union>c \<in> set (children i). {y. (GroupDeferID c, y) \<in> (below par)\<^sup>*})"
proof (intro set_eqI iffI)
  fix y assume "y \<in> {y. (i, y) \<in> (below par)\<^sup>*}"
  then have "(i, y) \<in> (below par)\<^sup>*" by simp
  then show "y \<in> insert i (\<Union>c \<in> set (children i). {y. (GroupDeferID c, y) \<in> (below par)\<^sup>*})"
  proof (cases rule: converse_rtranclE)
    case (step z)
    then have "par z = Some i" by (simp add: below_def)
    then obtain c where "c \<in> set (children i)" "GroupDeferID c = z" using forest_parent [OF assms] by blast
    with step show ?thesis by auto
  qed simp
next
  fix y assume "y \<in> insert i (\<Union>c \<in> set (children i). {y. (GroupDeferID c, y) \<in> (below par)\<^sup>*})"
  then consider "y = i" | c where "c \<in> set (children i)" "(GroupDeferID c, y) \<in> (below par)\<^sup>*" by auto
  then show "y \<in> {y. (i, y) \<in> (below par)\<^sup>*}"
  proof cases
    case 2
    then have "(i, GroupDeferID c) \<in> below par" using forest_child [OF assms] by (simp add: below_def)
    with 2 show ?thesis by (auto intro: converse_rtrancl_into_rtrancl)
  qed simp
qed

lemma chain_ok_node:
  assumes f: "forest gs children par" and d: "rooted par (GroupDeferID g) n" and ne: "children (GroupDeferID g) \<noteq> []"
    and ch: "\<forall>c \<in> set (children (GroupDeferID g)). rooted par (GroupDeferID c) (Suc n) \<and> chain_ok par (GroupDeferID c) (h c)"
  defines "ts \<equiv> map h (children (GroupDeferID g))"
  shows "chain_ok par (GroupDeferID g) (DeferSequence [DeferSingle g, if length ts = 1 then hd ts else DeferParallel ts])"
proof -
  let ?i = "GroupDeferID g" and ?cs = "children (GroupDeferID g)"
  let ?sub = "if length ts = 1 then hd ts else DeferParallel ts"
  have z: "\<forall>i. par i \<noteq> None \<longrightarrow> i \<noteq> 0" using f unfolding forest_def by metis
  have sub: "tree_defers ?sub = concat (map (tree_defers \<circ> h) ?cs)"
    and lift: "c \<in> set ?cs \<Longrightarrow> runs_before a b (h c) \<Longrightarrow> runs_before a b ?sub" for a b c
    using ne by (cases ?cs; cases "tl ?cs"; auto simp: ts_def DeferParallel_def list_ex_iff)+
  have ids: "tree_defers (DeferSequence [DeferSingle g, ?sub]) = ?i # concat (map (tree_defers \<circ> h) ?cs)"
    using sub by (simp add: DeferSequence_def DeferSingle_def)
  have set: "set (tree_defers (DeferSequence [DeferSingle g, ?sub])) = {y. (?i, y) \<in> (below par)\<^sup>*}"
    unfolding ids by (subst below_children [OF f]) (use ch in \<open>auto simp: chain_ok_def\<close>)
  have "distinct (concat (map (tree_defers \<circ> h) ?cs))"
    by (rule distinct_siblings [OF f, of _ "Suc n"]) (use ch f in \<open>auto simp: forest_def\<close>)
  moreover have "?i \<notin> set (concat (map (tree_defers \<circ> h) ?cs))"
    using ch below_deeper [OF _ _ z d] by (fastforce simp: chain_ok_def)
  ultimately have dist: "distinct (tree_defers (DeferSequence [DeferSingle g, ?sub]))" unfolding ids by simp
  have "runs_before p y (DeferSequence [DeferSingle g, ?sub])"
    if y: "y \<in> set (tree_defers (DeferSequence [DeferSingle g, ?sub]))" "y \<noteq> ?i" "par y = Some p" for y p
  proof -
    obtain c where c: "c \<in> set ?cs" "y \<in> set (tree_defers (h c))" using y(1,2) unfolding ids by auto
    show ?thesis
    proof (cases "y = GroupDeferID c")
      case True
      then have "p = ?i" using y(3) forest_child [OF f c(1)] by simp
      moreover have "y \<in> set (tree_defers ?sub)" unfolding sub using c by auto
      ultimately show ?thesis by (simp add: DeferSequence_def DeferSingle_def)
    next
      case False
      then have "runs_before p y (h c)" using ch c y(3) by (auto simp: chain_ok_def)
      then show ?thesis using lift [OF c(1)] by (simp add: DeferSequence_def)
    qed
  qed
  moreover have "topDeferID (DeferSequence [DeferSingle g, ?sub]) = Some ?i" by (simp add: DeferSequence_def DeferSingle_def)
  ultimately show ?thesis unfolding chain_ok_def using set dist by blast
qed

lemma buildChain_ok:
  assumes f: "forest gs children par"
  shows "rooted par (GroupDeferID g) d \<Longrightarrow> length gs < n + d \<Longrightarrow> \<exists>t. buildChain n g children = Some t \<and> chain_ok par (GroupDeferID g) t"
proof (induction n arbitrary: g d)
  case 0
  have "card (set (group_ids gs)) \<le> length gs" using card_length [of "group_ids gs"] by (simp add: group_ids_def)
  with 0 rooted_bound [OF 0(1), of "set (group_ids gs)"] f show ?case unfolding forest_def by force
next
  case (Suc n)
  let ?cs = "children (GroupDeferID g)"
  have nz: "GroupDeferID g \<noteq> 0" using Suc.prems(1) f unfolding forest_def by cases force+
  have r: "rooted par (GroupDeferID c) (Suc d)" if c: "c \<in> set ?cs" for c
    using forest_child [OF f c] nz Suc.prems(1) by (rule rooted.nested)
  show ?case
  proof (cases "?cs = []")
    case True
    then show ?thesis using below_children [OF f, of "GroupDeferID g"] by (simp add: chain_ok_def DeferSingle_def)
  next
    case False
    have "\<forall>c \<in> set ?cs. \<exists>t. buildChain n c children = Some t \<and> chain_ok par (GroupDeferID c) t"
      by (intro ballI Suc.IH [OF r]) (use Suc.prems(2) in auto)
    then obtain h where h: "\<forall>c \<in> set ?cs. buildChain n c children = Some (h c) \<and> chain_ok par (GroupDeferID c) (h c)" by metis
    then have "all_some (map (\<lambda>c. buildChain n c children) ?cs) = Some (map h ?cs)" by (intro all_some_map) auto
    then show ?thesis using chain_ok_node [OF f Suc.prems(1) False, of h] h r False by (simp add: Let_def)
  qed
qed

section \<open>The groups of a response form a forest\<close>

lemma childrenOf_map_filter:
  "childrenOf_map descs gs k = filter (\<lambda>g. map_option ParentID (descs (GroupDeferID g)) = Some k) gs"
proof -
  have "foldl (\<lambda>m g. case descs (GroupDeferID g) of None \<Rightarrow> m
      | Some desc \<Rightarrow> m(ParentID desc := m (ParentID desc) @ [g])) m gs k =
    m k @ filter (\<lambda>g. map_option ParentID (descs (GroupDeferID g)) = Some k) gs" for m
    by (induction gs arbitrary: m) (auto split: option.splits)
  then show ?thesis by (simp add: childrenOf_map_def)
qed

lemma forest_response:
  assumes "distinct (group_ids gs)" "0 \<notin> set (group_ids gs)"
  shows "forest gs (sorted_children descs gs) (defer_parent descs gs)"
proof -
  have "distinct (group_ids (sorted_children descs gs k))" for k
    using assms(1) by (auto simp: group_ids_def sorted_children_def childrenOf_map_filter distinct_map inj_on_def)
  moreover have "set (group_ids (sorted_children descs gs k)) = {i. defer_parent descs gs i = Some k}" for k
    by (auto simp: group_ids_def sorted_children_def childrenOf_map_filter defer_parent_def image_iff)
  ultimately show ?thesis using assms unfolding forest_def by (auto simp: defer_parent_def split: if_splits)
qed

text \<open>
  The rooted defers are those below the top-level ones.
\<close>

lemma rooted_iff_below:
  assumes "forest gs children par"
  shows "(\<exists>n. rooted par y n) \<longleftrightarrow> (\<exists>c \<in> set (children 0). (GroupDeferID c, y) \<in> (below par)\<^sup>*)"
proof
  assume "\<exists>n. rooted par y n"
  then obtain n where "rooted par y n" ..
  then show "\<exists>c \<in> set (children 0). (GroupDeferID c, y) \<in> (below par)\<^sup>*"
  proof induction
    case (top i)
    with forest_parent [OF assms] show ?case by auto
  next
    case (nested i p n)
    then have "(p, i) \<in> below par" by (simp add: below_def)
    with nested.IH show ?case by (meson rtrancl.rtrancl_into_rtrancl)
  qed
next
  assume "\<exists>c \<in> set (children 0). (GroupDeferID c, y) \<in> (below par)\<^sup>*"
  then obtain c k where c: "c \<in> set (children 0)" "(GroupDeferID c, y) \<in> below par ^^ k" by (auto simp: rtrancl_power)
  have z: "\<forall>i. par i \<noteq> None \<longrightarrow> i \<noteq> 0" using assms unfolding forest_def by metis
  from rooted_below [OF forest_top [OF assms c(1)] c(2) z] show "\<exists>n. rooted par y n" by blast
qed

text \<open>A branch per top-level defer, run in parallel.\<close>

definition tree_shape :: "(int \<Rightarrow> int option) \<Rightarrow> 'v DeferTreeNode \<Rightarrow> bool" where
  "tree_shape par t \<longleftrightarrow> (\<exists>tops bs. list_all2 (chain_ok par) tops bs \<and> set tops = {r. par r = Some 0} \<and> bs \<noteq> [] \<and>
     (t = DeferParallelNode bs \<or> bs = [t]))"

definition defer_tree_ok :: "(int \<Rightarrow> int option) \<Rightarrow> 'v DeferTreeNode \<Rightarrow> bool" where
  "defer_tree_ok par t \<longleftrightarrow> distinct (tree_defers t) \<and> set (tree_defers t) = {i. \<exists>n. rooted par i n} \<and>
     (\<forall>i p. par i = Some p \<longrightarrow> p \<noteq> 0 \<longrightarrow> i \<in> set (tree_defers t) \<longrightarrow> runs_before p i t)"

lemma tree_of_roots:
  assumes f: "forest gs children par" and ne: "children 0 \<noteq> []"
    and ch: "\<forall>c \<in> set (children 0). chain_ok par (GroupDeferID c) (h c)"
  defines "t \<equiv> (if length (children 0) = 1 then h (hd (children 0)) else DeferParallel (map h (children 0)))"
  shows "defer_tree_ok par t \<and> tree_shape par t"
proof -
  let ?t = "if length (children 0) = 1 then h (hd (children 0)) else DeferParallel (map h (children 0))"
  have ids: "tree_defers ?t = concat (map (tree_defers \<circ> h) (children 0))"
    and lift: "c \<in> set (children 0) \<Longrightarrow> runs_before a b (h c) \<Longrightarrow> runs_before a b ?t" for a b c
    using ne by (cases "children 0"; cases "tl (children 0)"; auto simp: DeferParallel_def list_ex_iff)+
  have r: "\<forall>c \<in> set (children 0). rooted par (GroupDeferID c) 0" using forest_top [OF f] by blast
  have "distinct (tree_defers ?t)"
    unfolding ids by (rule distinct_siblings [OF f r _ ch]) (use f in \<open>auto simp: forest_def\<close>)
  moreover have "set (tree_defers ?t) = {i. \<exists>n. rooted par i n}"
    unfolding ids using rooted_iff_below [OF f] ch by (auto simp: chain_ok_def)
  moreover have "runs_before p i ?t" if i: "i \<in> set (tree_defers ?t)" "par i = Some p" "p \<noteq> 0" for i p
  proof -
    obtain c where c: "c \<in> set (children 0)" "i \<in> set (tree_defers (h c))" using i(1) unfolding ids by auto
    have "i \<noteq> GroupDeferID c" using i(2,3) forest_child [OF f c(1)] by auto
    then have "runs_before p i (h c)" using ch c i(2) unfolding chain_ok_def by blast
    then show ?thesis by (rule lift [OF c(1)])
  qed
  ultimately have "defer_tree_ok par ?t" unfolding defer_tree_ok_def by blast
  moreover have "tree_shape par ?t"
    unfolding tree_shape_def
  proof (intro exI conjI)
    show "list_all2 (chain_ok par) (group_ids (children 0)) (map h (children 0))"
      using ch by (simp add: group_ids_def list_all2_conv_all_nth)
    show "set (group_ids (children 0)) = {r. par r = Some 0}" using f unfolding forest_def by blast
    show "?t = DeferParallelNode (map h (children 0)) \<or> map h (children 0) = [?t]"
      using ne by (cases "children 0"; cases "tl (children 0)") (auto simp: DeferParallel_def)
  qed (use ne in simp)
  ultimately show ?thesis unfolding t_def by blast
qed

lemma buildDeferTree_correct:
  assumes "distinct (group_ids (Defers resp))" "0 \<notin> set (group_ids (Defers resp))"
  defines "par \<equiv> defer_parent (DeferDescriptors resp) (Defers resp)"
  shows "\<exists>resp'. buildDeferTree_Process False resp = Some resp' \<and>
    (if \<exists>i n. rooted par i n then \<exists>t. DeferTree resp' = Some t \<and> defer_tree_ok par t \<and> tree_shape par t else resp' = resp)"
proof -
  let ?ch = "sorted_children (DeferDescriptors resp) (Defers resp)"
  have f: "forest (Defers resp) ?ch par" unfolding par_def by (rule forest_response [OF assms(1,2)])
  have roots: "?ch 0 \<noteq> [] \<longleftrightarrow> (\<exists>i n. rooted par i n)"
  proof
    assume "?ch 0 \<noteq> []"
    then have "hd (?ch 0) \<in> set (?ch 0)" by simp
    from forest_top [OF f this] show "\<exists>i n. rooted par i n" by blast
  next
    assume "\<exists>i n. rooted par i n"
    then show "?ch 0 \<noteq> []" using rooted_iff_below [OF f] by force
  qed
  show ?thesis
  proof (cases "?ch 0 = []")
    case True
    then show ?thesis using roots by (auto simp: buildDeferTree_Process_def Let_def)
  next
    case False
    then have ne: "Defers resp \<noteq> []" by (auto simp: sorted_children_def childrenOf_map_filter)
    have "\<exists>t. buildChain (Suc (length (Defers resp))) c ?ch = Some t \<and> chain_ok par (GroupDeferID c) t" if c: "c \<in> set (?ch 0)" for c
      using buildChain_ok [OF f forest_top [OF f c], of "Suc (length (Defers resp))"] by simp
    then obtain h where h: "\<forall>c \<in> set (?ch 0). buildChain (Suc (length (Defers resp))) c ?ch = Some (h c) \<and> chain_ok par (GroupDeferID c) (h c)"
      by metis
    then have "all_some (map (\<lambda>root. buildChain (Suc (length (Defers resp))) root ?ch) (?ch 0)) = Some (map h (?ch 0))"
      by (intro all_some_map) auto
    moreover have "hd (?ch 0) \<in> set (?ch 0)" using False by simp
    ultimately show ?thesis
      using tree_of_roots [OF f False, of h] h False ne roots
      by (auto simp: buildDeferTree_Process_def Let_def simp del: buildChain.simps split: if_splits)
  qed
qed

section \<open>Pruning keeps the defers below a live top-level defer\<close>

lemma prune_branch:
  "topDeferID t = Some i \<Longrightarrow> pruneDeadDefers live t = (if live i \<noteq> None then Some t else None)"
  by (cases t rule: topDeferID.cases) (auto simp: keep_live_def)

lemma kept_branches:
  "list_all2 (chain_ok par) tops bs \<Longrightarrow>
   List.map_filter (pruneDeadDefers live) bs = filter (\<lambda>b. live (the (topDeferID b)) \<noteq> None) bs"
proof (induction rule: list_all2_induct)
  case (Cons r tops b bs)
  then have "topDeferID b = Some r" by (simp add: chain_ok_def)
  with Cons prune_branch [of b r live] show ?case by (simp add: List.map_filter_simps)
qed (simp add: List.map_filter_simps)

definition live_defers :: "(int \<Rightarrow> int option) \<Rightarrow> (int \<rightharpoonup> DeferDescriptor) \<Rightarrow> int set" where
  "live_defers par live = {i. \<exists>r. par r = Some 0 \<and> live r \<noteq> None \<and> (r, i) \<in> (below par)\<^sup>*}"

lemma live_branches:
  assumes "list_all2 (chain_ok par) tops bs" "set tops = {r. par r = Some 0}"
  shows "set (concat (map tree_defers (filter (\<lambda>b. live (the (topDeferID b)) \<noteq> None) bs))) = live_defers par live"
proof -
  have "list_all2 (chain_ok par) tops bs \<Longrightarrow> set (concat (map tree_defers (filter (\<lambda>b. live (the (topDeferID b)) \<noteq> None) bs))) =
    {i. \<exists>r \<in> set tops. live r \<noteq> None \<and> (r, i) \<in> (below par)\<^sup>*}"
    by (induction rule: list_all2_induct) (auto simp: chain_ok_def)
  with assms show ?thesis unfolding live_defers_def by auto
qed

text \<open>
  Nothing is left exactly when no top-level defer is live; otherwise the tree has the defers below
  the live ones, still each after its parent.
\<close>

lemma prune_correct:
  assumes "tree_shape par t"
  shows "case pruneDeadDefers live t of
      None \<Rightarrow> live_defers par live = {}
    | Some t' \<Rightarrow> set (tree_defers t') = live_defers par live \<and>
        (\<forall>i p. par i = Some p \<longrightarrow> p \<noteq> 0 \<longrightarrow> i \<in> set (tree_defers t') \<longrightarrow> runs_before p i t')"
proof -
  obtain tops bs where s: "list_all2 (chain_ok par) tops bs" "set tops = {r. par r = Some 0}"
    and t: "t = DeferParallelNode bs \<or> bs = [t]" using assms unfolding tree_shape_def by blast
  let ?kept = "filter (\<lambda>b. live (the (topDeferID b)) \<noteq> None) bs"
  have run: "runs_before p i b" if b: "b \<in> set bs" "i \<in> set (tree_defers b)" "par i = Some p" "p \<noteq> 0" for b i p
  proof -
    obtain r where r: "r \<in> set tops" "chain_ok par r b" using s(1) b(1) by (metis in_set_conv_nth list_all2_conv_all_nth)
    then have "i \<noteq> r" using s(2) b by auto
    with r b show ?thesis unfolding chain_ok_def by blast
  qed
  show ?thesis
  proof (cases "t = DeferParallelNode bs")
    case True
    then have p: "pruneDeadDefers live t = (if ?kept = [] then None else Some (DeferParallelNode ?kept))"
      using kept_branches [OF s(1), of live] by (simp add: Let_def)
    show ?thesis
    proof (cases "?kept = []")
      case True
      then have "live_defers par live = {}" using live_branches [OF s, of live] by simp
      with True p show ?thesis by simp
    next
      case False
      have "set (tree_defers (DeferParallelNode ?kept)) = live_defers par live" using live_branches [OF s, of live] by simp
      moreover have "runs_before q i (DeferParallelNode ?kept)"
        if i: "par i = Some q" "q \<noteq> 0" "i \<in> set (tree_defers (DeferParallelNode ?kept))" for i q
        using i run by (auto simp: list_ex_iff)
      ultimately show ?thesis using p False by simp
    qed
  next
    case False
    then have bs: "bs = [t]" using t by blast
    then obtain r where r: "topDeferID t = Some r" using s(1) by (auto simp: list_all2_Cons2 chain_ok_def)
    show ?thesis using prune_branch [OF r, of live] live_branches [OF s, of live] run bs r by (auto split: if_splits)
  qed
qed

end
