(* ===== verification/Subscription_WS.thy ===== *)
theory Subscription_WS
  imports Fetch_Tree "HOL-Library.AList"
begin

text \<open>
  A websocket subscription connection: the client (\<open>execution/subscription/websocket/client.go\<close>),
  the \<open>graphql-transport-ws\<close> protocol handler (\<open>protocol_graphql_transport_ws.go\<close>), the
  operation registry (\<open>execution/subscription/context.go\<close>), the engine (\<open>engine.go\<close>) and
  the loop that drives them (\<open>handler.go\<close>, \<open>time_out.go\<close>).

  The handler functions are state transformers. The goroutines the code starts (timers, the
  heartbeat, one per operation) are part of the state, and \<open>ws_step\<close> interleaves their actions
  with the messages of the client; time passes arbitrarily, so a timer that runs may fire at any
  moment. What the code takes from outside is the record \<open>Environment\<close>: the results of
  \<open>encoding/json\<close>, the user's \<open>InitFunc\<close>, and the executors of the pool. Logging is left out.
\<close>

section \<open>Messages and events\<close>

record WSMessage =
  MsgId :: string
  MsgType :: string
  MsgPayload :: string

definition ConnectionInit :: string where "ConnectionInit = ''connection_init''"
definition ConnectionAck :: string where "ConnectionAck = ''connection_ack''"
definition Ping :: string where "Ping = ''ping''"
definition Pong :: string where "Pong = ''pong''"
definition Subscribe :: string where "Subscribe = ''subscribe''"
definition Next :: string where "Next = ''next''"
definition MsgError :: string where "MsgError = ''error''"
definition Complete :: string where "Complete = ''complete''"

definition HeartbeatPayload :: string where
  "HeartbeatPayload = [CHR ''{'', CHR 0x22] @ ''type'' @ [CHR 0x22, CHR '':'', CHR 0x22] @ ''heartbeat'' @ [CHR 0x22, CHR ''}'']"

lemmas message_types = ConnectionInit_def ConnectionAck_def Ping_def Pong_def Subscribe_def Next_def MsgError_def Complete_def

record SubscribePayload =
  SubOperationName :: string
  SubQuery :: string
  SubVariables :: string
  SubExtensions :: string

datatype EventType =
  EventTypeOnError | EventTypeOnSubscriptionData | EventTypeOnSubscriptionCompleted
| EventTypeOnNonSubscriptionExecutionResult | EventTypeOnConnectionTerminatedByClient
| EventTypeOnConnectionTerminatedByServer | EventTypeOnConnectionError | EventTypeOnConnectionOpened
| EventTypeOnDuplicatedSubscriberID

datatype ReadError = JsonSyntaxError | OtherReadError string

text \<open>
  An executor as the pool hands it out: the type of its operation and what the hook
  \<open>OnBeforeStart\<close> answers (\<open>None\<close> when there is no hook or no error).
\<close>

record Executor =
  OperationType_of :: OperationType
  OnBeforeStart :: "string option"

record Environment =
  unmarshal_message :: "string \<Rightarrow> (ReadError, WSMessage) result"
  unmarshal_payload :: "string \<Rightarrow> (string, SubscribePayload) result"
  marshal_request :: "SubscribePayload \<Rightarrow> (string, string) result"
  marshal_ok :: "WSMessage \<Rightarrow> bool"
  marshal_errors :: "string \<Rightarrow> string option"
  initFunc :: "(string \<Rightarrow> string option) option"
  pool_Get :: "string \<Rightarrow> (string, Executor) result"

section \<open>The websocket client\<close>

text \<open>
  The connection answers a write with success, with \<open>io.ErrClosedPipe\<close> or with another error.
\<close>

datatype Conn = ConnOk | ConnClosedPipe | ConnFails

datatype Frame = Text WSMessage | Close nat string

record Client =
  isClosedConnection :: bool
  clientConn :: Conn
  frames :: "Frame list"

definition NewClient :: Client where
  "NewClient = \<lparr>isClosedConnection = False, clientConn = ConnOk, frames = []\<rparr>"

definition IsConnected :: "Client \<Rightarrow> bool" where
  "IsConnected c \<longleftrightarrow> \<not> isClosedConnection c"

definition changeConnectionStateToClosed :: "Client \<Rightarrow> Client" where
  "changeConnectionStateToClosed c = c\<lparr>isClosedConnection := True\<rparr>"

text \<open>The errors are not told apart by the callers, which only log them.\<close>

definition WriteBytesToClient :: "WSMessage \<Rightarrow> Client \<Rightarrow> bool \<times> Client" where
  "WriteBytesToClient msg c =
     (if \<not> IsConnected c then (False, c)
      else (case clientConn c of
          ConnOk \<Rightarrow> (True, c\<lparr>frames := frames c @ [Text msg]\<rparr>)
        | ConnClosedPipe \<Rightarrow> (False, changeConnectionStateToClosed c)
        | ConnFails \<Rightarrow> (False, c)))"

text \<open>After \<open>Close\<close> the connection answers every write with an error.\<close>

definition Disconnect :: "Client \<Rightarrow> Client" where
  "Disconnect c = (changeConnectionStateToClosed c)\<lparr>clientConn := ConnClosedPipe\<rparr>"

definition DisconnectWithReason :: "nat \<Rightarrow> string \<Rightarrow> Client \<Rightarrow> Client" where
  "DisconnectWithReason code reason c =
     (case clientConn c of
        ConnOk \<Rightarrow> Disconnect (c\<lparr>frames := frames c @ [Close code reason]\<rparr>)
      | _ \<Rightarrow> c)"

datatype ReadResult = ReadData string | ReadEOF | ReadClosedError | ReadFailed
datatype ClientRead = GotBytes string | GotClosedConnection | GotError

definition ReadBytesFromClient :: "ReadResult \<Rightarrow> Client \<Rightarrow> ClientRead \<times> Client" where
  "ReadBytesFromClient r c =
     (if \<not> IsConnected c then (GotClosedConnection, c)
      else (case r of
          ReadData bytes \<Rightarrow> (GotBytes bytes, c)
        | ReadEOF \<Rightarrow> (GotClosedConnection, changeConnectionStateToClosed c)
        | ReadClosedError \<Rightarrow> (GotClosedConnection, changeConnectionStateToClosed c)
        | ReadFailed \<Rightarrow> (GotError, c)))"

section \<open>The message writer\<close>

definition writer_write :: "Environment \<Rightarrow> WSMessage \<Rightarrow> Client \<Rightarrow> Client" where
  "writer_write env msg c = (if marshal_ok env msg then snd (WriteBytesToClient msg c) else c)"

definition WriteConnectionAck :: "Environment \<Rightarrow> Client \<Rightarrow> Client" where
  "WriteConnectionAck env = writer_write env \<lparr>MsgId = [], MsgType = ConnectionAck, MsgPayload = []\<rparr>"

definition WritePing :: "Environment \<Rightarrow> string \<Rightarrow> Client \<Rightarrow> Client" where
  "WritePing env payload = writer_write env \<lparr>MsgId = [], MsgType = Ping, MsgPayload = payload\<rparr>"

definition WritePong :: "Environment \<Rightarrow> string \<Rightarrow> Client \<Rightarrow> Client" where
  "WritePong env payload = writer_write env \<lparr>MsgId = [], MsgType = Pong, MsgPayload = payload\<rparr>"

definition WriteNext :: "Environment \<Rightarrow> string \<Rightarrow> string \<Rightarrow> Client \<Rightarrow> Client" where
  "WriteNext env i executionResult = writer_write env \<lparr>MsgId = i, MsgType = Next, MsgPayload = executionResult\<rparr>"

definition WriteError :: "Environment \<Rightarrow> string \<Rightarrow> string \<Rightarrow> Client \<Rightarrow> Client" where
  "WriteError env i err c =
     (case marshal_errors env err of
        None \<Rightarrow> c
      | Some payload \<Rightarrow> writer_write env \<lparr>MsgId = i, MsgType = MsgError, MsgPayload = payload\<rparr> c)"

definition WriteComplete :: "Environment \<Rightarrow> string \<Rightarrow> Client \<Rightarrow> Client" where
  "WriteComplete env i = writer_write env \<lparr>MsgId = i, MsgType = Complete, MsgPayload = []\<rparr>"

definition HandleWriteEvent :: "Environment \<Rightarrow> string \<Rightarrow> string \<Rightarrow> string \<Rightarrow> string \<Rightarrow> Client \<Rightarrow> Client" where
  "HandleWriteEvent env messageType i data providedErr =
     (if messageType = Complete then WriteComplete env i
      else if messageType = Next then WriteNext env i data
      else if messageType = MsgError then WriteError env i providedErr
      else if messageType = ConnectionAck then WriteConnectionAck env
      else if messageType = Ping then WritePing env data
      else if messageType = Pong then WritePong env data
      else DisconnectWithReason 4400 (''invalid type '' @ [CHR 0x27] @ messageType @ [CHR 0x27]))"

section \<open>The registry of operations\<close>

text \<open>
  A context is a number; \<open>cancelledCtx\<close> are those whose cancel function has been called.
\<close>

record Registry =
  cancellations :: "(string \<times> nat) list"
  nextCtx :: nat
  cancelledCtx :: "nat list"

definition AddWithParent :: "string \<Rightarrow> Registry \<Rightarrow> nat option \<times> Registry" where
  "AddWithParent i sc =
     (if map_of (cancellations sc) i \<noteq> None then (None, sc)
      else (Some (nextCtx sc), sc\<lparr>cancellations := AList.update i (nextCtx sc) (cancellations sc), nextCtx := Suc (nextCtx sc)\<rparr>))"

definition Cancel :: "string \<Rightarrow> Registry \<Rightarrow> bool \<times> Registry" where
  "Cancel i sc =
     (case map_of (cancellations sc) i of
        None \<Rightarrow> (False, sc)
      | Some ctx \<Rightarrow> (True, sc\<lparr>cancelledCtx := ctx # cancelledCtx sc, cancellations := AList.delete i (cancellations sc)\<rparr>))"

definition CancelAll :: "Registry \<Rightarrow> Registry" where
  "CancelAll sc = sc\<lparr>cancelledCtx := map snd (cancellations sc) @ cancelledCtx sc\<rparr>"

definition Registry_Len :: "Registry \<Rightarrow> nat" where
  "Registry_Len sc = length (cancellations sc)"

section \<open>State of a connection\<close>

text \<open>
  \<open>connectionInitTimeOutCancel\<close> says that the cancel function is not nil. A timer goroutine is
  given by whether its context has been cancelled. An operation goroutine has the context it was
  started with, and what it still has to write before it ends.
\<close>

record TransportWSHandler =
  connectionInitialized :: bool
  heartbeatStarted :: bool
  connectionAcknowledged :: bool
  connectionInitTimerStarted :: bool
  connectionInitTimeOutCancel :: bool

datatype Phase = Executing | Writing "WSMessage list"

record Operation =
  OpId :: string
  OpCtx :: nat
  OpSubscription :: bool
  OpPhase :: Phase

record System =
  sysClient :: Client
  handler :: TransportWSHandler
  registry :: Registry
  initTimer :: "bool option"
  heartbeatRunning :: bool
  readTimers :: "bool list"
  isReadTimeOutTimerRunning :: bool
  handlerCancelled :: bool
  handlerRunning :: bool
  operations :: "Operation list"

definition new_system :: System where
  "new_system = \<lparr>sysClient = NewClient,
     handler = \<lparr>connectionInitialized = False, heartbeatStarted = False, connectionAcknowledged = False,
       connectionInitTimerStarted = False, connectionInitTimeOutCancel = False\<rparr>,
     registry = \<lparr>cancellations = [], nextCtx = 0, cancelledCtx = []\<rparr>, initTimer = None, heartbeatRunning = False,
     readTimers = [], isReadTimeOutTimerRunning = False, handlerCancelled = False, handlerRunning = True, operations = []\<rparr>"

definition closeConnectionWithReason :: "nat \<Rightarrow> string \<Rightarrow> System \<Rightarrow> System" where
  "closeConnectionWithReason code reason s = s\<lparr>sysClient := DisconnectWithReason code reason (sysClient s)\<rparr>"

definition write_event :: "Environment \<Rightarrow> string \<Rightarrow> string \<Rightarrow> string \<Rightarrow> string \<Rightarrow> System \<Rightarrow> System" where
  "write_event env messageType i data err s = s\<lparr>sysClient := HandleWriteEvent env messageType i data err (sysClient s)\<rparr>"

definition startConnectionInitTimer :: "System \<Rightarrow> System" where
  "startConnectionInitTimer s =
     (if connectionInitTimerStarted (handler s) then s
      else s\<lparr>handler := (handler s)\<lparr>connectionInitTimeOutCancel := True, connectionInitTimerStarted := True\<rparr>,
             initTimer := Some False\<rparr>)"

definition stopConnectionInitTimer :: "System \<Rightarrow> bool \<times> System" where
  "stopConnectionInitTimer s =
     (if \<not> connectionInitTimeOutCancel (handler s) then (False, s)
      else (True, s\<lparr>handler := (handler s)\<lparr>connectionInitTimeOutCancel := False\<rparr>,
                    initTimer := map_option (\<lambda>c. True) (initTimer s)\<rparr>))"

definition startHeartbeat :: "System \<Rightarrow> System" where
  "startHeartbeat s =
     (if heartbeatStarted (handler s) then s
      else s\<lparr>handler := (handler s)\<lparr>heartbeatStarted := True\<rparr>, heartbeatRunning := True\<rparr>)"

text \<open>
  \<open>Emit\<close> of the protocol's event handler. The two writes of a finished query are done by its
  goroutine, see \<open>ws_step\<close>; here they follow each other.
\<close>

definition Emit :: "Environment \<Rightarrow> EventType \<Rightarrow> string \<Rightarrow> string \<Rightarrow> string \<Rightarrow> System \<Rightarrow> System" where
  "Emit env eventType i data err s =
     (case eventType of
        EventTypeOnSubscriptionCompleted \<Rightarrow> write_event env Complete i data err s
      | EventTypeOnSubscriptionData \<Rightarrow> write_event env Next i data err s
      | EventTypeOnNonSubscriptionExecutionResult \<Rightarrow>
          write_event env Complete i data err (write_event env Next i data err s)
      | EventTypeOnError \<Rightarrow> write_event env MsgError i data err s
      | EventTypeOnConnectionOpened \<Rightarrow> startConnectionInitTimer s
      | EventTypeOnDuplicatedSubscriberID \<Rightarrow>
          closeConnectionWithReason 4409 (''Subscriber for '' @ i @ '' already exists'') s
      | _ \<Rightarrow> s)"

section \<open>The engine\<close>

datatype engine_error = PoolError string | OnBeforeStartHookFailure string | SubscriberIDAlreadyExists string

definition checkForDuplicateSubscriberID :: "Environment \<Rightarrow> string \<Rightarrow> System \<Rightarrow> (engine_error, nat) result \<times> System" where
  "checkForDuplicateSubscriberID env i s =
     (case AddWithParent i (registry s) of
        (None, sc) \<Rightarrow> (Inl (SubscriberIDAlreadyExists i), Emit env EventTypeOnDuplicatedSubscriberID i [] [] (s\<lparr>registry := sc\<rparr>))
      | (Some ctx, sc) \<Rightarrow> (Inr ctx, s\<lparr>registry := sc\<rparr>))"

definition StartOperation :: "Environment \<Rightarrow> string \<Rightarrow> string \<Rightarrow> System \<Rightarrow> engine_error option \<times> System" where
  "StartOperation env i payload s =
     (case pool_Get env payload of
        Inl e \<Rightarrow> (Some (PoolError e), s)
      | Inr executor \<Rightarrow>
          (case OnBeforeStart executor of
             Some e \<Rightarrow> (Some (OnBeforeStartHookFailure e), Emit env EventTypeOnError i [] e s)
           | None \<Rightarrow>
               (case checkForDuplicateSubscriberID env i s of
                  (Inl e, s') \<Rightarrow> (Some e, s')
                | (Inr ctx, s') \<Rightarrow>
                    (None, s'\<lparr>operations := operations s' @
                       [\<lparr>OpId = i, OpCtx = ctx, OpSubscription = (OperationType_of executor = OperationTypeSubscription),
                         OpPhase = Executing\<rparr>]\<rparr>))))"

definition StopSubscription :: "Environment \<Rightarrow> string \<Rightarrow> System \<Rightarrow> System" where
  "StopSubscription env i s =
     Emit env EventTypeOnSubscriptionCompleted i [] [] (s\<lparr>registry := snd (Cancel i (registry s))\<rparr>)"

text \<open>The loop ranges over the identifiers of the map while \<open>Cancel\<close> deletes them.\<close>

definition TerminateAllSubscriptions :: "Environment \<Rightarrow> System \<Rightarrow> System" where
  "TerminateAllSubscriptions env s =
     (if Registry_Len (registry s) = 0 then s
      else Emit env EventTypeOnConnectionTerminatedByServer [] ''connection terminated by server'' []
        (s\<lparr>registry := fold (\<lambda>i sc. snd (Cancel i sc)) (map fst (cancellations (registry s))) (registry s)\<rparr>))"

section \<open>The protocol handler\<close>

definition handleInit :: "Environment \<Rightarrow> string \<Rightarrow> System \<Rightarrow> string option \<times> System" where
  "handleInit env payload s =
     (if connectionInitialized (handler s)
      then (None, closeConnectionWithReason 4429 ''Too many initialisation requests'' s)
      else (case (if payload = [] then None else Option.bind (initFunc env) (\<lambda>f. f payload)) of
          Some e \<Rightarrow> (Some e, s)
        | None \<Rightarrow>
            (case stopConnectionInitTimer s of
               (True, s') \<Rightarrow> (None, (write_event env ConnectionAck [] [] [] s')\<lparr>handler := (handler s')\<lparr>connectionInitialized := True\<rparr>\<rparr>)
             | (False, s') \<Rightarrow> (None, (closeConnectionWithReason 1011 ''Internal Server Error'' s')
                   \<lparr>handler := (handler s')\<lparr>connectionInitialized := True\<rparr>\<rparr>))))"

definition handlePing :: "Environment \<Rightarrow> string \<Rightarrow> System \<Rightarrow> System" where
  "handlePing env payload = write_event env Pong [] payload []"

datatype handle_error = HandleInit string | HandleRead string | HandlePayload string | HandleMarshal string | HandleEngine engine_error

definition handleSubscribe :: "Environment \<Rightarrow> WSMessage \<Rightarrow> System \<Rightarrow> handle_error option \<times> System" where
  "handleSubscribe env message s =
     (if \<not> connectionInitialized (handler s) then (None, closeConnectionWithReason 4401 ''Unauthorized'' s)
      else (case unmarshal_payload env (MsgPayload message) of
          Inl e \<Rightarrow> (Some (HandlePayload e), s)
        | Inr p \<Rightarrow>
            (case marshal_request env p of
               Inl e \<Rightarrow> (Some (HandleMarshal e), s)
             | Inr bytes \<Rightarrow> (case StartOperation env (MsgId message) bytes s of (e, s') \<Rightarrow> (map_option HandleEngine e, s')))))"

definition Handle_message :: "Environment \<Rightarrow> WSMessage \<Rightarrow> System \<Rightarrow> handle_error option \<times> System" where
  "Handle_message env message s =
     (if MsgType message = ConnectionInit then
        (case handleInit env (MsgPayload message) s of
           (Some e, s') \<Rightarrow> (Some (HandleInit e), closeConnectionWithReason 4401 ''Unauthorized'' s')
         | (None, s') \<Rightarrow> (None, startHeartbeat s'))
      else if MsgType message = Ping then (None, handlePing env (MsgPayload message) s)
      else if MsgType message = Pong then (None, s)
      else if MsgType message = Subscribe then handleSubscribe env message s
      else if MsgType message = Complete then (None, StopSubscription env (MsgId message) s)
      else (None, closeConnectionWithReason 4400 (''Invalid type '' @ [CHR 0x27] @ MsgType message @ [CHR 0x27]) s))"

definition Protocol_Handle :: "Environment \<Rightarrow> string \<Rightarrow> System \<Rightarrow> handle_error option \<times> System" where
  "Protocol_Handle env data s =
     (let s1 = (if \<not> connectionAcknowledged (handler s) \<and> \<not> connectionInitTimerStarted (handler s)
                then startConnectionInitTimer s else s) in
      case unmarshal_message env data of
        Inl JsonSyntaxError \<Rightarrow> (None, closeConnectionWithReason 4400 ''JSON syntax error'' s1)
      | Inl (OtherReadError e) \<Rightarrow> (Some (HandleRead e), s1)
      | Inr message \<Rightarrow> Handle_message env message s1)"

section \<open>The driving loop\<close>

text \<open>What happens before the loop, and what the deferred function does when it is left.\<close>

definition Handle_begin :: "Environment \<Rightarrow> System \<Rightarrow> System" where
  "Handle_begin env s = Emit env EventTypeOnConnectionOpened [] [] [] s"

definition Handle_end :: "Environment \<Rightarrow> System \<Rightarrow> System" where
  "Handle_end env s = (TerminateAllSubscriptions env s)\<lparr>handlerCancelled := True, handlerRunning := False\<rparr>"

text \<open>\<open>cancel_last\<close>: the cancel function of the read timer started last.\<close>

definition cancel_last :: "bool list \<Rightarrow> bool list" where
  "cancel_last ts = (if ts = [] then [] else butlast ts @ [True])"

definition Handle_read :: "Environment \<Rightarrow> ReadResult \<Rightarrow> System \<Rightarrow> System" where
  "Handle_read env r s =
     (if \<not> IsConnected (sysClient s) then Handle_end env s
      else (case ReadBytesFromClient r (sysClient s) of
          (GotClosedConnection, c) \<Rightarrow> Handle_end env (s\<lparr>sysClient := c\<rparr>)
        | (GotError, c) \<Rightarrow>
            (let s1 = s\<lparr>sysClient := c\<rparr>;
                 s2 = (if isReadTimeOutTimerRunning s1 then s1
                       else s1\<lparr>readTimers := readTimers s1 @ [False], isReadTimeOutTimerRunning := True\<rparr>)
             in Emit env EventTypeOnConnectionError [] [] ''could not read message from client'' s2)
        | (GotBytes message, c) \<Rightarrow>
            (let s1 = s\<lparr>sysClient := c\<rparr>;
                 s2 = (if isReadTimeOutTimerRunning s1
                       then s1\<lparr>readTimers := cancel_last (readTimers s1), isReadTimeOutTimerRunning := False\<rparr> else s1)
             in if message \<noteq> [] then snd (Protocol_Handle env message s2) else s2)))"

definition Handle_iteration :: "Environment \<Rightarrow> ReadResult \<Rightarrow> System \<Rightarrow> System" where
  "Handle_iteration env r s =
     (let s' = Handle_read env r s in
      if handlerRunning s' \<and> handlerCancelled s' then Handle_end env s' else s')"

section \<open>Interleaving\<close>

definition ctx_done :: "System \<Rightarrow> Operation \<Rightarrow> bool" where
  "ctx_done s op \<longleftrightarrow> handlerCancelled s \<or> OpCtx op \<in> set (cancelledCtx (registry s))"

definition set_phase :: "nat \<Rightarrow> Phase \<Rightarrow> System \<Rightarrow> System" where
  "set_phase k ph s = s\<lparr>operations := (operations s)[k := (operations s ! k)\<lparr>OpPhase := ph\<rparr>]\<rparr>"

definition end_operation :: "nat \<Rightarrow> System \<Rightarrow> System" where
  "end_operation k s = s\<lparr>operations := take k (operations s) @ drop (Suc k) (operations s)\<rparr>"

definition next_message :: "string \<Rightarrow> string \<Rightarrow> WSMessage" where
  "next_message i data = \<lparr>MsgId = i, MsgType = Next, MsgPayload = data\<rparr>"

definition complete_message :: "string \<Rightarrow> WSMessage" where
  "complete_message i = \<lparr>MsgId = i, MsgType = Complete, MsgPayload = []\<rparr>"

text \<open>
  One action of the environment (\<open>network\<close>), of the driving loop (\<open>message\<close>), of a timer, of
  the heartbeat, or of an operation: a subscription executes again and again, and emits data and
  errors, until its context is done; a query has one result, which it writes in two steps before
  the deferred \<open>Cancel\<close> of its identifier.

  A handler function of the loop is one step, and so is one write or one disconnection of another
  goroutine. The code's callers look at no result of a write or a disconnection, and only the loop
  changes the handler's fields and adds operations, so this fixes no more than how frames of
  different goroutines follow each other around a close frame, whose operations \<open>Client_Frames\<close>
  interleaves; no theorem about \<open>ws_step\<close> speaks of the place of a close frame. Likewise
  \<open>TerminateAllSubscriptions\<close> cancels one identifier after another without the registry's lock: a
  query that cancels its own in between only takes away what the loop would then not find.
\<close>

inductive ws_step :: "Environment \<Rightarrow> System \<Rightarrow> System \<Rightarrow> bool" for env where
  network: "ws_step env s (s\<lparr>sysClient := (sysClient s)\<lparr>clientConn := conn\<rparr>\<rparr>)"
    if "\<not> isClosedConnection (sysClient s)"
| message: "ws_step env s (Handle_iteration env r s)" if "handlerRunning s"
| init_timeout: "ws_step env s (closeConnectionWithReason 4408 ''Connection initialisation timeout'' (s\<lparr>initTimer := None\<rparr>))"
    if "initTimer s \<noteq> None"
| init_timer_stops: "ws_step env s (s\<lparr>initTimer := None\<rparr>)" if "initTimer s = Some True"
| read_timeout: "ws_step env s (s\<lparr>readTimers := take k (readTimers s) @ drop (Suc k) (readTimers s), handlerCancelled := True\<rparr>)"
    if "k < length (readTimers s)"
| heartbeat: "ws_step env s (write_event env Pong [] HeartbeatPayload [] s)" if "heartbeatRunning s"
| heartbeat_stops: "ws_step env s (s\<lparr>heartbeatRunning := False\<rparr>)" if "heartbeatRunning s" "handlerCancelled s"
| subscription_data: "ws_step env s (Emit env EventTypeOnSubscriptionData (OpId (operations s ! k)) data [] s)"
    if "k < length (operations s)" "OpSubscription (operations s ! k)"
| subscription_error: "ws_step env s (Emit env EventTypeOnError (OpId (operations s ! k)) [] err s)"
    if "k < length (operations s)" "OpSubscription (operations s ! k)"
| subscription_stops: "ws_step env s (end_operation k s)"
    if "k < length (operations s)" "OpSubscription (operations s ! k)" "ctx_done s (operations s ! k)"
| query_error: "ws_step env s (set_phase k (Writing []) (Emit env EventTypeOnError (OpId (operations s ! k)) [] err s))"
    if "k < length (operations s)" "\<not> OpSubscription (operations s ! k)" "OpPhase (operations s ! k) = Executing"
| query_result: "ws_step env s (set_phase k (Writing [next_message (OpId (operations s ! k)) data, complete_message (OpId (operations s ! k))]) s)"
    if "k < length (operations s)" "\<not> OpSubscription (operations s ! k)" "OpPhase (operations s ! k) = Executing"
| query_writes: "ws_step env s (set_phase k (Writing ms) (s\<lparr>sysClient := writer_write env m (sysClient s)\<rparr>))"
    if "k < length (operations s)" "OpPhase (operations s ! k) = Writing (m # ms)"
| query_ends: "ws_step env s (end_operation k (s\<lparr>registry := snd (Cancel (OpId (operations s ! k)) (registry s))\<rparr>))"
    if "k < length (operations s)" "OpPhase (operations s ! k) = Writing []"

inductive reachable :: "Environment \<Rightarrow> System \<Rightarrow> bool" for env where
  opened: "reachable env (Handle_begin env new_system)"
| step: "reachable env s \<Longrightarrow> ws_step env s s' \<Longrightarrow> reachable env s'"

end
