(* ===== verification/Subscription_Invariants.thy ===== *)
theory Subscription_Invariants
  imports Subscription_WS
begin

text \<open>
  What holds of every reachable state of a connection: the handshake (no operation and no result
  before the connection is initialised, at most one acknowledgement) and the registry (every
  operation that runs is registered or cancelled, an identifier has at most one operation that is
  not cancelled).
\<close>

section \<open>What an action does to the client\<close>

definition client_step :: "string set \<Rightarrow> Client \<Rightarrow> Client \<Rightarrow> bool" where
  "client_step T c c' \<longleftrightarrow>
     (isClosedConnection c \<longrightarrow> isClosedConnection c') \<and>
     (frames c' = frames c \<and> (clientConn c' = clientConn c \<or> \<not> isClosedConnection c) \<or>
      (clientConn c = ConnOk \<and> \<not> isClosedConnection c \<and> clientConn c' = clientConn c \<and>
         (\<exists>m. MsgType m \<in> T \<and> frames c' = frames c @ [Text m])) \<or>
      (clientConn c = ConnOk \<and> isClosedConnection c' \<and> clientConn c' = ConnClosedPipe \<and>
         (\<exists>code r. frames c' = frames c @ [Close code r])))"

lemma client_step_refl [simp]: "client_step T c c"
  by (simp add: client_step_def)

lemma client_step_mono: "client_step T c c' \<Longrightarrow> T \<subseteq> U \<Longrightarrow> client_step U c c'"
  unfolding client_step_def by blast

lemma client_step_write: "MsgType m \<in> T \<Longrightarrow> client_step T c (writer_write env m c)"
  by (cases "clientConn c")
    (auto simp: client_step_def writer_write_def WriteBytesToClient_def IsConnected_def changeConnectionStateToClosed_def)

lemma client_step_disconnect: "client_step T c (DisconnectWithReason code r c)"
  by (cases "clientConn c")
    (auto simp: client_step_def DisconnectWithReason_def Disconnect_def changeConnectionStateToClosed_def)

lemmas write_defs = WriteComplete_def WriteNext_def WriteError_def WriteConnectionAck_def WritePing_def WritePong_def

lemma client_step_event: "client_step {mt} c (HandleWriteEvent env mt i d e c)"
  by (auto simp: HandleWriteEvent_def write_defs split: option.splits
      intro!: client_step_write client_step_disconnect)

lemma client_step_read: "ReadBytesFromClient r c = (x, c') \<Longrightarrow> client_step T c c'"
  by (auto simp: ReadBytesFromClient_def client_step_def changeConnectionStateToClosed_def split: if_splits ReadResult.splits)

text \<open>\<open>client_only T s s'\<close>: nothing but the client changes.\<close>

definition client_only :: "string set \<Rightarrow> System \<Rightarrow> System \<Rightarrow> bool" where
  "client_only T s s' \<longleftrightarrow> client_step T (sysClient s) (sysClient s') \<and> s' = s\<lparr>sysClient := sysClient s'\<rparr>"

lemma client_only_write_event: "client_only {mt} s (write_event env mt i d e s)"
  by (simp add: client_only_def write_event_def client_step_event)

lemma client_only_close: "client_only T s (closeConnectionWithReason code r s)"
  by (simp add: client_only_def closeConnectionWithReason_def client_step_disconnect)

lemma client_only_update: "client_step T (sysClient s) c \<Longrightarrow> client_only T s (s\<lparr>sysClient := c\<rparr>)"
  by (simp add: client_only_def)

section \<open>The invariant\<close>

definition is_text :: "string \<Rightarrow> Frame \<Rightarrow> bool" where
  "is_text mt f = (case f of Text m \<Rightarrow> MsgType m = mt | Close code r \<Rightarrow> False)"

definition count_text :: "string \<Rightarrow> Client \<Rightarrow> nat" where
  "count_text mt c = length (filter (is_text mt) (frames c))"

lemma count_text_step:
  "client_step T c c' \<Longrightarrow> count_text mt c \<le> count_text mt c' \<and> count_text mt c' \<le> Suc (count_text mt c) \<and>
   (mt \<notin> T \<longrightarrow> count_text mt c' = count_text mt c)"
  unfolding client_step_def count_text_def by (elim conjE disjE) (auto simp: is_text_def)

definition handshake :: "System \<Rightarrow> bool" where
  "handshake s \<longleftrightarrow> connectionInitTimerStarted (handler s) \<and> \<not> connectionAcknowledged (handler s) \<and>
     (connectionInitTimeOutCancel (handler s) \<longleftrightarrow> \<not> connectionInitialized (handler s)) \<and>
     count_text ConnectionAck (sysClient s) \<le> (if connectionInitialized (handler s) then 1 else 0) \<and>
     (\<not> connectionInitialized (handler s) \<longrightarrow> operations s = [] \<and> cancellations (registry s) = [] \<and>
        count_text Next (sysClient s) = 0 \<and> count_text MsgError (sysClient s) = 0)"

definition op_ok :: "Operation \<Rightarrow> bool" where
  "op_ok op \<longleftrightarrow> (case OpPhase op of
       Executing \<Rightarrow> True
     | Writing ms \<Rightarrow> \<not> OpSubscription op \<and> list_all (\<lambda>m. MsgType m \<in> {Next, Complete}) ms)"

text \<open>
  \<open>reg_inv\<close>: every context comes from the counter; a registered one is not cancelled and belongs
  to an operation that runs (unless the loop is being stopped); an operation that runs is
  registered or cancelled.
\<close>

definition reg_inv :: "(string \<times> nat) set \<Rightarrow> nat set \<Rightarrow> nat \<Rightarrow> Operation set \<Rightarrow> bool \<Rightarrow> bool" where
  "reg_inv cs cancelled nxt ops stopping \<longleftrightarrow>
     (\<forall>c \<in> snd ` cs \<union> OpCtx ` ops \<union> cancelled. c < nxt) \<and>
     (\<forall>i c. (i, c) \<in> cs \<longrightarrow> c \<notin> cancelled \<and> (stopping \<or> (\<exists>op \<in> ops. OpId op = i \<and> OpCtx op = c))) \<and>
     (\<forall>op \<in> ops. (OpId op, OpCtx op) \<in> cs \<or> OpCtx op \<in> cancelled)"

definition registry_ok :: "System \<Rightarrow> bool" where
  "registry_ok s \<longleftrightarrow> distinct (map fst (cancellations (registry s))) \<and> distinct (map snd (cancellations (registry s))) \<and>
     distinct (map OpCtx (operations s)) \<and> list_all op_ok (operations s) \<and>
     reg_inv (set (cancellations (registry s))) (set (cancelledCtx (registry s))) (nextCtx (registry s))
       (set (operations s)) (handlerCancelled s)"

definition ended_ok :: "System \<Rightarrow> bool" where
  "ended_ok s \<longleftrightarrow> (\<not> handlerRunning s \<longrightarrow> handlerCancelled s \<and> cancellations (registry s) = [])"

definition ws_inv :: "System \<Rightarrow> bool" where
  "ws_inv s \<longleftrightarrow> handshake s \<and> registry_ok s \<and> ended_ok s"

section \<open>Actions on the client\<close>

lemma inv_client_only:
  assumes "ws_inv s" "client_only T s s'" "T \<subseteq> {Ping, Pong, Complete} \<or> T \<subseteq> {Next, MsgError, Complete} \<and> connectionInitialized (handler s)"
  shows "ws_inv s'"
proof -
  have st: "client_step T (sysClient s) (sysClient s')" and s': "s' = s\<lparr>sysClient := sysClient s'\<rparr>"
    using assms(2) by (auto simp: client_only_def)
  have eqs: "handler s' = handler s" "registry s' = registry s" "operations s' = operations s"
    "handlerCancelled s' = handlerCancelled s" "handlerRunning s' = handlerRunning s"
    using arg_cong [OF s', of handler] arg_cong [OF s', of registry] arg_cong [OF s', of operations]
      arg_cong [OF s', of handlerCancelled] arg_cong [OF s', of handlerRunning] by simp_all
  have ack: "ConnectionAck \<notin> T" using assms(3) by (auto simp: message_types)
  have "\<not> connectionInitialized (handler s) \<Longrightarrow> Next \<notin> T \<and> MsgError \<notin> T" using assms(3) by (auto simp: message_types)
  with ack have "handshake s'"
    using assms(1) count_text_step [OF st, of ConnectionAck] count_text_step [OF st, of Next] count_text_step [OF st, of MsgError]
    unfolding ws_inv_def handshake_def by (cases "connectionInitialized (handler s)") (simp_all add: eqs)
  moreover have "registry_ok s' \<and> ended_ok s'"
    using assms(1) by (simp add: ws_inv_def registry_ok_def ended_ok_def eqs)
  ultimately show ?thesis by (simp add: ws_inv_def)
qed

lemma inv_close: "ws_inv s \<Longrightarrow> ws_inv (closeConnectionWithReason code r s)"
  by (rule inv_client_only [OF _ client_only_close, where T = "{}"]) auto

lemma inv_write_event:
  "ws_inv s \<Longrightarrow> mt \<in> {Ping, Pong, Complete} \<or> mt \<in> {Next, MsgError} \<and> connectionInitialized (handler s) \<Longrightarrow>
   ws_inv (write_event env mt i d e s)"
  by (rule inv_client_only [OF _ client_only_write_event]) auto

section \<open>Actions on the registry\<close>

lemma inv_registry:
  assumes "ws_inv s" "registry_ok s'" "sysClient s' = sysClient s" "handler s' = handler s"
    and "\<not> connectionInitialized (handler s) \<Longrightarrow> operations s' = [] \<and> cancellations (registry s') = []" "ended_ok s'"
  shows "ws_inv s'"
  using assms by (simp add: ws_inv_def handshake_def)

lemma cancel_simps:
  assumes "Cancel i sc = (b, sc')"
  shows "nextCtx sc' = nextCtx sc" "cancellations sc' = filter (\<lambda>x. fst x \<noteq> i) (cancellations sc)"
    "distinct (map fst (cancellations sc)) \<Longrightarrow>
       set (cancelledCtx sc') = set (cancelledCtx sc) \<union> {c. (i, c) \<in> set (cancellations sc)}"
proof -
  have del: "AList.delete i (cancellations sc) = filter (\<lambda>x. fst x \<noteq> i) (cancellations sc)"
    by (auto simp: AList.delete_eq intro: filter_cong)
  have none: "map_of (cancellations sc) i = None \<Longrightarrow> filter (\<lambda>x. fst x \<noteq> i) (cancellations sc) = cancellations sc"
    by (auto simp: filter_id_conv map_of_eq_None_iff)
  show "nextCtx sc' = nextCtx sc" using assms by (auto simp: Cancel_def split: option.splits)
  show "cancellations sc' = filter (\<lambda>x. fst x \<noteq> i) (cancellations sc)"
    using assms none by (auto simp: Cancel_def del split: option.splits)
  show "set (cancelledCtx sc') = set (cancelledCtx sc) \<union> {c. (i, c) \<in> set (cancellations sc)}" if d: "distinct (map fst (cancellations sc))"
  proof (cases "map_of (cancellations sc) i")
    case None
    then have "\<forall>c. (i, c) \<notin> set (cancellations sc)" by (auto simp: map_of_eq_None_iff image_iff)
    with None assms show ?thesis by (simp add: Cancel_def)
  next
    case (Some ctx)
    then have "(i, c) \<in> set (cancellations sc) \<longleftrightarrow> c = ctx" for c
      using map_of_eq_Some_iff [OF d, of i c] by auto
    then have "{c. (i, c) \<in> set (cancellations sc)} = {ctx}" by simp
    moreover have "cancelledCtx sc' = ctx # cancelledCtx sc" using Some assms by (auto simp: Cancel_def)
    ultimately show ?thesis by simp
  qed
qed

lemma reg_inv_cancel:
  assumes "reg_inv cs X n ops st" "inj_on snd cs"
  shows "reg_inv {x \<in> cs. fst x \<noteq> i} (X \<union> {c. (i, c) \<in> cs}) n ops st"
  unfolding reg_inv_def
proof (intro conjI allI ballI impI)
  fix c assume "c \<in> snd ` {x \<in> cs. fst x \<noteq> i} \<union> OpCtx ` ops \<union> (X \<union> {c. (i, c) \<in> cs})"
  then have "c \<in> snd ` cs \<union> OpCtx ` ops \<union> X" by force
  then show "c < n" using assms(1) unfolding reg_inv_def by blast
next
  fix j c assume jc: "(j, c) \<in> {x \<in> cs. fst x \<noteq> i}"
  then have "(i, c) \<notin> cs" using assms(2) by (auto dest: inj_onD [of snd cs "(j, c)" "(i, c)"])
  with jc assms(1) show "c \<notin> X \<union> {c. (i, c) \<in> cs}" unfolding reg_inv_def by blast
  show "st \<or> (\<exists>op \<in> ops. OpId op = j \<and> OpCtx op = c)" using jc assms(1) unfolding reg_inv_def by blast
next
  fix op assume "op \<in> ops"
  then have "(OpId op, OpCtx op) \<in> cs \<or> OpCtx op \<in> X" using assms(1) unfolding reg_inv_def by blast
  then show "(OpId op, OpCtx op) \<in> {x \<in> cs. fst x \<noteq> i} \<or> OpCtx op \<in> X \<union> {c. (i, c) \<in> cs}" by auto
qed

text \<open>Cancelling an identifier keeps the registry in order, whoever does it.\<close>

lemma registry_ok_cancel:
  assumes "registry_ok s"
  shows "registry_ok (s\<lparr>registry := snd (Cancel i (registry s))\<rparr>)"
proof -
  obtain b sc where c: "Cancel i (registry s) = (b, sc)" by fastforce
  have d: "distinct (map fst (cancellations (registry s)))" "distinct (map snd (cancellations (registry s)))"
    using assms by (auto simp: registry_ok_def)
  have "inj_on snd (set (cancellations (registry s)))" using d(2) by (simp add: distinct_map)
  from reg_inv_cancel [OF _ this, of "set (cancelledCtx (registry s))" "nextCtx (registry s)" "set (operations s)" "handlerCancelled s" i]
  show ?thesis
    using assms d by (simp add: registry_ok_def c cancel_simps(1,2) [OF c] cancel_simps(3) [OF c d(1)] distinct_map_filter)
qed

lemma remove_nth_subset: "set (take k xs @ drop (Suc k) xs) \<subseteq> set xs"
  by (auto dest: in_set_takeD in_set_dropD)

lemma map_remove_nth: "k < length xs \<Longrightarrow> map f xs = map f (take k xs) @ f (xs ! k) # map f (drop (Suc k) xs)"
  by (metis id_take_nth_drop list.simps(9) map_append)

text \<open>An operation that is not registered, or whose loop is being stopped, may end.\<close>

lemma registry_ok_end:
  assumes "registry_ok s" "k < length (operations s)"
    and "handlerCancelled s \<or> (OpId (operations s ! k), OpCtx (operations s ! k)) \<notin> set (cancellations (registry s))"
  shows "registry_ok (end_operation k s)"
proof -
  let ?ops = "take k (operations s) @ drop (Suc k) (operations s)" and ?op = "operations s ! k"
  have sub: "set ?ops \<subseteq> set (operations s)" by (rule remove_nth_subset)
  have ops: "set (operations s) = insert ?op (set ?ops)"
    using arg_cong [OF map_remove_nth [OF assms(2), of id], of set] by auto
  have "distinct (map OpCtx ?ops)"
    using assms(1) unfolding registry_ok_def map_remove_nth [OF assms(2), of OpCtx] by auto
  moreover have "list_all op_ok ?ops" using assms(1) sub by (auto simp: registry_ok_def list_all_iff)
  moreover have "reg_inv (set (cancellations (registry s))) (set (cancelledCtx (registry s))) (nextCtx (registry s)) (set ?ops) (handlerCancelled s)"
    using assms(1,3) unfolding registry_ok_def reg_inv_def ops by (auto simp del: set_append)
  ultimately show ?thesis using assms(1) by (simp add: registry_ok_def end_operation_def)
qed

lemma update_new: "k \<notin> fst ` set al \<Longrightarrow> AList.update k v al = al @ [(k, v)]"
  by (induction al) auto

lemma reg_inv_add:
  assumes "reg_inv cs X n ops st" "OpCtx op = n"
  shows "reg_inv (insert (OpId op, n) cs) X (Suc n) (insert op ops) st"
  unfolding reg_inv_def
proof (intro conjI allI ballI impI)
  have lt: "c < n" if "c \<in> snd ` cs \<union> OpCtx ` ops \<union> X" for c using assms(1) that unfolding reg_inv_def by blast
  fix c assume "c \<in> snd ` insert (OpId op, n) cs \<union> OpCtx ` insert op ops \<union> X"
  then have "c = n \<or> c \<in> snd ` cs \<union> OpCtx ` ops \<union> X" using assms(2) by auto
  then show "c < Suc n"
  proof
    assume "c \<in> snd ` cs \<union> OpCtx ` ops \<union> X"
    from lt [OF this] show ?thesis by simp
  qed simp
next
  fix i c assume ic: "(i, c) \<in> insert (OpId op, n) cs"
  have "n \<notin> X" using assms(1) unfolding reg_inv_def by blast
  then show "c \<notin> X" using ic assms(1) unfolding reg_inv_def by blast
  show "st \<or> (\<exists>op \<in> insert op ops. OpId op = i \<and> OpCtx op = c)" using ic assms unfolding reg_inv_def by blast
next
  fix op' assume "op' \<in> insert op ops"
  then show "(OpId op', OpCtx op') \<in> insert (OpId op, n) cs \<or> OpCtx op' \<in> X"
    using assms unfolding reg_inv_def by blast
qed

lemma registry_ok_start:
  assumes "registry_ok s" "AddWithParent i (registry s) = (Some ctx, sc)"
  shows "registry_ok (s\<lparr>registry := sc, operations := operations s @ [\<lparr>OpId = i, OpCtx = ctx, OpSubscription = sub, OpPhase = Executing\<rparr>]\<rparr>)"
proof -
  have new: "map_of (cancellations (registry s)) i = None" and ctx: "ctx = nextCtx (registry s)"
    and sc: "sc = (registry s)\<lparr>cancellations := AList.update i ctx (cancellations (registry s)), nextCtx := Suc ctx\<rparr>"
    using assms(2) by (auto simp: AddWithParent_def split: if_splits)
  have i: "i \<notin> fst ` set (cancellations (registry s))" using new by (simp add: map_of_eq_None_iff)
  have upd: "AList.update i ctx (cancellations (registry s)) = cancellations (registry s) @ [(i, ctx)]"
    using i by (rule update_new)
  have old: "\<forall>c \<in> snd ` set (cancellations (registry s)) \<union> OpCtx ` set (operations s) \<union> set (cancelledCtx (registry s)). c < ctx"
    using assms(1) by (simp add: registry_ok_def reg_inv_def ctx)
  have "reg_inv (set (cancellations (registry s) @ [(i, ctx)])) (set (cancelledCtx (registry s))) (Suc ctx)
      (set (operations s @ [\<lparr>OpId = i, OpCtx = ctx, OpSubscription = sub, OpPhase = Executing\<rparr>])) (handlerCancelled s)"
    using reg_inv_add [of "set (cancellations (registry s))" "set (cancelledCtx (registry s))" ctx "set (operations s)" "handlerCancelled s"
        "\<lparr>OpId = i, OpCtx = ctx, OpSubscription = sub, OpPhase = Executing\<rparr>"] assms(1)
    by (simp add: registry_ok_def ctx)
  moreover have "distinct (map snd (cancellations (registry s) @ [(i, ctx)]))" "distinct (map OpCtx (operations s @ [\<lparr>OpId = i, OpCtx = ctx, OpSubscription = sub, OpPhase = Executing\<rparr>]))"
    using assms(1) old by (fastforce simp: registry_ok_def)+
  ultimately show ?thesis using assms(1) i by (auto simp: registry_ok_def sc upd op_ok_def)
qed

section \<open>The engine keeps the invariant\<close>

lemma inv_cancel: "ws_inv s \<Longrightarrow> ws_inv (s\<lparr>registry := snd (Cancel i (registry s))\<rparr>)"
proof (rule inv_registry [of s])
  assume inv: "ws_inv s"
  have e: "cancellations (snd (Cancel i (registry s))) = filter (\<lambda>x. fst x \<noteq> i) (cancellations (registry s))"
    using cancel_simps(2) [of i "registry s"] by (metis prod.collapse)
  show "registry_ok (s\<lparr>registry := snd (Cancel i (registry s))\<rparr>)" using inv registry_ok_cancel by (simp add: ws_inv_def)
  show "ended_ok (s\<lparr>registry := snd (Cancel i (registry s))\<rparr>)" using inv e by (auto simp: ws_inv_def ended_ok_def)
  show "\<not> connectionInitialized (handler s) \<Longrightarrow> operations (s\<lparr>registry := snd (Cancel i (registry s))\<rparr>) = [] \<and>
      cancellations (registry (s\<lparr>registry := snd (Cancel i (registry s))\<rparr>)) = []"
    using inv e by (simp add: ws_inv_def handshake_def)
qed simp_all

lemma inv_Emit_complete: "ws_inv s \<Longrightarrow> ws_inv (Emit env EventTypeOnSubscriptionCompleted i d e s)"
  by (simp add: Emit_def inv_write_event)

lemma inv_Emit_data: "ws_inv s \<Longrightarrow> connectionInitialized (handler s) \<Longrightarrow> ws_inv (Emit env EventTypeOnSubscriptionData i d e s)"
  by (simp add: Emit_def inv_write_event)

lemma inv_Emit_error: "ws_inv s \<Longrightarrow> connectionInitialized (handler s) \<Longrightarrow> ws_inv (Emit env EventTypeOnError i d e s)"
  by (simp add: Emit_def inv_write_event)

lemma inv_StopSubscription: "ws_inv s \<Longrightarrow> ws_inv (StopSubscription env i s)"
  by (simp add: StopSubscription_def inv_cancel inv_Emit_complete)

lemma inv_StartOperation:
  assumes "ws_inv s" "connectionInitialized (handler s)" "handlerRunning s"
  shows "ws_inv (snd (StartOperation env i payload s))"
proof (cases "pool_Get env payload")
  case (Inl e)
  then show ?thesis using assms by (simp add: StartOperation_def)
next
  case (Inr executor)
  show ?thesis
  proof (cases "OnBeforeStart executor")
    case (Some e)
    then show ?thesis using Inr assms by (simp add: StartOperation_def inv_Emit_error)
  next
    case hook: None
    show ?thesis
    proof (cases "AddWithParent i (registry s)")
      case (Pair added sc)
      show ?thesis
      proof (cases added)
        case None
        then have "sc = registry s" using Pair by (auto simp: AddWithParent_def split: if_splits)
        with None Pair Inr hook assms show ?thesis
          by (simp add: StartOperation_def checkForDuplicateSubscriberID_def Emit_def inv_close)
      next
        case (Some ctx)
        let ?op = "\<lparr>OpId = i, OpCtx = ctx, OpSubscription = (OperationType_of executor = OperationTypeSubscription), OpPhase = Executing\<rparr>"
        have "ws_inv (s\<lparr>registry := sc, operations := operations s @ [?op]\<rparr>)"
          by (rule inv_registry [OF assms(1)])
            (use registry_ok_start [of s i ctx sc] Pair Some assms in \<open>auto simp: ws_inv_def ended_ok_def\<close>)
        with Pair Some Inr hook show ?thesis
          by (simp add: StartOperation_def checkForDuplicateSubscriberID_def)
      qed
    qed
  qed
qed

lemma fold_cancel:
  "ws_inv s \<Longrightarrow> ws_inv (s\<lparr>registry := fold (\<lambda>i sc. snd (Cancel i sc)) is (registry s)\<rparr>) \<and>
   cancellations (fold (\<lambda>i sc. snd (Cancel i sc)) is (registry s)) = filter (\<lambda>x. fst x \<notin> set is) (cancellations (registry s))"
proof (induction "is" arbitrary: s)
  case Nil
  then show ?case by simp
next
  case (Cons i "is")
  have e: "cancellations (snd (Cancel i (registry s))) = filter (\<lambda>x. fst x \<noteq> i) (cancellations (registry s))"
    using cancel_simps(2) [of i "registry s"] by (metis prod.collapse)
  from Cons.IH [OF inv_cancel [OF Cons.prems, of i]] show ?case by (simp add: e conj_commute)
qed

lemma inv_TerminateAll:
  assumes "ws_inv s"
  shows "ws_inv (TerminateAllSubscriptions env s) \<and> cancellations (registry (TerminateAllSubscriptions env s)) = []"
proof -
  have "filter (\<lambda>x. fst x \<notin> fst ` set (cancellations (registry s))) (cancellations (registry s)) = []" by (auto simp: filter_empty_conv)
  then show ?thesis
    using fold_cancel [OF assms, of "map fst (cancellations (registry s))"] assms
    by (auto simp: TerminateAllSubscriptions_def Registry_Len_def Emit_def)
qed

lemma inv_Handle_end: "ws_inv s \<Longrightarrow> ws_inv (Handle_end env s)"
  using inv_TerminateAll [of s env]
  by (auto simp: Handle_end_def ws_inv_def handshake_def registry_ok_def reg_inv_def ended_ok_def)

section \<open>The protocol handler keeps the invariant\<close>

text \<open>
  The timer has been started when the connection was opened, so that the branch of
  \<open>handleInit\<close> that closes with an internal server error is never taken.
\<close>

lemma handleInit_accepts:
  assumes "ws_inv s" "\<not> connectionInitialized (handler s)" "handleInit env payload s = (None, s')"
  shows "s' = (write_event env ConnectionAck [] [] [] (snd (stopConnectionInitTimer s)))
    \<lparr>handler := (handler (snd (stopConnectionInitTimer s)))\<lparr>connectionInitialized := True\<rparr>\<rparr>"
proof -
  have "connectionInitTimeOutCancel (handler s)" using assms(1,2) by (simp add: ws_inv_def handshake_def)
  then show ?thesis using assms(2,3) by (auto simp: handleInit_def stopConnectionInitTimer_def split: option.splits)
qed

lemma inv_handleInit:
  assumes inv: "ws_inv s" and r: "handleInit env payload s = (e, s')"
  shows "ws_inv s'"
proof (cases "connectionInitialized (handler s) \<or> e \<noteq> None")
  case True
  with assms show ?thesis by (auto simp: handleInit_def inv_close split: option.splits prod.splits bool.splits if_splits)
next
  case False
  then have n: "\<not> connectionInitialized (handler s)" and e: "e = None" by auto
  let ?s = "snd (stopConnectionInitTimer s)"
  note s' = handleInit_accepts [OF inv n r [unfolded e]]
  have st: "sysClient ?s = sysClient s" "registry ?s = registry s" "operations ?s = operations s"
    "handlerCancelled ?s = handlerCancelled s" "handlerRunning ?s = handlerRunning s"
    "connectionInitTimerStarted (handler ?s) = connectionInitTimerStarted (handler s)"
    "connectionAcknowledged (handler ?s) = connectionAcknowledged (handler s)" "\<not> connectionInitTimeOutCancel (handler ?s)"
    using inv n by (auto simp: stopConnectionInitTimer_def ws_inv_def handshake_def)
  have c: "client_step {ConnectionAck} (sysClient s) (sysClient s')"
    using client_step_event [of ConnectionAck "sysClient s" env "[]" "[]" "[]"] st by (simp add: s' write_event_def)
  have f: "handler s' = (handler ?s)\<lparr>connectionInitialized := True\<rparr>" "registry s' = registry s" "operations s' = operations s"
    "handlerCancelled s' = handlerCancelled s" "handlerRunning s' = handlerRunning s"
    using st by (simp_all add: s' write_event_def)
  have "handshake s'"
    using inv n count_text_step [OF c, of ConnectionAck] st f by (auto simp: ws_inv_def handshake_def)
  moreover have "registry_ok s' \<and> ended_ok s'" using inv f by (simp add: ws_inv_def registry_ok_def ended_ok_def)
  ultimately show ?thesis by (simp add: ws_inv_def)
qed

lemma inv_startHeartbeat: "ws_inv s \<Longrightarrow> ws_inv (startHeartbeat s)"
  by (simp add: startHeartbeat_def ws_inv_def handshake_def registry_ok_def ended_ok_def)

lemma inv_handleSubscribe:
  assumes "ws_inv s" "handlerRunning s"
  shows "ws_inv (snd (handleSubscribe env message s))"
proof (cases "connectionInitialized (handler s)")
  case True
  show ?thesis
    using assms inv_StartOperation [OF assms(1) True assms(2), of env "MsgId message"] True
    by (auto simp: handleSubscribe_def split: sum.split prod.split) (metis snd_conv)
qed (use assms in \<open>simp add: handleSubscribe_def inv_close\<close>)

lemma inv_Handle_message:
  assumes "ws_inv s" "handlerRunning s"
  shows "ws_inv (snd (Handle_message env message s))"
proof (cases "MsgType message = ConnectionInit")
  case True
  obtain e s' where r: "handleInit env (MsgPayload message) s = (e, s')" by fastforce
  with True inv_handleInit [OF assms(1) r] show ?thesis
    by (cases e) (auto simp: Handle_message_def inv_close inv_startHeartbeat)
next
  case False
  then show ?thesis
    using assms inv_handleSubscribe [OF assms] by (simp add: Handle_message_def handlePing_def inv_write_event inv_StopSubscription inv_close)
qed

lemma inv_Protocol_Handle:
  assumes "ws_inv s" "handlerRunning s"
  shows "ws_inv (snd (Protocol_Handle env bytes s))"
proof -
  have "connectionInitTimerStarted (handler s)" using assms(1) by (simp add: ws_inv_def handshake_def)
  then show ?thesis
    using assms inv_Handle_message [OF assms] by (auto simp: Protocol_Handle_def inv_close split: sum.split ReadError.split)
qed

section \<open>The loop and the goroutines keep the invariant\<close>

text \<open>Timers and the heartbeat flag play no part in it.\<close>

lemma inv_timers [simp]:
  "ws_inv (s\<lparr>readTimers := ts\<rparr>) = ws_inv s" "ws_inv (s\<lparr>isReadTimeOutTimerRunning := b\<rparr>) = ws_inv s"
  "ws_inv (s\<lparr>initTimer := t\<rparr>) = ws_inv s" "ws_inv (s\<lparr>heartbeatRunning := h\<rparr>) = ws_inv s"
  by (simp_all add: ws_inv_def handshake_def registry_ok_def ended_ok_def)

lemma inv_handlerCancelled: "ws_inv s \<Longrightarrow> ws_inv (s\<lparr>handlerCancelled := True\<rparr>)"
  by (auto simp: ws_inv_def handshake_def registry_ok_def reg_inv_def ended_ok_def)

lemma inv_client_update: "ws_inv s \<Longrightarrow> client_step {} (sysClient s) c \<Longrightarrow> ws_inv (s\<lparr>sysClient := c\<rparr>)"
  by (rule inv_client_only [OF _ client_only_update]) auto

lemma inv_Handle_read:
  assumes "ws_inv s" "handlerRunning s"
  shows "ws_inv (Handle_read env r s)"
proof (cases "IsConnected (sysClient s)")
  case True
  obtain x c where rd: "ReadBytesFromClient r (sysClient s) = (x, c)" by fastforce
  have c: "ws_inv (s\<lparr>sysClient := c\<rparr>)" by (rule inv_client_update [OF assms(1) client_step_read [OF rd]])
  show ?thesis
  proof (cases x)
    case (GotBytes bytes)
    have "ws_inv (s\<lparr>sysClient := c, readTimers := cancel_last (readTimers s), isReadTimeOutTimerRunning := False\<rparr>)"
      using c by (metis inv_timers(1,2))
    with GotBytes True rd c assms(2) show ?thesis
      by (auto simp: Handle_read_def Let_def intro!: inv_Protocol_Handle)
  next
    case GotError
    have "ws_inv (s\<lparr>sysClient := c, readTimers := readTimers s @ [False], isReadTimeOutTimerRunning := True\<rparr>)"
      using c by (metis inv_timers(1,2))
    with GotError True rd c show ?thesis by (auto simp: Handle_read_def Let_def Emit_def)
  qed (use True rd c in \<open>simp add: Handle_read_def inv_Handle_end\<close>)
qed (use assms in \<open>simp add: Handle_read_def inv_Handle_end\<close>)

lemma inv_Handle_iteration: "ws_inv s \<Longrightarrow> handlerRunning s \<Longrightarrow> ws_inv (Handle_iteration env r s)"
  using inv_Handle_read [of s env r] by (auto simp: Handle_iteration_def Let_def inv_Handle_end)

lemma inv_initialized: "ws_inv s \<Longrightarrow> k < length (operations s) \<Longrightarrow> connectionInitialized (handler s)"
  by (auto simp: ws_inv_def handshake_def)

lemma reg_inv_alt:
  "reg_inv cs X n ops st \<longleftrightarrow>
     (\<forall>c \<in> snd ` cs \<union> snd ` (\<lambda>op. (OpId op, OpCtx op)) ` ops \<union> X. c < n) \<and>
     (\<forall>i c. (i, c) \<in> cs \<longrightarrow> c \<notin> X \<and> (st \<or> (i, c) \<in> (\<lambda>op. (OpId op, OpCtx op)) ` ops)) \<and>
     (\<forall>p \<in> (\<lambda>op. (OpId op, OpCtx op)) ` ops. p \<in> cs \<or> snd p \<in> X)"
proof -
  have "(\<exists>op \<in> ops. OpId op = i \<and> OpCtx op = c) \<longleftrightarrow> (i, c) \<in> (\<lambda>op. (OpId op, OpCtx op)) ` ops" for i c by auto
  then show ?thesis unfolding reg_inv_def by (simp add: image_image)
qed

lemma reg_inv_pairs:
  "(\<lambda>op. (OpId op, OpCtx op)) ` A = (\<lambda>op. (OpId op, OpCtx op)) ` B \<Longrightarrow> reg_inv cs X n A st = reg_inv cs X n B st"
  by (simp only: reg_inv_alt)

lemma inv_set_phase:
  assumes "ws_inv s" "k < length (operations s)" "\<not> OpSubscription (operations s ! k)"
    and "list_all (\<lambda>m. MsgType m \<in> {Next, Complete}) ms"
  shows "ws_inv (set_phase k (Writing ms) s)"
proof (rule inv_registry [OF assms(1)])
  let ?op = "(operations s ! k)\<lparr>OpPhase := Writing ms\<rparr>"
  let ?ops = "(operations s)[k := ?op]"
  have ctx: "map OpCtx ?ops = map OpCtx (operations s)" "map OpId ?ops = map OpId (operations s)"
    using assms(2) by (auto simp: map_update intro!: nth_equalityI simp: nth_list_update)
  have pairs: "(\<lambda>op. (OpId op, OpCtx op)) ` set ?ops = (\<lambda>op. (OpId op, OpCtx op)) ` set (operations s)"
  proof -
    have "map (\<lambda>op. (OpId op, OpCtx op)) ?ops = map (\<lambda>op. (OpId op, OpCtx op)) (operations s)"
      using assms(2) by (auto intro!: nth_equalityI simp: nth_list_update)
    from arg_cong [OF this, of set] show ?thesis by (simp only: list.set_map)
  qed
  have r: "registry_ok s" using assms(1) by (simp add: ws_inv_def)
  have "list_all op_ok ?ops"
    using r assms(3,4) by (auto simp: registry_ok_def list_all_iff op_ok_def dest!: set_update_subset_insert [THEN subsetD])
  moreover have "reg_inv cs X n (set ?ops) st = reg_inv cs X n (set (operations s)) st" for cs X n st
    by (rule reg_inv_pairs [OF pairs])
  ultimately show "registry_ok (set_phase k (Writing ms) s)" using r ctx by (simp add: registry_ok_def set_phase_def)
  show "ended_ok (set_phase k (Writing ms) s)" using assms(1) by (simp add: ws_inv_def ended_ok_def set_phase_def)
  show "\<not> connectionInitialized (handler s) \<Longrightarrow> operations (set_phase k (Writing ms) s) = [] \<and>
      cancellations (registry (set_phase k (Writing ms) s)) = []"
    using assms(1,2) by (simp add: ws_inv_def handshake_def)
qed (simp_all add: set_phase_def)

lemma inv_end_operation:
  assumes "ws_inv s" "k < length (operations s)"
    and "handlerCancelled s \<or> (OpId (operations s ! k), OpCtx (operations s ! k)) \<notin> set (cancellations (registry s))"
  shows "ws_inv (end_operation k s)"
  by (rule inv_registry [OF assms(1)])
    (use assms registry_ok_end [of s k] in \<open>auto simp: ws_inv_def ended_ok_def end_operation_def handshake_def\<close>)

lemma ctx_done_unregistered:
  assumes "ws_inv s" "ctx_done s op"
  shows "handlerCancelled s \<or> (OpId op, OpCtx op) \<notin> set (cancellations (registry s))"
  using assms by (auto simp: ws_inv_def registry_ok_def reg_inv_def ctx_done_def)

lemma cancel_unregisters: "(i, c) \<notin> set (cancellations (snd (Cancel i sc)))"
  using cancel_simps(2) [of i sc] by (metis (mono_tags, lifting) fst_conv mem_Collect_eq prod.collapse set_filter)

lemma ws_inv_step:
  assumes "ws_step env s s'" "ws_inv s"
  shows "ws_inv s'"
  using assms(1)
proof cases
  case (network conn)
  then show ?thesis using assms(2) by (auto intro!: inv_client_update simp: client_step_def)
next
  case (message r)
  then show ?thesis using assms(2) inv_Handle_iteration by simp
next
  case init_timeout
  then show ?thesis using assms(2) by (simp add: inv_close)
next
  case (read_timeout k)
  then show ?thesis using assms(2) by (simp add: inv_handlerCancelled)
next
  case heartbeat
  then show ?thesis using assms(2) by (simp add: inv_write_event)
next
  case (subscription_data k)
  then show ?thesis using assms(2) inv_initialized [OF assms(2)] by (simp add: inv_Emit_data)
next
  case (subscription_error k)
  then show ?thesis using assms(2) inv_initialized [OF assms(2)] by (simp add: inv_Emit_error)
next
  case (subscription_stops k)
  then show ?thesis using inv_end_operation [OF assms(2)] ctx_done_unregistered [OF assms(2)] by simp
next
  case (query_error k err)
  let ?s = "Emit env EventTypeOnError (OpId (operations s ! k)) [] err s"
  have "operations ?s = operations s" by (simp add: Emit_def write_event_def)
  moreover have "ws_inv ?s" using assms(2) inv_initialized [OF assms(2)] query_error by (simp add: inv_Emit_error)
  ultimately show ?thesis using query_error inv_set_phase [of ?s k "[]"] by simp
next
  case (query_result k)
  then show ?thesis using assms(2) by (auto intro!: inv_set_phase simp: next_message_def complete_message_def)
next
  case (query_writes k m ms)
  let ?s = "s\<lparr>sysClient := writer_write env m (sysClient s)\<rparr>"
  have op: "op_ok (operations s ! k)"
    using assms(2) query_writes by (simp add: ws_inv_def registry_ok_def list_all_length)
  then have m: "MsgType m \<in> {Next, Complete}" "list_all (\<lambda>m. MsgType m \<in> {Next, Complete}) ms" "\<not> OpSubscription (operations s ! k)"
    using query_writes by (auto simp: op_ok_def)
  have "ws_inv ?s"
    by (rule inv_client_only [OF assms(2) client_only_update [OF client_step_write]])
      (use m inv_initialized [OF assms(2)] query_writes in auto)
  then show ?thesis using query_writes m inv_set_phase [of ?s k ms] by simp
next
  case (query_ends k)
  let ?s = "s\<lparr>registry := snd (Cancel (OpId (operations s ! k)) (registry s))\<rparr>"
  have "ws_inv ?s" by (rule inv_cancel [OF assms(2)])
  then show ?thesis using query_ends inv_end_operation [of ?s k] cancel_unregisters by simp
qed (use assms(2) in simp_all)

lemma ws_inv_begin: "ws_inv (Handle_begin env new_system)"
  by (simp add: Handle_begin_def Emit_def startConnectionInitTimer_def new_system_def NewClient_def ws_inv_def
      handshake_def count_text_def registry_ok_def reg_inv_def ended_ok_def)

lemma reachable_inv: "reachable env s \<Longrightarrow> ws_inv s"
  by (induction rule: reachable.induct) (auto intro: ws_inv_begin ws_inv_step)

section \<open>Consequences\<close>

text \<open>Two operations with the same identifier that are not cancelled are one.\<close>

lemma unique_operation:
  assumes "ws_inv s" "p < length (operations s)" "q < length (operations s)" "OpId (operations s ! p) = OpId (operations s ! q)"
    and "OpCtx (operations s ! p) \<notin> set (cancelledCtx (registry s))" "OpCtx (operations s ! q) \<notin> set (cancelledCtx (registry s))"
  shows "p = q"
proof -
  have reg: "(OpId op, OpCtx op) \<in> set (cancellations (registry s)) \<or> OpCtx op \<in> set (cancelledCtx (registry s))" if "op \<in> set (operations s)" for op
    using assms(1) that by (auto simp: ws_inv_def registry_ok_def reg_inv_def)
  have "inj_on fst (set (cancellations (registry s)))" "distinct (map OpCtx (operations s))"
    using assms(1) by (auto simp: ws_inv_def registry_ok_def distinct_map)
  moreover have "(OpId (operations s ! p), OpCtx (operations s ! p)) \<in> set (cancellations (registry s))"
    "(OpId (operations s ! p), OpCtx (operations s ! q)) \<in> set (cancellations (registry s))"
    using reg [of "operations s ! p"] reg [of "operations s ! q"] assms(2-6) by auto
  ultimately have "OpCtx (operations s ! p) = OpCtx (operations s ! q)"
    using inj_onD [of fst "set (cancellations (registry s))"
        "(OpId (operations s ! p), OpCtx (operations s ! p))" "(OpId (operations s ! p), OpCtx (operations s ! q))"] by simp
  then show ?thesis using \<open>distinct (map OpCtx (operations s))\<close> assms(2,3) by (metis nth_eq_iff_index_eq length_map nth_map)
qed

text \<open>A query at the end of its execution needs only its writes and the deferred cancellation.\<close>

lemma query_can_end:
  "operations s = op # ops \<Longrightarrow> OpPhase op = Writing ms \<Longrightarrow> handlerCancelled s \<Longrightarrow>
   \<exists>s'. (ws_step env)\<^sup>*\<^sup>* s s' \<and> operations s' = ops \<and> handlerCancelled s'"
proof (induction ms arbitrary: s op)
  case Nil
  let ?s = "end_operation 0 (s\<lparr>registry := snd (Cancel (OpId (operations s ! 0)) (registry s))\<rparr>)"
  have "ws_step env s ?s" by (rule ws_step.query_ends) (use Nil in auto)
  then have "(ws_step env)\<^sup>*\<^sup>* s ?s" by (rule r_into_rtranclp)
  moreover have "operations ?s = ops" "handlerCancelled ?s" using Nil by (simp_all add: end_operation_def)
  ultimately show ?case by blast
next
  case (Cons m ms)
  let ?s = "set_phase 0 (Writing ms) (s\<lparr>sysClient := writer_write env m (sysClient s)\<rparr>)"
  have st: "ws_step env s ?s" by (rule ws_step.query_writes) (use Cons.prems in auto)
  obtain op' where "operations ?s = op' # ops" "OpPhase op' = Writing ms" "handlerCancelled ?s"
    using Cons.prems by (auto simp: set_phase_def)
  from Cons.IH [OF this] obtain s' where "(ws_step env)\<^sup>*\<^sup>* ?s s'" "operations s' = ops" "handlerCancelled s'" by blast
  then show ?case using converse_rtranclp_into_rtranclp [of "ws_step env", OF st] by blast
qed

lemma operation_can_end:
  assumes "ws_inv s" "operations s = op # ops" "handlerCancelled s"
  shows "\<exists>s'. (ws_step env)\<^sup>*\<^sup>* s s' \<and> operations s' = ops \<and> handlerCancelled s'"
proof (cases "OpPhase op")
  case (Writing ms)
  from query_can_end [OF assms(2) this assms(3)] show ?thesis .
next
  case Executing
  show ?thesis
  proof (cases "OpSubscription op")
    case True
    have "ws_step env s (end_operation 0 s)"
      by (rule ws_step.subscription_stops) (use True assms in \<open>auto simp: ctx_done_def\<close>)
    then have "(ws_step env)\<^sup>*\<^sup>* s (end_operation 0 s)" by (rule r_into_rtranclp)
    with assms show ?thesis by (intro exI [of _ "end_operation 0 s"]) (simp add: end_operation_def)
  next
    case False
    let ?s = "set_phase 0 (Writing []) (Emit env EventTypeOnError (OpId (operations s ! 0)) [] [] s)"
    have st: "ws_step env s ?s" by (rule ws_step.query_error) (use False Executing assms in auto)
    obtain op' where "operations ?s = op' # ops" "OpPhase op' = Writing []" "handlerCancelled ?s"
      using assms by (auto simp: set_phase_def Emit_def write_event_def)
    from query_can_end [OF this] obtain s' where "(ws_step env)\<^sup>*\<^sup>* ?s s'" "operations s' = ops" "handlerCancelled s'" by blast
    then show ?thesis using converse_rtranclp_into_rtranclp [of "ws_step env", OF st] by blast
  qed
qed

lemma ws_inv_steps: "(ws_step env)\<^sup>*\<^sup>* s s' \<Longrightarrow> ws_inv s \<Longrightarrow> ws_inv s'"
  by (induction rule: rtranclp_induct) (auto intro: ws_inv_step)

text \<open>Once the loop is being stopped, all operations can end.\<close>

lemma operations_can_end:
  "ws_inv s \<Longrightarrow> handlerCancelled s \<Longrightarrow> \<exists>s'. (ws_step env)\<^sup>*\<^sup>* s s' \<and> operations s' = []"
proof (induction "operations s" arbitrary: s)
  case Nil
  then show ?case by auto
next
  case (Cons op ops)
  obtain s1 where s1: "(ws_step env)\<^sup>*\<^sup>* s s1" "operations s1 = ops" "handlerCancelled s1"
    using operation_can_end [OF Cons.prems(1) Cons.hyps(2) [symmetric] Cons.prems(2)] by blast
  from Cons.hyps(1) [OF s1(2) [symmetric] ws_inv_steps [OF s1(1) Cons.prems(1)] s1(3)] obtain s2 where
    "(ws_step env)\<^sup>*\<^sup>* s1 s2" "operations s2 = []" by blast
  with s1(1) show ?case by (meson rtranclp_trans)
qed

text \<open>
  The deferred \<open>Cancel\<close> of a query goes by the identifier. When the client has completed the query
  in the meantime and used its identifier again, it cancels the newer operation.
\<close>

lemma finished_query_cancels:
  assumes inv: "ws_inv s" and k: "k < length (operations s)" "OpPhase (operations s ! k) = Writing []"
    and reg: "(OpId (operations s ! k), c) \<in> set (cancellations (registry s))" and other: "c \<noteq> OpCtx (operations s ! k)"
    and run: "\<not> handlerCancelled s"
  shows "\<exists>s'. ws_step env s s' \<and> c \<in> set (cancelledCtx (registry s')) \<and> c \<notin> set (cancelledCtx (registry s)) \<and>
    (\<exists>op \<in> set (operations s'). OpId op = OpId (operations s ! k) \<and> OpCtx op = c)"
proof (intro exI conjI)
  let ?i = "OpId (operations s ! k)"
  let ?s = "end_operation k (s\<lparr>registry := snd (Cancel ?i (registry s))\<rparr>)"
  show "ws_step env s ?s" by (rule ws_step.query_ends [OF k])
  have ok: "registry_ok s" using inv by (simp add: ws_inv_def)
  then have d: "distinct (map fst (cancellations (registry s)))" by (simp add: registry_ok_def)
  have set: "set (cancelledCtx (snd (Cancel ?i (registry s)))) = set (cancelledCtx (registry s)) \<union> {c. (?i, c) \<in> set (cancellations (registry s))}"
    using cancel_simps(3) [of ?i "registry s", OF _ d] by (metis prod.collapse)
  show "c \<in> set (cancelledCtx (registry ?s))" using set reg by (simp add: end_operation_def)
  show "c \<notin> set (cancelledCtx (registry s))" using ok reg by (auto simp: registry_ok_def reg_inv_def)
  obtain op where op: "op \<in> set (operations s)" "OpId op = ?i" "OpCtx op = c"
    using ok reg run unfolding registry_ok_def reg_inv_def by blast
  then have "op \<noteq> operations s ! k" using other by auto
  then have "op \<in> set (operations ?s)"
    using op(1) arg_cong [OF map_remove_nth [OF k(1), of id], of set] by (auto simp: end_operation_def)
  with op show "\<exists>op \<in> set (operations ?s). OpId op = ?i \<and> OpCtx op = c" by blast
qed

text \<open>What the handler answers to a message out of order, on an open connection.\<close>

lemma close_frames:
  "clientConn (sysClient s) = ConnOk \<Longrightarrow>
   closeConnectionWithReason code r s = s\<lparr>sysClient := (sysClient s)\<lparr>isClosedConnection := True, clientConn := ConnClosedPipe,
     frames := frames (sysClient s) @ [Close code r]\<rparr>\<rparr>"
  by (simp add: closeConnectionWithReason_def DisconnectWithReason_def Disconnect_def changeConnectionStateToClosed_def)

end
