(* ===== verification/Client_Frames.thy ===== *)
theory Client_Frames
  imports Subscription_WS
begin

text \<open>
  The websocket client (\<open>execution/subscription/websocket/client.go\<close>) under concurrent callers, one
  operation of one caller at a time. \<open>GraphQLTransportWSMessageWriter.write\<close> holds the writer's lock
  around \<open>WriteBytesToClient\<close>, which first asks \<open>IsConnected\<close> and then writes; \<open>DisconnectWithReason\<close>
  writes the close frame without that lock, then marks the connection as closed, then closes it.
\<close>

section \<open>Callers\<close>

text \<open>
  What a caller does next. A writer: take the lock, ask \<open>IsConnected\<close>, write, and after
  \<open>io.ErrClosedPipe\<close> mark the connection. A disconnection: write the close frame, mark, close.
  A reader that has met the end of the stream marks the connection.
\<close>

datatype Caller =
  ToLock WSMessage
| ToCheck WSMessage
| ToWrite WSMessage
| ToMarkBroken
| ToCloseFrame nat string
| ToMark
| ToClose
| ToMarkRead
| Finished

record Clients =
  shared :: Client
  writerLock :: "nat option"
  callers :: "Caller list"

definition moves :: "nat \<Rightarrow> Caller \<Rightarrow> Clients \<Rightarrow> Clients" where
  "moves i pc s = s\<lparr>callers := (callers s)[i := pc]\<rparr>"

definition unlocks :: "Clients \<Rightarrow> Clients" where
  "unlocks s = s\<lparr>writerLock := None\<rparr>"

definition caller_step :: "nat \<Rightarrow> Clients \<Rightarrow> Clients option" where
  "caller_step i s =
     (let c = shared s in
      case callers s ! i of
        ToLock m \<Rightarrow> (if writerLock s = None then Some (moves i (ToCheck m) (s\<lparr>writerLock := Some i\<rparr>)) else None)
      | ToCheck m \<Rightarrow> Some (if IsConnected c then moves i (ToWrite m) s else moves i Finished (unlocks s))
      | ToWrite m \<Rightarrow> Some (case clientConn c of
            ConnOk \<Rightarrow> moves i Finished (unlocks (s\<lparr>shared := c\<lparr>frames := frames c @ [Text m]\<rparr>\<rparr>))
          | ConnClosedPipe \<Rightarrow> moves i ToMarkBroken s
          | ConnFails \<Rightarrow> moves i Finished (unlocks s))
      | ToMarkBroken \<Rightarrow> Some (moves i Finished (unlocks (s\<lparr>shared := changeConnectionStateToClosed c\<rparr>)))
      | ToCloseFrame code r \<Rightarrow> Some (case clientConn c of
            ConnOk \<Rightarrow> moves i ToMark (s\<lparr>shared := c\<lparr>frames := frames c @ [Close code r]\<rparr>\<rparr>)
          | _ \<Rightarrow> moves i Finished s)
      | ToMark \<Rightarrow> Some (moves i ToClose (s\<lparr>shared := changeConnectionStateToClosed c\<rparr>))
      | ToClose \<Rightarrow> Some (moves i Finished (s\<lparr>shared := c\<lparr>clientConn := ConnClosedPipe\<rparr>\<rparr>))
      | ToMarkRead \<Rightarrow> Some (moves i Finished (s\<lparr>shared := changeConnectionStateToClosed c\<rparr>))
      | Finished \<Rightarrow> None)"

lemma moves_simps [simp]:
  "shared (moves i pc s) = shared s" "writerLock (moves i pc s) = writerLock s" "callers (moves i pc s) = (callers s)[i := pc]"
  "shared (unlocks s) = shared s" "callers (unlocks s) = callers s" "writerLock (unlocks s) = None"
  by (simp_all add: moves_def unlocks_def)

text \<open>The calls the handler, the timers, the heartbeat, the operations and the loop make.\<close>

definition is_call :: "Caller \<Rightarrow> bool" where
  "is_call pc \<longleftrightarrow> pc = ToMarkRead \<or> (\<exists>m. pc = ToLock m) \<or> (\<exists>code r. pc = ToCloseFrame code r)"

inductive clients_step :: "Clients \<Rightarrow> Clients \<Rightarrow> bool" where
  called: "is_call pc \<Longrightarrow> clients_step s (s\<lparr>callers := callers s @ [pc]\<rparr>)"
| runs: "i < length (callers s) \<Longrightarrow> caller_step i s = Some s' \<Longrightarrow> clients_step s s'"
| peer: "clientConn (shared s) \<noteq> ConnClosedPipe \<Longrightarrow> clients_step s (s\<lparr>shared := (shared s)\<lparr>clientConn := conn\<rparr>\<rparr>)"

inductive clients_reachable :: "Clients \<Rightarrow> bool" where
  connected: "clients_reachable \<lparr>shared = NewClient, writerLock = None, callers = []\<rparr>"
| stepped: "clients_reachable s \<Longrightarrow> clients_step s s' \<Longrightarrow> clients_reachable s'"

section \<open>One caller alone\<close>

text \<open>Without other callers the operations give \<open>WriteBytesToClient\<close> and \<open>DisconnectWithReason\<close>.\<close>

fun run_alone :: "nat \<Rightarrow> Clients \<Rightarrow> Clients" where
  "run_alone 0 s = s"
| "run_alone (Suc n) s = (case caller_step 0 s of None \<Rightarrow> s | Some s' \<Rightarrow> run_alone n s')"

lemma caller_step_simps:
  "callers s ! i = ToLock m \<Longrightarrow> caller_step i s =
     (if writerLock s = None then Some (moves i (ToCheck m) (s\<lparr>writerLock := Some i\<rparr>)) else None)"
  "callers s ! i = ToCheck m \<Longrightarrow> caller_step i s =
     Some (if IsConnected (shared s) then moves i (ToWrite m) s else moves i Finished (unlocks s))"
  "callers s ! i = ToWrite m \<Longrightarrow> caller_step i s = Some (case clientConn (shared s) of
      ConnOk \<Rightarrow> moves i Finished (unlocks (s\<lparr>shared := (shared s)\<lparr>frames := frames (shared s) @ [Text m]\<rparr>\<rparr>))
    | ConnClosedPipe \<Rightarrow> moves i ToMarkBroken s | ConnFails \<Rightarrow> moves i Finished (unlocks s))"
  "callers s ! i = ToMarkBroken \<Longrightarrow> caller_step i s =
     Some (moves i Finished (unlocks (s\<lparr>shared := changeConnectionStateToClosed (shared s)\<rparr>)))"
  "callers s ! i = ToCloseFrame code r \<Longrightarrow> caller_step i s = Some (case clientConn (shared s) of
      ConnOk \<Rightarrow> moves i ToMark (s\<lparr>shared := (shared s)\<lparr>frames := frames (shared s) @ [Close code r]\<rparr>\<rparr>)
    | _ \<Rightarrow> moves i Finished s)"
  "callers s ! i = ToMark \<Longrightarrow> caller_step i s = Some (moves i ToClose (s\<lparr>shared := changeConnectionStateToClosed (shared s)\<rparr>))"
  "callers s ! i = ToClose \<Longrightarrow> caller_step i s = Some (moves i Finished (s\<lparr>shared := (shared s)\<lparr>clientConn := ConnClosedPipe\<rparr>\<rparr>))"
  "callers s ! i = ToMarkRead \<Longrightarrow> caller_step i s = Some (moves i Finished (s\<lparr>shared := changeConnectionStateToClosed (shared s)\<rparr>))"
  "callers s ! i = Finished \<Longrightarrow> caller_step i s = None"
  by (simp_all add: caller_step_def Let_def)

lemmas caller_ops = caller_step_simps moves_def unlocks_def IsConnected_def

lemma write_alone:
  "run_alone 4 \<lparr>shared = c, writerLock = None, callers = [ToLock m]\<rparr> =
   \<lparr>shared = snd (WriteBytesToClient m c), writerLock = None, callers = [Finished]\<rparr>"
  by (cases "isClosedConnection c"; cases "clientConn c";
    simp add: eval_nat_numeral caller_ops WriteBytesToClient_def)

lemma disconnect_alone:
  "run_alone 3 \<lparr>shared = c, writerLock = None, callers = [ToCloseFrame code r]\<rparr> =
   \<lparr>shared = DisconnectWithReason code r c, writerLock = None, callers = [Finished]\<rparr>"
  by (cases "clientConn c")
    (simp_all add: eval_nat_numeral caller_ops DisconnectWithReason_def Disconnect_def)

section \<open>Writers exclude each other\<close>

definition holds_lock :: "Caller \<Rightarrow> bool" where
  "holds_lock pc \<longleftrightarrow> (case pc of ToCheck m \<Rightarrow> True | ToWrite m \<Rightarrow> True | ToMarkBroken \<Rightarrow> True | _ \<Rightarrow> False)"

definition lock_ok :: "Clients \<Rightarrow> bool" where
  "lock_ok s \<longleftrightarrow> (\<forall>i < length (callers s). holds_lock (callers s ! i) \<longleftrightarrow> writerLock s = Some i) \<and>
     (\<forall>i. writerLock s = Some i \<longrightarrow> i < length (callers s))"

lemma lock_ok_moves:
  assumes "lock_ok s" "i < length (callers s)" "callers t = callers s"
    and "writerLock t = (if holds_lock pc then Some i else if writerLock s = Some i then None else writerLock s)"
    and "holds_lock pc \<Longrightarrow> writerLock s = None \<or> writerLock s = Some i"
  shows "lock_ok (moves i pc t)"
proof -
  have l: "holds_lock (callers s ! j) \<longleftrightarrow> writerLock s = Some j" if "j < length (callers s)" for j
    using assms(1) that by (simp add: lock_ok_def)
  have "holds_lock ((callers s)[i := pc] ! j) \<longleftrightarrow> writerLock t = Some j" if j: "j < length (callers s)" for j
  proof (cases "j = i")
    case True
    then show ?thesis using assms(2,4) by auto
  next
    case False
    then show ?thesis using l [OF j] assms(4,5) by (auto split: if_splits)
  qed
  moreover have "j < length (callers s)" if "writerLock t = Some j" for j
    using that assms(1,2,4) by (auto simp: lock_ok_def split: if_splits)
  ultimately show ?thesis using assms(3) by (simp add: lock_ok_def)
qed

lemma lock_ok_step:
  assumes "clients_step s s'" "lock_ok s"
  shows "lock_ok s'"
  using assms(1)
proof cases
  case (called pc)
  then show ?thesis using assms(2) by (auto simp: lock_ok_def nth_append less_Suc_eq is_call_def holds_lock_def)
next
  case (runs i)
  have h: "holds_lock (callers s ! i) \<longleftrightarrow> writerLock s = Some i" using assms(2) runs(1) by (simp add: lock_ok_def)
  show ?thesis
    using runs(2) h unfolding caller_step_def Let_def
    by (cases "callers s ! i")
      (auto simp: holds_lock_def unlocks_def split: if_splits Conn.splits intro!: lock_ok_moves [OF assms(2) runs(1)])
next
  case (peer conn)
  then show ?thesis using assms(2) by (simp add: lock_ok_def)
qed

lemma lock_ok_reachable: "clients_reachable s \<Longrightarrow> lock_ok s"
proof (induction rule: clients_reachable.induct)
  case (stepped s s')
  then show ?case by (metis lock_ok_step)
qed (simp add: lock_ok_def)

section \<open>After the end\<close>

definition texts :: "Client \<Rightarrow> nat" where
  "texts c = length (filter (\<lambda>f. case f of Text m \<Rightarrow> True | Close code r \<Rightarrow> False) (frames c))"

text \<open>The messages that can still follow: the one of the writer that has been told it is connected.\<close>

definition late_texts :: "Clients \<Rightarrow> nat" where
  "late_texts s = (if \<exists>m. ToWrite m \<in> set (callers s) then 1 else 0)"

text \<open>What one operation can do to the connection.\<close>

lemma caller_step_effect:
  assumes "caller_step i s = Some s'"
  shows "\<exists>pc t. s' = moves i pc t \<and> callers t = callers s \<and>
    (isClosedConnection (shared s) \<longrightarrow> isClosedConnection (shared s') \<and> (\<forall>m. pc \<noteq> ToWrite m)) \<and>
    texts (shared s') \<le> texts (shared s) + (if \<exists>m. callers s ! i = ToWrite m then 1 else 0) \<and>
    (clientConn (shared s) = ConnClosedPipe \<longrightarrow> clientConn (shared s') = ConnClosedPipe \<and> frames (shared s') = frames (shared s))"
proof (cases "callers s ! i")
  case (ToLock m)
  then show ?thesis using assms by (intro exI [of _ "ToCheck m"] exI [of _ "s\<lparr>writerLock := Some i\<rparr>"]) (auto simp: caller_step_simps split: if_splits)
next
  case (ToCheck m)
  then show ?thesis using assms
    by (cases "IsConnected (shared s)"; intro exI [of _ "if IsConnected (shared s) then ToWrite m else Finished"]
        exI [of _ "if IsConnected (shared s) then s else unlocks s"]) (auto simp: caller_step_simps IsConnected_def)
next
  case (ToWrite m)
  then show ?thesis using assms
    by (cases "clientConn (shared s)"; intro exI [of _ "if clientConn (shared s) = ConnClosedPipe then ToMarkBroken else Finished"]
        exI [of _ "if clientConn (shared s) = ConnClosedPipe then s else s\<lparr>shared := shared s', writerLock := None\<rparr>"])
      (auto simp: caller_step_simps texts_def moves_def unlocks_def)
next
  case (ToCloseFrame code r)
  then show ?thesis using assms
    by (cases "clientConn (shared s)"; intro exI [of _ "if clientConn (shared s) = ConnOk then ToMark else Finished"]
        exI [of _ "s\<lparr>shared := shared s'\<rparr>"])
      (auto simp: caller_step_simps texts_def moves_def)
next
  case ToMarkBroken
  then show ?thesis using assms
    by (intro exI [of _ Finished] exI [of _ "s\<lparr>shared := shared s', writerLock := None\<rparr>"])
      (auto simp: caller_step_simps texts_def moves_def unlocks_def changeConnectionStateToClosed_def)
next
  case ToMark
  then show ?thesis using assms
    by (intro exI [of _ ToClose] exI [of _ "s\<lparr>shared := shared s'\<rparr>"])
      (auto simp: caller_step_simps texts_def moves_def changeConnectionStateToClosed_def)
next
  case ToClose
  then show ?thesis using assms
    by (intro exI [of _ Finished] exI [of _ "s\<lparr>shared := shared s'\<rparr>"]) (auto simp: caller_step_simps texts_def moves_def)
next
  case ToMarkRead
  then show ?thesis using assms
    by (intro exI [of _ Finished] exI [of _ "s\<lparr>shared := shared s'\<rparr>"])
      (auto simp: caller_step_simps texts_def moves_def changeConnectionStateToClosed_def)
next
  case Finished
  then show ?thesis using assms by (simp add: caller_step_simps)
qed

lemma late_texts_moves:
  assumes "lock_ok s" "i < length (callers s)" "callers t = callers s" "\<forall>m. pc \<noteq> ToWrite m"
  shows "late_texts (moves i pc t) + (if \<exists>m. callers s ! i = ToWrite m then 1 else 0) \<le> late_texts s"
proof -
  have "ToWrite m \<in> set ((callers s)[i := pc]) \<Longrightarrow> ToWrite m \<in> set (callers s)" for m
    using assms(4) set_update_subset_insert [of "callers s" i pc] by auto
  moreover have "ToWrite m' \<notin> set ((callers s)[i := pc])" if "callers s ! i = ToWrite m" for m m'
  proof -
    have "writerLock s = Some i" using assms(1,2) that by (auto simp: lock_ok_def holds_lock_def)
    then show ?thesis using assms by (fastforce simp: lock_ok_def in_set_conv_nth nth_list_update holds_lock_def)
  qed
  moreover have "callers s ! i = ToWrite m \<Longrightarrow> ToWrite m \<in> set (callers s)" for m
    using assms(2) by (metis nth_mem)
  ultimately show ?thesis using assms(3) by (auto simp: late_texts_def)
qed

text \<open>Once the connection is marked, a step writes at most the message of that writer.\<close>

lemma late_step:
  assumes "clients_step s s'" "lock_ok s" "isClosedConnection (shared s)"
  shows "isClosedConnection (shared s') \<and> texts (shared s') + late_texts s' \<le> texts (shared s) + late_texts s"
  using assms(1)
proof cases
  case (called pc)
  then show ?thesis using assms(3) by (auto simp: late_texts_def is_call_def)
next
  case (runs i)
  obtain pc t where e: "s' = moves i pc t" "callers t = callers s" "isClosedConnection (shared s')" "\<forall>m. pc \<noteq> ToWrite m"
    "texts (shared s') \<le> texts (shared s) + (if \<exists>m. callers s ! i = ToWrite m then 1 else 0)"
    using caller_step_effect [OF runs(2)] assms(3) by blast
  show ?thesis using late_texts_moves [OF assms(2) runs(1) e(2,4)] e(1,3,5) by simp
next
  case (peer conn)
  then show ?thesis using assms(3) by (simp add: late_texts_def texts_def)
qed

lemma late_steps:
  assumes "clients_step\<^sup>*\<^sup>* s s'" "lock_ok s" "isClosedConnection (shared s)"
  shows "lock_ok s' \<and> isClosedConnection (shared s') \<and> texts (shared s') + late_texts s' \<le> texts (shared s) + late_texts s"
  using assms
proof (induction rule: rtranclp_induct)
  case (step t u)
  then show ?case using late_step [OF step.hyps(2)] lock_ok_step [OF step.hyps(2)] by fastforce
qed simp

lemma closed_step:
  assumes "clients_step s s'" "clientConn (shared s) = ConnClosedPipe"
  shows "clientConn (shared s') = ConnClosedPipe \<and> frames (shared s') = frames (shared s)"
  using assms(1)
proof cases
  case (runs i)
  then show ?thesis using caller_step_effect [OF runs(2)] assms(2) by blast
qed (use assms(2) in simp_all)

lemma closed_steps:
  assumes "clients_step\<^sup>*\<^sup>* s s'" "clientConn (shared s) = ConnClosedPipe"
  shows "clientConn (shared s') = ConnClosedPipe \<and> frames (shared s') = frames (shared s)"
  using assms by (induction rule: rtranclp_induct) (simp_all add: closed_step)

section \<open>A message after the close frame\<close>

text \<open>A writer that has been told it is connected writes after the close frame, before the close.\<close>

lemma clients_run:
  "clients_reachable s \<Longrightarrow> i < length (callers s) \<Longrightarrow> caller_step i s = Some s' \<Longrightarrow> clients_reachable s'"
  by (rule clients_reachable.stepped [OF _ clients_step.runs])

lemma text_after_close:
  "\<exists>s. clients_reachable s \<and> frames (shared s) = [Close code r, Text m] \<and> isClosedConnection (shared s)"
proof -
  let ?s = "\<lambda>b w l x y. \<lparr>shared = \<lparr>isClosedConnection = b, clientConn = ConnOk, frames = w\<rparr>, writerLock = l, callers = [x, y]\<rparr>"
  have "clients_reachable \<lparr>shared = NewClient, writerLock = None, callers = [ToLock m]\<rparr>"
    using clients_reachable.stepped [OF clients_reachable.connected clients_step.called [of "ToLock m"]] by (simp add: is_call_def)
  from clients_reachable.stepped [OF this clients_step.called [of "ToCloseFrame code r"]]
  have "clients_reachable (?s False [] None (ToLock m) (ToCloseFrame code r))" by (simp add: is_call_def NewClient_def)
  from clients_run [OF this, of 0] have "clients_reachable (?s False [] (Some 0) (ToCheck m) (ToCloseFrame code r))"
    by (simp add: caller_ops)
  from clients_run [OF this, of 0] have "clients_reachable (?s False [] (Some 0) (ToWrite m) (ToCloseFrame code r))"
    by (simp add: caller_ops)
  from clients_run [OF this, of 1] have "clients_reachable (?s False [Close code r] (Some 0) (ToWrite m) ToMark)"
    by (simp add: caller_ops)
  from clients_run [OF this, of 1] have "clients_reachable (?s True [Close code r] (Some 0) (ToWrite m) ToClose)"
    by (simp add: caller_ops changeConnectionStateToClosed_def)
  from clients_run [OF this, of 0] have "clients_reachable (?s True [Close code r, Text m] None Finished ToClose)"
    by (simp add: caller_ops)
  then show ?thesis by fastforce
qed

end
