(* ===== verification/Flight_Table.thy ===== *)
theory Flight_Table
  imports Fetch_Tree "HOL-Library.Word" "HOL-Library.AList"
begin

text \<open>
  What the two single flights of \<open>v2/pkg/engine/resolve\<close> share
  (\<open>inbound_request_singleflight.go\<close>, \<open>subgraph_request_singleflight.go\<close>): the keys, with the hash
  (xxhash, a library) as an argument, the sharded table, and the election of a leader: the first to
  store a key leads, the others follow. The table's contract is the locale \<open>flight_table\<close>; the shards
  implement it.
\<close>

section \<open>Keys\<close>

definition PutUint64 :: "64 word \<Rightarrow> string" where
  "PutUint64 w = map (\<lambda>k. char_of (unat (drop_bit (8 * k) w) mod 256)) [0..<8]"

record InboundContext =
  DisableInboundRequestDeduplication :: bool
  RequestID :: "64 word"
  VariablesHash :: "64 word"
  HeadersHashAll :: "64 word option"

definition inbound_key :: "(string \<Rightarrow> 64 word) \<Rightarrow> InboundContext \<Rightarrow> 64 word" where
  "inbound_key hash ctx =
     (let hh = (case HeadersHashAll ctx of None \<Rightarrow> 0 | Some h \<Rightarrow> h) in
      hash (PutUint64 (RequestID ctx) @ PutUint64 (VariablesHash ctx) @ PutUint64 hh))"

text \<open>The response is given by its \<open>Info.OperationType\<close>; either pointer may be nil.\<close>

definition SingleFlightAllowed :: "OperationType option option \<Rightarrow> bool" where
  "SingleFlightAllowed g =
     (case g of None \<Rightarrow> False | Some None \<Rightarrow> False | Some (Some ot) \<Rightarrow> ot = OperationTypeQuery)"

text \<open>The first part of \<open>GetOrCreate\<close>: \<open>None\<close> when the request takes no part.\<close>

definition GetOrCreate_key :: "(string \<Rightarrow> 64 word) \<Rightarrow> InboundContext \<Rightarrow> OperationType option option \<Rightarrow> 64 word option" where
  "GetOrCreate_key hash ctx response =
     (if DisableInboundRequestDeduplication ctx then None
      else if \<not> SingleFlightAllowed response then None
      else Some (inbound_key hash ctx))"

definition computeSFKey :: "(string \<Rightarrow> 64 word) \<Rightarrow> 'v Fetch option option \<Rightarrow> string \<Rightarrow> 64 word \<Rightarrow> 64 word" where
  "computeSFKey hash fetchItem input extraKey =
     (let prefix = (case fetchItem of
            Some (Some fetch) \<Rightarrow> (case FetchInfo_of fetch of None \<Rightarrow> [] | Some info \<Rightarrow> DataSourceID info @ '':'')
          | _ \<Rightarrow> []) in
      hash (prefix @ input @ (if extraKey \<noteq> 0 then PutUint64 extraKey else [])))"

fun fetch_key_fields :: "bool \<Rightarrow> GraphCoordinate list \<Rightarrow> string" where
  "fetch_key_fields first [] = []"
| "fetch_key_fields first (f # fs) =
     (if first then [] else '','') @ TypeName f @ ''.'' @ FieldName f @ fetch_key_fields False fs"

definition computeFetchKey :: "(string \<Rightarrow> 64 word) \<Rightarrow> 'v Fetch option option \<Rightarrow> 64 word" where
  "computeFetchKey hash fetchItem =
     (case fetchItem of
        Some (Some fetch) \<Rightarrow>
          (case FetchInfo_of fetch of
             None \<Rightarrow> 0
           | Some info \<Rightarrow> hash (DataSourceID info @ ''|'' @ fetch_key_fields True (RootFields info)))
      | _ \<Rightarrow> 0)"

definition computeKeys :: "(string \<Rightarrow> 64 word) \<Rightarrow> 'v Fetch option option \<Rightarrow> string \<Rightarrow> 64 word \<Rightarrow> 64 word \<times> 64 word" where
  "computeKeys hash fetchItem input extraKey = (computeSFKey hash fetchItem input extraKey, computeFetchKey hash fetchItem)"

section \<open>Shards\<close>

text \<open>A shard's \<open>sync.Map\<close> from keys to pointers is an association list.\<close>

type_synonym shards = "((64 word \<times> nat) list) list"

definition NewRequestSingleFlight :: "int \<Rightarrow> shards" where
  "NewRequestSingleFlight shardCount = replicate (nat (if shardCount \<le> 0 then 8 else shardCount)) []"

definition NewSingleFlight :: "int \<Rightarrow> shards" where
  "NewSingleFlight shardCount = replicate (nat (if shardCount \<le> 0 then 4 else shardCount)) []"

definition shardFor :: "64 word \<Rightarrow> shards \<Rightarrow> nat" where
  "shardFor key ss = unat key mod length ss"

definition LoadOrStore :: "64 word \<Rightarrow> nat \<Rightarrow> shards \<Rightarrow> (nat \<times> bool) \<times> shards" where
  "LoadOrStore key p ss =
     (let i = shardFor key ss in
      case map_of (ss ! i) key of
        Some q \<Rightarrow> ((q, True), ss)
      | None \<Rightarrow> ((p, False), ss[i := AList.update key p (ss ! i)]))"

definition shard_Delete :: "64 word \<Rightarrow> shards \<Rightarrow> shards" where
  "shard_Delete key ss = (let i = shardFor key ss in ss[i := AList.delete key (ss ! i)])"

text \<open>Seen from outside the shards are one map.\<close>

definition shards_map :: "shards \<Rightarrow> 64 word \<rightharpoonup> nat" where
  "shards_map ss key = map_of (ss ! shardFor key ss) key"

lemma shardFor_less: "ss \<noteq> [] \<Longrightarrow> shardFor key ss < length ss"
  by (simp add: shardFor_def)

lemma shards_map_update:
  "ss \<noteq> [] \<Longrightarrow> shards_map (ss[shardFor key ss := AList.update key p (ss ! shardFor key ss)]) = (shards_map ss)(key \<mapsto> p)"
proof (rule ext)
  fix k assume ne: "ss \<noteq> []"
  have len: "shardFor k (ss[shardFor key ss := xs]) = shardFor k ss" for xs by (simp add: shardFor_def)
  show "shards_map (ss[shardFor key ss := AList.update key p (ss ! shardFor key ss)]) k = ((shards_map ss)(key \<mapsto> p)) k"
    using shardFor_less [OF ne, of k] shardFor_less [OF ne, of key]
    by (cases "shardFor k ss = shardFor key ss") (auto simp: shards_map_def len update_conv' shardFor_def)
qed

lemma shards_map_delete:
  "ss \<noteq> [] \<Longrightarrow> shards_map (shard_Delete key ss) = (shards_map ss)(key := None)"
proof (rule ext)
  fix k assume ne: "ss \<noteq> []"
  have len: "shardFor k (ss[shardFor key ss := xs]) = shardFor k ss" for xs by (simp add: shardFor_def)
  show "shards_map (shard_Delete key ss) k = ((shards_map ss)(key := None)) k"
    using shardFor_less [OF ne, of k] shardFor_less [OF ne, of key]
    by (cases "shardFor k ss = shardFor key ss") (auto simp: shards_map_def shard_Delete_def Let_def len delete_conv' shardFor_def)
qed

lemma LoadOrStore_map:
  assumes "ss \<noteq> []"
  shows "LoadOrStore key p ss = (((case shards_map ss key of Some q \<Rightarrow> (q, True) | None \<Rightarrow> (p, False))), snd (LoadOrStore key p ss)) \<and>
    shards_map (snd (LoadOrStore key p ss)) = (case shards_map ss key of Some q \<Rightarrow> shards_map ss | None \<Rightarrow> (shards_map ss)(key \<mapsto> p))"
  using shards_map_update [OF assms, of key p]
  by (auto simp: LoadOrStore_def Let_def shards_map_def [of ss key] split: option.splits)

lemma shards_nonempty [simp]:
  "NewRequestSingleFlight n \<noteq> []" "NewSingleFlight n \<noteq> []" "shard_Delete key ss = [] \<longleftrightarrow> ss = []"
  "snd (LoadOrStore key p ss) = [] \<longleftrightarrow> ss = []"
  by (auto simp: NewRequestSingleFlight_def NewSingleFlight_def shard_Delete_def LoadOrStore_def Let_def split: option.splits)

lemma LoadOrStore_found: "shards_map ss key = Some q \<Longrightarrow> LoadOrStore key p ss = ((q, True), ss)"
  by (simp add: LoadOrStore_def shards_map_def Let_def)

lemma LoadOrStore_fresh:
  assumes "ss \<noteq> []" "shards_map ss key = None"
  obtains ss' where "LoadOrStore key p ss = ((p, False), ss')" "shards_map ss' = (shards_map ss)(key \<mapsto> p)" "ss' \<noteq> []"
  using that [of "snd (LoadOrStore key p ss)"] LoadOrStore_map [OF assms(1), of key p] assms by simp

lemma shards_map_replicate: "0 < m \<Longrightarrow> shards_map (replicate m []) = Map.empty"
proof (rule ext)
  fix k :: "64 word" assume "0 < m"
  then have "shardFor k (replicate m []) < m" using shardFor_less [of "replicate m []" k] by simp
  then show "shards_map (replicate m []) k = None" by (simp add: shards_map_def)
qed

lemma shards_map_new [simp]: "shards_map (NewRequestSingleFlight n) = Map.empty" "shards_map (NewSingleFlight n) = Map.empty"
  unfolding NewRequestSingleFlight_def NewSingleFlight_def by (rule shards_map_replicate, simp)+

section \<open>Electing a leader\<close>

text \<open>
  Items are numbered in the order they are made, with their keys in \<open>ids\<close>; \<open>leads\<close> and \<open>stored\<close> say
  of a goroutine's place in the code which item it leads and whether that is still in the table. Each
  item has one leader, and the table has exactly the stored ones.
\<close>

definition elected :: "('pc \<Rightarrow> nat option) \<Rightarrow> ('pc \<Rightarrow> bool) \<Rightarrow> ('k \<rightharpoonup> nat) \<Rightarrow> 'k list \<Rightarrow> 'pc list \<Rightarrow> bool" where
  "elected leads stored m ids ps \<longleftrightarrow>
     (\<forall>p < length ids. \<exists>i < length ps. leads (ps ! i) = Some p) \<and>
     (\<forall>i < length ps. \<forall>j < length ps. \<forall>p. leads (ps ! i) = Some p \<longrightarrow> leads (ps ! j) = Some p \<longrightarrow> i = j) \<and>
     (\<forall>i < length ps. \<forall>p. leads (ps ! i) = Some p \<longrightarrow> p < length ids) \<and>
     (\<forall>k p. m k = Some p \<longleftrightarrow>
        p < length ids \<and> ids ! p = k \<and> (\<exists>i < length ps. leads (ps ! i) = Some p \<and> stored (ps ! i)))"

lemma electedD:
  assumes "elected leads stored m ids ps"
  shows elected_leader: "p < length ids \<Longrightarrow> \<exists>i < length ps. leads (ps ! i) = Some p"
    and elected_unique: "i < length ps \<Longrightarrow> j < length ps \<Longrightarrow> leads (ps ! i) = Some p \<Longrightarrow> leads (ps ! j) = Some p \<Longrightarrow> i = j"
    and elected_less: "i < length ps \<Longrightarrow> leads (ps ! i) = Some p \<Longrightarrow> p < length ids"
    and elected_map: "m k = Some p \<longleftrightarrow>
        p < length ids \<and> ids ! p = k \<and> (\<exists>i < length ps. leads (ps ! i) = Some p \<and> stored (ps ! i))"
  using assms unfolding elected_def by blast+

lemma electedI:
  assumes "\<And>p. p < length ids \<Longrightarrow> \<exists>i < length ps. leads (ps ! i) = Some p"
    and "\<And>i j p. i < length ps \<Longrightarrow> j < length ps \<Longrightarrow> leads (ps ! i) = Some p \<Longrightarrow> leads (ps ! j) = Some p \<Longrightarrow> i = j"
    and "\<And>i p. i < length ps \<Longrightarrow> leads (ps ! i) = Some p \<Longrightarrow> p < length ids"
    and "\<And>k p. m k = Some p \<longleftrightarrow>
        p < length ids \<and> ids ! p = k \<and> (\<exists>i < length ps. leads (ps ! i) = Some p \<and> stored (ps ! i))"
  shows "elected leads stored m ids ps"
  using assms unfolding elected_def by blast

lemma ex_list_update:
  "i < length xs \<Longrightarrow> (\<exists>j < length xs. P (xs[i := x] ! j)) \<longleftrightarrow> P x \<or> (\<exists>j < length xs. j \<noteq> i \<and> P (xs ! j))"
  by (metis nth_list_update_eq nth_list_update_neq)

lemma all_list_update:
  "i < length xs \<Longrightarrow> P x \<Longrightarrow> (\<And>j. j < length xs \<Longrightarrow> j \<noteq> i \<Longrightarrow> P (xs ! j)) \<Longrightarrow> \<forall>j < length xs. P (xs[i := x] ! j)"
  by (auto simp: nth_list_update)

lemma elected_move:
  assumes e: "elected leads stored m ids ps" and i: "i < length ps"
    and l: "leads (ps ! i) = leads pc" and st: "leads pc = None \<or> stored (ps ! i) = stored pc"
  shows "elected leads stored m ids (ps[i := pc])"
proof -
  have ld: "leads (ps[i := pc] ! j) = leads (ps ! j)" for j using i l by (cases "j = i") auto
  have sd: "leads (ps[i := pc] ! j) = Some p \<Longrightarrow> stored (ps[i := pc] ! j) = stored (ps ! j)" for j p
    using i l st by (cases "j = i") auto
  have ex: "(\<exists>j < length ps. leads (ps[i := pc] ! j) = Some p \<and> stored (ps[i := pc] ! j)) \<longleftrightarrow>
      (\<exists>j < length ps. leads (ps ! j) = Some p \<and> stored (ps ! j))" for p
    using ld sd by metis
  show ?thesis
  proof (rule electedI, goal_cases)
    case (1 p) then show ?case using elected_leader [OF e, of p] by (simp only: length_list_update ld)
  next
    case (2 x y p) then show ?case using elected_unique [OF e, of x y p] by (simp only: length_list_update ld)
  next
    case (3 x p) then show ?case using elected_less [OF e, of x p] by (simp only: length_list_update ld)
  next
    case (4 k p) then show ?case using elected_map [OF e, of k p] by (simp only: length_list_update ex)
  qed
qed

locale flight_table =
  fixes view :: "'t \<Rightarrow> 'k \<Rightarrow> nat option"
    and store :: "'k \<Rightarrow> nat \<Rightarrow> 't \<Rightarrow> (nat \<times> bool) \<times> 't"
    and remove :: "'k \<Rightarrow> 't \<Rightarrow> 't"
    and usable :: "'t \<Rightarrow> bool"
  assumes store_found: "usable t \<Longrightarrow> view t k = Some q \<Longrightarrow> store k p t = ((q, True), t)"
    and store_new: "usable t \<Longrightarrow> view t k = None \<Longrightarrow> fst (store k p t) = (p, False)"
    and store_view: "usable t \<Longrightarrow> view t k = None \<Longrightarrow> view (snd (store k p t)) = (view t)(k \<mapsto> p)"
    and remove_view: "usable t \<Longrightarrow> view (remove k t) = (view t)(k := None)"
    and usable_store: "usable t \<Longrightarrow> usable (snd (store k p t))"
    and usable_remove: "usable t \<Longrightarrow> usable (remove k t)"
begin

lemma elected_remove:
  assumes t: "usable t" and e: "elected leads stored (view t) ids ps" and i: "i < length ps"
    and l: "leads (ps ! i) = Some p" "leads pc = Some p" and st: "stored (ps ! i)" "\<not> stored pc"
  shows "elected leads stored (view (remove (ids ! p) t)) ids (ps[i := pc])"
proof -
  have p: "p < length ids" using elected_less [OF e i l(1)] .
  have ld: "leads (ps[i := pc] ! j) = leads (ps ! j)" for j using i l by (cases "j = i") auto
  have here: "view t (ids ! p) = Some p" using elected_map [OF e, of "ids ! p" p] p i l st by auto
  have sd: "(\<exists>j < length ps. leads (ps[i := pc] ! j) = Some q \<and> stored (ps[i := pc] ! j)) \<longleftrightarrow>
      q \<noteq> p \<and> (\<exists>j < length ps. leads (ps ! j) = Some q \<and> stored (ps ! j))" for q
  proof -
    have "j \<noteq> i \<and> leads (ps ! j) = Some q \<longleftrightarrow> q \<noteq> p \<and> leads (ps ! j) = Some q" if "j < length ps" for j
      using elected_unique [OF e that i, of p] l by (cases "j = i") auto
    then show ?thesis using ex_list_update [OF i, of "\<lambda>pc. leads pc = Some q \<and> stored pc" pc] st by (simp cong: conj_cong) blast
  qed
  have map': "view (remove (ids ! p) t) k = Some q \<longleftrightarrow> q \<noteq> p \<and> view t k = Some q" for k q
    using here elected_map [OF e, of k p] unfolding remove_view [OF t] by (cases "k = ids ! p") auto
  show ?thesis
  proof (rule electedI, goal_cases)
    case (1 q) then show ?case using elected_leader [OF e, of q] by (simp only: length_list_update ld)
  next
    case (2 x y q) then show ?case using elected_unique [OF e, of x y q] by (simp only: length_list_update ld)
  next
    case (3 x q) then show ?case using elected_less [OF e, of x q] by (simp only: length_list_update ld)
  next
    case (4 k q) then show ?case using elected_map [OF e, of k q] by (simp only: length_list_update sd map') blast
  qed
qed

lemma elected_store:
  assumes t: "usable t" and e: "elected leads stored (view t) ids ps" and i: "i < length ps"
    and none: "view t key = None" and l: "leads (ps ! i) = None" "leads pc = Some (length ids)" and st: "stored pc"
  shows "elected leads stored (view (snd (store key (length ids) t))) (ids @ [key]) (ps[i := pc])"
proof (rule electedI, goal_cases)
  case (1 q)
  then show ?case using elected_leader [OF e, of q] ex_list_update [OF i, of "\<lambda>pc. leads pc = Some q" pc] l
    by (cases "q = length ids") auto
next
  case (2 x y q)
  then show ?case using elected_unique [OF e, of x y q] elected_less [OF e, of x q] elected_less [OF e, of y q] l
    by (cases "x = i"; cases "y = i") auto
next
  case (3 x q)
  then show ?case using elected_less [OF e, of x q] l by (cases "x = i") auto
next
  case (4 k q)
  show ?case
    using elected_map [OF e, of k q] elected_map [OF e, of key q] none l st
      ex_list_update [OF i, of "\<lambda>pc. leads pc = Some q \<and> stored pc" pc]
    by (cases "q = length ids") (auto simp: store_view [OF t none] nth_append)
qed

text \<open>Who finds an item in the table follows one whose leader has not removed it.\<close>

lemma elected_found:
  assumes "elected leads stored (view t) ids ps" "view t key = Some p"
  shows "\<exists>i < length ps. leads (ps ! i) = Some p \<and> stored (ps ! i)" "p < length ids" "ids ! p = key"
  using elected_map [OF assms(1), of key p] assms(2) by auto

end

interpretation sh: flight_table shards_map LoadOrStore shard_Delete "\<lambda>ss. ss \<noteq> []"
proof unfold_locales
  fix t k p assume t: "t \<noteq> []" and n: "shards_map t k = None"
  obtain t' where "LoadOrStore k p t = ((p, False), t')" "shards_map t' = (shards_map t)(k \<mapsto> p)"
    by (rule LoadOrStore_fresh [OF t n])
  then show "fst (LoadOrStore k p t) = (p, False)" "shards_map (snd (LoadOrStore k p t)) = (shards_map t)(k \<mapsto> p)" by simp_all
qed (simp_all add: LoadOrStore_found shards_map_delete)

end
