(* ===== verification/Flight_Keys.thy ===== *)
theory Flight_Keys
  imports Flight_Table
begin

text \<open>
  What the keys of the single flights tell apart, and the shards seen as one map. A key is a hash of
  a byte string; two requests have the same key under every hash exactly when the strings agree.
\<close>

section \<open>Byte strings\<close>

lemma length_PutUint64 [simp]: "length (PutUint64 w) = 8"
  by (simp add: PutUint64_def)

lemma PutUint64_nth: "k < 8 \<Longrightarrow> of_char (PutUint64 w ! k) = unat (drop_bit (8 * k) w) mod (256 :: nat)"
  by (simp add: PutUint64_def)

lemma bit_of_byte: "j < 8 \<Longrightarrow> bit (unat (drop_bit (8 * k) (w :: 64 word)) mod 256) j = bit w (8 * k + j)"
  using bit_take_bit_iff [of 8 "unat (drop_bit (8 * k) w)" j]
  by (simp add: take_bit_eq_mod bit_unsigned_iff bit_drop_bit_eq)

lemma PutUint64_inject [simp]: "PutUint64 v = PutUint64 w \<longleftrightarrow> v = w"
proof
  assume eq: "PutUint64 v = PutUint64 w"
  have "bit v n = bit w n" if n: "n < 64" for n
  proof -
    have "n = 8 * (n div 8) + n mod 8" "n div 8 < 8" "n mod 8 < 8" using n by auto
    then show ?thesis
      using bit_of_byte [of "n mod 8" "n div 8" v] bit_of_byte [of "n mod 8" "n div 8" w]
        PutUint64_nth [of "n div 8" v] PutUint64_nth [of "n div 8" w] eq by metis
  qed
  then show "v = w" by (intro bit_word_eqI) simp
qed simp

text \<open>Any two different strings are told apart by some hash.\<close>

lemma all_hashes: "(\<forall>hash :: string \<Rightarrow> 64 word. hash s = hash t) \<longleftrightarrow> s = t"
proof
  assume "\<forall>hash :: string \<Rightarrow> 64 word. hash s = hash t"
  then have "(if s = s then 0 else 1 :: 64 word) = (if t = s then 0 else 1)" by (rule allE [of _ "\<lambda>x. if x = s then 0 else 1"])
  then show "s = t" by (simp split: if_splits)
qed simp

lemma append_colon_inject:
  "CHR '':'' \<notin> set a \<Longrightarrow> CHR '':'' \<notin> set b \<Longrightarrow> a @ '':'' @ x = b @ '':'' @ y \<longleftrightarrow> a = b \<and> x = y"
  by (induction a arbitrary: b; case_tac b) auto

definition headers_hash :: "InboundContext \<Rightarrow> 64 word" where
  "headers_hash ctx = (case HeadersHashAll ctx of None \<Rightarrow> 0 | Some h \<Rightarrow> h)"

lemma inbound_key_identifies:
  "(\<forall>hash. inbound_key hash c1 = inbound_key hash c2) \<longleftrightarrow>
   RequestID c1 = RequestID c2 \<and> VariablesHash c1 = VariablesHash c2 \<and> headers_hash c1 = headers_hash c2"
  unfolding inbound_key_def Let_def all_hashes headers_hash_def [symmetric] by (auto simp: append_eq_append_conv)

lemma computeSFKey_identifies:
  assumes "FetchInfo_of f1 = Some i1" "FetchInfo_of f2 = Some i2"
    and "CHR '':'' \<notin> set (DataSourceID i1)" "CHR '':'' \<notin> set (DataSourceID i2)" "e1 \<noteq> 0" "e2 \<noteq> 0"
  shows "(\<forall>hash. computeSFKey hash (Some (Some f1)) in1 e1 = computeSFKey hash (Some (Some f2)) in2 e2) \<longleftrightarrow>
    DataSourceID i1 = DataSourceID i2 \<and> in1 = in2 \<and> e1 = e2"
  using assms unfolding computeSFKey_def Let_def all_hashes
  by (simp add: append_colon_inject [simplified] append_eq_append_conv)

text \<open>The identifier \<open>a\<close> with input \<open>:b\<close>, and the identifier \<open>a:\<close> with input \<open>b\<close>.\<close>

lemma computeSFKey_collides:
  assumes "FetchInfo_of f1 = Some i1" "FetchInfo_of f2 = Some i2" "DataSourceID i1 = ds" "DataSourceID i2 = ds @ '':''"
  shows "computeSFKey hash (Some (Some f1)) ('':'' @ inp) e = computeSFKey hash (Some (Some f2)) inp e"
  using assms by (simp add: computeSFKey_def)

section \<open>Operations on the table\<close>

datatype table_op = OpStore "64 word" nat | OpDelete "64 word"

fun run_shards :: "table_op list \<Rightarrow> shards \<Rightarrow> (nat \<times> bool) list" where
  "run_shards [] ss = []"
| "run_shards (OpStore k p # ops) ss = (case LoadOrStore k p ss of (r, ss') \<Rightarrow> r # run_shards ops ss')"
| "run_shards (OpDelete k # ops) ss = run_shards ops (shard_Delete k ss)"

text \<open>The abstract table is one map.\<close>

fun run_map :: "table_op list \<Rightarrow> (64 word \<rightharpoonup> nat) \<Rightarrow> (nat \<times> bool) list" where
  "run_map [] m = []"
| "run_map (OpStore k p # ops) m =
     (case m k of Some q \<Rightarrow> (q, True) # run_map ops m | None \<Rightarrow> (p, False) # run_map ops (m(k \<mapsto> p)))"
| "run_map (OpDelete k # ops) m = run_map ops (m(k := None))"

lemma run_shards_map: "ss \<noteq> [] \<Longrightarrow> run_shards ops ss = run_map ops (shards_map ss)"
proof (induction ops arbitrary: ss)
  case (Cons x ops)
  show ?case
  proof (cases x)
    case (OpStore k p)
    show ?thesis
    proof (cases "shards_map ss k")
      case None
      obtain ss' where "LoadOrStore k p ss = ((p, False), ss')" "shards_map ss' = (shards_map ss)(k \<mapsto> p)" "ss' \<noteq> []"
        by (rule LoadOrStore_fresh [OF Cons.prems None])
      then show ?thesis using Cons.IH [of ss'] OpStore None by (simp del: fun_upd_apply)
    next
      case (Some q)
      then show ?thesis using Cons OpStore LoadOrStore_found [OF Some] by simp
    qed
  next
    case (OpDelete k)
    then show ?thesis using Cons sh.remove_view [OF Cons.prems, of k] by (simp del: fun_upd_apply)
  qed
qed simp

end
