(* ===== verification/Inbound_Flight.thy ===== *)
theory Inbound_Flight
  imports Flight_Table
begin

text \<open>
  The single flight of inbound requests: \<open>v2/pkg/engine/resolve/inbound_request_singleflight.go\<close> and
  its use in \<open>ArenaResolveGraphQLResponse\<close> of \<open>resolve.go\<close>. A pointer to a shared request is an index
  into a heap; each goroutine has a program counter that names its next atomic operation, and
  \<open>inbound_step\<close> interleaves them.
\<close>

section \<open>Inbound requests\<close>

record InflightRequest =
  Done :: bool
  Data :: "string option"
  SharedData :: "string option"
  ReqErr :: "string option"
  ReqID :: "64 word"
  followerCount :: nat

definition new_request :: "64 word \<Rightarrow> InflightRequest" where
  "new_request key = \<lparr>Done = False, Data = None, SharedData = None, ReqErr = None, ReqID = key, followerCount = 0\<rparr>"

definition AddFollower :: "InflightRequest \<Rightarrow> InflightRequest" where
  "AddFollower r = r\<lparr>followerCount := followerCount r + 1\<rparr>"

definition HasFollowers :: "InflightRequest \<Rightarrow> bool" where
  "HasFollowers r \<longleftrightarrow> followerCount r > 0"

text \<open>
  Where a goroutine of \<open>ArenaResolveGraphQLResponse\<close> is: before \<open>GetOrCreate\<close> (with its key, if
  it takes part), between \<open>LoadOrStore\<close> and \<open>AddFollower\<close>, in the \<open>select\<close>, resolving the
  response itself, before \<open>SharedData\<close> is set, at the operations of \<open>FinishOk\<close> and \<open>FinishErr\<close>,
  or at the end. A leader that has rendered its response carries the error of writing it to its own
  client, if any, which it returns after \<open>FinishOk\<close>: \<open>LeaderWriteErr\<close>. A follower either returns the
  error of the request, or writes the data of the request, after applying the shared data, and
  returns the error of its own write, if any. \<open>FollowerCancelled\<close> is a follower that returns the
  error of its own context.
\<close>

datatype PC =
  Fresh "64 word option"
| Joined nat
| Waiting nat
| Resolving "nat option"
| OkShare nat string "string option"
| OkDelete nat string "string option"
| OkCopy nat string "string option"
| OkClose nat string "string option"
| ErrDelete nat string
| ErrSet nat string
| ErrClose nat string
| ReturnedLeader "nat option" "(string, string) result"
| LeaderWriteErr nat string string
| ReturnedFollower nat "(string, string \<times> string option \<times> string option) result"
| FollowerCancelled nat string
| Panicked

record Inbound =
  in_shards :: shards
  heap :: "InflightRequest list"
  procs :: "PC list"

definition set_pc :: "nat \<Rightarrow> PC \<Rightarrow> Inbound \<Rightarrow> Inbound" where
  "set_pc i pc s = s\<lparr>procs := (procs s)[i := pc]\<rparr>"

definition set_req :: "nat \<Rightarrow> InflightRequest \<Rightarrow> Inbound \<Rightarrow> Inbound" where
  "set_req p r s = s\<lparr>heap := (heap s)[p := r]\<rparr>"

text \<open>\<open>LoadOrStore\<close> of \<open>GetOrCreate\<close>; a new request makes the goroutine the leader.\<close>

definition GetOrCreate_store :: "nat \<Rightarrow> 64 word \<Rightarrow> Inbound \<Rightarrow> Inbound" where
  "GetOrCreate_store i key s =
     (case LoadOrStore key (length (heap s)) (in_shards s) of
        ((p, True), ss) \<Rightarrow> set_pc i (Joined p) (s\<lparr>in_shards := ss\<rparr>)
      | ((p, False), ss) \<Rightarrow>
          set_pc i (Resolving (Some p)) (s\<lparr>in_shards := ss, heap := heap s @ [new_request key]\<rparr>))"

definition GetOrCreate_add :: "nat \<Rightarrow> nat \<Rightarrow> Inbound \<Rightarrow> Inbound" where
  "GetOrCreate_add i p s = set_pc i (Waiting p) (set_req p (AddFollower (heap s ! p)) s)"

text \<open>
  The \<open>select\<close> when the channel is closed, and what \<open>ArenaResolveGraphQLResponse\<close> does with the
  result: a request without data is taken for an own one. \<open>w\<close> is the error of \<open>writer.Write\<close>.
\<close>

definition follower_wakes :: "nat \<Rightarrow> nat \<Rightarrow> string option \<Rightarrow> Inbound \<Rightarrow> Inbound" where
  "follower_wakes i p w s =
     (case ReqErr (heap s ! p) of
        Some e \<Rightarrow> set_pc i (ReturnedFollower p (Inl e)) s
      | None \<Rightarrow> (case Data (heap s ! p) of
            Some d \<Rightarrow> set_pc i (ReturnedFollower p (Inr (d, SharedData (heap s ! p), w))) s
          | None \<Rightarrow> set_pc i (Resolving (Some p)) s))"

text \<open>\<open>Delete\<close>, the first operation of \<open>FinishOk\<close> and \<open>FinishErr\<close>.\<close>

definition Finish_delete :: "nat \<Rightarrow> nat \<Rightarrow> PC \<Rightarrow> Inbound \<Rightarrow> Inbound" where
  "Finish_delete i p pc s = set_pc i pc (s\<lparr>in_shards := shard_Delete (ReqID (heap s ! p)) (in_shards s)\<rparr>)"

definition FinishOk_copy :: "nat \<Rightarrow> nat \<Rightarrow> string \<Rightarrow> string option \<Rightarrow> Inbound \<Rightarrow> Inbound" where
  "FinishOk_copy i p d w s =
     set_pc i (OkClose p d w) (if HasFollowers (heap s ! p) then set_req p ((heap s ! p)\<lparr>Data := Some d\<rparr>) s else s)"

definition FinishErr_set :: "nat \<Rightarrow> nat \<Rightarrow> string \<Rightarrow> Inbound \<Rightarrow> Inbound" where
  "FinishErr_set i p e s = set_pc i (ErrClose p e) (set_req p ((heap s ! p)\<lparr>ReqErr := Some e\<rparr>) s)"

text \<open>The end of \<open>ArenaResolveGraphQLResponse\<close> after \<open>FinishOk\<close>: the error of the earlier write is returned.\<close>

definition leader_returns :: "nat \<Rightarrow> string \<Rightarrow> string option \<Rightarrow> PC" where
  "leader_returns p d w = (case w of None \<Rightarrow> ReturnedLeader (Some p) (Inr d) | Some e \<Rightarrow> LeaderWriteErr p d e)"

text \<open>\<open>close(req.Done)\<close> panics on a closed channel; otherwise the goroutine returns (\<open>pc\<close>).\<close>

definition close_done :: "nat \<Rightarrow> nat \<Rightarrow> PC \<Rightarrow> Inbound \<Rightarrow> Inbound" where
  "close_done i p pc s =
     (if Done (heap s ! p) then set_pc i Panicked s
      else set_pc i pc (set_req p ((heap s ! p)\<lparr>Done := True\<rparr>) s))"

definition at :: "Inbound \<Rightarrow> nat \<Rightarrow> PC \<Rightarrow> bool" where
  "at s i pc \<longleftrightarrow> i < length (procs s) \<and> procs s ! i = pc"

text \<open>
  One atomic operation of one goroutine. What resolving and writing give (\<open>resolves\<close> with the error \<open>w\<close>
  of \<open>writer.Write\<close>, \<open>fails\<close>, \<open>alone\<close>, and \<open>wakes\<close> with the follower's own write), whether the caller's
  context ends and with which error (\<open>cancelled\<close>) and the shared data (\<open>share\<close>; \<open>share_none\<close> without
  \<open>GetDeduplicationData\<close>) are free.
\<close>

inductive inbound_step :: "Inbound \<Rightarrow> Inbound \<Rightarrow> bool" where
  not_eligible: "at s i (Fresh None) \<Longrightarrow> inbound_step s (set_pc i (Resolving None) s)"
| store: "at s i (Fresh (Some key)) \<Longrightarrow> inbound_step s (GetOrCreate_store i key s)"
| add: "at s i (Joined p) \<Longrightarrow> inbound_step s (GetOrCreate_add i p s)"
| wakes: "at s i (Waiting p) \<Longrightarrow> Done (heap s ! p) \<Longrightarrow> inbound_step s (follower_wakes i p w s)"
| cancelled: "at s i (Waiting p) \<Longrightarrow> inbound_step s (set_pc i (FollowerCancelled p e) s)"
| alone: "at s i (Resolving None) \<Longrightarrow> inbound_step s (set_pc i (ReturnedLeader None r) s)"
| resolves: "at s i (Resolving (Some p)) \<Longrightarrow> inbound_step s (set_pc i (OkShare p d w) s)"
| fails: "at s i (Resolving (Some p)) \<Longrightarrow> inbound_step s (set_pc i (ErrDelete p e) s)"
| share: "at s i (OkShare p d w) \<Longrightarrow> inbound_step s (set_pc i (OkDelete p d w) (set_req p ((heap s ! p)\<lparr>SharedData := sd\<rparr>) s))"
| share_none: "at s i (OkShare p d w) \<Longrightarrow> inbound_step s (set_pc i (OkDelete p d w) s)"
| ok_delete: "at s i (OkDelete p d w) \<Longrightarrow> inbound_step s (Finish_delete i p (OkCopy p d w) s)"
| ok_copy: "at s i (OkCopy p d w) \<Longrightarrow> inbound_step s (FinishOk_copy i p d w s)"
| ok_close: "at s i (OkClose p d w) \<Longrightarrow> inbound_step s (close_done i p (leader_returns p d w) s)"
| err_delete: "at s i (ErrDelete p e) \<Longrightarrow> inbound_step s (Finish_delete i p (ErrSet p e) s)"
| err_set: "at s i (ErrSet p e) \<Longrightarrow> inbound_step s (FinishErr_set i p e s)"
| err_close: "at s i (ErrClose p e) \<Longrightarrow> inbound_step s (close_done i p (ReturnedLeader (Some p) (Inl e)) s)"

definition inbound_init :: "int \<Rightarrow> 64 word option list \<Rightarrow> Inbound" where
  "inbound_init shardCount keys = \<lparr>in_shards = NewRequestSingleFlight shardCount, heap = [], procs = map Fresh keys\<rparr>"

inductive inbound_reachable :: "int \<Rightarrow> 64 word option list \<Rightarrow> Inbound \<Rightarrow> bool" for n keys where
  start: "inbound_reachable n keys (inbound_init n keys)"
| step: "inbound_reachable n keys s \<Longrightarrow> inbound_step s s' \<Longrightarrow> inbound_reachable n keys s'"

text \<open>
  The runs in which a follower that has found a request is counted before the leader looks at the
  count: no goroutine is between \<open>LoadOrStore\<close> and \<open>AddFollower\<close> once the leader is past
  \<open>HasFollowers\<close>. The code does not enforce this.
\<close>

definition counted :: "Inbound \<Rightarrow> bool" where
  "counted s \<longleftrightarrow> (\<forall>i < length (procs s). case procs s ! i of OkClose p d w \<Rightarrow> Joined p \<notin> set (procs s) | _ \<Rightarrow> True)"

inductive counted_run :: "int \<Rightarrow> 64 word option list \<Rightarrow> Inbound \<Rightarrow> bool" for n keys where
  counted_start: "counted_run n keys (inbound_init n keys)"
| counted_next: "counted_run n keys s \<Longrightarrow> inbound_step s s' \<Longrightarrow> counted s' \<Longrightarrow> counted_run n keys s'"

end
