(* ===== verification/Inbound_Invariants.thy ===== *)
theory Inbound_Invariants
  imports Inbound_Flight
begin

text \<open>
  What the single flight of inbound requests keeps. \<open>flight_inv\<close>: every request has exactly one
  leader, the table holds exactly the requests whose leader has not deleted them yet, and each
  goroutine agrees with its request. It holds along every counted run; without that restriction a
  goroutine can close a channel twice.
\<close>

section \<open>The invariant\<close>

fun leads :: "PC \<Rightarrow> nat option" where
  "leads (Resolving p) = p"
| "leads (OkShare p d w) = Some p"
| "leads (OkDelete p d w) = Some p"
| "leads (OkCopy p d w) = Some p"
| "leads (OkClose p d w) = Some p"
| "leads (ErrDelete p e) = Some p"
| "leads (ErrSet p e) = Some p"
| "leads (ErrClose p e) = Some p"
| "leads (ReturnedLeader p r) = p"
| "leads (LeaderWriteErr p d e) = Some p"
| "leads _ = None"

text \<open>Before the leader's \<open>Delete\<close>.\<close>

fun stored :: "PC \<Rightarrow> bool" where
  "stored (Resolving p) = True"
| "stored (OkShare p d w) = True"
| "stored (OkDelete p d w) = True"
| "stored (ErrDelete p e) = True"
| "stored _ = False"

definition unset :: "InflightRequest \<Rightarrow> bool" where
  "unset r \<longleftrightarrow> \<not> Done r \<and> Data r = None \<and> ReqErr r = None"

definition has_data :: "InflightRequest \<Rightarrow> string \<Rightarrow> bool" where
  "has_data r d \<longleftrightarrow> ReqErr r = None \<and> (HasFollowers r \<longrightarrow> Data r = Some d)"

fun pc_ok :: "InflightRequest list \<Rightarrow> PC \<Rightarrow> bool" where
  "pc_ok h (Fresh k) = True"
| "pc_ok h (Joined p) = (p < length h \<and> (Done (h ! p) \<longrightarrow> ReqErr (h ! p) \<noteq> None))"
| "pc_ok h (Waiting p) = (p < length h \<and> HasFollowers (h ! p))"
| "pc_ok h (Resolving None) = True"
| "pc_ok h (Resolving (Some p)) = (p < length h \<and> unset (h ! p))"
| "pc_ok h (OkShare p d w) = (p < length h \<and> unset (h ! p))"
| "pc_ok h (OkDelete p d w) = (p < length h \<and> unset (h ! p))"
| "pc_ok h (OkCopy p d w) = (p < length h \<and> unset (h ! p))"
| "pc_ok h (OkClose p d w) = (p < length h \<and> \<not> Done (h ! p) \<and> has_data (h ! p) d)"
| "pc_ok h (ErrDelete p e) = (p < length h \<and> unset (h ! p))"
| "pc_ok h (ErrSet p e) = (p < length h \<and> unset (h ! p))"
| "pc_ok h (ErrClose p e) = (p < length h \<and> \<not> Done (h ! p) \<and> ReqErr (h ! p) = Some e)"
| "pc_ok h (ReturnedLeader None r) = True"
| "pc_ok h (ReturnedLeader (Some p) (Inr d)) = (p < length h \<and> Done (h ! p) \<and> has_data (h ! p) d)"
| "pc_ok h (ReturnedLeader (Some p) (Inl e)) = (p < length h \<and> Done (h ! p) \<and> ReqErr (h ! p) = Some e)"
| "pc_ok h (LeaderWriteErr p d e) = (p < length h \<and> Done (h ! p) \<and> has_data (h ! p) d)"
| "pc_ok h (ReturnedFollower p (Inr (d, sd, w))) =
     (p < length h \<and> Done (h ! p) \<and> ReqErr (h ! p) = None \<and> HasFollowers (h ! p) \<and> Data (h ! p) = Some d \<and> SharedData (h ! p) = sd)"
| "pc_ok h (ReturnedFollower p (Inl e)) =
     (p < length h \<and> Done (h ! p) \<and> ReqErr (h ! p) = Some e)"
| "pc_ok h (FollowerCancelled p e) = (p < length h)"
| "pc_ok h Panicked = False"

definition flight_inv :: "Inbound \<Rightarrow> bool" where
  "flight_inv s \<longleftrightarrow>
     in_shards s \<noteq> [] \<and>
     elected leads stored (shards_map (in_shards s)) (map ReqID (heap s)) (procs s) \<and>
     (\<forall>i < length (procs s). pc_ok (heap s) (procs s ! i))"

lemma flight_invD:
  assumes "flight_inv s"
  shows flight_shards: "in_shards s \<noteq> []"
    and flight_elected: "elected leads stored (shards_map (in_shards s)) (map ReqID (heap s)) (procs s)"
    and flight_pc: "i < length (procs s) \<Longrightarrow> pc_ok (heap s) (procs s ! i)"
  using assms unfolding flight_inv_def by blast+

lemma flight_at: "flight_inv s \<Longrightarrow> at s i pc \<Longrightarrow> pc_ok (heap s) pc"
  using flight_pc [of s i] by (auto simp: at_def)

lemma flight_leader: "flight_inv s \<Longrightarrow> p < length (heap s) \<Longrightarrow> \<exists>i < length (procs s). leads (procs s ! i) = Some p"
  using elected_leader [OF flight_elected, of s p] by simp

lemma flight_inv_init: "flight_inv (inbound_init n keys)"
  by (auto simp: flight_inv_def inbound_init_def elected_def)

lemma leads_less: "pc_ok h pc \<Longrightarrow> leads pc = Some p \<Longrightarrow> p < length h"
  by (cases pc; cases "leads pc") (auto split: sum.splits elim: pc_ok.elims)

section \<open>Steps that leave the table alone\<close>

text \<open>A goroutine moves to a place where it leads the same request and may change the heap.\<close>

lemma flight_inv_passive:
  assumes inv: "flight_inv s" and i: "i < length (procs s)"
    and l: "leads (procs s ! i) = leads pc" and st: "leads pc = None \<or> stored (procs s ! i) = stored pc"
    and ids: "map ReqID h = map ReqID (heap s)" and ok: "pc_ok h pc"
    and others: "\<And>j. j < length (procs s) \<Longrightarrow> j \<noteq> i \<Longrightarrow> pc_ok h (procs s ! j)"
  shows "flight_inv (s\<lparr>procs := (procs s)[i := pc], heap := h\<rparr>)"
  using elected_move [OF flight_elected [OF inv] i l st] flight_shards [OF inv] all_list_update [OF i, of "pc_ok h", OF ok others]
  by (simp add: flight_inv_def ids)

lemma set_pc_heap: "set_pc i pc s = s\<lparr>procs := (procs s)[i := pc], heap := heap s\<rparr>"
  by (simp add: set_pc_def)

lemma set_pc_req: "set_pc i pc (set_req p r s) = s\<lparr>procs := (procs s)[i := pc], heap := (heap s)[p := r]\<rparr>"
  by (simp add: set_pc_def set_req_def)

lemma map_ReqID_update: "p < length h \<Longrightarrow> ReqID r = ReqID (h ! p) \<Longrightarrow> map ReqID (h[p := r]) = map ReqID h"
  by (simp add: map_update list_update_same_conv)

lemma pc_ok_frame:
  assumes "pc_ok h pc" "leads pc \<noteq> Some p" "p < length h" "\<not> Done (h ! p)" "HasFollowers (h ! p) \<longrightarrow> HasFollowers r"
    "pc = Joined p \<longrightarrow> Done r \<longrightarrow> ReqErr r \<noteq> None"
  shows "pc_ok (h[p := r]) pc"
  using assms by (induction h pc rule: pc_ok.induct) (auto simp: nth_list_update)

lemma pc_ok_AddFollower:
  assumes "pc_ok h pc" "p < length h" "\<forall>d w. pc \<noteq> OkClose p d w" "\<forall>d. pc \<noteq> ReturnedLeader (Some p) (Inr d)"
    "\<forall>d e. pc \<noteq> LeaderWriteErr p d e"
  shows "pc_ok (h[p := AddFollower (h ! p)]) pc"
  using assms by (induction h pc rule: pc_ok.induct)
    (auto simp: nth_list_update AddFollower_def HasFollowers_def unset_def has_data_def)

text \<open>The leader of \<open>p\<close> moves on and may change the request.\<close>

lemma flight_inv_leader:
  assumes inv: "flight_inv s" and a: "at s i pc0" and l: "leads pc0 = Some p" "leads pc = Some p"
    and st: "stored pc0 = stored pc" and nd: "\<not> Done (heap s ! p)"
    and id: "ReqID r = ReqID (heap s ! p)" and fc: "HasFollowers (heap s ! p) \<longrightarrow> HasFollowers r"
    and ok: "p < length (heap s) \<Longrightarrow> pc_ok ((heap s)[p := r]) pc"
    and joined: "Done r \<Longrightarrow> ReqErr r = None \<Longrightarrow> Joined p \<notin> set (procs s)"
  shows "flight_inv (set_pc i pc (set_req p r s))"
proof -
  have i: "i < length (procs s)" and pi: "procs s ! i = pc0" using a by (auto simp: at_def)
  have p: "p < length (heap s)" using leads_less [OF flight_pc [OF inv i]] l pi by auto
  show ?thesis unfolding set_pc_req
  proof (rule flight_inv_passive [OF inv i], goal_cases)
    case (5 j)
    have "leads (procs s ! j) \<noteq> Some p" using elected_unique [OF flight_elected [OF inv] i 5(1)] 5(2) l pi by auto
    moreover have "procs s ! j = Joined p \<longrightarrow> Done r \<longrightarrow> ReqErr r \<noteq> None"
      using joined nth_mem [OF 5(1)] by metis
    ultimately show ?case using pc_ok_frame [OF flight_pc [OF inv 5(1)] _ p nd fc] by blast
  qed (use l st id ok [OF p] p pi map_ReqID_update in auto)
qed

lemma flight_inv_move:
  assumes inv: "flight_inv s" and a: "at s i pc0" and l: "leads pc0 = leads pc"
    and st: "leads pc = None \<or> stored pc0 = stored pc" and ok: "pc_ok (heap s) pc"
  shows "flight_inv (set_pc i pc s)"
  unfolding set_pc_heap using a l st ok
  by (intro flight_inv_passive [OF inv]) (auto simp: at_def flight_pc [OF inv])

section \<open>Steps on the table\<close>

lemma flight_inv_delete:
  assumes inv: "flight_inv s" and a: "at s i pc0" and l: "leads pc0 = Some p" "leads pc = Some p"
    and st: "stored pc0" "\<not> stored pc" and ok: "pc_ok (heap s) pc"
  shows "flight_inv (Finish_delete i p pc s)"
proof -
  have i: "i < length (procs s)" and pi: "procs s ! i = pc0" using a by (auto simp: at_def)
  have p: "p < length (heap s)" using leads_less [OF flight_at [OF inv a]] l by auto
  show ?thesis
    using sh.elected_remove [OF flight_shards [OF inv] flight_elected [OF inv] i, of p pc] l st pi p
      flight_shards [OF inv] all_list_update [OF i, of "pc_ok (heap s)", OF ok flight_pc [OF inv]]
    by (simp add: flight_inv_def Finish_delete_def set_pc_def)
qed

lemma pc_ok_append: "pc_ok h pc \<Longrightarrow> pc_ok (h @ [r]) pc"
  by (induction h pc rule: pc_ok.induct) (auto simp: nth_append)

lemma flight_inv_store:
  assumes inv: "flight_inv s" and a: "at s i (Fresh (Some key))"
  shows "flight_inv (GetOrCreate_store i key s)"
proof (cases "shards_map (in_shards s) key")
  case None
  let ?n = "length (heap s)" and ?h = "heap s @ [new_request key]"
  obtain ss where ss: "LoadOrStore key ?n (in_shards s) = ((?n, False), ss)" "shards_map ss = (shards_map (in_shards s))(key \<mapsto> ?n)" "ss \<noteq> []"
    by (rule LoadOrStore_fresh [OF flight_shards [OF inv] None])
  have i: "i < length (procs s)" and pi: "procs s ! i = Fresh (Some key)" using a by (auto simp: at_def)
  have "pc_ok ?h (Resolving (Some ?n))" by (simp add: unset_def new_request_def)
  then have "\<forall>j < length (procs s). pc_ok ?h ((procs s)[i := Resolving (Some ?n)] ! j)"
    by (rule all_list_update [OF i]) (rule pc_ok_append [OF flight_pc [OF inv]])
  then show ?thesis
    using sh.elected_store [OF flight_shards [OF inv] flight_elected [OF inv] i None, of "Resolving (Some ?n)"] ss pi
    by (simp add: flight_inv_def GetOrCreate_store_def set_pc_def new_request_def)
next
  case (Some p)
  obtain j where j: "p < length (heap s)" "j < length (procs s)" "leads (procs s ! j) = Some p" "stored (procs s ! j)"
    using sh.elected_found [OF flight_elected [OF inv] Some] by auto
  then have "\<not> Done (heap s ! p)" using flight_pc [OF inv j(2)] by (cases "procs s ! j") (auto simp: unset_def)
  then show ?thesis using flight_inv_move [OF inv a, of "Joined p"] j LoadOrStore_found [OF Some, of "length (heap s)"]
    by (simp add: GetOrCreate_store_def)
qed

section \<open>Every step\<close>

lemma counted_joined: "counted s \<Longrightarrow> at s i (OkClose p d w) \<Longrightarrow> Joined p \<notin> set (procs s)"
  by (fastforce simp: counted_def at_def)

lemma flight_inv_add:
  assumes inv: "flight_inv s" and a: "at s i (Joined p)" and c: "counted s"
  shows "flight_inv (GetOrCreate_add i p s)"
proof -
  have i: "i < length (procs s)" and pi: "procs s ! i = Joined p" using a by (auto simp: at_def)
  have p: "p < length (heap s)" "Done (heap s ! p) \<longrightarrow> ReqErr (heap s ! p) \<noteq> None" using flight_pc [OF inv i] pi by auto
  have "pc_ok ((heap s)[p := AddFollower (heap s ! p)]) (procs s ! j)" if j: "j < length (procs s)" for j
  proof (rule pc_ok_AddFollower [OF flight_pc [OF inv j] p(1)])
    show "\<forall>d w. procs s ! j \<noteq> OkClose p d w"
      using counted_joined [OF c, of j p] i j pi by (auto simp: at_def in_set_conv_nth)
    show "\<forall>d. procs s ! j \<noteq> ReturnedLeader (Some p) (Inr d)" "\<forall>d e. procs s ! j \<noteq> LeaderWriteErr p d e"
      using flight_pc [OF inv j] p(2) by (auto simp: has_data_def)
  qed
  then show ?thesis unfolding GetOrCreate_add_def set_pc_req
    by (intro flight_inv_passive [OF inv i])
      (use pi p in \<open>auto simp: AddFollower_def HasFollowers_def intro!: map_ReqID_update\<close>)
qed

lemma flight_inv_wakes:
  assumes inv: "flight_inv s" and a: "at s i (Waiting p)" and d: "Done (heap s ! p)"
  shows "flight_inv (follower_wakes i p w s)" and "\<not> at (follower_wakes i p w s) i (Resolving (Some p))"
proof -
  have i: "i < length (procs s)" and pi: "procs s ! i = Waiting p" using a by (auto simp: at_def)
  have p: "p < length (heap s)" "HasFollowers (heap s ! p)" using flight_pc [OF inv i] pi by auto
  obtain j where j: "j < length (procs s)" "leads (procs s ! j) = Some p" using flight_leader [OF inv p(1)] by auto
  consider e where "ReqErr (heap s ! p) = Some e" | x where "ReqErr (heap s ! p) = None" "Data (heap s ! p) = Some x"
    using flight_pc [OF inv j(1)] j(2) d p(2)
    by (cases "procs s ! j"; cases "ReqErr (heap s ! p)") (auto simp: unset_def has_data_def split: sum.splits elim!: pc_ok.elims)
  then show "flight_inv (follower_wakes i p w s)" and "\<not> at (follower_wakes i p w s) i (Resolving (Some p))"
    by (cases; use i d p flight_inv_move [OF inv a] in \<open>auto simp: follower_wakes_def at_def set_pc_def\<close>)+
qed

lemma flight_inv_close:
  assumes inv: "flight_inv s" and c: "counted s"
  shows "at s i (OkClose p d w) \<Longrightarrow> flight_inv (close_done i p (leader_returns p d w) s)"
    and "at s i (ErrClose p e) \<Longrightarrow> flight_inv (close_done i p (ReturnedLeader (Some p) (Inl e)) s)"
proof -
  assume a: "at s i (OkClose p d w)"
  then have "\<not> Done (heap s ! p)" "has_data (heap s ! p) d" using flight_pc [OF inv, of i] by (auto simp: at_def)
  then show "flight_inv (close_done i p (leader_returns p d w) s)"
    using flight_inv_leader [OF inv a, of p "leader_returns p d w" "(heap s ! p)\<lparr>Done := True\<rparr>"] counted_joined [OF c a]
    by (cases w) (auto simp: close_done_def leader_returns_def HasFollowers_def has_data_def)
next
  assume a: "at s i (ErrClose p e)"
  then have "\<not> Done (heap s ! p)" "ReqErr (heap s ! p) = Some e" using flight_pc [OF inv, of i] by (auto simp: at_def)
  then show "flight_inv (close_done i p (ReturnedLeader (Some p) (Inl e)) s)"
    using flight_inv_leader [OF inv a, of p "ReturnedLeader (Some p) (Inl e)" "(heap s ! p)\<lparr>Done := True\<rparr>"]
    by (auto simp: close_done_def HasFollowers_def)
qed

lemma flight_inv_step:
  assumes step: "inbound_step s s'" and inv: "flight_inv s" and c: "counted s"
  shows "flight_inv s'"
  using step
proof (cases rule: inbound_step.cases)
  case (share i p d w sd)
  then show ?thesis using flight_at [OF inv share(2)] unfolding share(1)
    by (intro flight_inv_leader [OF inv share(2)]) (auto simp: unset_def HasFollowers_def)
next
  case (ok_copy i p d w)
  have u: "unset (heap s ! p)" "p < length (heap s)" using flight_at [OF inv ok_copy(2)] by auto
  have "flight_inv (set_pc i (OkClose p d w) (set_req p ((heap s ! p)\<lparr>Data := Some d\<rparr>) s))"
    using u by (intro flight_inv_leader [OF inv ok_copy(2)]) (auto simp: unset_def HasFollowers_def has_data_def)
  moreover have "\<not> HasFollowers (heap s ! p) \<Longrightarrow> flight_inv (set_pc i (OkClose p d w) s)"
    using u by (intro flight_inv_move [OF inv ok_copy(2)]) (auto simp: unset_def has_data_def)
  ultimately show ?thesis unfolding ok_copy FinishOk_copy_def by simp
next
  case (err_set i p e)
  then show ?thesis using flight_at [OF inv err_set(2)] unfolding err_set(1) FinishErr_set_def
    by (intro flight_inv_leader [OF inv err_set(2)]) (auto simp: unset_def HasFollowers_def)
next
  case (ok_delete i p d w)
  then show ?thesis using flight_at [OF inv ok_delete(2)] flight_inv_delete [OF inv ok_delete(2)] by simp
next
  case (err_delete i p e)
  then show ?thesis using flight_at [OF inv err_delete(2)] flight_inv_delete [OF inv err_delete(2)] by simp
next
  case (cancelled i p e)
  then show ?thesis using flight_at [OF inv cancelled(2)] flight_inv_move [OF inv cancelled(2)] by simp
next
  case (resolves i p d w)
  then show ?thesis using flight_at [OF inv resolves(2)] flight_inv_move [OF inv resolves(2)] by simp
next
  case (fails i p d)
  then show ?thesis using flight_at [OF inv fails(2)] flight_inv_move [OF inv fails(2)] by simp
next
  case (share_none i p d w)
  then show ?thesis using flight_at [OF inv share_none(2)] flight_inv_move [OF inv share_none(2)] by simp
qed (use inv c in \<open>auto intro: flight_inv_store flight_inv_add flight_inv_wakes flight_inv_close flight_inv_move\<close>)

lemma counted_run_inv: "counted_run n keys s \<Longrightarrow> flight_inv s \<and> counted s"
proof (induction rule: counted_run.induct)
  case counted_start
  then show ?case using flight_inv_init by (auto simp: counted_def inbound_init_def)
qed (auto intro: flight_inv_step)

text \<open>Goroutine \<open>j\<close> has led request \<open>p\<close>, rendered \<open>d\<close> and returned, with its own write error or without.\<close>

definition leader_resolved :: "Inbound \<Rightarrow> nat \<Rightarrow> nat \<Rightarrow> string \<Rightarrow> bool" where
  "leader_resolved s j p d \<longleftrightarrow> at s j (ReturnedLeader (Some p) (Inr d)) \<or> (\<exists>e. at s j (LeaderWriteErr p d e))"

lemma leader_done:
  assumes inv: "flight_inv s" and p: "p < length (heap s)" "Done (heap s ! p)"
  shows "(\<exists>j d. leader_resolved s j p d) \<or> (\<exists>j e. at s j (ReturnedLeader (Some p) (Inl e)))"
proof -
  obtain j where j: "j < length (procs s)" "leads (procs s ! j) = Some p" using flight_leader [OF inv p(1)] by blast
  then consider r where "procs s ! j = ReturnedLeader (Some p) r" | d e where "procs s ! j = LeaderWriteErr p d e"
    using flight_pc [OF inv j(1)] p(2) by (cases "procs s ! j") (auto simp: unset_def)
  then show ?thesis using j(1) by (cases; fastforce simp: at_def leader_resolved_def split_sum_ex)
qed

lemma leads_unique:
  assumes inv: "flight_inv s" and "at s i pc" "at s j pc'" "leads pc = Some p" "leads pc' = Some p"
  shows "i = j"
  using elected_unique [OF flight_elected [OF inv], of i j p] assms(2-) by (auto simp: at_def)

lemma resolved_leads: "leader_resolved s j p d \<Longrightarrow> \<exists>pc. at s j pc \<and> leads pc = Some p"
  by (auto simp: leader_resolved_def)

lemma resolved_data:
  assumes inv: "flight_inv s" and r: "leader_resolved s j p d"
  shows "has_data (heap s ! p) d"
  using r flight_at [OF inv, of j] by (fastforce simp: leader_resolved_def)

lemma follower_data:
  assumes inv: "flight_inv s" and a: "at s i (ReturnedFollower p (Inr (d, sd, w)))"
  shows "(\<exists>!j. leader_resolved s j p d) \<and> SharedData (heap s ! p) = sd"
proof -
  have f: "p < length (heap s)" "Done (heap s ! p)" "ReqErr (heap s ! p) = None" "HasFollowers (heap s ! p)"
    "Data (heap s ! p) = Some d" "SharedData (heap s ! p) = sd"
    using flight_at [OF inv a] by auto
  obtain j x where j: "leader_resolved s j p x"
    using leader_done [OF inv f(1,2)] flight_at [OF inv] f(3) by fastforce
  then have "leader_resolved s j p d" using resolved_data [OF inv j] f by (simp add: has_data_def)
  moreover have "k = j" if "leader_resolved s k p d" for k
    using resolved_leads [OF that] resolved_leads [OF j] leads_unique [OF inv] by blast
  ultimately show ?thesis using f(6) by blast
qed

lemma follower_error:
  assumes inv: "flight_inv s" and a: "at s i (ReturnedFollower p (Inl e))"
  shows "\<exists>!j. at s j (ReturnedLeader (Some p) (Inl e))"
proof -
  have f: "p < length (heap s)" "Done (heap s ! p)" "ReqErr (heap s ! p) = Some e"
    using flight_at [OF inv a] by auto
  obtain j x where j: "at s j (ReturnedLeader (Some p) (Inl x))"
    using leader_done [OF inv f(1,2)] resolved_data [OF inv] f(3) by (fastforce simp: has_data_def)
  then have je: "at s j (ReturnedLeader (Some p) (Inl e))" using flight_at [OF inv j] f(3) by simp
  moreover have "k = j" if "at s k (ReturnedLeader (Some p) (Inl e))" for k
    using leads_unique [OF inv that je] by simp
  ultimately show ?thesis by blast
qed

lemma waiting_leader:
  assumes inv: "flight_inv s" and w: "at s i (Waiting p)" "\<not> Done (heap s ! p)"
  shows "\<exists>j < length (procs s). leads (procs s ! j) = Some p \<and>
    (\<forall>r. procs s ! j \<noteq> ReturnedLeader (Some p) r) \<and> (\<forall>d e. procs s ! j \<noteq> LeaderWriteErr p d e)"
proof -
  obtain j where j: "j < length (procs s)" "leads (procs s ! j) = Some p"
    using flight_leader [OF inv, of p] flight_at [OF inv w(1)] by auto
  then have "procs s ! j \<noteq> ReturnedLeader (Some p) r" "procs s ! j \<noteq> LeaderWriteErr p d e" for r d e
    using flight_pc [OF inv j(1)] w(2) by (cases r; auto)+
  then show ?thesis using j by blast
qed

lemma no_panic: "flight_inv s \<Longrightarrow> Panicked \<notin> set (procs s)"
  using flight_pc by (fastforce simp: in_set_conv_nth)

section \<open>A run of two requests\<close>

lemma counted_run_reachable: "counted_run n keys s \<Longrightarrow> inbound_reachable n keys s"
  by (induction rule: counted_run.induct) (auto intro: inbound_reachable.intros)

lemma counted_move:
  assumes "counted_run n keys s" "inbound_step s s'" "heap s' = h" "procs s' = ps" "counted s'"
  shows "\<exists>s. counted_run n keys s \<and> heap s = h \<and> procs s = ps"
  using assms counted_run.counted_next by blast

lemmas inbound_ops = at_def set_pc_def set_req_def GetOrCreate_add_def follower_wakes_def Finish_delete_def FinishOk_copy_def
  close_done_def leader_returns_def AddFollower_def HasFollowers_def new_request_def counted_def less_Suc_eq

lemma counted_joined_run:
  "\<exists>s. counted_run n [Some k, Some k] s \<and> heap s = [new_request k] \<and> procs s = [Resolving (Some 0), Joined 0]"
proof -
  let ?s0 = "inbound_init n [Some k, Some k]"
  let ?s1 = "GetOrCreate_store 0 k ?s0"
  obtain ss where ss: "LoadOrStore k 0 (NewRequestSingleFlight n) = ((0, False), ss)" "shards_map ss = [k \<mapsto> 0]"
    using LoadOrStore_fresh [of "NewRequestSingleFlight n" k 0] by auto
  have s1: "heap ?s1 = [new_request k]" "procs ?s1 = [Resolving (Some 0), Fresh (Some k)]" "in_shards ?s1 = ss"
    using ss(1) by (simp_all add: GetOrCreate_store_def inbound_init_def set_pc_def)
  have "LoadOrStore k 1 ss = ((0, True), ss)" using ss(2) by (intro LoadOrStore_found) simp
  then have s2: "heap (GetOrCreate_store 1 k ?s1) = [new_request k]" "procs (GetOrCreate_store 1 k ?s1) = [Resolving (Some 0), Joined 0]"
    using s1 by (simp_all add: GetOrCreate_store_def [of "Suc 0"] set_pc_def)
  have "counted_run n [Some k, Some k] ?s1"
    by (rule counted_run.counted_next [OF counted_run.counted_start inbound_step.store])
      (use s1 in \<open>auto simp: at_def inbound_init_def counted_def less_Suc_eq\<close>)
  then show ?thesis using s2 s1 by (intro counted_move [OF _ inbound_step.store [of ?s1 1 k]]) (simp_all add: at_def counted_def less_Suc_eq)
qed

lemma counted_followed_run:
  "\<exists>s. counted_run n [Some k, Some k] s \<and> procs s = [ReturnedLeader (Some 0) (Inr d), ReturnedFollower 0 (Inr (d, None, w))]"
proof -
  let ?R = "\<lambda>h ps. \<exists>s. counted_run n [Some k, Some k] s \<and> heap s = h \<and> procs s = ps"
  let ?h = "[(new_request k)\<lparr>followerCount := 1\<rparr>]" and ?g = "(new_request k)\<lparr>followerCount := 1, Data := Some d\<rparr>"
  have "?R ?h [Resolving (Some 0), Waiting 0]"
    using counted_joined_run [of n k] counted_move [OF _ inbound_step.add [of _ "Suc 0" 0]] by (fastforce simp: inbound_ops)
  then have "?R ?h [OkShare 0 d None, Waiting 0]"
    using counted_move [OF _ inbound_step.resolves [of _ 0 0 d None]] by (fastforce simp: inbound_ops)
  then have "?R ?h [OkDelete 0 d None, Waiting 0]"
    using counted_move [OF _ inbound_step.share_none [of _ 0 0 d None]] by (fastforce simp: inbound_ops)
  then have "?R ?h [OkCopy 0 d None, Waiting 0]"
    using counted_move [OF _ inbound_step.ok_delete [of _ 0 0 d None]] by (fastforce simp: inbound_ops)
  then have "?R [?g] [OkClose 0 d None, Waiting 0]"
    using counted_move [OF _ inbound_step.ok_copy [of _ 0 0 d None]] by (fastforce simp: inbound_ops)
  then have "?R [?g\<lparr>Done := True\<rparr>] [ReturnedLeader (Some 0) (Inr d), Waiting 0]"
    using counted_move [OF _ inbound_step.ok_close [of _ 0 0 d None]] by (fastforce simp: inbound_ops)
  then have "?R [?g\<lparr>Done := True\<rparr>] [ReturnedLeader (Some 0) (Inr d), ReturnedFollower 0 (Inr (d, None, w))]"
    using counted_move [OF _ inbound_step.wakes [of _ "Suc 0" 0 w]] by (fastforce simp: inbound_ops)
  then show ?thesis by blast
qed

section \<open>A run that panics\<close>

text \<open>Two requests with one key: the second joins before the delete and is counted after the close.\<close>

lemma inbound_next:
  assumes "inbound_reachable n keys s" "inbound_step s s'" "heap s' = h" "procs s' = ps"
  shows "\<exists>s. inbound_reachable n keys s \<and> heap s = h \<and> procs s = ps"
  using assms inbound_reachable.step by blast

lemma joined_before_delete:
  "\<exists>s. inbound_reachable n [Some k, Some k] s \<and> heap s = [new_request k] \<and> procs s = [Resolving (Some 0), Joined 0]"
  using counted_joined_run counted_run_reachable by blast

lemma closed_before_add:
  "\<exists>s. inbound_reachable n [Some k, Some k] s \<and> heap s = [(new_request k)\<lparr>Done := True\<rparr>] \<and>
       procs s = [ReturnedLeader (Some 0) (Inr d), Joined 0]"
proof -
  let ?R = "\<lambda>h p. \<exists>s. inbound_reachable n [Some k, Some k] s \<and> heap s = h \<and> procs s = [p, Joined 0]"
  have "?R [new_request k] (OkShare 0 d None)"
    using joined_before_delete inbound_next [OF _ inbound_step.resolves [of _ 0 0 d None]] by (fastforce simp: inbound_ops)
  then have "?R [new_request k] (OkDelete 0 d None)"
    using inbound_next [OF _ inbound_step.share_none [of _ 0 0 d None]] by (fastforce simp: inbound_ops)
  then have "?R [new_request k] (OkCopy 0 d None)"
    using inbound_next [OF _ inbound_step.ok_delete [of _ 0 0 d None]] by (fastforce simp: inbound_ops)
  then have "?R [new_request k] (OkClose 0 d None)"
    using inbound_next [OF _ inbound_step.ok_copy [of _ 0 0 d None]] by (fastforce simp: inbound_ops)
  then show ?thesis
    using inbound_next [OF _ inbound_step.ok_close [of _ 0 0 d None]] by (fastforce simp: inbound_ops)
qed

lemma second_close_panics:
  "\<exists>s. inbound_reachable n [Some k, Some k] s \<and> procs s = [ReturnedLeader (Some 0) (Inr d), Panicked]"
proof -
  let ?R = "\<lambda>h p. \<exists>s. inbound_reachable n [Some k, Some k] s \<and> heap s = h \<and> procs s = [ReturnedLeader (Some 0) (Inr d), p]"
  let ?h = "[(new_request k)\<lparr>Done := True, followerCount := 1\<rparr>]"
  let ?g = "[(new_request k)\<lparr>Done := True, followerCount := 1, Data := Some d\<rparr>]"
  have "?R ?h (Waiting 0)"
    using closed_before_add [of n k d] inbound_next [OF _ inbound_step.add [of _ "Suc 0" 0]] by (fastforce simp: inbound_ops)
  then have "?R ?h (Resolving (Some 0))"
    using inbound_next [OF _ inbound_step.wakes [of _ "Suc 0" 0 None]] by (fastforce simp: inbound_ops)
  then have "?R ?h (OkShare 0 d None)"
    using inbound_next [OF _ inbound_step.resolves [of _ "Suc 0" 0 d None]] by (fastforce simp: inbound_ops)
  then have "?R ?h (OkDelete 0 d None)"
    using inbound_next [OF _ inbound_step.share_none [of _ "Suc 0" 0 d None]] by (fastforce simp: inbound_ops)
  then have "?R ?h (OkCopy 0 d None)"
    using inbound_next [OF _ inbound_step.ok_delete [of _ "Suc 0" 0 d None]] by (fastforce simp: inbound_ops)
  then have "?R ?g (OkClose 0 d None)"
    using inbound_next [OF _ inbound_step.ok_copy [of _ "Suc 0" 0 d None]] by (fastforce simp: inbound_ops)
  then have "?R ?g Panicked"
    using inbound_next [OF _ inbound_step.ok_close [of _ "Suc 0" 0 d None]] by (fastforce simp: inbound_ops)
  then show ?thesis by blast
qed

end
