(* ===== verification/Subgraph_Flight.thy ===== *)
theory Subgraph_Flight
  imports Flight_Table
begin

text \<open>
  The single flight of subgraph requests: \<open>v2/pkg/engine/resolve/subgraph_request_singleflight.go\<close> and
  its use in \<open>loadByContext\<close> of \<open>loader.go\<close>, with the size hints. Items are shared by pointer: an index
  into a heap. A size entry is never removed and is read and written under its mutex, so its look-up
  and its update are one operation here.
\<close>

type_synonym http_header = "(string \<times> string list) list"

record ResponseContext =
  rc_StatusCode :: int
  rc_Header :: "http_header option"

record SingleFlightItem =
  loaded :: bool
  response :: string
  responseHeaders :: "http_header option"
  statusCode :: int
  item_err :: "string option"
  sizeHint :: nat
  SFKey :: "64 word"
  FetchKey :: "64 word"

definition new_item :: "64 word \<Rightarrow> 64 word \<Rightarrow> SingleFlightItem" where
  "new_item sfKey fetchKey =
     \<lparr>loaded = False, response = [], responseHeaders = None, statusCode = 0, item_err = None, sizeHint = 0,
      SFKey = sfKey, FetchKey = fetchKey\<rparr>"

section \<open>Size hints\<close>

record fetchSize =
  count :: nat
  totalBytes :: nat

text \<open>Reading the hint in \<open>GetOrCreateItem\<close>, and the update at the end of \<open>Finish\<close>.\<close>

definition size_hint :: "fetchSize option \<Rightarrow> nat" where
  "size_hint sizeValue =
     (case sizeValue of
        None \<Rightarrow> 0
      | Some sz \<Rightarrow> (if count sz > 0 then totalBytes sz div count sz else 0))"

definition update_size :: "nat \<Rightarrow> fetchSize option \<Rightarrow> fetchSize" where
  "update_size len sizeValue =
     (let sz = (case sizeValue of None \<Rightarrow> \<lparr>count = 0, totalBytes = 0\<rparr> | Some sz \<Rightarrow> sz) in
      if count sz = 0 then \<lparr>count = 1, totalBytes = len\<rparr>
      else let sz = (if count sz = 50 then \<lparr>count = 1, totalBytes = totalBytes sz div 50\<rparr> else sz)
           in \<lparr>count = count sz + 1, totalBytes = totalBytes sz + len\<rparr>)"

section \<open>The goroutines\<close>

text \<open>
  What \<open>loadByContext\<close> gives: an error, or \<open>res.out\<close> with the response context, if one was injected.
\<close>

type_synonym load_result = "(string, string \<times> ResponseContext option) result"

record LoadRequest =
  lr_fetchItem :: "unit Fetch option option"
  lr_input :: string
  lr_rc :: "ResponseContext option"

datatype SPC =
  SFresh LoadRequest
| SDirect
| SWaiting nat "ResponseContext option"
| SHint nat
| SLoading nat
| SLoaded nat load_result
| SDelete nat load_result
| SClose nat load_result
| SSize nat load_result
| SReturned "nat option" bool load_result
| SCancelled nat string
| SPanicked

record Subgraph =
  sg_items :: shards
  sg_sizes :: "(64 word \<times> fetchSize) list list"
  sg_heap :: "SingleFlightItem list"
  sg_procs :: "SPC list"

definition sg_pc :: "nat \<Rightarrow> SPC \<Rightarrow> Subgraph \<Rightarrow> Subgraph" where
  "sg_pc i pc s = s\<lparr>sg_procs := (sg_procs s)[i := pc]\<rparr>"

definition sg_item :: "nat \<Rightarrow> SingleFlightItem \<Rightarrow> Subgraph \<Rightarrow> Subgraph" where
  "sg_item p x s = s\<lparr>sg_heap := (sg_heap s)[p := x]\<rparr>"

definition sg_singleFlightAllowed :: "bool \<Rightarrow> 'v Fetch option option \<Rightarrow> bool" where
  "sg_singleFlightAllowed disable fetchItem =
     (if disable then False
      else case fetchItem of
          None \<Rightarrow> False
        | Some None \<Rightarrow> False
        | Some (Some fetch) \<Rightarrow>
            (case FetchInfo_of fetch of
               None \<Rightarrow> False
             | Some info \<Rightarrow> InfoOperationType info = OperationTypeQuery))"

text \<open>\<open>builder\<close> is the context's \<open>SubgraphHeadersBuilder\<close>, an interface the caller implements, or nil.\<close>

definition HeadersForSubgraphRequest ::
  "(string \<Rightarrow> http_header \<times> 64 word) option \<Rightarrow> string \<Rightarrow> http_header \<times> 64 word" where
  "HeadersForSubgraphRequest builder subgraphName =
     (case builder of None \<Rightarrow> ([], 0) | Some f \<Rightarrow> f subgraphName)"

definition headersForSubgraphRequest ::
  "(string \<Rightarrow> http_header \<times> 64 word) option \<Rightarrow> 'v Fetch option option \<Rightarrow> http_header \<times> 64 word" where
  "headersForSubgraphRequest builder fetchItem =
     (case fetchItem of
        Some (Some fetch) \<Rightarrow>
          (case FetchInfo_of fetch of None \<Rightarrow> ([], 0) | Some info \<Rightarrow> HeadersForSubgraphRequest builder (DataSourceName info))
      | _ \<Rightarrow> ([], 0))"

text \<open>\<open>GetOrCreateItem\<close> up to \<open>LoadOrStore\<close>.\<close>

definition GetOrCreateItem_store ::
  "nat \<Rightarrow> ResponseContext option \<Rightarrow> 64 word \<times> 64 word \<Rightarrow> Subgraph \<Rightarrow> Subgraph" where
  "GetOrCreateItem_store i rc keys s =
     (case LoadOrStore (fst keys) (length (sg_heap s)) (sg_items s) of
        ((p, True), ss) \<Rightarrow> sg_pc i (SWaiting p rc) (s\<lparr>sg_items := ss\<rparr>)
      | ((p, False), ss) \<Rightarrow>
          sg_pc i (SHint p) (s\<lparr>sg_items := ss, sg_heap := sg_heap s @ [new_item (fst keys) (snd keys)]\<rparr>))"

definition GetOrCreateItem_hint :: "nat \<Rightarrow> nat \<Rightarrow> Subgraph \<Rightarrow> Subgraph" where
  "GetOrCreateItem_hint i p s =
     (let item = sg_heap s ! p;
          shard = sg_sizes s ! shardFor (SFKey item) (sg_items s)
      in sg_pc i (SLoading p) (sg_item p (item\<lparr>sizeHint := size_hint (map_of shard (FetchKey item))\<rparr>) s))"

text \<open>The beginning of \<open>loadByContext\<close>.\<close>

definition loadByContext_begin ::
  "(string \<Rightarrow> 64 word) \<Rightarrow> bool \<Rightarrow> (string \<Rightarrow> http_header \<times> 64 word) option \<Rightarrow> nat \<Rightarrow> LoadRequest \<Rightarrow> Subgraph \<Rightarrow> Subgraph" where
  "loadByContext_begin hash disable builder i req s =
     (let extraKey = snd (headersForSubgraphRequest builder (lr_fetchItem req)) in
      if \<not> sg_singleFlightAllowed disable (lr_fetchItem req) then sg_pc i SDirect s
      else GetOrCreateItem_store i (lr_rc req) (computeKeys hash (lr_fetchItem req) (lr_input req) extraKey) s)"

text \<open>What a follower returns once the item is loaded.\<close>

definition loadByContext_shared :: "ResponseContext option \<Rightarrow> SingleFlightItem \<Rightarrow> load_result" where
  "loadByContext_shared rc item =
     (case item_err item of
        Some e \<Rightarrow> Err e
      | None \<Rightarrow> Ok (response item,
          (case rc of
             None \<Rightarrow> None
           | Some c \<Rightarrow> Some (case responseHeaders item of
                 None \<Rightarrow> c\<lparr>rc_StatusCode := statusCode item\<rparr>
               | Some h \<Rightarrow> c\<lparr>rc_StatusCode := statusCode item, rc_Header := Some h\<rparr>))))"

text \<open>What the leader writes into the item.\<close>

definition loadByContext_publish :: "load_result \<Rightarrow> SingleFlightItem \<Rightarrow> SingleFlightItem" where
  "loadByContext_publish r item =
     (case r of
        Inl e \<Rightarrow> item\<lparr>item_err := Some e\<rparr>
      | Inr (out, rc) \<Rightarrow>
          (let item = item\<lparr>response := out\<rparr> in
           case rc of
             None \<Rightarrow> item
           | Some c \<Rightarrow>
               (let item = item\<lparr>statusCode := rc_StatusCode c\<rparr> in
                case rc_Header c of None \<Rightarrow> item | Some h \<Rightarrow> item\<lparr>responseHeaders := Some h\<rparr>)))"

text \<open>\<open>Finish\<close>: remove the item, close the channel, update the estimate.\<close>

definition Finish_remove :: "nat \<Rightarrow> nat \<Rightarrow> load_result \<Rightarrow> Subgraph \<Rightarrow> Subgraph" where
  "Finish_remove i p r s = sg_pc i (SClose p r) (s\<lparr>sg_items := shard_Delete (SFKey (sg_heap s ! p)) (sg_items s)\<rparr>)"

definition Finish_close :: "nat \<Rightarrow> nat \<Rightarrow> load_result \<Rightarrow> Subgraph \<Rightarrow> Subgraph" where
  "Finish_close i p r s =
     (if loaded (sg_heap s ! p) then sg_pc i SPanicked s
      else sg_pc i (SSize p r) (sg_item p ((sg_heap s ! p)\<lparr>loaded := True\<rparr>) s))"

definition Finish_size :: "nat \<Rightarrow> nat \<Rightarrow> load_result \<Rightarrow> Subgraph \<Rightarrow> Subgraph" where
  "Finish_size i p r s =
     (let item = sg_heap s ! p;
          j = shardFor (SFKey item) (sg_items s);
          shard = sg_sizes s ! j;
          sz = update_size (length (response item)) (map_of shard (FetchKey item))
      in sg_pc i (SReturned (Some p) False r) (s\<lparr>sg_sizes := (sg_sizes s)[j := AList.update (FetchKey item) sz shard]\<rparr>))"

definition sg_at :: "Subgraph \<Rightarrow> nat \<Rightarrow> SPC \<Rightarrow> bool" where
  "sg_at s i pc \<longleftrightarrow> i < length (sg_procs s) \<and> sg_procs s ! i = pc"

text \<open>One atomic operation of one goroutine; what the data source returns is free.\<close>

inductive subgraph_step ::
  "(string \<Rightarrow> 64 word) \<Rightarrow> bool \<Rightarrow> (string \<Rightarrow> http_header \<times> 64 word) option \<Rightarrow> Subgraph \<Rightarrow> Subgraph \<Rightarrow> bool"
  for hash disable builder where
  sg_begin: "sg_at s i (SFresh req) \<Longrightarrow> subgraph_step hash disable builder s (loadByContext_begin hash disable builder i req s)"
| sg_direct: "sg_at s i SDirect \<Longrightarrow> subgraph_step hash disable builder s (sg_pc i (SReturned None False r) s)"
| sg_wakes: "sg_at s i (SWaiting p rc) \<Longrightarrow> loaded (sg_heap s ! p) \<Longrightarrow>
    subgraph_step hash disable builder s (sg_pc i (SReturned (Some p) True (loadByContext_shared rc (sg_heap s ! p))) s)"
| sg_cancelled: "sg_at s i (SWaiting p rc) \<Longrightarrow>
    subgraph_step hash disable builder s (sg_pc i (SCancelled p e) s)"
| sg_hint: "sg_at s i (SHint p) \<Longrightarrow> subgraph_step hash disable builder s (GetOrCreateItem_hint i p s)"
| sg_load: "sg_at s i (SLoading p) \<Longrightarrow> subgraph_step hash disable builder s (sg_pc i (SLoaded p r) s)"
| sg_publish: "sg_at s i (SLoaded p r) \<Longrightarrow>
    subgraph_step hash disable builder s (sg_pc i (SDelete p r) (sg_item p (loadByContext_publish r (sg_heap s ! p)) s))"
| sg_remove: "sg_at s i (SDelete p r) \<Longrightarrow> subgraph_step hash disable builder s (Finish_remove i p r s)"
| sg_close: "sg_at s i (SClose p r) \<Longrightarrow> subgraph_step hash disable builder s (Finish_close i p r s)"
| sg_size: "sg_at s i (SSize p r) \<Longrightarrow> subgraph_step hash disable builder s (Finish_size i p r s)"

definition subgraph_init :: "int \<Rightarrow> LoadRequest list \<Rightarrow> Subgraph" where
  "subgraph_init shardCount reqs =
     \<lparr>sg_items = NewSingleFlight shardCount, sg_sizes = map (\<lambda>_. []) (NewSingleFlight shardCount),
      sg_heap = [], sg_procs = map SFresh reqs\<rparr>"

inductive subgraph_reachable ::
  "(string \<Rightarrow> 64 word) \<Rightarrow> bool \<Rightarrow> (string \<Rightarrow> http_header \<times> 64 word) option \<Rightarrow> int \<Rightarrow> LoadRequest list \<Rightarrow> Subgraph \<Rightarrow> bool"
  for hash disable builder n reqs where
  sg_start: "subgraph_reachable hash disable builder n reqs (subgraph_init n reqs)"
| sg_next: "subgraph_reachable hash disable builder n reqs s \<Longrightarrow> subgraph_step hash disable builder s s' \<Longrightarrow>
    subgraph_reachable hash disable builder n reqs s'"

end
