(* ===== verification/Subgraph_Invariants.thy ===== *)
theory Subgraph_Invariants
  imports Subgraph_Flight
begin

text \<open>
  What the single flight of subgraph requests keeps: each item has one leader, the table holds the
  items that are not finished, and what a follower reads is what its leader published. The size
  estimates stay between the shortest and the longest response seen.
\<close>

section \<open>Size estimates\<close>

definition size_between :: "nat \<Rightarrow> nat \<Rightarrow> fetchSize \<Rightarrow> bool" where
  "size_between lo hi sz \<longleftrightarrow>
     1 \<le> count sz \<and> count sz \<le> 50 \<and> lo * count sz \<le> totalBytes sz \<and> totalBytes sz \<le> hi * count sz"

lemma update_size_between:
  assumes "lo \<le> len" "len \<le> hi" "case sizeValue of None \<Rightarrow> True | Some sz \<Rightarrow> size_between lo hi sz"
  shows "size_between lo hi (update_size len sizeValue)"
proof (cases sizeValue)
  case None then show ?thesis using assms by (simp add: update_size_def size_between_def)
next
  case (Some sz)
  then have b: "size_between lo hi sz" using assms by simp
  show ?thesis
  proof (cases "count sz = 50")
    case True
    then have "lo \<le> totalBytes sz div 50" "totalBytes sz div 50 \<le> hi" using b by (auto simp: size_between_def)
    then show ?thesis using assms(1,2) b Some True by (simp add: update_size_def size_between_def)
  next
    case False
    then show ?thesis using assms(1,2) b Some by (simp add: update_size_def size_between_def)
  qed
qed

lemma size_hint_between: "size_between lo hi sz \<Longrightarrow> lo \<le> size_hint (Some sz) \<and> size_hint (Some sz) \<le> hi"
  by (auto simp: size_between_def size_hint_def less_eq_div_iff_mult_less_eq div_le_mono intro: order_trans [OF div_le_mono, of _ "hi * count sz" "count sz"])

fun update_sizes :: "nat list \<Rightarrow> fetchSize option \<Rightarrow> fetchSize option" where
  "update_sizes [] sz = sz"
| "update_sizes (l # ls) sz = update_sizes ls (Some (update_size l sz))"

lemma update_sizes_between:
  "\<forall>l \<in> set ls. lo \<le> l \<and> l \<le> hi \<Longrightarrow> size_between lo hi sz \<Longrightarrow>
   \<exists>sz'. update_sizes ls (Some sz) = Some sz' \<and> size_between lo hi sz'"
  by (induction ls arbitrary: sz) (use update_size_between [of lo _ hi "Some _"] in auto)

lemma update_sizes_None:
  assumes "ls \<noteq> []" "update_sizes ls None = Some sz"
  shows "size_between (Min (set ls)) (Max (set ls)) sz"
proof -
  obtain l ls' where ls: "ls = l # ls'" using assms(1) by (cases ls) auto
  have "\<forall>x \<in> set ls. Min (set ls) \<le> x \<and> x \<le> Max (set ls)" by simp
  moreover then have "size_between (Min (set ls)) (Max (set ls)) (update_size l None)"
    using ls by (intro update_size_between) (auto simp del: Min_insert Max_insert)
  ultimately show ?thesis
    using update_sizes_between [of ls' "Min (set ls)" "Max (set ls)" "update_size l None"] assms(2) ls by auto
qed

section \<open>The invariant\<close>

fun sg_leads :: "SPC \<Rightarrow> nat option" where
  "sg_leads (SHint p) = Some p"
| "sg_leads (SLoading p) = Some p"
| "sg_leads (SLoaded p r) = Some p"
| "sg_leads (SDelete p r) = Some p"
| "sg_leads (SClose p r) = Some p"
| "sg_leads (SSize p r) = Some p"
| "sg_leads (SReturned p shared r) = (if shared then None else p)"
| "sg_leads _ = None"

fun sg_stored :: "SPC \<Rightarrow> bool" where
  "sg_stored (SHint p) = True"
| "sg_stored (SLoading p) = True"
| "sg_stored (SLoaded p r) = True"
| "sg_stored (SDelete p r) = True"
| "sg_stored _ = False"

definition pristine :: "SingleFlightItem \<Rightarrow> bool" where
  "pristine x \<longleftrightarrow> \<not> loaded x \<and> response x = [] \<and> responseHeaders x = None \<and> statusCode x = 0 \<and> item_err x = None"

definition holds_result :: "load_result \<Rightarrow> SingleFlightItem \<Rightarrow> bool" where
  "holds_result r x =
     (case r of
        Inl e \<Rightarrow> item_err x = Some e
      | Inr (out, rc) \<Rightarrow> item_err x = None \<and> response x = out \<and>
          (case rc of None \<Rightarrow> True | Some c \<Rightarrow> statusCode x = rc_StatusCode c \<and> responseHeaders x = rc_Header c))"

lemma publish_holds: "pristine x \<Longrightarrow> holds_result r (loadByContext_publish r x)"
  by (auto simp: pristine_def holds_result_def loadByContext_publish_def Let_def split: sum.splits option.splits)

lemma publish_frame [simp]: "loaded (loadByContext_publish r x) = loaded x" "SFKey (loadByContext_publish r x) = SFKey x"
  by (auto simp: loadByContext_publish_def Let_def split: sum.splits option.splits)

lemma holds_loaded [simp]: "holds_result r (x\<lparr>loaded := b\<rparr>) = holds_result r x"
  by (auto simp: holds_result_def split: sum.splits option.splits)

definition sg_seen :: "SingleFlightItem \<Rightarrow> load_result \<Rightarrow> bool" where
  "sg_seen x r \<longleftrightarrow> loaded x \<and> (\<exists>rc. r = loadByContext_shared rc x)"

fun sg_ok :: "SingleFlightItem list \<Rightarrow> SPC \<Rightarrow> bool" where
  "sg_ok h (SFresh req) = True"
| "sg_ok h SDirect = True"
| "sg_ok h (SWaiting p rc) = (p < length h)"
| "sg_ok h (SHint p) = (p < length h \<and> pristine (h ! p))"
| "sg_ok h (SLoading p) = (p < length h \<and> pristine (h ! p))"
| "sg_ok h (SLoaded p r) = (p < length h \<and> pristine (h ! p))"
| "sg_ok h (SDelete p r) = (p < length h \<and> \<not> loaded (h ! p) \<and> holds_result r (h ! p))"
| "sg_ok h (SClose p r) = (p < length h \<and> \<not> loaded (h ! p) \<and> holds_result r (h ! p))"
| "sg_ok h (SSize p r) = (p < length h \<and> loaded (h ! p) \<and> holds_result r (h ! p))"
| "sg_ok h (SReturned None shared r) = True"
| "sg_ok h (SReturned (Some p) False r) = (p < length h \<and> loaded (h ! p) \<and> holds_result r (h ! p))"
| "sg_ok h (SReturned (Some p) True r) = (p < length h \<and> sg_seen (h ! p) r)"
| "sg_ok h (SCancelled p e) = (p < length h)"
| "sg_ok h SPanicked = False"

definition sg_inv :: "Subgraph \<Rightarrow> bool" where
  "sg_inv s \<longleftrightarrow>
     sg_items s \<noteq> [] \<and> length (sg_sizes s) = length (sg_items s) \<and>
     elected sg_leads sg_stored (shards_map (sg_items s)) (map SFKey (sg_heap s)) (sg_procs s) \<and>
     (\<forall>i < length (sg_procs s). sg_ok (sg_heap s) (sg_procs s ! i)) \<and>
     (\<forall>shard \<in> set (sg_sizes s). \<forall>k sz. map_of shard k = Some sz \<longrightarrow> 1 \<le> count sz \<and> count sz \<le> 50)"

lemma sg_invD:
  assumes "sg_inv s"
  shows sg_shards: "sg_items s \<noteq> []"
    and sg_elected: "elected sg_leads sg_stored (shards_map (sg_items s)) (map SFKey (sg_heap s)) (sg_procs s)"
    and sg_pcs: "i < length (sg_procs s) \<Longrightarrow> sg_ok (sg_heap s) (sg_procs s ! i)"
  using assms unfolding sg_inv_def by blast+

lemma sg_ok_at: "sg_inv s \<Longrightarrow> sg_at s i pc \<Longrightarrow> sg_ok (sg_heap s) pc"
  using sg_pcs [of s i] by (auto simp: sg_at_def)

lemma sg_inv_init: "sg_inv (subgraph_init n reqs)"
  by (auto simp: sg_inv_def subgraph_init_def elected_def)

lemma sg_leads_less: "sg_ok h pc \<Longrightarrow> sg_leads pc = Some p \<Longrightarrow> p < length h"
  by (cases "(h, pc)" rule: sg_ok.cases) auto

lemma sg_ok_append: "sg_ok h pc \<Longrightarrow> sg_ok (h @ [x]) pc"
  by (induction h pc rule: sg_ok.induct) (auto simp: nth_append)

lemma sg_ok_frame: "sg_ok h pc \<Longrightarrow> sg_leads pc \<noteq> Some p \<Longrightarrow> p < length h \<Longrightarrow> \<not> loaded (h ! p) \<Longrightarrow> sg_ok (h[p := x]) pc"
  by (induction h pc rule: sg_ok.induct) (auto simp: nth_list_update sg_seen_def)

section \<open>The steps\<close>

lemma sg_inv_passive:
  assumes inv: "sg_inv s" and i: "i < length (sg_procs s)"
    and l: "sg_leads (sg_procs s ! i) = sg_leads pc" and st: "sg_leads pc = None \<or> sg_stored (sg_procs s ! i) = sg_stored pc"
    and ids: "map SFKey h = map SFKey (sg_heap s)" and ok: "sg_ok h pc"
    and others: "\<And>j. j < length (sg_procs s) \<Longrightarrow> j \<noteq> i \<Longrightarrow> sg_ok h (sg_procs s ! j)"
  shows "sg_inv (sg_pc i pc (s\<lparr>sg_heap := h\<rparr>))"
  using elected_move [OF sg_elected [OF inv] i l st] inv all_list_update [OF i, of "sg_ok h", OF ok others]
  by (simp add: sg_inv_def sg_pc_def ids)

lemma sg_inv_move:
  assumes inv: "sg_inv s" and a: "sg_at s i pc0" and l: "sg_leads pc0 = sg_leads pc"
    and st: "sg_leads pc = None \<or> sg_stored pc0 = sg_stored pc" and ok: "sg_ok (sg_heap s) pc"
  shows "sg_inv (sg_pc i pc s)"
  using sg_inv_passive [OF inv, of i pc "sg_heap s"] a l st ok sg_pcs [OF inv] by (auto simp: sg_at_def)

lemma sg_inv_leader:
  assumes inv: "sg_inv s" and a: "sg_at s i pc0" and l: "sg_leads pc0 = Some p" "sg_leads pc = Some p"
    and st: "sg_stored pc0 = sg_stored pc" and nd: "\<not> loaded (sg_heap s ! p)"
    and id: "SFKey x = SFKey (sg_heap s ! p)" and ok: "p < length (sg_heap s) \<Longrightarrow> sg_ok ((sg_heap s)[p := x]) pc"
  shows "sg_inv (sg_pc i pc (sg_item p x s))"
proof -
  have i: "i < length (sg_procs s)" and pi: "sg_procs s ! i = pc0" using a by (auto simp: sg_at_def)
  have p: "p < length (sg_heap s)" using sg_leads_less [OF sg_ok_at [OF inv a]] l by auto
  have "map SFKey ((sg_heap s)[p := x]) = map SFKey (sg_heap s)"
    using p id by (simp add: map_update list_update_same_conv)
  moreover have "sg_ok ((sg_heap s)[p := x]) (sg_procs s ! j)" if "j < length (sg_procs s)" "j \<noteq> i" for j
    using elected_unique [OF sg_elected [OF inv] i that(1)] that(2) l pi sg_ok_frame [OF sg_pcs [OF inv that(1)] _ p nd] by auto
  ultimately show ?thesis using sg_inv_passive [OF inv i, of pc "(sg_heap s)[p := x]"] l st ok [OF p] pi
    by (simp add: sg_item_def)
qed

lemma sg_inv_store:
  assumes inv: "sg_inv s" and a: "sg_at s i (SFresh req)"
  shows "sg_inv (GetOrCreateItem_store i rc keys s)"
proof (cases "shards_map (sg_items s) (fst keys)")
  case None
  let ?n = "length (sg_heap s)" and ?x = "new_item (fst keys) (snd keys)"
  obtain ss where ss: "LoadOrStore (fst keys) ?n (sg_items s) = ((?n, False), ss)"
      "shards_map ss = (shards_map (sg_items s))(fst keys \<mapsto> ?n)" "ss \<noteq> []"
    by (rule LoadOrStore_fresh [OF sg_shards [OF inv] None])
  have len: "length ss = length (sg_items s)"
    using arg_cong [OF ss(1), of "\<lambda>x. length (snd x)"] by (auto simp: LoadOrStore_def Let_def split: option.splits)
  have i: "i < length (sg_procs s)" and pi: "sg_procs s ! i = SFresh req" using a by (auto simp: sg_at_def)
  have "sg_ok (sg_heap s @ [?x]) (SHint ?n)" by (simp add: pristine_def new_item_def)
  then have "\<forall>j < length (sg_procs s). sg_ok (sg_heap s @ [?x]) ((sg_procs s)[i := SHint ?n] ! j)"
    by (rule all_list_update [OF i]) (rule sg_ok_append [OF sg_pcs [OF inv]])
  then show ?thesis
    using sh.elected_store [OF sg_shards [OF inv] sg_elected [OF inv] i None, of "SHint ?n"] ss pi inv len
    by (simp add: sg_inv_def GetOrCreateItem_store_def sg_pc_def new_item_def)
next
  case (Some p)
  have "p < length (sg_heap s)" using sh.elected_found [OF sg_elected [OF inv] Some] by simp
  then show ?thesis using sg_inv_move [OF inv a, of "SWaiting p rc"] LoadOrStore_found [OF Some, of "length (sg_heap s)"]
    by (simp add: GetOrCreateItem_store_def)
qed

lemma sg_inv_remove:
  assumes inv: "sg_inv s" and a: "sg_at s i (SDelete p r)"
  shows "sg_inv (Finish_remove i p r s)"
proof -
  have i: "i < length (sg_procs s)" and pi: "sg_procs s ! i = SDelete p r" using a by (auto simp: sg_at_def)
  have ok: "p < length (sg_heap s)" "sg_ok (sg_heap s) (SClose p r)" using sg_ok_at [OF inv a] by auto
  show ?thesis
    using sh.elected_remove [OF sg_shards [OF inv] sg_elected [OF inv] i, of p "SClose p r"] pi ok(1) inv
      all_list_update [OF i, of "sg_ok (sg_heap s)", OF ok(2) sg_pcs [OF inv]]
    by (simp add: sg_inv_def Finish_remove_def sg_pc_def shard_Delete_def Let_def)
qed

lemma sg_inv_size:
  assumes inv: "sg_inv s" and a: "sg_at s i (SSize p r)"
  shows "sg_inv (Finish_size i p r s)"
proof -
  let ?x = "sg_heap s ! p"
  let ?j = "shardFor (SFKey ?x) (sg_items s)"
  let ?sz = "update_size (length (response ?x)) (map_of (sg_sizes s ! ?j) (FetchKey ?x))"
  let ?shard = "AList.update (FetchKey ?x) ?sz (sg_sizes s ! ?j)"
  have j: "?j < length (sg_sizes s)" using shardFor_less [OF sg_shards [OF inv]] inv by (simp add: sg_inv_def)
  have cnt: "1 \<le> count sz \<and> count sz \<le> 50" if "map_of (sg_sizes s ! ?j) k = Some sz" for k sz
    using that inv nth_mem [OF j] by (fastforce simp: sg_inv_def)
  have "1 \<le> count ?sz \<and> count ?sz \<le> 50"
    using cnt [of "FetchKey ?x"] by (auto simp: update_size_def Let_def split: option.splits)
  then have shard: "\<forall>k sz. map_of ?shard k = Some sz \<longrightarrow> 1 \<le> count sz \<and> count sz \<le> 50"
    using cnt by (auto simp: update_conv')
  have "sg_inv (sg_pc i (SReturned (Some p) False r) s)"
    using sg_ok_at [OF inv a] by (intro sg_inv_move [OF inv a]) auto
  moreover have "\<forall>sh \<in> set ((sg_sizes s)[?j := ?shard]). sh = ?shard \<or> sh \<in> set (sg_sizes s)"
    using set_update_subset_insert by fastforce
  ultimately show ?thesis using shard by (auto simp: sg_inv_def Finish_size_def sg_pc_def Let_def)
qed

lemma sg_inv_step:
  assumes step: "subgraph_step hash disable builder s s'" and inv: "sg_inv s"
  shows "sg_inv s'"
  using step
proof (cases rule: subgraph_step.cases)
  case (sg_begin i req)
  then show ?thesis using sg_inv_store [OF inv sg_begin(2)] sg_inv_move [OF inv sg_begin(2), of SDirect]
    by (simp add: loadByContext_begin_def Let_def)
next
  case (sg_direct i r)
  then show ?thesis using sg_inv_move [OF inv sg_direct(2)] by simp
next
  case (sg_wakes i p rc)
  then show ?thesis using sg_ok_at [OF inv sg_wakes(2)] by (auto intro!: sg_inv_move [OF inv sg_wakes(2)] simp: sg_seen_def)
next
  case (sg_cancelled i p rc e)
  then show ?thesis using sg_ok_at [OF inv sg_cancelled(2)] by (auto intro!: sg_inv_move [OF inv sg_cancelled(2)] simp: sg_seen_def)
next
  case (sg_hint i p)
  then show ?thesis using sg_ok_at [OF inv sg_hint(2)]
    by (auto intro!: sg_inv_leader [OF inv sg_hint(2)] simp: GetOrCreateItem_hint_def Let_def pristine_def)
next
  case (sg_load i p r)
  then show ?thesis using sg_ok_at [OF inv sg_load(2)] by (auto intro!: sg_inv_move [OF inv sg_load(2)])
next
  case (sg_publish i p r)
  then show ?thesis using sg_ok_at [OF inv sg_publish(2)]
    by (auto intro!: sg_inv_leader [OF inv sg_publish(2)] publish_holds simp: pristine_def)
next
  case (sg_close i p r)
  then show ?thesis using sg_ok_at [OF inv sg_close(2)]
    by (auto intro!: sg_inv_leader [OF inv sg_close(2)] simp: Finish_close_def)
qed (use inv in \<open>auto intro: sg_inv_remove sg_inv_size\<close>)

lemma subgraph_reachable_inv: "subgraph_reachable hash disable builder n reqs s \<Longrightarrow> sg_inv s"
  by (induction rule: subgraph_reachable.induct) (auto intro: sg_inv_init sg_inv_step)

section \<open>What followers return\<close>

text \<open>A follower's own response context gets the leader's status, and its headers if there are any.\<close>

definition same_result :: "load_result \<Rightarrow> load_result \<Rightarrow> bool" where
  "same_result rl r =
     (case (rl, r) of
        (Inl e, Inl e') \<Rightarrow> e = e'
      | (Inr (out, Some c), Inr (out', Some c')) \<Rightarrow> out = out' \<and> rc_StatusCode c' = rc_StatusCode c \<and>
          (rc_Header c \<noteq> None \<longrightarrow> rc_Header c' = rc_Header c)
      | (Inr (out, _), Inr (out', _)) \<Rightarrow> out = out'
      | _ \<Rightarrow> False)"

lemma shared_same: "holds_result rl x \<Longrightarrow> same_result rl (loadByContext_shared rc x)"
  by (auto simp: holds_result_def loadByContext_shared_def same_result_def split: sum.splits option.splits)

lemma sg_followers:
  assumes inv: "sg_inv s"
  shows "SPanicked \<notin> set (sg_procs s)"
    and "sg_at s i (SReturned (Some p) True r) \<Longrightarrow>
      \<exists>j rl. (sg_at s j (SSize p rl) \<or> sg_at s j (SReturned (Some p) False rl)) \<and> same_result rl r"
    and "sg_at s i pc \<Longrightarrow> sg_at s j pc' \<Longrightarrow> sg_leads pc = Some p \<Longrightarrow> sg_leads pc' = Some p \<Longrightarrow> i = j"
proof -
  show "SPanicked \<notin> set (sg_procs s)" using sg_pcs [OF inv] by (metis in_set_conv_nth sg_ok.simps(14))
  show "\<exists>j rl. (sg_at s j (SSize p rl) \<or> sg_at s j (SReturned (Some p) False rl)) \<and> same_result rl r"
    if a: "sg_at s i (SReturned (Some p) True r)"
  proof -
    obtain rc where p: "p < length (sg_heap s)" "loaded (sg_heap s ! p)" "r = loadByContext_shared rc (sg_heap s ! p)"
      using sg_ok_at [OF inv a] by (auto simp: sg_seen_def)
    obtain j where j: "j < length (sg_procs s)" "sg_leads (sg_procs s ! j) = Some p"
      using elected_leader [OF sg_elected [OF inv], of p] p(1) by auto
    then obtain rl where "sg_at s j (SSize p rl) \<or> sg_at s j (SReturned (Some p) False rl)" "holds_result rl (sg_heap s ! p)"
      using sg_pcs [OF inv j(1)] p(2) by (cases "sg_procs s ! j") (auto simp: sg_at_def pristine_def split: if_splits)
    then show ?thesis using shared_same p(3) by blast
  qed
  show "sg_at s i pc \<Longrightarrow> sg_at s j pc' \<Longrightarrow> sg_leads pc = Some p \<Longrightarrow> sg_leads pc' = Some p \<Longrightarrow> i = j"
    using elected_unique [OF sg_elected [OF inv], of i j p] by (auto simp: sg_at_def)
qed

end
