(* ===== verification/Response_Tree.thy ===== *)
theory Response_Tree
  imports Fetch_Tree "HOL-Library.Word"
begin

text \<open>
  The response tree of \<open>v2/pkg/engine/resolve\<close>: \<open>node.go\<close>, \<open>node_object.go\<close>, \<open>node_array.go\<close>,
  \<open>node_scalar.go\<close>, \<open>node_custom.go\<close>, \<open>node_enum.go\<close>, with copying, and the conditions under which
  \<open>resolvable.go\<close> renders a field. A nil slice of type names is \<open>None\<close>; \<open>ParentOnTypeNames\<close> is never
  an empty slice that is not nil, so it is a list. The resolver of a custom node is an index.
\<close>

section \<open>Nodes\<close>

datatype NodeKind =
  NodeKindObject | NodeKindEmptyObject | NodeKindArray | NodeKindEmptyArray | NodeKindNull | NodeKindString
| NodeKindBoolean | NodeKindInteger | NodeKindFloat | NodeKindBigInt | NodeKindCustom | NodeKindScalar
| NodeKindStaticString | NodeKindEnum

record FieldExport =
  ExportPath :: "string list"
  AsString :: bool

record TypeFieldSource =
  SourceIDs :: "string list"
  SourceNames :: "string list"

record FieldInfo =
  FieldInfoName :: string
  ExactParentTypeName :: string
  ParentTypeNames :: "string list"
  NamedType :: string
  Source :: TypeFieldSource
  InfoFetchID :: int
  InfoHasAuthorizationRule :: bool
  IndirectInterfaceNames :: "string list"

record LeafAttrs =
  LeafPath :: "string list"
  LeafNullable :: bool
  LeafExport :: "FieldExport option"

record ObjectAttrs =
  ObjNullable :: bool
  ObjPath :: "string list"
  Unresolvable :: bool
  PossibleTypes :: "string list option"
  SourceName :: string
  ObjTypeName :: string
  InaccessibleTypes :: "string list option"

record ArrayAttrs =
  ArrPath :: "string list"
  ArrNullable :: bool
  SkipItem :: "nat option"

type_synonym ParentOnTypeNames = "nat \<times> string list"

datatype Node =
  ObjectNode ObjectAttrs "Field list"
| EmptyObjectNode
| ArrayNode ArrayAttrs Node
| EmptyArrayNode
| NullNode
| StringNode LeafAttrs bool bool
| BooleanNode LeafAttrs
| IntegerNode LeafAttrs
| FloatNode LeafAttrs
| BigIntNode LeafAttrs
| CustomNode nat bool "string list"
| ScalarNode LeafAttrs
| StaticStringNode "string list" string
| EnumNode LeafAttrs string "string list" "string list"
and Field =
  Field (f_Name: string) (f_Value: Node) (f_Position: "32 word \<times> 32 word") (f_Defer: "int option") (f_Stream: "int option")
    (f_OnTypeNames: "string list option") (f_ParentOnTypeNames: "ParentOnTypeNames list") (f_Info: "FieldInfo option")

lemma size_value [termination_simp]: "f \<in> set fs \<Longrightarrow> size (f_Value f) < Suc (size_list size fs)"
proof -
  assume "f \<in> set fs"
  then have "size f \<le> size_list size fs" by (rule size_list_estimation') simp
  moreover have "size (f_Value f) < size f" by (cases f) simp
  ultimately show ?thesis by simp
qed

fun NodeKind_of :: "Node \<Rightarrow> NodeKind" where
  "NodeKind_of (ObjectNode _ _) = NodeKindObject"
| "NodeKind_of EmptyObjectNode = NodeKindEmptyObject"
| "NodeKind_of (ArrayNode _ _) = NodeKindArray"
| "NodeKind_of EmptyArrayNode = NodeKindEmptyArray"
| "NodeKind_of NullNode = NodeKindNull"
| "NodeKind_of (StringNode _ _ _) = NodeKindString"
| "NodeKind_of (BooleanNode _) = NodeKindBoolean"
| "NodeKind_of (IntegerNode _) = NodeKindInteger"
| "NodeKind_of (FloatNode _) = NodeKindFloat"
| "NodeKind_of (BigIntNode _) = NodeKindBigInt"
| "NodeKind_of (CustomNode _ _ _) = NodeKindCustom"
| "NodeKind_of (ScalarNode _) = NodeKindScalar"
| "NodeKind_of (StaticStringNode _ _) = NodeKindStaticString"
| "NodeKind_of (EnumNode _ _ _ _) = NodeKindEnum"

definition set_value :: "Field \<Rightarrow> Node \<Rightarrow> Field" where
  "set_value f v = Field (f_Name f) v (f_Position f) (f_Defer f) (f_Stream f) (f_OnTypeNames f) (f_ParentOnTypeNames f) (f_Info f)"

definition set_types :: "Field \<Rightarrow> string list option \<Rightarrow> ParentOnTypeNames list \<Rightarrow> Field" where
  "set_types f on parents = Field (f_Name f) (f_Value f) (f_Position f) (f_Defer f) (f_Stream f) on parents (f_Info f)"

lemma set_value_sel [simp]:
  "f_Name (set_value f v) = f_Name f" "f_Value (set_value f v) = v" "f_OnTypeNames (set_value f v) = f_OnTypeNames f"
  "f_ParentOnTypeNames (set_value f v) = f_ParentOnTypeNames f"
  by (simp_all add: set_value_def)

lemma set_types_sel [simp]:
  "f_Name (set_types f on ps) = f_Name f" "f_Value (set_types f on ps) = f_Value f" "f_OnTypeNames (set_types f on ps) = on"
  "f_ParentOnTypeNames (set_types f on ps) = ps"
  by (simp_all add: set_types_def)

section \<open>Copying\<close>

text \<open>
  \<open>Copy\<close> of an object keeps four of its attributes, of an array two, of a field not the parents' type
  names.
\<close>

fun copy_node :: "Node \<Rightarrow> Node" and copy_field :: "Field \<Rightarrow> Field" where
  "copy_node (ObjectNode a fs) =
     ObjectNode \<lparr>ObjNullable = ObjNullable a, ObjPath = ObjPath a, Unresolvable = Unresolvable a, PossibleTypes = None,
       SourceName = [], ObjTypeName = [], InaccessibleTypes = None\<rparr> (map copy_field fs)"
| "copy_node (ArrayNode a n) = ArrayNode \<lparr>ArrPath = ArrPath a, ArrNullable = ArrNullable a, SkipItem = None\<rparr> (copy_node n)"
| "copy_node n = n"
| "copy_field (Field n v p d s on ps i) = Field n (copy_node v) p d s on [] i"

section \<open>What is rendered\<close>

text \<open>
  \<open>typeOf\<close> gives the \<open>__typename\<close> of the object at a response path; \<open>r.typeNames\<close> in
  \<open>resolvable.go\<close> are the names along the path, the last one at depth 0.
\<close>

definition skipFieldOnParentTypeNames :: "(string list \<Rightarrow> string option) \<Rightarrow> string list \<Rightarrow> Field \<Rightarrow> bool" where
  "skipFieldOnParentTypeNames typeOf path f =
     (\<not> list_all (\<lambda>(depth, names).
         case typeOf (take (length path - depth) path) of None \<Rightarrow> False | Some t \<Rightarrow> t \<in> set names) (f_ParentOnTypeNames f))"

definition skipFieldOnTypeNames :: "(string list \<Rightarrow> string option) \<Rightarrow> string list \<Rightarrow> Field \<Rightarrow> bool" where
  "skipFieldOnTypeNames typeOf path f =
     (case typeOf path of None \<Rightarrow> True | Some t \<Rightarrow> t \<notin> set (case f_OnTypeNames f of None \<Rightarrow> [] | Some ns \<Rightarrow> ns))"

definition shouldSkipFieldByTypeCondition :: "(string list \<Rightarrow> string option) \<Rightarrow> string list \<Rightarrow> Field \<Rightarrow> bool" where
  "shouldSkipFieldByTypeCondition typeOf path f =
     (if f_ParentOnTypeNames f \<noteq> [] \<and> skipFieldOnParentTypeNames typeOf path f then True
      else if f_OnTypeNames f \<noteq> None \<and> skipFieldOnTypeNames typeOf path f then True
      else False)"

text \<open>The response paths that are rendered for these types.\<close>

fun rendered :: "(string list \<Rightarrow> string option) \<Rightarrow> string list \<Rightarrow> Node \<Rightarrow> string list list" where
  "rendered typeOf path (ObjectNode a fs) =
     path # concat (map (\<lambda>f. if shouldSkipFieldByTypeCondition typeOf path f then []
                             else rendered typeOf (path @ [f_Name f]) (f_Value f)) fs)"
| "rendered typeOf path (ArrayNode a n) = path # rendered typeOf path n"
| "rendered typeOf path n = [path]"

end
