(* ===== verification/Merge_Fields.thy ===== *)
theory Merge_Fields
  imports Response_Tree
begin

text \<open>
  \<open>v2/pkg/engine/postprocess/merge_fields.go\<close>. A method that changes a field returns it; a failed type
  assertion, a panic, is \<open>None\<close>. The loops that remove fields at an index while they run are
  \<open>absorb\<close>, the inner one, and \<open>sweep\<close>, the outer one, which keeps the fields before its index.
\<close>

section \<open>Names of types\<close>

definition opt_list :: "'a list option \<Rightarrow> 'a list" where
  "opt_list x = (case x of None \<Rightarrow> [] | Some xs \<Rightarrow> xs)"

text \<open>Go's \<open>append(left, right...)\<close> on slices that may be nil.\<close>

definition append_slice :: "'a list option \<Rightarrow> 'a list option \<Rightarrow> 'a list option" where
  "append_slice left right =
     (case left of Some xs \<Rightarrow> Some (xs @ opt_list right) | None \<Rightarrow> (if opt_list right = [] then None else right))"

text \<open>With duplicates Go's result is in the order of a map; it is only read as a set.\<close>

definition deduplicateOnTypeNames :: "string list option \<Rightarrow> string list option" where
  "deduplicateOnTypeNames onTypeNames = map_option remdups onTypeNames"

definition sameOnTypeNames :: "string list option \<Rightarrow> string list option \<Rightarrow> bool" where
  "sameOnTypeNames left right =
     (if length (opt_list left) \<noteq> length (opt_list right) then False
      else list_all (\<lambda>l. l \<in> set (opt_list right)) (opt_list left))"

text \<open>The \<open>break\<close> leaves the inner loop only, so the outer loop returns false on its first round.\<close>

definition sameParentOnTypeNames :: "Field \<Rightarrow> Field \<Rightarrow> bool" where
  "sameParentOnTypeNames left right =
     (if length (f_ParentOnTypeNames left) \<noteq> length (f_ParentOnTypeNames right) then False
      else case f_ParentOnTypeNames left of [] \<Rightarrow> True | _ # _ \<Rightarrow> False)"

fun nodeIsScalar :: "Node \<Rightarrow> bool" where
  "nodeIsScalar (ObjectNode _ _) = False"
| "nodeIsScalar (ArrayNode _ _) = False"
| "nodeIsScalar _ = True"

section \<open>Merging two fields\<close>

definition canMergeScalars :: "Field \<Rightarrow> Field \<Rightarrow> bool" where
  "canMergeScalars left right =
     (if f_OnTypeNames left \<noteq> None \<and> f_OnTypeNames right \<noteq> None
      then sameOnTypeNames (f_OnTypeNames left) (f_OnTypeNames right) else True)"

fun merge_parent :: "ParentOnTypeNames \<Rightarrow> ParentOnTypeNames list \<Rightarrow> ParentOnTypeNames list" where
  "merge_parent (depth, names) [] = [(depth, names)]"
| "merge_parent (depth, names) ((d, ns) # ps) =
     (if depth = d then (d, remdups (ns @ names)) # ps else (d, ns) # merge_parent (depth, names) ps)"

definition merge_parents :: "ParentOnTypeNames list \<Rightarrow> ParentOnTypeNames list \<Rightarrow> ParentOnTypeNames list" where
  "merge_parents left right = fold merge_parent right left"

definition mergeScalars :: "Field \<Rightarrow> Field \<Rightarrow> Field" where
  "mergeScalars left right =
     (if f_OnTypeNames left = None \<and> f_ParentOnTypeNames left = [] then left
      else if f_OnTypeNames right = None \<and> f_ParentOnTypeNames right = [] then set_types left None []
      else
        let on = deduplicateOnTypeNames (append_slice (f_OnTypeNames left) (f_OnTypeNames right)) in
        if f_ParentOnTypeNames left = [] then set_types left on (f_ParentOnTypeNames right)
        else if f_ParentOnTypeNames right = [] then set_types left on (f_ParentOnTypeNames left)
        else set_types left on (merge_parents (f_ParentOnTypeNames left) (f_ParentOnTypeNames right)))"

definition fieldsCanMerge :: "Field \<Rightarrow> Field \<Rightarrow> bool" where
  "fieldsCanMerge left right =
     (if f_Name left \<noteq> f_Name right then False
      else if NodeKind_of (f_Value left) \<noteq> NodeKind_of (f_Value right) then False
      else if \<not> sameOnTypeNames (f_OnTypeNames left) (f_OnTypeNames right) then False
      else if nodeIsScalar (f_Value left) \<and> \<not> sameParentOnTypeNames left right then False
      else True)"

definition merge_nodes :: "Node \<Rightarrow> Node \<Rightarrow> Node option" where
  "merge_nodes l r =
     (case l of
        ObjectNode a ls \<Rightarrow> (case r of ObjectNode _ rs \<Rightarrow> Some (ObjectNode a (ls @ rs)) | _ \<Rightarrow> None)
      | ArrayNode a item \<Rightarrow>
          (case r of
             ArrayNode _ item' \<Rightarrow>
               (case item of
                  ObjectNode b ls \<Rightarrow> (case item' of ObjectNode _ rs \<Rightarrow> Some (ArrayNode a (ObjectNode b (ls @ rs))) | _ \<Rightarrow> None)
                | _ \<Rightarrow> Some l)
           | _ \<Rightarrow> None)
      | _ \<Rightarrow> Some l)"

definition mergeValues :: "Field \<Rightarrow> Field \<Rightarrow> Field option" where
  "mergeValues left right = map_option (set_value left) (merge_nodes (f_Value left) (f_Value right))"

section \<open>Type names of the parents\<close>

fun setParentTypeNames :: "Node \<Rightarrow> string list \<Rightarrow> nat \<Rightarrow> Node" where
  "setParentTypeNames (ObjectNode a fs) typeNames depth =
     ObjectNode a (map (\<lambda>f. set_value (set_types f (f_OnTypeNames f) (f_ParentOnTypeNames f @ [(depth, typeNames)]))
                              (setParentTypeNames (f_Value f) typeNames (depth + 1))) fs)"
| "setParentTypeNames (ArrayNode b (ObjectNode a fs)) typeNames depth =
     ArrayNode b (ObjectNode a (map (\<lambda>f. set_value (set_types f (f_OnTypeNames f) (f_ParentOnTypeNames f @ [(depth, typeNames)]))
                              (setParentTypeNames (f_Value f) typeNames (depth + 1))) fs))"
| "setParentTypeNames n typeNames depth = n"

definition propagateParentTypeNames :: "Field \<Rightarrow> Field" where
  "propagateParentTypeNames f =
     (case f_OnTypeNames f of None \<Rightarrow> f | Some names \<Rightarrow> set_value f (setParentTypeNames (f_Value f) names 1))"

section \<open>The fields of one object\<close>

text \<open>Step 1: a copy for each further type name is inserted right behind the field.\<close>

definition additional_field :: "Field \<Rightarrow> string \<Rightarrow> Field" where
  "additional_field f t = Field (f_Name f) (copy_node (f_Value f)) (f_Position f) None None (Some [t]) [] (f_Info f)"

definition duplicate_field :: "Field \<Rightarrow> Field list" where
  "duplicate_field f =
     (case f_OnTypeNames f of
        Some (t # ts) \<Rightarrow> set_types f (Some [t]) (f_ParentOnTypeNames f) # rev (map (additional_field f) ts)
      | _ \<Rightarrow> [f])"

text \<open>Steps 1 and 2 for all fields; the copies are made before the names are propagated.\<close>

definition duplicate_fields :: "Field list \<Rightarrow> Field list" where
  "duplicate_fields fs = concat (map (\<lambda>f. map propagateParentTypeNames (duplicate_field f)) fs)"

lemma list_all_duplicate:
  "(\<And>f g. f \<in> set fs \<Longrightarrow> g \<in> set (map propagateParentTypeNames (duplicate_field f)) \<Longrightarrow> P g) \<Longrightarrow> list_all P (duplicate_fields fs)"
  by (auto simp: duplicate_fields_def list_all_iff)

text \<open>Steps 3 to 5: a field takes in the others it can be merged with.\<close>

fun absorb :: "(Field \<Rightarrow> Field \<Rightarrow> bool) \<Rightarrow> (Field \<Rightarrow> Field \<Rightarrow> Field option) \<Rightarrow> Field \<Rightarrow> Field list \<Rightarrow> (Field \<times> Field list) option" where
  "absorb can m l [] = Some (l, [])"
| "absorb can m l (r # rs) =
     (if can l r then (case m l r of None \<Rightarrow> None | Some l' \<Rightarrow> absorb can m l' rs)
      else map_option (\<lambda>(l', rs'). (l', r # rs')) (absorb can m l rs))"

lemma absorb_length: "absorb can m l rs = Some (l', rs') \<Longrightarrow> length rs' \<le> length rs"
  by (induction rs arbitrary: l l' rs') (fastforce split: if_splits option.splits)+

function sweep ::
  "bool \<Rightarrow> (Field \<Rightarrow> bool) \<Rightarrow> (Field \<Rightarrow> Field \<Rightarrow> bool) \<Rightarrow> (Field \<Rightarrow> Field \<Rightarrow> Field option) \<Rightarrow> Field list \<Rightarrow> Field list \<Rightarrow> Field list option" where
  "sweep both q can m pre [] = Some pre"
| "sweep both q can m pre (l # rest) =
     (if \<not> q l then sweep both q can m (pre @ [l]) rest
      else case (if both then absorb can m l pre else Some (l, pre)) of
          None \<Rightarrow> None
        | Some (l', pre') \<Rightarrow>
            (case absorb can m l' rest of
               None \<Rightarrow> None
             | Some (l'', rest') \<Rightarrow> sweep both q can m (pre' @ [l'']) rest'))"
  by pat_completeness auto
termination
  by (relation "measure (\<lambda>(both, q, can, m, pre, rest). length rest)") (auto dest: absorb_length simp: less_Suc_eq_le)

definition merge_over_conditional :: "Field list \<Rightarrow> Field list option" where
  "merge_over_conditional =
     sweep True (\<lambda>l. f_OnTypeNames l = None) (\<lambda>l r. f_OnTypeNames r \<noteq> None \<and> f_Name l = f_Name r) mergeValues []"

definition merge_siblings :: "Field list \<Rightarrow> Field list option" where
  "merge_siblings = sweep False (\<lambda>l. True) fieldsCanMerge mergeValues []"

definition merge_scalar_siblings :: "Field list \<Rightarrow> Field list option" where
  "merge_scalar_siblings =
     sweep True (\<lambda>l. nodeIsScalar (f_Value l)) (\<lambda>l r. f_Name l = f_Name r \<and> canMergeScalars l r) (\<lambda>l r. Some (mergeScalars l r)) []"

definition merge_object_fields :: "Field list \<Rightarrow> Field list option" where
  "merge_object_fields fs =
     (case merge_over_conditional (duplicate_fields fs) of
        None \<Rightarrow> None
      | Some fs \<Rightarrow> (case merge_siblings fs of None \<Rightarrow> None | Some fs \<Rightarrow> merge_scalar_siblings fs))"

end
