(* ===== verification/Merge_Tree.thy ===== *)
theory Merge_Tree
  imports Merge_Fields
begin

text \<open>
  The traversal of \<open>merge_fields.go\<close>, which ends because merging does not make a tree higher, and what
  the loops over the fields keep: the locale \<open>merging\<close> is the contract between a loop and the merge
  of two fields, interpreted for the three loops.
\<close>

section \<open>Loops\<close>

lemma absorb_keeps:
  assumes "absorb can m l rs = Some (l', rs')" "P l" "\<forall>r \<in> set rs. P r"
    and m: "\<And>l r l'. P l \<Longrightarrow> P r \<Longrightarrow> m l r = Some l' \<Longrightarrow> P l'"
  shows "P l' \<and> (\<forall>r \<in> set rs'. P r)"
  using assms(1-3)
proof (induction rs arbitrary: l l' rs')
  case (Cons r rs)
  show ?case
  proof (cases "can l r")
    case True
    then obtain k where k: "m l r = Some k" "absorb can m k rs = Some (l', rs')" using Cons.prems by (auto split: option.splits)
    have "P k" by (rule m [OF _ _ k(1)]) (use Cons.prems in simp_all)
    then show ?thesis using Cons.IH [OF k(2)] Cons.prems(3) by simp
  next
    case False
    then obtain rs'' where r: "absorb can m l rs = Some (l', rs'')" "rs' = r # rs''" using Cons.prems by auto
    show ?thesis using Cons.IH [OF r(1)] r(2) Cons.prems(2,3) by simp
  qed
qed simp

text \<open>The rule for a loop that runs through.\<close>

lemma sweep_rule:
  assumes "sweep both q can m before after = Some fs" "Inv before after"
    and "\<And>before l after. Inv before (l # after) \<Longrightarrow> \<not> q l \<Longrightarrow> Inv (before @ [l]) after"
    and "\<And>before l after l' before' l'' after'. Inv before (l # after) \<Longrightarrow> q l \<Longrightarrow>
      (if both then absorb can m l before else Some (l, before)) = Some (l', before') \<Longrightarrow>
      absorb can m l' after = Some (l'', after') \<Longrightarrow> Inv (before' @ [l'']) after'"
  shows "Inv fs []"
  using assms(1,2)
proof (induction "length after" arbitrary: before after rule: less_induct)
  case less
  show ?case
  proof (cases after)
    case Nil then show ?thesis using less.prems by simp
  next
    case (Cons l rest)
    show ?thesis
    proof (cases "q l")
      case False
      then have "sweep both q can m (before @ [l]) rest = Some fs" using less.prems(1) Cons by simp
      then show ?thesis using less.hyps [of rest "before @ [l]"] assms(3) [of before l rest] less.prems(2) Cons False by simp
    next
      case True
      obtain l' before' where 1: "(if both then absorb can m l before else Some (l, before)) = Some (l', before')"
        using less.prems(1) Cons True by (simp split: option.splits prod.splits)
      then obtain l'' after' where 2: "absorb can m l' rest = Some (l'', after')"
        using less.prems(1) Cons True by (simp split: option.splits prod.splits)
      have 3: "sweep both q can m (before' @ [l'']) after' = Some fs"
        using less.prems(1) Cons True 1 2 by simp
      have "Inv (before' @ [l'']) after'" using assms(4) [OF _ True 1 2] less.prems(2) Cons by simp
      then show ?thesis using less.hyps [OF _ 3] absorb_length [OF 2] Cons by simp
    qed
  qed
qed

lemma sweep_keeps:
  assumes s: "sweep both q can m before after = Some fs" and P: "\<forall>f \<in> set before \<union> set after. P f"
    and m: "\<And>l r l'. P l \<Longrightarrow> P r \<Longrightarrow> m l r = Some l' \<Longrightarrow> P l'"
  shows "\<forall>f \<in> set fs. P f"
proof -
  have "\<forall>f \<in> set fs \<union> set []. P f"
  proof (rule sweep_rule [OF s, where Inv = "\<lambda>before after. \<forall>f \<in> set before \<union> set after. P f"], goal_cases)
    case (3 before l after l' before' l'' after')
    have l: "P l" "\<forall>r \<in> set before. P r" "\<forall>r \<in> set after. P r" using 3(1) by auto
    have "P l' \<and> (\<forall>r \<in> set before'. P r)"
    proof (cases both)
      case True
      then have "absorb can m l before = Some (l', before')" using 3(3) by simp
      then show ?thesis by (rule absorb_keeps [OF _ l(1,2) m])
    next
      case False
      then show ?thesis using 3(3) l by simp
    qed
    moreover then have "P l'' \<and> (\<forall>r \<in> set after'. P r)"
      by (intro absorb_keeps [OF 3(4) _ l(3) m]) simp
    ultimately show ?case by auto
  qed (use P in auto)
  then show ?thesis by simp
qed

section \<open>Heights\<close>

fun height :: "Node \<Rightarrow> nat" where
  "height (ObjectNode a fs) = Suc (foldr max (map (\<lambda>f. height (f_Value f)) fs) 0)"
| "height (ArrayNode a n) = Suc (height n)"
| "height n = 0"

lemma foldr_max_le: "foldr max xs (a :: nat) \<le> k \<longleftrightarrow> a \<le> k \<and> (\<forall>x \<in> set xs. x \<le> k)"
  by (induction xs) auto

lemma height_object: "height (ObjectNode a fs) \<le> k \<longleftrightarrow> 0 < k \<and> (\<forall>f \<in> set fs. height (f_Value f) < k)"
  by (cases k) (auto simp: foldr_max_le less_Suc_eq_le)

lemma height_copy [simp]: "height (copy_node n) = height n" "height (f_Value (copy_field f)) = height (f_Value f)"
  by (induction n and f rule: copy_node_copy_field.induct) (simp_all add: comp_def cong: map_cong)

lemma height_setParentTypeNames [simp]: "height (setParentTypeNames n ts d) = height n"
  by (induction n ts d rule: setParentTypeNames.induct) (simp_all add: comp_def cong: map_cong)

lemma height_merge: "merge_nodes l r = Some n \<Longrightarrow> height l \<le> k \<Longrightarrow> height r \<le> k \<Longrightarrow> height n \<le> k"
  by (cases k; cases "k - 1") (auto simp: merge_nodes_def foldr_max_le split: Node.splits)

lemma height_duplicate: "g \<in> set (duplicate_field f) \<Longrightarrow> height (f_Value (propagateParentTypeNames g)) = height (f_Value f)"
  by (auto simp: duplicate_field_def propagateParentTypeNames_def additional_field_def simp del: height.simps split: option.splits list.splits)

lemma height_merge_object_fields:
  assumes "merge_object_fields fs = Some fs'" "f \<in> set fs'"
  shows "height (f_Value f) < height (ObjectNode a fs)"
proof -
  let ?P = "\<lambda>f. height (f_Value f) < height (ObjectNode a fs)"
  obtain f3 f4 where s: "merge_over_conditional (duplicate_fields fs) = Some f3" "merge_siblings f3 = Some f4" "merge_scalar_siblings f4 = Some fs'"
    using assms(1) by (auto simp: merge_object_fields_def split: option.splits)
  have "\<forall>f \<in> set fs. ?P f" using height_object [of a fs "height (ObjectNode a fs)"] by blast
  then have 1: "\<forall>f \<in> set ([] @ (duplicate_fields fs)). ?P f" by (auto simp: height_duplicate duplicate_fields_def simp del: height.simps)
  have m: "?P l'" if l: "?P l" "?P r" "mergeValues l r = Some l'" for l r l'
  proof -
    obtain v where v: "merge_nodes (f_Value l) (f_Value r) = Some v" "l' = set_value l v" using l(3) by (auto simp: mergeValues_def)
    have "height v \<le> height (ObjectNode a fs) - 1" by (rule height_merge [OF v(1)]) (use l(1,2) in linarith)+
    then show ?thesis using v(2) l(1) by simp
  qed
  have ms: "?P l'" if "?P l" "?P r" "Some (mergeScalars l r) = Some l'" for l r l'
    using that by (auto simp: mergeScalars_def Let_def simp del: height.simps split: if_splits)
  have "\<forall>f \<in> set f3. ?P f" by (rule sweep_keeps [OF s(1) [unfolded merge_over_conditional_def] _ m]) (use 1 in simp_all)
  then have "\<forall>f \<in> set f4. ?P f" by (intro sweep_keeps [OF s(2) [unfolded merge_siblings_def] _ m]) simp_all
  then have "\<forall>f \<in> set fs'. ?P f" by (intro sweep_keeps [OF s(3) [unfolded merge_scalar_siblings_def] _ ms]) simp_all
  then show ?thesis using assms(2) by blast
qed

section \<open>The traversal\<close>

function (sequential) traverseNode :: "Node \<Rightarrow> Node option" where
  "traverseNode (ObjectNode a fs) =
     (if length fs = 1 then
        map_option (\<lambda>v. ObjectNode a [set_value (hd fs) v]) (traverseNode (f_Value (hd fs)))
      else case merge_object_fields fs of
          None \<Rightarrow> None
        | Some fs' \<Rightarrow> map_option (ObjectNode a) (those (map (\<lambda>f. map_option (set_value f) (traverseNode (f_Value f))) fs')))"
| "traverseNode (ArrayNode a item) = map_option (ArrayNode a) (traverseNode item)"
| "traverseNode n = Some n"
  by pat_completeness auto
termination
proof (relation "measure height")
  fix a fs assume "length (fs :: Field list) = 1"
  then have "hd fs \<in> set fs" by (cases fs) auto
  then show "(f_Value (hd fs), ObjectNode a fs) \<in> measure height"
    using height_object [of a fs "height (ObjectNode a fs)"] by (simp only: in_measure) blast
next
  fix a fs fs' f assume "length (fs :: Field list) \<noteq> 1" "merge_object_fields fs = Some fs'" "f \<in> set fs'"
  then show "(f_Value f, ObjectNode a fs) \<in> measure height"
    using height_merge_object_fields by (simp only: in_measure)
qed simp_all

text \<open>\<open>disable\<close> is the processor's option.\<close>

definition mergeFields_Process :: "bool \<Rightarrow> Node \<Rightarrow> Node option" where
  "mergeFields_Process disable node = (if disable then Some node else traverseNode node)"

end
