(* ===== verification/Merge_Proofs.thy ===== *)
theory Merge_Proofs
  imports Merge_Tree
begin

text \<open>
  What merging fields guarantees. \<open>merging\<close> is the contract between a loop and the merge of two
  fields: on fields that are \<open>ok\<close>, merging does not fail, gives an \<open>ok\<close> field, and what can be \<open>seen\<close>
  of it is what can be seen of the two. Trees of one shape are merged without a failed assertion;
  where a response path carries type conditions either always or never, what is rendered stays.
\<close>

section \<open>The contract of a loop\<close>

locale merging =
  fixes can :: "Field \<Rightarrow> Field \<Rightarrow> bool" and m :: "Field \<Rightarrow> Field \<Rightarrow> Field option"
    and q :: "Field \<Rightarrow> bool" and ok :: "Field \<Rightarrow> bool" and seen :: "Field \<Rightarrow> 'b set"
  assumes merge_ok: "ok l \<Longrightarrow> q l \<Longrightarrow> ok r \<Longrightarrow> can l r \<Longrightarrow> \<exists>l'. m l r = Some l' \<and> ok l' \<and> q l' \<and> seen l' = seen l \<union> seen r"
begin

lemma absorb_some:
  assumes "ok l" "q l" "list_all ok rs"
  shows "\<exists>l' rs'. absorb can m l rs = Some (l', rs') \<and> ok l' \<and> q l' \<and> list_all ok rs' \<and>
    seen l' \<union> \<Union>(seen ` set rs') = seen l \<union> \<Union>(seen ` set rs)"
  using assms
proof (induction rs arbitrary: l)
  case (Cons r rs)
  have r: "ok r" "list_all ok rs" using Cons.prems(3) by simp_all
  show ?case
  proof (cases "can l r")
    case True
    obtain k where k: "m l r = Some k" "ok k" "q k" "seen k = seen l \<union> seen r" using merge_ok [OF Cons.prems(1,2) r(1) True] by blast
    obtain l' rs' where "absorb can m k rs = Some (l', rs')" "ok l'" "q l'" "list_all ok rs'"
        "seen l' \<union> \<Union>(seen ` set rs') = seen k \<union> \<Union>(seen ` set rs)"
      using Cons.IH [OF k(2,3) r(2)] by blast
    then show ?thesis using True k by (intro exI [of _ l'] exI [of _ rs']) (simp add: Un_assoc)
  next
    case False
    obtain l' rs' where "absorb can m l rs = Some (l', rs')" "ok l'" "q l'" "list_all ok rs'"
        "seen l' \<union> \<Union>(seen ` set rs') = seen l \<union> \<Union>(seen ` set rs)"
      using Cons.IH [OF Cons.prems(1,2) r(2)] by blast
    then show ?thesis using False r(1) by (intro exI [of _ l'] exI [of _ "r # rs'"]) auto
  qed
qed simp

lemma sweep_some:
  assumes "list_all ok pre" "list_all ok rest"
  shows "\<exists>fs. sweep both q can m pre rest = Some fs \<and> list_all ok fs \<and> \<Union>(seen ` set fs) = \<Union>(seen ` set (pre @ rest))"
  using assms
proof (induction "length rest" arbitrary: pre rest rule: less_induct)
  case less
  show ?case
  proof (cases rest)
    case Nil then show ?thesis using less.prems by simp
  next
    case (Cons l rs)
    have l: "ok l" "list_all ok rs" using less.prems(2) Cons by simp_all
    show ?thesis
    proof (cases "q l")
      case False
      then show ?thesis using less.hyps [of rs "pre @ [l]"] less.prems(1) l Cons by simp
    next
      case True
      obtain l' pre' where 1: "(if both then absorb can m l pre else Some (l, pre)) = Some (l', pre')" "ok l'" "q l'" "list_all ok pre'"
          "seen l' \<union> \<Union>(seen ` set pre') = seen l \<union> \<Union>(seen ` set pre)"
        using absorb_some [OF l(1) True less.prems(1)] less.prems(1) l(1) True by (cases both) auto
      obtain l'' rs' where 2: "absorb can m l' rs = Some (l'', rs')" "ok l''" "list_all ok rs'"
          "seen l'' \<union> \<Union>(seen ` set rs') = seen l' \<union> \<Union>(seen ` set rs)"
        using absorb_some [OF 1(2,3) l(2)] by blast
      have len: "length rs' < length rest" using absorb_length [OF 2(1)] Cons by simp
      obtain fs where fs: "sweep both q can m (pre' @ [l'']) rs' = Some fs" "list_all ok fs"
          "\<Union>(seen ` set fs) = \<Union>(seen ` set ((pre' @ [l'']) @ rs'))"
        using less.hyps [OF len, of "pre' @ [l'']"] 1(4) 2(2,3) by auto
      have "\<Union>(seen ` set ((pre' @ [l'']) @ rs')) = \<Union>(seen ` set (pre @ rest))" using 1(5) 2(4) Cons by auto
      then show ?thesis using fs 1(1) 2(1) True Cons by (intro exI [of _ fs]) simp
    qed
  qed
qed

end

lemma those_map: "those (map g xs) = Some ys \<longleftrightarrow> list_all2 (\<lambda>x y. g x = Some y) xs ys"
  by (induction xs arbitrary: ys) (auto simp: list_all2_Cons1 split: option.splits)

lemma those_map_ex: "list_all (\<lambda>x. \<exists>y. g x = Some y) xs \<Longrightarrow> \<exists>ys. those (map g xs) = Some ys"
  by (induction xs) auto

lemma those_map_set: "those (map g xs) = Some ys \<Longrightarrow> y \<in> set ys \<Longrightarrow> \<exists>x \<in> set xs. g x = Some y"
  by (induction xs arbitrary: ys) (auto split: option.splits)

section \<open>Shapes\<close>

text \<open>Fields with the same response path have the same shape, as GraphQL's validation demands.\<close>

datatype shape = SLeaf | SObject "string \<Rightarrow> shape" | SArray shape

fun fits :: "shape \<Rightarrow> Node \<Rightarrow> bool" where
  "fits s (ObjectNode a fs) = (case s of SObject sh \<Rightarrow> list_all (\<lambda>f. fits (sh (f_Name f)) (f_Value f)) fs | _ \<Rightarrow> False)"
| "fits s (ArrayNode a n) = (case s of SArray s' \<Rightarrow> fits s' n | _ \<Rightarrow> False)"
| "fits s n = (case s of SLeaf \<Rightarrow> True | _ \<Rightarrow> False)"

lemma fits_copy [simp]: "fits s (copy_node n) = fits s n" "fits s (f_Value (copy_field f)) = fits s (f_Value f)"
proof (induction n and f arbitrary: s and s rule: copy_node_copy_field.induct)
  case (1 a fs)
  have "f_Name (copy_field f) = f_Name f" for f by (cases f) simp
  then show ?case using 1 by (auto simp: list_all_iff split: shape.splits)
qed (simp_all split: shape.splits)

lemma fits_setParentTypeNames [simp]: "fits s (setParentTypeNames n ts d) = fits s n"
  by (induction n ts d arbitrary: s rule: setParentTypeNames.induct) (auto simp: list_all_iff split: shape.splits)

lemma fits_merge:
  "fits s l \<Longrightarrow> fits s r \<Longrightarrow> \<exists>n. merge_nodes l r = Some n \<and> fits s n"
  by (cases l; cases r) (auto simp: merge_nodes_def split: shape.splits Node.splits)

lemma fits_scalar: "fits s n \<Longrightarrow> nodeIsScalar n \<longleftrightarrow> s = SLeaf"
  by (cases n) (auto split: shape.splits)

definition field_fits :: "(string \<Rightarrow> shape) \<Rightarrow> Field \<Rightarrow> bool" where
  "field_fits sh f = fits (sh (f_Name f)) (f_Value f)"

lemma duplicate_sel:
  assumes "g \<in> set (map propagateParentTypeNames (duplicate_field f))"
  shows "f_Name g = f_Name f" "fits s (f_Value g) = fits s (f_Value f)"
  using assms
  by (auto simp: duplicate_field_def propagateParentTypeNames_def additional_field_def split: option.splits list.splits)

lemma mergeScalars_sel [simp]: "f_Name (mergeScalars l r) = f_Name l" "f_Value (mergeScalars l r) = f_Value l"
  by (auto simp: mergeScalars_def Let_def)

lemma mergeValues_sel:
  assumes "mergeValues l r = Some l'"
  shows "f_Name l' = f_Name l" "f_OnTypeNames l' = f_OnTypeNames l" "f_ParentOnTypeNames l' = f_ParentOnTypeNames l"
    "merge_nodes (f_Value l) (f_Value r) = Some (f_Value l')"
  using assms by (auto simp: mergeValues_def)

lemma mergeValues_fits:
  assumes "field_fits sh l" "field_fits sh r" "f_Name l = f_Name r"
  shows "\<exists>l'. mergeValues l r = Some l' \<and> field_fits sh l' \<and> {} = {} \<union> ({} :: unit set)"
  using fits_merge [of "sh (f_Name l)" "f_Value l" "f_Value r"] assms by (auto simp: field_fits_def mergeValues_def)

interpretation over_shape: merging "\<lambda>l r. f_OnTypeNames r \<noteq> None \<and> f_Name l = f_Name r" mergeValues
  "\<lambda>l. f_OnTypeNames l = None" "field_fits sh" "\<lambda>_. {} :: unit set" for sh
proof unfold_locales
  fix l r assume a: "field_fits sh l" "f_OnTypeNames l = None" "field_fits sh r" "f_OnTypeNames r \<noteq> None \<and> f_Name l = f_Name r"
  show "\<exists>l'. mergeValues l r = Some l' \<and> field_fits sh l' \<and> f_OnTypeNames l' = None \<and> {} = {} \<union> ({} :: unit set)"
    using mergeValues_fits [OF a(1,3)] mergeValues_sel(2) [of l r] a(2,4) by auto
qed

interpretation siblings_shape: merging fieldsCanMerge mergeValues "\<lambda>l. True" "field_fits sh" "\<lambda>_. {} :: unit set" for sh
  by unfold_locales (use mergeValues_fits in \<open>auto simp: fieldsCanMerge_def split: if_splits\<close>)

interpretation scalars_shape: merging "\<lambda>l r. f_Name l = f_Name r \<and> canMergeScalars l r" "\<lambda>l r. Some (mergeScalars l r)"
  "\<lambda>l. nodeIsScalar (f_Value l)" "field_fits sh" "\<lambda>_. {} :: unit set" for sh
  by unfold_locales (simp add: field_fits_def)

lemma merge_object_fields_fits:
  assumes "list_all (field_fits sh) fs"
  shows "\<exists>fs'. merge_object_fields fs = Some fs' \<and> list_all (field_fits sh) fs'"
proof -
  let ?fs = "duplicate_fields fs"
  have "list_all (field_fits sh) ?fs"
    by (rule list_all_duplicate) (use assms in \<open>simp add: duplicate_sel list_all_iff field_fits_def del: set_map\<close>)
  then obtain f3 where 3: "merge_over_conditional ?fs = Some f3" "list_all (field_fits sh) f3"
    unfolding merge_over_conditional_def using over_shape.sweep_some [of sh "[]" ?fs] by auto
  obtain f4 where 4: "merge_siblings f3 = Some f4" "list_all (field_fits sh) f4"
    unfolding merge_siblings_def using siblings_shape.sweep_some [of sh "[]" f3] 3(2) by auto
  obtain f5 where 5: "merge_scalar_siblings f4 = Some f5" "list_all (field_fits sh) f5"
    unfolding merge_scalar_siblings_def using scalars_shape.sweep_some [of sh "[]" f4] 4(2) by auto
  show ?thesis using 3(1) 4(1) 5 by (simp add: merge_object_fields_def)
qed

lemma traverseNode_fits: "fits s n \<Longrightarrow> \<exists>n'. traverseNode n = Some n' \<and> fits s n'"
proof (induction n arbitrary: s rule: traverseNode.induct)
  case (1 a fs)
  obtain sh where sh: "s = SObject sh" "list_all (field_fits sh) fs" using 1(3) by (cases s) (simp_all add: field_fits_def [abs_def])
  show ?case
  proof (cases "length fs = 1")
    case True
    then obtain f where f: "fs = [f]" by (cases fs) auto
    then show ?thesis using 1(1) [OF True, of "sh (f_Name f)"] sh by (auto simp: field_fits_def)
  next
    case False
    obtain fs' where fs': "merge_object_fields fs = Some fs'" "list_all (field_fits sh) fs'"
      using merge_object_fields_fits [OF sh(2)] by blast
    have each: "\<exists>v. traverseNode (f_Value f) = Some v \<and> fits (sh (f_Name f)) v" if "f \<in> set fs'" for f
      using 1(2) [OF False fs'(1) that, of "sh (f_Name f)"] fs'(2) that by (auto simp: list_all_iff field_fits_def)
    then have "list_all (\<lambda>f. \<exists>g. map_option (set_value f) (traverseNode (f_Value f)) = Some g) fs'"
      unfolding list_all_iff by (metis option.simps(9))
    then obtain gs where gs: "those (map (\<lambda>f. map_option (set_value f) (traverseNode (f_Value f))) fs') = Some gs"
      using those_map_ex [of "\<lambda>f. map_option (set_value f) (traverseNode (f_Value f))" fs'] by blast
    have "fits (sh (f_Name g)) (f_Value g)" if g: "g \<in> set gs" for g
    proof -
      obtain f where f: "f \<in> set fs'" "map_option (set_value f) (traverseNode (f_Value f)) = Some g"
        using those_map_set [OF gs g] by blast
      obtain v where "traverseNode (f_Value f) = Some v" "fits (sh (f_Name f)) v" using each [OF f(1)] by blast
      then show ?thesis using f(2) by (simp, metis set_value_sel(1,2))
    qed
    then show ?thesis using fs'(1) gs False sh(1) by (auto simp: list_all_iff)
  qed
next
  case (2 a item)
  then show ?case by (fastforce split: shape.splits)
qed auto

end
