(* ===== verification/Merge_Unique.thy ===== *)
theory Merge_Unique
  imports Merge_Proofs
begin

text \<open>
  After merging, no object renders two fields under one key: whatever the type of the object, the
  fields whose type condition holds have different names. \<open>keyed_merging\<close> is the contract of a loop
  whose test depends on a key that merging keeps; the loop leaves no pair it would merge.
\<close>

section \<open>Loops that leave no pair\<close>

definition apart :: "('k \<Rightarrow> 'k \<Rightarrow> bool) \<Rightarrow> ('k \<Rightarrow> bool) \<Rightarrow> bool \<Rightarrow> 'k \<Rightarrow> 'k \<Rightarrow> bool" where
  "apart C Q both x y \<longleftrightarrow> (Q x \<longrightarrow> \<not> C x y) \<and> (both \<longrightarrow> Q y \<longrightarrow> \<not> C y x)"

locale keyed_merging =
  fixes can :: "Field \<Rightarrow> Field \<Rightarrow> bool" and m :: "Field \<Rightarrow> Field \<Rightarrow> Field option" and q :: "Field \<Rightarrow> bool"
    and ok :: "Field \<Rightarrow> bool" and key :: "Field \<Rightarrow> 'k" and C :: "'k \<Rightarrow> 'k \<Rightarrow> bool" and Q :: "'k \<Rightarrow> bool"
  assumes can_key: "can l r = C (key l) (key r)"
    and q_key: "q l = Q (key l)"
    and merge_key: "ok l \<Longrightarrow> ok r \<Longrightarrow> can l r \<Longrightarrow> m l r = Some l' \<Longrightarrow> ok l' \<and> key l' = key l"
begin

lemma absorb_filter:
  assumes "absorb can m l rs = Some (l', rs')" "ok l" "\<forall>r \<in> set rs. ok r"
  shows "rs' = filter (\<lambda>r. \<not> C (key l) (key r)) rs \<and> ok l' \<and> key l' = key l"
  using assms
proof (induction rs arbitrary: l l' rs')
  case (Cons r rs)
  show ?case
  proof (cases "can l r")
    case True
    then obtain k where k: "m l r = Some k" "absorb can m k rs = Some (l', rs')" using Cons.prems(1) by (auto split: option.splits)
    have "ok k \<and> key k = key l" by (rule merge_key [OF _ _ True k(1)]) (use Cons.prems in simp_all)
    then show ?thesis using Cons.IH [OF k(2)] Cons.prems(3) True by (simp add: can_key)
  next
    case False
    then obtain rs'' where r: "absorb can m l rs = Some (l', rs'')" "rs' = r # rs''" using Cons.prems(1) by auto
    show ?thesis using Cons.IH [OF r(1)] r(2) Cons.prems(2,3) False by (simp add: can_key)
  qed
qed simp

definition swept :: "bool \<Rightarrow> ('k \<Rightarrow> 'k \<Rightarrow> bool) \<Rightarrow> Field list \<Rightarrow> Field list \<Rightarrow> bool" where
  "swept both S pre rest \<longleftrightarrow>
     (\<forall>f \<in> set (pre @ rest). ok f) \<and> sorted_wrt S (map key (pre @ rest)) \<and> sorted_wrt (apart C Q both) (map key pre) \<and>
     (\<forall>x \<in> set pre. \<forall>y \<in> set rest. Q (key x) \<longrightarrow> \<not> C (key x) (key y))"

lemma sorted_filter_key: "sorted_wrt R (map key fs) \<Longrightarrow> sorted_wrt R (map key (filter P fs))"
  by (simp add: sorted_wrt_map sorted_wrt_filter)

lemma swept_absorb:
  assumes sw: "swept both S pre (l # rest)" and q: "q l"
    and 1: "(if both then absorb can m l pre else Some (l, pre)) = Some (l', pre')"
    and 2: "absorb can m l' rest = Some (l'', rest')"
  shows "swept both S (pre' @ [l'']) rest'"
proof -
  have ok: "ok l" "\<forall>f \<in> set pre. ok f" "\<forall>f \<in> set rest. ok f" using sw by (auto simp: swept_def)
  have p: "pre' = filter (\<lambda>r. \<not> (both \<and> C (key l) (key r))) pre \<and> ok l' \<and> key l' = key l"
    using 1 absorb_filter [OF _ ok(1,2), of l' pre'] ok(1) by (cases both) auto
  then have r: "rest' = filter (\<lambda>r. \<not> C (key l) (key r)) rest \<and> ok l'' \<and> key l'' = key l"
    using absorb_filter [OF 2 _ ok(3)] by simp
  have "sorted_wrt S (map key (pre @ [l] @ rest))" "sorted_wrt (apart C Q both) (map key pre)" using sw by (simp_all add: swept_def)
  then have "sorted_wrt S (map key ((pre' @ [l'']) @ rest'))" "sorted_wrt (apart C Q both) (map key pre')"
    using p r by (simp_all add: sorted_wrt_append sorted_wrt_map sorted_wrt_filter)
  moreover have "\<forall>f \<in> set ((pre' @ [l'']) @ rest'). ok f" using p r ok by auto
  moreover have "\<forall>x \<in> set pre'. apart C Q both (key x) (key l'')"
    using p r sw q by (auto simp: apart_def swept_def)
  moreover have "\<forall>x \<in> set (pre' @ [l'']). \<forall>y \<in> set rest'. Q (key x) \<longrightarrow> \<not> C (key x) (key y)"
    using p r sw by (auto simp: swept_def)
  ultimately show ?thesis unfolding swept_def by (simp add: sorted_wrt_append [of "apart C Q both"])
qed

lemma sweep_apart:
  assumes s: "sweep both q can m [] fs = Some fs'" and ok: "\<forall>f \<in> set fs. ok f" and S: "sorted_wrt S (map key fs)"
  shows "(\<forall>f \<in> set fs'. ok f) \<and> sorted_wrt S (map key fs') \<and> sorted_wrt (apart C Q both) (map key fs')"
proof -
  have "swept both S fs' []"
  proof (rule sweep_rule [OF s, where Inv = "swept both S"], goal_cases)
    case 1 then show ?case using ok S by (simp add: swept_def)
  next
    case (2 pre l rest)
    then show ?case by (auto simp: swept_def sorted_wrt_append apart_def q_key)
  next
    case 3 then show ?case by (rule swept_absorb)
  qed
  then show ?thesis by (simp add: swept_def)
qed

end

section \<open>The three loops\<close>

definition small_types :: "Field \<Rightarrow> bool" where
  "small_types f \<longleftrightarrow> length (opt_list (f_OnTypeNames f)) \<le> 1"

lemma sameOnTypeNames_small:
  assumes "length (opt_list a) \<le> 1" "length (opt_list b) \<le> 1"
  shows "sameOnTypeNames a b \<longleftrightarrow> opt_list a = opt_list b"
  using assms by (cases "opt_list a"; cases "opt_list b") (auto simp: sameOnTypeNames_def)

lemma merge_nodes_kind: "merge_nodes l r = Some n \<Longrightarrow> NodeKind_of n = NodeKind_of l"
  by (auto simp: merge_nodes_def split: Node.splits)

lemma scalar_kind: "nodeIsScalar n \<longleftrightarrow> NodeKind_of n \<noteq> NodeKindObject \<and> NodeKind_of n \<noteq> NodeKindArray"
  by (cases n) auto

text \<open>The tests of the loops on names, kinds, type names and parents.\<close>

definition over_test :: "string \<times> string list option \<Rightarrow> string \<times> string list option \<Rightarrow> bool" where
  "over_test = (\<lambda>(n, oa) (n', ob). ob \<noteq> None \<and> n = n')"

definition siblings_test ::
  "string \<times> NodeKind \<times> string list option \<times> nat \<Rightarrow> string \<times> NodeKind \<times> string list option \<times> nat \<Rightarrow> bool" where
  "siblings_test = (\<lambda>(n, k, oa, p) (n', k', ob, p'). n = n' \<and> k = k' \<and> sameOnTypeNames oa ob \<and>
     ((k = NodeKindObject \<or> k = NodeKindArray) \<or> p = 0 \<and> p' = 0))"

definition scalars_test :: "string \<times> NodeKind \<times> string list option \<Rightarrow> string \<times> NodeKind \<times> string list option \<Rightarrow> bool" where
  "scalars_test = (\<lambda>(n, k, oa) (n', k', ob). n = n' \<and> (oa \<noteq> None \<and> ob \<noteq> None \<longrightarrow> sameOnTypeNames oa ob))"

definition scalar_key :: "string \<times> NodeKind \<times> string list option \<Rightarrow> bool" where
  "scalar_key = (\<lambda>(n, k, oa). k \<noteq> NodeKindObject \<and> k \<noteq> NodeKindArray)"

interpretation over_keyed: keyed_merging "\<lambda>l r. f_OnTypeNames r \<noteq> None \<and> f_Name l = f_Name r" mergeValues "\<lambda>l. f_OnTypeNames l = None"
  small_types "\<lambda>f. (f_Name f, f_OnTypeNames f)" over_test "\<lambda>(n, oa). oa = None"
  by unfold_locales (auto simp: over_test_def small_types_def dest: mergeValues_sel)

text \<open>From here on the fields of one name all have type conditions or none has.\<close>

definition typed_by :: "(string \<Rightarrow> bool) \<Rightarrow> Field \<Rightarrow> bool" where
  "typed_by u f \<longleftrightarrow> small_types f \<and> (f_OnTypeNames f = None \<longleftrightarrow> u (f_Name f))"

interpretation siblings_keyed: keyed_merging fieldsCanMerge mergeValues "\<lambda>l. True" "typed_by u"
  "\<lambda>f. (f_Name f, NodeKind_of (f_Value f), f_OnTypeNames f, length (f_ParentOnTypeNames f))"
  siblings_test "\<lambda>_. True" for u
proof unfold_locales
  fix l r
  show "fieldsCanMerge l r =
    siblings_test (f_Name l, NodeKind_of (f_Value l), f_OnTypeNames l, length (f_ParentOnTypeNames l))
      (f_Name r, NodeKind_of (f_Value r), f_OnTypeNames r, length (f_ParentOnTypeNames r))"
    by (auto simp: siblings_test_def fieldsCanMerge_def sameParentOnTypeNames_def scalar_kind split: list.splits)
next
  fix l r l' assume "typed_by u l" "mergeValues l r = Some l'"
  then show "typed_by u l' \<and> (f_Name l', NodeKind_of (f_Value l'), f_OnTypeNames l', length (f_ParentOnTypeNames l')) =
      (f_Name l, NodeKind_of (f_Value l), f_OnTypeNames l, length (f_ParentOnTypeNames l))"
    using mergeValues_sel [of l r l'] merge_nodes_kind by (simp add: typed_by_def small_types_def)
qed simp

lemma mergeScalars_types:
  assumes "typed_by u l" "typed_by u r" "f_Name l = f_Name r" "canMergeScalars l r"
  shows "f_OnTypeNames (mergeScalars l r) = f_OnTypeNames l"
proof (cases "f_OnTypeNames l")
  case None
  then have "f_OnTypeNames r = None" using assms by (simp add: typed_by_def)
  then show ?thesis using None
    by (auto simp: mergeScalars_def Let_def deduplicateOnTypeNames_def append_slice_def opt_list_def)
next
  case (Some xs)
  then obtain ys where ys: "f_OnTypeNames r = Some ys" using assms(1-3) by (cases "f_OnTypeNames r") (auto simp: typed_by_def)
  then have "ys = xs" "length xs \<le> 1"
    using Some assms sameOnTypeNames_small [of "Some xs" "Some ys"] by (auto simp: typed_by_def small_types_def canMergeScalars_def opt_list_def)
  then show ?thesis using Some ys
    by (cases xs) (auto simp: mergeScalars_def Let_def deduplicateOnTypeNames_def append_slice_def opt_list_def)
qed

interpretation scalars_keyed: keyed_merging "\<lambda>l r. f_Name l = f_Name r \<and> canMergeScalars l r" "\<lambda>l r. Some (mergeScalars l r)"
  "\<lambda>l. nodeIsScalar (f_Value l)" "typed_by u"
  "\<lambda>f. (f_Name f, NodeKind_of (f_Value f), f_OnTypeNames f)"
  scalars_test scalar_key for u
proof unfold_locales
  fix l r l' assume a: "typed_by u l" "typed_by u r" "f_Name l = f_Name r \<and> canMergeScalars l r" "Some (mergeScalars l r) = Some l'"
  have "f_OnTypeNames l' = f_OnTypeNames l" using mergeScalars_types [OF a(1,2)] a(3,4) by simp
  then show "typed_by u l' \<and> (f_Name l', NodeKind_of (f_Value l'), f_OnTypeNames l') = (f_Name l, NodeKind_of (f_Value l), f_OnTypeNames l)"
    using a(1,4) by (auto simp: typed_by_def small_types_def)
qed (auto simp: scalars_test_def scalar_key_def canMergeScalars_def scalar_kind)

section \<open>One field for a key\<close>

text \<open>The type condition of a field on an object of type \<open>t\<close> (none without \<open>__typename\<close>).\<close>

definition type_allows :: "string option \<Rightarrow> Field \<Rightarrow> bool" where
  "type_allows t f = (case f_OnTypeNames f of None \<Rightarrow> True | Some ns \<Rightarrow> (case t of None \<Rightarrow> False | Some t \<Rightarrow> t \<in> set ns))"

fun unique_keys :: "Node \<Rightarrow> bool" where
  "unique_keys (ObjectNode a fs) =
     ((\<forall>t. distinct (map f_Name (filter (type_allows t) fs))) \<and> list_all (\<lambda>f. unique_keys (f_Value f)) fs)"
| "unique_keys (ArrayNode a n) = unique_keys n"
| "unique_keys n = True"

lemma sorted_wrt_pair: "sorted_wrt R xs \<Longrightarrow> x \<in> set xs \<Longrightarrow> y \<in> set xs \<Longrightarrow> x = y \<or> R x y \<or> R y x"
  by (induction xs) auto

lemma distinct_names:
  "sorted_wrt (\<lambda>x y. f_Name x = f_Name y \<longrightarrow> \<not> (P x \<and> P y)) fs \<Longrightarrow> distinct (map f_Name (filter P fs))"
  by (induction fs) auto

lemma fits_kind: "fits s n \<Longrightarrow> \<not> nodeIsScalar n \<Longrightarrow> NodeKind_of n = (case s of SObject sh \<Rightarrow> NodeKindObject | _ \<Rightarrow> NodeKindArray)"
  by (cases n) (auto split: shape.splits)

lemma small_propagate [simp]: "small_types (propagateParentTypeNames f) = small_types f"
  by (simp add: propagateParentTypeNames_def small_types_def split: option.splits)

lemma duplicate_small: "g \<in> set (duplicate_fields fs) \<Longrightarrow> small_types g"
proof -
  have "small_types h" if "h \<in> set (duplicate_field f)" for f h
    using that by (auto simp: duplicate_field_def additional_field_def small_types_def opt_list_def split: option.splits list.splits)
  then show "g \<in> set (duplicate_fields fs) \<Longrightarrow> small_types g" by (auto simp: duplicate_fields_def)
qed

lemma over_typed:
  assumes "merge_over_conditional fs = Some fs'" "\<forall>f \<in> set fs. small_types f"
  shows "\<exists>u. \<forall>f \<in> set fs'. typed_by u f"
proof -
  let ?key = "\<lambda>f. (f_Name f, f_OnTypeNames f)"
  have r: "\<forall>f \<in> set fs'. small_types f" "sorted_wrt (apart over_test (\<lambda>(n, oa). oa = None) True) (map ?key fs')"
    using over_keyed.sweep_apart [OF assms(1) [unfolded merge_over_conditional_def], of "\<lambda>_ _. True"] assms(2)
    by (simp_all add: sorted_wrt_iff_nth_less)
  have "f_OnTypeNames f = None" if "f \<in> set fs'" "g \<in> set fs'" "f_Name g = f_Name f" "f_OnTypeNames g = None" for f g
    using sorted_wrt_pair [OF r(2) [unfolded sorted_wrt_map] that(1,2)] that(3,4) by (auto simp: apart_def over_test_def)
  then have "typed_by (\<lambda>n. \<exists>f \<in> set fs'. f_Name f = n \<and> f_OnTypeNames f = None) f" if "f \<in> set fs'" for f
    using that r(1) unfolding typed_by_def by blast
  then show ?thesis by blast
qed

definition is_composite :: "NodeKind \<Rightarrow> bool" where
  "is_composite k \<longleftrightarrow> k = NodeKindObject \<or> k = NodeKindArray"

text \<open>What is left are fields whose type conditions exclude each other.\<close>

lemma allows_same:
  assumes "small_types x" "small_types y" "f_OnTypeNames x \<noteq> None" "f_OnTypeNames y \<noteq> None" "type_allows t x" "type_allows t y"
  shows "sameOnTypeNames (f_OnTypeNames x) (f_OnTypeNames y)"
proof -
  obtain xs ys v where v: "f_OnTypeNames x = Some xs" "f_OnTypeNames y = Some ys" "t = Some v" "v \<in> set xs" "v \<in> set ys"
    using assms(3-6) by (auto simp: type_allows_def split: option.splits)
  have "length xs \<le> 1" "length ys \<le> 1" using assms(1,2) v by (simp_all add: small_types_def opt_list_def)
  then have "xs = [v]" "ys = [v]" using v(4,5) by (cases xs; cases ys; auto)+
  then show ?thesis using v by (simp add: sameOnTypeNames_def opt_list_def)
qed

lemma merge_object_fields_distinct:
  assumes fits: "list_all (field_fits sh) fs" and m: "merge_object_fields fs = Some fs'"
  shows "distinct (map f_Name (filter (type_allows t) fs'))"
proof -
  obtain f3 f4 where s: "merge_over_conditional (duplicate_fields fs) = Some f3" "merge_siblings f3 = Some f4" "merge_scalar_siblings f4 = Some fs'"
    using m by (auto simp: merge_object_fields_def split: option.splits)
  obtain u where u: "\<forall>f \<in> set f3. typed_by u f" using over_typed [OF s(1)] duplicate_small by blast
  let ?key4 = "\<lambda>f. (f_Name f, NodeKind_of (f_Value f), f_OnTypeNames f, length (f_ParentOnTypeNames f))"
  let ?key = "\<lambda>f. (f_Name f, NodeKind_of (f_Value f), f_OnTypeNames f)"
  let ?S = "\<lambda>(n, k, oa) (n', k', ob). n = n' \<and> k = k' \<and> is_composite k \<longrightarrow> \<not> sameOnTypeNames oa ob"
  have 4: "\<forall>f \<in> set f4. typed_by u f" "sorted_wrt (apart siblings_test (\<lambda>_. True) False) (map ?key4 f4)"
    using siblings_keyed.sweep_apart [OF s(2) [unfolded merge_siblings_def], of u "\<lambda>_ _. True"] u by (simp_all add: sorted_wrt_iff_nth_less)
  have "sorted_wrt ?S (map ?key f4)"
    using 4(2) unfolding sorted_wrt_map
    by (rule sorted_wrt_mono_rel [rotated]) (auto simp: apart_def siblings_test_def is_composite_def)
  then have 5: "\<forall>f \<in> set fs'. typed_by u f" "sorted_wrt ?S (map ?key fs')" "sorted_wrt (apart scalars_test scalar_key True) (map ?key fs')"
    using scalars_keyed.sweep_apart [OF s(3) [unfolded merge_scalar_siblings_def], of u ?S] 4(1) by simp_all
  have ff: "\<forall>f \<in> set fs'. field_fits sh f" using merge_object_fields_fits [OF fits] m by (auto simp: list_all_iff)
  have excl: "\<not> (type_allows t x \<and> type_allows t y)"
    if xy: "x \<in> set fs'" "y \<in> set fs'" "?S (?key x) (?key y)" "apart scalars_test scalar_key True (?key x) (?key y)" "f_Name x = f_Name y" for x y
  proof
    assume a: "type_allows t x \<and> type_allows t y"
    have ty: "typed_by u x" "typed_by u y" using 5(1) xy by auto
    have k: "nodeIsScalar (f_Value x) = nodeIsScalar (f_Value y)" "\<not> nodeIsScalar (f_Value x) \<longrightarrow> NodeKind_of (f_Value x) = NodeKind_of (f_Value y)"
      using ff xy(1,2,5) fits_scalar fits_kind unfolding field_fits_def by metis+
    have "f_OnTypeNames x \<noteq> None \<and> f_OnTypeNames y \<noteq> None \<longrightarrow> sameOnTypeNames (f_OnTypeNames x) (f_OnTypeNames y)"
      using allows_same a ty by (auto simp: typed_by_def)
    moreover have "f_OnTypeNames x = None \<longleftrightarrow> f_OnTypeNames y = None" using ty xy(5) by (simp add: typed_by_def)
    moreover have "sameOnTypeNames None None" by (simp add: sameOnTypeNames_def opt_list_def)
    ultimately have same: "sameOnTypeNames (f_OnTypeNames x) (f_OnTypeNames y)" by (cases "f_OnTypeNames x") auto
    show False
    proof (cases "nodeIsScalar (f_Value x)")
      case True
      then show False using xy(4,5) same by (simp add: apart_def scalars_test_def scalar_key_def scalar_kind)
    next
      case False
      then have "is_composite (NodeKind_of (f_Value x))" "NodeKind_of (f_Value x) = NodeKind_of (f_Value y)"
        using k(2) scalar_kind [of "f_Value x"] unfolding is_composite_def by blast+
      then show False using xy(3,5) same by simp
    qed
  qed
  have "sorted_wrt (\<lambda>x y. f_Name x = f_Name y \<longrightarrow> \<not> (type_allows t x \<and> type_allows t y)) fs'"
    unfolding sorted_wrt_iff_nth_less
  proof (intro allI impI)
    fix i j assume ij: "i < j" "j < length fs'" "f_Name (fs' ! i) = f_Name (fs' ! j)"
    have "?S (?key (fs' ! i)) (?key (fs' ! j))" "apart scalars_test scalar_key True (?key (fs' ! i)) (?key (fs' ! j))"
      using sorted_wrt_nth_less [OF 5(2)] sorted_wrt_nth_less [OF 5(3)] ij(1,2) by fastforce+
    then show "\<not> (type_allows t (fs' ! i) \<and> type_allows t (fs' ! j))" using excl ij by (meson nth_mem order.strict_trans)
  qed
  then show ?thesis by (rule distinct_names)
qed

section \<open>The whole tree\<close>

lemma traverse_object:
  assumes "traverseNode (ObjectNode a fs) = Some n'" "length fs \<noteq> 1"
  obtains fs' gs where "merge_object_fields fs = Some fs'" "n' = ObjectNode a gs"
    "list_all2 (\<lambda>f g. \<exists>v. traverseNode (f_Value f) = Some v \<and> g = set_value f v) fs' gs"
proof -
  obtain fs' gs where 1: "merge_object_fields fs = Some fs'" "n' = ObjectNode a gs"
      "those (map (\<lambda>f. map_option (set_value f) (traverseNode (f_Value f))) fs') = Some gs"
    using assms by (auto split: option.splits)
  have "list_all2 (\<lambda>f g. \<exists>v. traverseNode (f_Value f) = Some v \<and> g = set_value f v) fs' gs"
    using 1(3) unfolding those_map by (rule list_all2_mono) auto
  then show thesis using that 1 by blast
qed

lemma list_all2_filter_names:
  "list_all2 (\<lambda>f g. \<exists>v. R f v \<and> g = set_value f v) fs gs \<Longrightarrow>
   map f_Name (filter (type_allows t) gs) = map f_Name (filter (type_allows t) fs)"
  by (induction fs gs rule: list_all2_induct) (auto simp: type_allows_def)

lemma list_all2_in2: "list_all2 R xs ys \<Longrightarrow> y \<in> set ys \<Longrightarrow> \<exists>x \<in> set xs. R x y"
  by (induction xs ys rule: list_all2_induct) auto

lemma traverseNode_unique: "traverseNode n = Some n' \<Longrightarrow> fits s n \<Longrightarrow> unique_keys n'"
proof (induction n arbitrary: s n' rule: traverseNode.induct)
  case (1 a fs)
  obtain sh where sh: "s = SObject sh" "list_all (field_fits sh) fs" using 1(4) by (cases s) (simp_all add: field_fits_def [abs_def])
  show ?case
  proof (cases "length fs = 1")
    case True
    then obtain f where f: "fs = [f]" by (cases fs) auto
    obtain v where v: "traverseNode (f_Value f) = Some v" "n' = ObjectNode a [set_value f v]" using 1(3) f by auto
    have "unique_keys v" using 1(1) [OF True, of v "sh (f_Name f)"] sh(2) f v(1) by (simp add: field_fits_def)
    then show ?thesis using v(2) by simp
  next
    case False
    obtain fs' gs where g: "merge_object_fields fs = Some fs'" "n' = ObjectNode a gs"
        "list_all2 (\<lambda>f g. \<exists>v. traverseNode (f_Value f) = Some v \<and> g = set_value f v) fs' gs"
      by (rule traverse_object [OF 1(3) False])
    have ff: "list_all (field_fits sh) fs'" using merge_object_fields_fits [OF sh(2)] g(1) by auto
    have "unique_keys (f_Value x)" if x: "x \<in> set gs" for x
    proof -
      obtain f v where f: "f \<in> set fs'" "traverseNode (f_Value f) = Some v" "x = set_value f v" using list_all2_in2 [OF g(3) x] by blast
      have "fits (sh (f_Name f)) (f_Value f)" using ff f(1) by (auto simp: list_all_iff field_fits_def)
      then show ?thesis using 1(2) [OF False g(1) f(1) f(2)] f(3) by simp
    qed
    then show ?thesis
      using g(2) list_all2_filter_names [OF g(3)] merge_object_fields_distinct [OF sh(2) g(1)] by (simp add: list_all_iff)
  qed
next
  case (2 a item)
  then show ?case by (auto split: shape.splits)
qed auto

end
