(* ===== verification/Merge_Exact.thy ===== *)
theory Merge_Exact
  imports Merge_Unique
begin

text \<open>
  Merging keeps what is rendered, for all types of all objects, when each response path either always
  or never carries a type condition and no array is the item of an array. Without the parents' type
  names rendering is \<open>rendered_on\<close>; \<open>parents_hold\<close> says that the parents' type names that
  \<open>setParentTypeNames\<close> adds hold wherever they are looked at.
\<close>

section \<open>Rendering by type conditions\<close>

fun rendered_on :: "(string list \<Rightarrow> string option) \<Rightarrow> string list \<Rightarrow> Node \<Rightarrow> string list set" where
  "rendered_on typeOf path (ObjectNode a fs) =
     insert path (\<Union>f \<in> set fs. if type_allows (typeOf path) f then rendered_on typeOf (path @ [f_Name f]) (f_Value f) else {})"
| "rendered_on typeOf path (ArrayNode a n) = insert path (rendered_on typeOf path n)"
| "rendered_on typeOf path n = {path}"

definition parent_holds :: "(string list \<Rightarrow> string option) \<Rightarrow> string list \<Rightarrow> ParentOnTypeNames \<Rightarrow> bool" where
  "parent_holds typeOf path = (\<lambda>(depth, names). case typeOf (take (length path - depth) path) of None \<Rightarrow> False | Some t \<Rightarrow> t \<in> set names)"

fun parents_hold :: "(string list \<Rightarrow> string option) \<Rightarrow> string list \<Rightarrow> Node \<Rightarrow> bool" where
  "parents_hold typeOf path (ObjectNode a fs) =
     list_all (\<lambda>f. list_all (parent_holds typeOf path) (f_ParentOnTypeNames f) \<and>
       (type_allows (typeOf path) f \<longrightarrow> parents_hold typeOf (path @ [f_Name f]) (f_Value f))) fs"
| "parents_hold typeOf path (ArrayNode a n) = parents_hold typeOf path n"
| "parents_hold typeOf path n = True"

lemma shouldSkip_iff:
  "list_all (parent_holds typeOf path) (f_ParentOnTypeNames f) \<Longrightarrow>
   shouldSkipFieldByTypeCondition typeOf path f \<longleftrightarrow> \<not> type_allows (typeOf path) f"
  by (auto simp: shouldSkipFieldByTypeCondition_def skipFieldOnParentTypeNames_def parent_holds_def skipFieldOnTypeNames_def
      type_allows_def split: option.splits)

lemma rendered_parents: "parents_hold typeOf path n \<Longrightarrow> set (rendered typeOf path n) = rendered_on typeOf path n"
  by (induction typeOf path n rule: rendered.induct) (auto simp: list_all_iff shouldSkip_iff split: if_splits)

lemma rendered_path: "path \<in> rendered_on typeOf path n"
  by (cases n) auto

section \<open>Copies and parents\<close>

lemma type_allows_copy [simp]: "type_allows t (copy_field f) = type_allows t f" "f_Name (copy_field f) = f_Name f"
  "f_ParentOnTypeNames (copy_field f) = []" "f_Value (copy_field f) = copy_node (f_Value f)" "f_OnTypeNames (copy_field f) = f_OnTypeNames f"
  by (cases f; simp add: type_allows_def)+

lemma rendered_on_copy [simp]: "rendered_on typeOf path (copy_node n) = rendered_on typeOf path n"
  by (induction typeOf path n rule: rendered_on.induct) auto

lemma parents_hold_copy [simp]: "parents_hold typeOf path (copy_node n)"
  by (induction typeOf path n rule: rendered_on.induct) (auto simp: list_all_iff)

lemma type_allows_set [simp]: "type_allows t (set_value f v) = type_allows t f"
  "type_allows t (set_types f (f_OnTypeNames f) ps) = type_allows t f"
  by (simp_all add: type_allows_def)

lemma rendered_on_setParent [simp]: "rendered_on typeOf path (setParentTypeNames n ts d) = rendered_on typeOf path n"
  by (induction n ts d arbitrary: path rule: setParentTypeNames.induct) (auto split: if_splits)

text \<open>The names are looked up \<open>d\<close> levels above, at the object whose type condition they are.\<close>

lemma parents_hold_fields:
  assumes "typeOf p = Some t" "t \<in> set ts" "length q = d"
    and old: "parents_hold typeOf (p @ q) (ObjectNode a fs)"
    and each: "\<And>f. f \<in> set fs \<Longrightarrow> parents_hold typeOf (p @ q @ [f_Name f]) (f_Value f) \<Longrightarrow> parents_hold typeOf (p @ q @ [f_Name f]) (v f)"
  shows "parents_hold typeOf (p @ q)
    (ObjectNode a (map (\<lambda>f. set_value (set_types f (f_OnTypeNames f) (f_ParentOnTypeNames f @ [(d, ts)])) (v f)) fs))"
  using assms(1-3) old each by (auto simp: list_all_iff parent_holds_def)

lemma parents_hold_setParent:
  assumes "typeOf p = Some t" "t \<in> set ts"
  shows "length q = d \<Longrightarrow> parents_hold typeOf (p @ q) n \<Longrightarrow> parents_hold typeOf (p @ q) (setParentTypeNames n ts d)"
  using assms(2)
proof (induction n ts d arbitrary: q rule: setParentTypeNames.induct)
  case (1 a fs ts depth)
  have "parents_hold typeOf (p @ q @ [f_Name f]) (setParentTypeNames (f_Value f) ts (depth + 1))"
    if "f \<in> set fs" "parents_hold typeOf (p @ q @ [f_Name f]) (f_Value f)" for f
    using 1(1) [OF that(1), of "q @ [f_Name f]"] that(2) 1(2,4) by simp
  then show ?case unfolding setParentTypeNames.simps
    by (rule parents_hold_fields [of typeOf p t ts q depth, OF assms(1) 1(4,2,3)])
next
  case (2 b a fs ts depth)
  have "parents_hold typeOf (p @ q) (ObjectNode a fs)" using 2(3) by simp
  moreover have "parents_hold typeOf (p @ q @ [f_Name f]) (setParentTypeNames (f_Value f) ts (depth + 1))"
    if "f \<in> set fs" "parents_hold typeOf (p @ q @ [f_Name f]) (f_Value f)" for f
    using 2(1) [OF that(1), of "q @ [f_Name f]"] that(2) 2(2,4) by simp
  ultimately have "parents_hold typeOf (p @ q) (ObjectNode a (map (\<lambda>f. set_value (set_types f (f_OnTypeNames f) (f_ParentOnTypeNames f @ [(depth, ts)]))
      (setParentTypeNames (f_Value f) ts (depth + 1))) fs))"
    by (rule parents_hold_fields [of typeOf p t ts q depth, OF assms(1) 2(4,2)])
  then show ?case by simp
qed simp_all

section \<open>One object\<close>

text \<open>Whether a response path carries type conditions is given by \<open>cond\<close>; arrays are not nested.\<close>

fun regular :: "(string list \<Rightarrow> bool) \<Rightarrow> string list \<Rightarrow> Node \<Rightarrow> bool" where
  "regular cond path (ObjectNode a fs) =
     list_all (\<lambda>f. (f_OnTypeNames f \<noteq> None \<longleftrightarrow> cond (path @ [f_Name f])) \<and> regular cond (path @ [f_Name f]) (f_Value f)) fs"
| "regular cond path (ArrayNode a n) = (NodeKind_of n \<noteq> NodeKindArray \<and> regular cond path n)"
| "regular cond path n = True"

lemma regular_copy [simp]: "regular cond path (copy_node n) = regular cond path n"
proof (induction cond path n rule: regular.induct)
  case (2 cond path a n)
  then show ?case by (cases n) auto
qed (simp_all add: list_all_iff)

lemma regular_setParent [simp]: "regular cond path (setParentTypeNames n ts d) = regular cond path n"
proof (induction n ts d arbitrary: path rule: setParentTypeNames.induct)
qed (auto simp: list_all_iff)

text \<open>A field of the object at \<open>path\<close> in the course of merging, and what is rendered of it.\<close>

definition fine :: "(string list \<Rightarrow> string option) \<Rightarrow> (string list \<Rightarrow> bool) \<Rightarrow> (string \<Rightarrow> shape) \<Rightarrow> string list \<Rightarrow> Field \<Rightarrow> bool" where
  "fine typeOf cond sh path f \<longleftrightarrow>
     field_fits sh f \<and> typed_by (\<lambda>n. \<not> cond (path @ [n])) f \<and> regular cond (path @ [f_Name f]) (f_Value f) \<and>
     list_all (parent_holds typeOf path) (f_ParentOnTypeNames f) \<and>
     (type_allows (typeOf path) f \<longrightarrow> parents_hold typeOf (path @ [f_Name f]) (f_Value f))"

definition shown :: "(string list \<Rightarrow> string option) \<Rightarrow> string list \<Rightarrow> Field \<Rightarrow> string list set" where
  "shown typeOf path f =
     (if type_allows (typeOf path) f then rendered_on typeOf (path @ [f_Name f]) (f_Value f) else {})"

lemma type_allows_same:
  assumes "typed_by u l" "typed_by u r" "f_Name l = f_Name r" "sameOnTypeNames (f_OnTypeNames l) (f_OnTypeNames r)"
  shows "type_allows t l = type_allows t r"
proof -
  have "opt_list (f_OnTypeNames l) = opt_list (f_OnTypeNames r)"
    using assms sameOnTypeNames_small by (simp add: typed_by_def small_types_def)
  moreover have "f_OnTypeNames l = None \<longleftrightarrow> f_OnTypeNames r = None" using assms by (simp add: typed_by_def)
  ultimately show ?thesis by (auto simp: type_allows_def opt_list_def split: option.splits)
qed

lemma fits_SLeaf: "fits SLeaf n \<longleftrightarrow> nodeIsScalar n"
  by (cases n) simp_all

lemma merge_nodes_rendered:
  assumes "fits s l" "fits s r" "merge_nodes l r = Some n" "regular cond path l" "regular cond path r"
  shows "rendered_on typeOf path n = rendered_on typeOf path l \<union> rendered_on typeOf path r"
    and "regular cond path n"
    and "parents_hold typeOf path l \<Longrightarrow> parents_hold typeOf path r \<Longrightarrow> parents_hold typeOf path n"
proof -
  consider a ls b rs where "l = ObjectNode a ls" "r = ObjectNode b rs" "n = ObjectNode a (ls @ rs)"
    | a b c d ls rs where "l = ArrayNode a (ObjectNode b ls)" "r = ArrayNode c (ObjectNode d rs)" "n = ArrayNode a (ObjectNode b (ls @ rs))"
    | a b c d where "l = ArrayNode a b" "r = ArrayNode c d" "n = l" "nodeIsScalar b" "nodeIsScalar d"
    | "nodeIsScalar l" "nodeIsScalar r" "n = l"
    using assms by (cases l; cases r) (auto simp: merge_nodes_def fits_SLeaf split: Node.splits shape.splits)
  note cases = this
  have leaf: "rendered_on typeOf p m = {p} \<and> parents_hold typeOf p m" if "nodeIsScalar m" for m p using that by (cases m) auto
  show "rendered_on typeOf path n = rendered_on typeOf path l \<union> rendered_on typeOf path r" by (cases rule: cases) (auto simp: leaf)
  show "regular cond path n" using assms(4,5) by (cases rule: cases) auto
  show "parents_hold typeOf path l \<Longrightarrow> parents_hold typeOf path r \<Longrightarrow> parents_hold typeOf path n"
    by (cases rule: cases) (auto simp: leaf)
qed

lemma mergeValues_fine:
  assumes l: "fine typeOf cond sh path l" and r: "fine typeOf cond sh path r" and n: "f_Name l = f_Name r"
    and same: "sameOnTypeNames (f_OnTypeNames l) (f_OnTypeNames r)"
  shows "\<exists>l'. mergeValues l r = Some l' \<and> fine typeOf cond sh path l' \<and> shown typeOf path l' = shown typeOf path l \<union> shown typeOf path r"
proof -
  have f: "fits (sh (f_Name l)) (f_Value l)" "fits (sh (f_Name l)) (f_Value r)" using l r n by (auto simp: fine_def field_fits_def)
  obtain v where v: "merge_nodes (f_Value l) (f_Value r) = Some v" "fits (sh (f_Name l)) v" using fits_merge [OF f] by blast
  have reg: "regular cond (path @ [f_Name l]) (f_Value l)" "regular cond (path @ [f_Name l]) (f_Value r)" using l r n by (auto simp: fine_def)
  have t: "type_allows (typeOf path) l = type_allows (typeOf path) r"
    using type_allows_same [OF _ _ n same] l r by (auto simp: fine_def)
  note m = merge_nodes_rendered [OF f v(1) reg]
  have "fine typeOf cond sh path (set_value l v)"
    using l r n v(2) m(2,3) t by (auto simp: fine_def field_fits_def typed_by_def small_types_def)
  moreover have "shown typeOf path (set_value l v) = shown typeOf path l \<union> shown typeOf path r"
    using m(1) t n by (simp add: shown_def)
  ultimately show ?thesis using v(1) by (simp add: mergeValues_def)
qed

lemma parent_holds_merge:
  "list_all (parent_holds typeOf path) ls \<Longrightarrow> parent_holds typeOf path p \<Longrightarrow> list_all (parent_holds typeOf path) (merge_parent p ls)"
  by (induction p ls rule: merge_parent.induct) (auto simp: parent_holds_def split: option.splits)

lemma parent_holds_merges:
  "list_all (parent_holds typeOf path) rs \<Longrightarrow> list_all (parent_holds typeOf path) ls \<Longrightarrow> list_all (parent_holds typeOf path) (merge_parents ls rs)"
  unfolding merge_parents_def by (induction rs arbitrary: ls) (auto intro: parent_holds_merge)

lemma mergeScalars_fine:
  assumes l: "fine typeOf cond sh path l" and r: "fine typeOf cond sh path r" and n: "f_Name l = f_Name r" and c: "canMergeScalars l r"
    and s: "nodeIsScalar (f_Value l)"
  shows "fine typeOf cond sh path (mergeScalars l r) \<and> shown typeOf path (mergeScalars l r) = shown typeOf path l \<union> shown typeOf path r"
proof -
  have ty: "typed_by (\<lambda>n. \<not> cond (path @ [n])) l" "typed_by (\<lambda>n. \<not> cond (path @ [n])) r" using l r by (auto simp: fine_def)
  have on: "f_OnTypeNames (mergeScalars l r) = f_OnTypeNames l" by (rule mergeScalars_types [OF ty n c])
  have "sameOnTypeNames (f_OnTypeNames l) (f_OnTypeNames r)"
    using c ty n by (cases "f_OnTypeNames l"; cases "f_OnTypeNames r")
      (auto simp: canMergeScalars_def typed_by_def sameOnTypeNames_def opt_list_def)
  then have t: "type_allows (typeOf path) l = type_allows (typeOf path) r" by (rule type_allows_same [OF ty n])
  have t': "type_allows (typeOf path) (mergeScalars l r) = type_allows (typeOf path) l" using on by (simp add: type_allows_def)
  have "list_all (parent_holds typeOf path) (f_ParentOnTypeNames (mergeScalars l r))"
    using l r parent_holds_merges by (auto simp: fine_def mergeScalars_def Let_def)
  moreover have "nodeIsScalar (f_Value r)" using l r n s fits_scalar unfolding fine_def field_fits_def by metis
  then have "rendered_on typeOf p (f_Value l) = {p}" "rendered_on typeOf p (f_Value r) = {p}" for p
    using s by (cases "f_Value l"; cases "f_Value r"; simp)+
  ultimately show ?thesis using l on t t' n
    by (auto simp: fine_def shown_def field_fits_def typed_by_def small_types_def)
qed

text \<open>On such fields the first loop never merges.\<close>

interpretation over_exact: merging "\<lambda>l r. f_OnTypeNames r \<noteq> None \<and> f_Name l = f_Name r" mergeValues "\<lambda>l. f_OnTypeNames l = None"
  "fine typeOf cond sh path" "shown typeOf path" for typeOf cond sh path
  by unfold_locales (auto simp: fine_def typed_by_def)

interpretation siblings_exact: merging fieldsCanMerge mergeValues "\<lambda>l. True" "fine typeOf cond sh path" "shown typeOf path"
  for typeOf cond sh path
  by unfold_locales (use mergeValues_fine in \<open>auto simp: fieldsCanMerge_def split: if_splits\<close>)

interpretation scalars_exact: merging "\<lambda>l r. f_Name l = f_Name r \<and> canMergeScalars l r" "\<lambda>l r. Some (mergeScalars l r)"
  "\<lambda>l. nodeIsScalar (f_Value l)" "fine typeOf cond sh path" "shown typeOf path" for typeOf cond sh path
  by unfold_locales (use mergeScalars_fine in auto)

text \<open>Before the first step a field may have several type names.\<close>

definition sound :: "(string list \<Rightarrow> string option) \<Rightarrow> (string list \<Rightarrow> bool) \<Rightarrow> (string \<Rightarrow> shape) \<Rightarrow> string list \<Rightarrow> Field \<Rightarrow> bool" where
  "sound typeOf cond sh path f \<longleftrightarrow>
     field_fits sh f \<and> (f_OnTypeNames f \<noteq> None \<longleftrightarrow> cond (path @ [f_Name f])) \<and> regular cond (path @ [f_Name f]) (f_Value f) \<and>
     list_all (parent_holds typeOf path) (f_ParentOnTypeNames f) \<and>
     (type_allows (typeOf path) f \<longrightarrow> parents_hold typeOf (path @ [f_Name f]) (f_Value f))"

lemma sound_object:
  "fits (SObject sh) (ObjectNode a fs) \<Longrightarrow> regular cond path (ObjectNode a fs) \<Longrightarrow> parents_hold typeOf path (ObjectNode a fs) \<Longrightarrow>
   list_all (sound typeOf cond sh path) fs"
  by (auto simp: sound_def list_all_iff field_fits_def)

lemma propagate_fine:
  assumes g: "sound typeOf cond sh path g" and small: "small_types g"
  shows "fine typeOf cond sh path (propagateParentTypeNames g) \<and> shown typeOf path (propagateParentTypeNames g) = shown typeOf path g"
proof (cases "f_OnTypeNames g")
  case None
  then show ?thesis using g small by (auto simp: sound_def fine_def typed_by_def propagateParentTypeNames_def)
next
  case (Some ns)
  then have p: "propagateParentTypeNames g = set_value g (setParentTypeNames (f_Value g) ns 1)" by (simp add: propagateParentTypeNames_def)
  have "parents_hold typeOf (path @ [f_Name g]) (setParentTypeNames (f_Value g) ns 1)" if "type_allows (typeOf path) g"
    using that Some g parents_hold_setParent [of typeOf path _ ns "[f_Name g]" 1 "f_Value g"]
    by (auto simp: type_allows_def sound_def split: option.splits)
  then show ?thesis using g small Some unfolding p
    by (auto simp: sound_def fine_def typed_by_def field_fits_def shown_def small_types_def)
qed

lemma duplicate_sound:
  assumes f: "sound typeOf cond sh path f" and g: "g \<in> set (duplicate_field f)"
  shows "sound typeOf cond sh path g"
proof (cases "f_OnTypeNames f")
  case None then show ?thesis using f g by (simp add: duplicate_field_def)
next
  case (Some ns)
  show ?thesis
  proof (cases ns)
    case Nil then show ?thesis using f g Some by (simp add: duplicate_field_def)
  next
    case (Cons t ts)
    then consider "g = set_types f (Some [t]) (f_ParentOnTypeNames f)" | u where "u \<in> set ts" "g = additional_field f u"
      using g Some by (auto simp: duplicate_field_def)
    then show ?thesis
      by cases (use f Some Cons in \<open>auto simp: sound_def field_fits_def type_allows_def additional_field_def split: option.splits\<close>)
  qed
qed

lemma duplicate_shown: "\<Union>(shown typeOf path ` set (duplicate_field f)) = shown typeOf path f"
proof (cases "f_OnTypeNames f")
  case None then show ?thesis by (simp add: duplicate_field_def)
next
  case (Some ns)
  show ?thesis
  proof (cases ns)
    case Nil then show ?thesis using Some by (simp add: duplicate_field_def)
  next
    case (Cons t ts)
    have 1: "shown typeOf path (set_types f (Some [t]) (f_ParentOnTypeNames f)) =
        (if typeOf path = Some t then rendered_on typeOf (path @ [f_Name f]) (f_Value f) else {})"
      by (auto simp: shown_def type_allows_def split: option.splits)
    have 2: "shown typeOf path (additional_field f u) =
        (if typeOf path = Some u then rendered_on typeOf (path @ [f_Name f]) (f_Value f) else {})" for u
      by (auto simp: shown_def type_allows_def additional_field_def split: option.splits)
    have 3: "shown typeOf path f = (if typeOf path \<in> Some ` set (t # ts) then rendered_on typeOf (path @ [f_Name f]) (f_Value f) else {})"
      using Some Cons by (auto simp: shown_def type_allows_def split: option.splits)
    show ?thesis using Some Cons by (auto simp: duplicate_field_def 1 2 3)
  qed
qed

lemma merge_object_fields_exact:
  assumes s: "list_all (sound typeOf cond sh path) fs" and m: "merge_object_fields fs = Some fs'"
  shows "list_all (fine typeOf cond sh path) fs' \<and> \<Union>(shown typeOf path ` set fs') = \<Union>(shown typeOf path ` set fs)"
proof -
  let ?fine = "fine typeOf cond sh path" and ?shown = "shown typeOf path"
  have g: "?fine (propagateParentTypeNames g) \<and> ?shown (propagateParentTypeNames g) = ?shown g"
    if "f \<in> set fs" "g \<in> set (duplicate_field f)" for f g
  proof (rule propagate_fine)
    show "sound typeOf cond sh path g" using duplicate_sound [OF _ that(2)] s that(1) by (auto simp: list_all_iff)
    have "propagateParentTypeNames g \<in> set (duplicate_fields fs)" using that by (auto simp: duplicate_fields_def)
    then show "small_types g" using duplicate_small by fastforce
  qed
  have 2: "list_all ?fine (duplicate_fields fs)" by (rule list_all_duplicate) (use g in auto)
  have "\<Union>(?shown ` set (duplicate_fields fs)) = (\<Union>f \<in> set fs. \<Union>(?shown ` set (duplicate_field f)))"
    using g by (fastforce simp: duplicate_fields_def)
  then have sh: "\<Union>(?shown ` set (duplicate_fields fs)) = \<Union>(?shown ` set fs)" by (simp add: duplicate_shown)
  obtain f3 where 3: "merge_over_conditional (duplicate_fields fs) = Some f3" "list_all ?fine f3"
      "\<Union>(?shown ` set f3) = \<Union>(?shown ` set (duplicate_fields fs))"
    unfolding merge_over_conditional_def using over_exact.sweep_some [of typeOf cond sh path "[]" "duplicate_fields fs" True] 2 by auto
  obtain f4 where 4: "merge_siblings f3 = Some f4" "list_all ?fine f4" "\<Union>(?shown ` set f4) = \<Union>(?shown ` set f3)"
    unfolding merge_siblings_def using siblings_exact.sweep_some [of typeOf cond sh path "[]" f3 False] 3(2) by auto
  obtain f5 where 5: "merge_scalar_siblings f4 = Some f5" "list_all ?fine f5" "\<Union>(?shown ` set f5) = \<Union>(?shown ` set f4)"
    unfolding merge_scalar_siblings_def using scalars_exact.sweep_some [of typeOf cond sh path "[]" f4 True] 4(2) by auto
  have "fs' = f5" using m 3(1) 4(1) 5(1) by (simp add: merge_object_fields_def)
  then show ?thesis using 3(3) 4(3) 5(2,3) sh by simp
qed

section \<open>The whole tree\<close>

lemma rendered_object_fields:
  assumes "list_all2 (\<lambda>f g. \<exists>v. g = set_value f v \<and> list_all (parent_holds typeOf path) (f_ParentOnTypeNames f) \<and>
      (type_allows (typeOf path) f \<longrightarrow> set (rendered typeOf (path @ [f_Name f]) v) = rendered_on typeOf (path @ [f_Name f]) (f_Value f))) fs gs"
  shows "set (rendered typeOf path (ObjectNode a gs)) = insert path (\<Union>(shown typeOf path ` set fs))"
  using assms by (induction fs gs rule: list_all2_induct) (auto simp: shown_def shouldSkip_iff)

lemma traverseNode_exact:
  "traverseNode n = Some n' \<Longrightarrow> fits s n \<Longrightarrow> regular cond path n \<Longrightarrow> parents_hold typeOf path n \<Longrightarrow>
   set (rendered typeOf path n') = rendered_on typeOf path n"
proof (induction n arbitrary: s n' path rule: traverseNode.induct)
  case (1 a fs)
  obtain sh where sh: "s = SObject sh" using 1(4) by (cases s) auto
  have snd: "list_all (sound typeOf cond sh path) fs" using sound_object 1(4-6) sh by blast
  have whole: "rendered_on typeOf path (ObjectNode a fs) = insert path (\<Union>(shown typeOf path ` set fs))" by (auto simp: shown_def)
  show ?case
  proof (cases "length fs = 1")
    case True
    then obtain f where f: "fs = [f]" by (cases fs) auto
    obtain v where v: "traverseNode (f_Value f) = Some v" "n' = ObjectNode a [set_value f v]" using 1(3) f by auto
    have "type_allows (typeOf path) f \<longrightarrow> set (rendered typeOf (path @ [f_Name f]) v) = rendered_on typeOf (path @ [f_Name f]) (f_Value f)"
      using 1(1) [OF True, of v "sh (f_Name f)" "path @ [f_Name f]"] snd f v(1) by (simp add: sound_def field_fits_def)
    then have "list_all2 (\<lambda>f g. \<exists>v. g = set_value f v \<and> list_all (parent_holds typeOf path) (f_ParentOnTypeNames f) \<and>
      (type_allows (typeOf path) f \<longrightarrow> set (rendered typeOf (path @ [f_Name f]) v) = rendered_on typeOf (path @ [f_Name f]) (f_Value f)))
      [f] [set_value f v]"
      using snd f by (simp add: sound_def) blast
    from rendered_object_fields [OF this, of a] show ?thesis using v(2) whole f by simp
  next
    case False
    obtain fs' gs where g: "merge_object_fields fs = Some fs'" "n' = ObjectNode a gs"
        "list_all2 (\<lambda>f g. \<exists>v. traverseNode (f_Value f) = Some v \<and> g = set_value f v) fs' gs"
      by (rule traverse_object [OF 1(3) False])
    note ex = merge_object_fields_exact [OF snd g(1)]
    have each: "set (rendered typeOf (path @ [f_Name f]) v) = rendered_on typeOf (path @ [f_Name f]) (f_Value f)"
      if "f \<in> set fs'" "traverseNode (f_Value f) = Some v" "type_allows (typeOf path) f" for f v
      using 1(2) [OF False g(1) that(1) that(2), of "sh (f_Name f)" "path @ [f_Name f]"] ex that(1,3)
      by (auto simp: list_all_iff fine_def field_fits_def)
    have "list_all2 (\<lambda>f g. \<exists>v. g = set_value f v \<and> list_all (parent_holds typeOf path) (f_ParentOnTypeNames f) \<and>
      (type_allows (typeOf path) f \<longrightarrow> set (rendered typeOf (path @ [f_Name f]) v) = rendered_on typeOf (path @ [f_Name f]) (f_Value f))) fs' gs"
    proof (rule list.rel_mono_strong [OF g(3)])
      fix f x assume f: "f \<in> set fs'" "\<exists>v. traverseNode (f_Value f) = Some v \<and> x = set_value f v"
      have "list_all (parent_holds typeOf path) (f_ParentOnTypeNames f)" using ex f(1) by (auto simp: list_all_iff fine_def)
      then show "\<exists>v. x = set_value f v \<and> list_all (parent_holds typeOf path) (f_ParentOnTypeNames f) \<and>
          (type_allows (typeOf path) f \<longrightarrow> set (rendered typeOf (path @ [f_Name f]) v) = rendered_on typeOf (path @ [f_Name f]) (f_Value f))"
        using f each by blast
    qed
    from rendered_object_fields [OF this, of a]
    have "set (rendered typeOf path n') = insert path (\<Union>(shown typeOf path ` set fs'))" unfolding g(2) .
    then show ?thesis unfolding whole by (simp only: conjunct2 [OF ex])
  qed
next
  case (2 a item)
  then show ?case by (auto split: shape.splits)
qed auto

text \<open>The planner sets no parents' type names.\<close>

fun no_parents :: "Node \<Rightarrow> bool" where
  "no_parents (ObjectNode a fs) = list_all (\<lambda>f. f_ParentOnTypeNames f = [] \<and> no_parents (f_Value f)) fs"
| "no_parents (ArrayNode a n) = no_parents n"
| "no_parents n = True"

lemma no_parents_hold: "no_parents n \<Longrightarrow> parents_hold typeOf path n"
  by (induction typeOf path n rule: parents_hold.induct) (auto simp: list_all_iff)

end
