(* ===== verification/Auth_Coordinates.thy ===== *)
theory Auth_Coordinates
  imports Response_Tree Fetch_Flat
begin

text \<open>
  \<open>v2/pkg/engine/postprocess/collect_authorization_coordinates.go\<close>: the coordinates of a plan that
  carry an authorization rule, from the root fields of its fetches and from the response tree. The Go
  map from keys to coordinates is the list of its keys; the order in which it is ranged over is an
  argument. Strings are ordered bytewise.
\<close>

record AuthorizationCoordinate =
  AuthDataSourceID :: string
  AuthTypeName :: string
  AuthFieldName :: string

record ResponseInfo =
  ResponseOperationType :: OperationType
  AuthorizationCoordinates :: "AuthorizationCoordinate list"

record 'v PlanResponse = "'v GraphQLResponse" +
  ResponseData :: "Node option"
  ResponseInfo_of :: "ResponseInfo option"

section \<open>Collecting\<close>

definition addCoordinate :: "AuthorizationCoordinate list \<Rightarrow> string \<Rightarrow> string \<Rightarrow> string \<Rightarrow> AuthorizationCoordinate list" where
  "addCoordinate coordinates dataSourceID typeName fieldName =
     (let c = \<lparr>AuthDataSourceID = dataSourceID, AuthTypeName = typeName, AuthFieldName = fieldName\<rparr> in
      if c \<in> set coordinates then coordinates else coordinates @ [c])"

definition collectFetchItem :: "'v FetchItem option \<Rightarrow> AuthorizationCoordinate list \<Rightarrow> AuthorizationCoordinate list" where
  "collectFetchItem item coordinates =
     (case item of
        None \<Rightarrow> coordinates
      | Some item \<Rightarrow>
          (case FetchInfo_of (Fetch item) of
             None \<Rightarrow> coordinates
           | Some info \<Rightarrow>
               fold (\<lambda>f cs. if \<not> HasAuthorizationRule f then cs else addCoordinate cs (DataSourceID info) (TypeName f) (FieldName f))
                 (RootFields info) coordinates))"

definition collect_field :: "FieldInfo option \<Rightarrow> AuthorizationCoordinate list \<Rightarrow> AuthorizationCoordinate list" where
  "collect_field info coordinates =
     (case info of
        None \<Rightarrow> coordinates
      | Some info \<Rightarrow>
          (if InfoHasAuthorizationRule info
           then fold (\<lambda>ds cs. addCoordinate cs ds (ExactParentTypeName info) (FieldInfoName info)) (SourceIDs (Source info)) coordinates
           else coordinates))"

fun collectNode :: "Node \<Rightarrow> AuthorizationCoordinate list \<Rightarrow> AuthorizationCoordinate list" where
  "collectNode (ObjectNode a fs) coordinates =
     fold (\<lambda>f cs. collectNode (f_Value f) (collect_field (f_Info f) cs)) fs coordinates"
| "collectNode (ArrayNode a n) coordinates = collectNode n coordinates"
| "collectNode n coordinates = coordinates"

definition coordinate_less :: "AuthorizationCoordinate \<Rightarrow> AuthorizationCoordinate \<Rightarrow> bool" where
  "coordinate_less left right =
     (if AuthDataSourceID left \<noteq> AuthDataSourceID right then AuthDataSourceID left < AuthDataSourceID right
      else if AuthTypeName left \<noteq> AuthTypeName right then AuthTypeName left < AuthTypeName right
      else AuthFieldName left < AuthFieldName right)"

text \<open>\<open>sort.Slice\<close>.\<close>

fun insert_less :: "('a \<Rightarrow> 'a \<Rightarrow> bool) \<Rightarrow> 'a \<Rightarrow> 'a list \<Rightarrow> 'a list" where
  "insert_less lt x [] = [x]"
| "insert_less lt x (y # ys) = (if lt y x then y # insert_less lt x ys else x # y # ys)"

definition sort_slice :: "('a \<Rightarrow> 'a \<Rightarrow> bool) \<Rightarrow> 'a list \<Rightarrow> 'a list" where
  "sort_slice lt xs = foldr (insert_less lt) xs []"

definition collect_coordinates :: "'v PlanResponse \<Rightarrow> AuthorizationCoordinate list" where
  "collect_coordinates response =
     (let cs = fold (\<lambda>item. collectFetchItem (Some item)) (RawFetches response) [];
          cs = (case Fetches response of
                  None \<Rightarrow> cs
                | Some root \<Rightarrow> fold (\<lambda>child. collectFetchItem (node_item child)) (ChildNodes root) (collectFetchItem (node_item root) cs))
      in case ResponseData response of None \<Rightarrow> cs | Some data \<Rightarrow> collectNode data cs)"

definition collectAuthorizationCoordinates_Process ::
  "(AuthorizationCoordinate list \<Rightarrow> AuthorizationCoordinate list) \<Rightarrow> bool \<Rightarrow> 'v PlanResponse \<Rightarrow> 'v PlanResponse" where
  "collectAuthorizationCoordinates_Process range_order disable response =
     (if disable then response
      else case ResponseInfo_of response of
          None \<Rightarrow> response
        | Some info \<Rightarrow>
            (let coordinates = collect_coordinates response in
             if coordinates = [] then response\<lparr>ResponseInfo_of := Some (info\<lparr>AuthorizationCoordinates := []\<rparr>)\<rparr>
             else response\<lparr>ResponseInfo_of :=
               Some (info\<lparr>AuthorizationCoordinates := sort_slice coordinate_less (range_order coordinates)\<rparr>)\<rparr>))"

section \<open>What is protected\<close>

inductive field_in :: "Field \<Rightarrow> Node \<Rightarrow> bool" where
  here: "f \<in> set fs \<Longrightarrow> field_in f (ObjectNode a fs)"
| below: "g \<in> set fs \<Longrightarrow> field_in f (f_Value g) \<Longrightarrow> field_in f (ObjectNode a fs)"
| item: "field_in f n \<Longrightarrow> field_in f (ArrayNode a n)"

inductive_simps field_in_simps: "field_in f (ObjectNode a fs)" "field_in f (ArrayNode a n)"
inductive_cases field_in_other: "field_in f n"

text \<open>A root field of a fetch with a rule, for the fetch's data source; a field of the response with a rule, for each of its sources.\<close>

definition fetch_protects :: "'v FetchItem \<Rightarrow> AuthorizationCoordinate \<Rightarrow> bool" where
  "fetch_protects item c \<longleftrightarrow>
     (\<exists>info f. FetchInfo_of (Fetch item) = Some info \<and> f \<in> set (RootFields info) \<and> HasAuthorizationRule f \<and>
        c = \<lparr>AuthDataSourceID = DataSourceID info, AuthTypeName = TypeName f, AuthFieldName = FieldName f\<rparr>)"

definition field_protects :: "Field \<Rightarrow> AuthorizationCoordinate \<Rightarrow> bool" where
  "field_protects f c \<longleftrightarrow>
     (\<exists>info ds. f_Info f = Some info \<and> InfoHasAuthorizationRule info \<and> ds \<in> set (SourceIDs (Source info)) \<and>
        c = \<lparr>AuthDataSourceID = ds, AuthTypeName = ExactParentTypeName info, AuthFieldName = FieldInfoName info\<rparr>)"

definition response_items :: "'v PlanResponse \<Rightarrow> 'v FetchItem set" where
  "response_items r = set (RawFetches r) \<union>
     (case Fetches r of None \<Rightarrow> {} | Some root \<Rightarrow> {it. node_item root = Some it \<or> (\<exists>c \<in> set (ChildNodes root). node_item c = Some it)})"

definition protected :: "'v PlanResponse \<Rightarrow> AuthorizationCoordinate \<Rightarrow> bool" where
  "protected r c \<longleftrightarrow> (\<exists>it \<in> response_items r. fetch_protects it c) \<or>
     (\<exists>data f. ResponseData r = Some data \<and> field_in f data \<and> field_protects f c)"

section \<open>Correctness\<close>

lemma addCoordinate [simp]:
  "set (addCoordinate cs d t f) = insert \<lparr>AuthDataSourceID = d, AuthTypeName = t, AuthFieldName = f\<rparr> (set cs)"
  "distinct cs \<Longrightarrow> distinct (addCoordinate cs d t f)"
  by (auto simp: addCoordinate_def Let_def)

lemma fold_collect:
  assumes "\<And>x cs. x \<in> set xs \<Longrightarrow> set (g x cs) = set cs \<union> S x" "\<And>x cs. x \<in> set xs \<Longrightarrow> distinct cs \<Longrightarrow> distinct (g x cs)"
  shows "set (fold g xs cs) = set cs \<union> \<Union>(S ` set xs)" "distinct cs \<Longrightarrow> distinct (fold g xs cs)"
  using assms by (induction xs arbitrary: cs) auto

lemma collectFetchItem:
  "set (collectFetchItem item cs) = set cs \<union> {c. \<exists>it. item = Some it \<and> fetch_protects it c}"
  "distinct cs \<Longrightarrow> distinct (collectFetchItem item cs)"
proof -
  let ?g = "\<lambda>info f cs. if \<not> HasAuthorizationRule f then cs else addCoordinate cs (DataSourceID info) (TypeName f) (FieldName f)"
  let ?S = "\<lambda>info f. if HasAuthorizationRule f then {\<lparr>AuthDataSourceID = DataSourceID info, AuthTypeName = TypeName f, AuthFieldName = FieldName f\<rparr>} else {}"
  have "set (fold (?g info) fs cs) = set cs \<union> \<Union>(?S info ` set fs)" "distinct cs \<Longrightarrow> distinct (fold (?g info) fs cs)" for info :: FetchInfo and fs
    by (rule fold_collect [where S = "?S info"]; simp)+
  note f = this
  show "set (collectFetchItem item cs) = set cs \<union> {c. \<exists>it. item = Some it \<and> fetch_protects it c}"
    by (cases item; cases "FetchInfo_of (Fetch (the item))") (auto simp: collectFetchItem_def f fetch_protects_def split: if_splits)
  show "distinct cs \<Longrightarrow> distinct (collectFetchItem item cs)"
    by (auto simp: collectFetchItem_def f split: option.splits)
qed

lemma collect_field:
  "set (collect_field (f_Info f) cs) = set cs \<union> {c. field_protects f c}"
  "distinct cs \<Longrightarrow> distinct (collect_field (f_Info f) cs)"
proof -
  let ?g = "\<lambda>info ds cs. addCoordinate cs ds (ExactParentTypeName info) (FieldInfoName info)"
  let ?S = "\<lambda>info ds. {\<lparr>AuthDataSourceID = ds, AuthTypeName = ExactParentTypeName info, AuthFieldName = FieldInfoName info\<rparr>}"
  have "set (fold (?g info) dss cs) = set cs \<union> \<Union>(?S info ` set dss)" "distinct cs \<Longrightarrow> distinct (fold (?g info) dss cs)" for info dss
    by (rule fold_collect [where S = "?S info"]; simp)+
  note f = this
  show "set (collect_field (f_Info f) cs) = set cs \<union> {c. field_protects f c}"
    by (auto simp: collect_field_def f field_protects_def split: option.splits)
  show "distinct cs \<Longrightarrow> distinct (collect_field (f_Info f) cs)"
    by (auto simp: collect_field_def f split: option.splits)
qed

lemma collectNode:
  "set (collectNode n cs) = set cs \<union> {c. \<exists>f. field_in f n \<and> field_protects f c}"
  "distinct cs \<Longrightarrow> distinct (collectNode n cs)"
proof (induction n cs rule: collectNode.induct)
  case (1 a fs cs)
  let ?S = "\<lambda>f. {c. field_protects f c} \<union> {c. \<exists>g. field_in g (f_Value f) \<and> field_protects g c}"
  {
    case 1
    have "set (fold (\<lambda>f cs. collectNode (f_Value f) (collect_field (f_Info f) cs)) fs cs) = set cs \<union> \<Union>(?S ` set fs)"
      by (rule fold_collect(1)) (use "1.IH" collect_field in auto)
    then show ?case by (auto simp: field_in_simps)
  next
    case 2
    then show ?case unfolding collectNode.simps
      by (intro fold_collect(2) [where S = ?S]) (use "1.IH" collect_field in auto)
  }
qed (auto simp: field_in_simps elim: field_in.cases)

lemma collect_coordinates:
  "set (collect_coordinates r) = {c. protected r c}" "distinct (collect_coordinates r)"
proof -
  let ?raw = "fold (\<lambda>item. collectFetchItem (Some item)) (RawFetches r) []"
  let ?children = "\<lambda>root cs. fold (\<lambda>child. collectFetchItem (node_item child)) (ChildNodes root) cs"
  have raw: "set ?raw = {c. \<exists>it \<in> set (RawFetches r). fetch_protects it c}" "distinct ?raw"
    using fold_collect [of "RawFetches r" "\<lambda>item. collectFetchItem (Some item)" "\<lambda>it. {c. fetch_protects it c}" "[]"]
    by (auto simp: collectFetchItem)
  have ch: "set (?children root cs) = set cs \<union> {c. \<exists>n \<in> set (ChildNodes root). \<exists>it. node_item n = Some it \<and> fetch_protects it c}"
      "distinct cs \<Longrightarrow> distinct (?children root cs)" for root :: "'a FetchTreeNode" and cs
    using fold_collect [of "ChildNodes root" "\<lambda>child. collectFetchItem (node_item child)"
      "\<lambda>n. {c. \<exists>it. node_item n = Some it \<and> fetch_protects it c}" cs] by (auto simp: collectFetchItem)
  show "set (collect_coordinates r) = {c. protected r c}"
    by (cases "Fetches r"; cases "ResponseData r")
      (auto simp: collect_coordinates_def Let_def raw ch collectFetchItem collectNode protected_def response_items_def)
  show "distinct (collect_coordinates r)"
    by (auto simp: collect_coordinates_def Let_def raw ch collectFetchItem collectNode split: option.splits)
qed

lemma coordinate_less_total: "x = y \<or> coordinate_less x y \<or> coordinate_less y x"
  by (cases x; cases y) (auto simp: coordinate_less_def)

lemma coordinate_less_trans: "coordinate_less x y \<Longrightarrow> coordinate_less y z \<Longrightarrow> coordinate_less x z"
  by (auto simp: coordinate_less_def split: if_splits)

lemma coordinate_less_irrefl: "\<not> coordinate_less x x"
  by (simp add: coordinate_less_def)

lemma insert_less_sorted:
  "sorted_wrt coordinate_less ys \<Longrightarrow> x \<notin> set ys \<Longrightarrow>
   sorted_wrt coordinate_less (insert_less coordinate_less x ys) \<and> set (insert_less coordinate_less x ys) = insert x (set ys)"
proof (induction ys)
  case (Cons y ys)
  show ?case
  proof (cases "coordinate_less y x")
    case True then show ?thesis using Cons by auto
  next
    case False
    then have "coordinate_less x y" using coordinate_less_total [of x y] Cons.prems(2) by auto
    then show ?thesis using False Cons.prems coordinate_less_trans by auto
  qed
qed simp

lemma sort_slice_sorted:
  "distinct xs \<Longrightarrow> sorted_wrt coordinate_less (sort_slice coordinate_less xs) \<and> set (sort_slice coordinate_less xs) = set xs"
  unfolding sort_slice_def by (induction xs) (auto simp: insert_less_sorted)

text \<open>A strictly sorted list is determined by its elements.\<close>

lemma sorted_less_unique:
  "sorted_wrt coordinate_less xs \<Longrightarrow> sorted_wrt coordinate_less ys \<Longrightarrow> set xs = set ys \<Longrightarrow> xs = ys"
proof (induction xs arbitrary: ys)
  case (Cons x xs)
  obtain y ys' where y: "ys = y # ys'" using Cons.prems(3) by (cases ys) auto
  have "x = y"
  proof (rule ccontr)
    assume "x \<noteq> y"
    then have "coordinate_less x y" "coordinate_less y x" using Cons.prems y by auto
    then show False using coordinate_less_trans coordinate_less_irrefl by blast
  qed
  moreover have "x \<notin> set xs" "y \<notin> set ys'" using Cons.prems(1,2) y coordinate_less_irrefl by auto
  ultimately have "set xs = set ys'" using Cons.prems(3) y by auto
  then show ?case using Cons.IH [of ys'] Cons.prems(1,2) y \<open>x = y\<close> by simp
qed simp

end
