(* ===== verification/Trigger_Registry.thy ===== *)
theory Trigger_Registry
  imports GQL_Prelude "HOL-Library.Word"
begin

text \<open>
  The registry of subscriptions of \<open>v2/pkg/engine/resolve/resolve.go\<close>: subscriptions with the same
  data source and input share a trigger. A pointer to a subscription or to a trigger is an index into
  a heap; a Go map is an association list, in some order of its keys. Each definition is what the code
  does while it holds \<open>Resolver.mu\<close> (and \<open>trigger.mu\<close> inside it); what happens between the
  critical sections is \<open>Trigger_Steps\<close>.
\<close>

section \<open>The state\<close>

record SubscriptionIdentifier =
  ConnectionID :: "64 word"
  SubscriptionID :: "64 word"

text \<open>What the writer of a subscription has received.\<close>

datatype frame = Payload string | FormattedError string | HeartbeatFrame | CompleteFrame | ErrorFrame string

record subscriptionState =
  sub_trigger :: "64 word"
  sub_id :: SubscriptionIdentifier
  sub_heartbeat :: bool
  sub_completed :: bool
  sub_removed :: bool
  sub_writer :: "frame list"

text \<open>A trigger with its updater; \<open>trig_cancelled\<close> is the state of the context of both.\<close>

record trigger =
  trig_id :: "64 word"
  trig_cancelled :: bool
  trig_subs :: "(SubscriptionIdentifier \<times> nat) list"
  trig_initialized :: bool
  trig_started :: bool
  upd_locked :: bool
  upd_done :: bool

text \<open>The resolver with the two heaps and the counts its reporter has been told.\<close>

record Resolver =
  shutdown :: bool
  triggers :: "(64 word \<times> nat) list"
  subscriptionsByID :: "(SubscriptionIdentifier \<times> nat) list"
  subscriptionsByConnection :: "(64 word \<times> (SubscriptionIdentifier \<times> nat) list) list"
  subs :: "subscriptionState list"
  trigs :: "trigger list"
  subscriptionCount :: int
  triggerCount :: int

definition new_resolver :: Resolver where
  "new_resolver = \<lparr>shutdown = False, triggers = [], subscriptionsByID = [], subscriptionsByConnection = [],
     subs = [], trigs = [], subscriptionCount = 0, triggerCount = 0\<rparr>"

definition upd_sub :: "nat \<Rightarrow> (subscriptionState \<Rightarrow> subscriptionState) \<Rightarrow> Resolver \<Rightarrow> Resolver" where
  "upd_sub s f r = r\<lparr>subs := (subs r)[s := f (subs r ! s)]\<rparr>"

definition upd_trig :: "nat \<Rightarrow> (trigger \<Rightarrow> trigger) \<Rightarrow> Resolver \<Rightarrow> Resolver" where
  "upd_trig t f r = r\<lparr>trigs := (trigs r)[t := f (trigs r ! t)]\<rparr>"

section \<open>The indexes\<close>

definition registerSubscriptionLocked :: "nat \<Rightarrow> nat \<Rightarrow> Resolver \<Rightarrow> Resolver" where
  "registerSubscriptionLocked t s r =
     (let sid = sub_id (subs r ! s);
          byConn = (case map_of (subscriptionsByConnection r) (ConnectionID sid) of None \<Rightarrow> [] | Some m \<Rightarrow> m) in
      (upd_trig t (\<lambda>x. x\<lparr>trig_subs := AList.update sid s (trig_subs x)\<rparr>) r)
        \<lparr>subscriptionsByID := AList.update sid s (subscriptionsByID r),
         subscriptionsByConnection :=
           AList.update (ConnectionID sid) (AList.update sid s byConn) (subscriptionsByConnection r)\<rparr>)"

definition unregisterSubscriptionLocked :: "SubscriptionIdentifier \<Rightarrow> Resolver \<Rightarrow> Resolver" where
  "unregisterSubscriptionLocked sid r =
     (let r = r\<lparr>subscriptionsByID := AList.delete sid (subscriptionsByID r)\<rparr> in
      case map_of (subscriptionsByConnection r) (ConnectionID sid) of
        None \<Rightarrow> r
      | Some byConn \<Rightarrow>
          (let byConn = AList.delete sid byConn in
           if byConn = [] then r\<lparr>subscriptionsByConnection := AList.delete (ConnectionID sid) (subscriptionsByConnection r)\<rparr>
           else r\<lparr>subscriptionsByConnection := AList.update (ConnectionID sid) byConn (subscriptionsByConnection r)\<rparr>))"

definition getTrigger :: "64 word \<Rightarrow> Resolver \<Rightarrow> nat option" where
  "getTrigger triggerID r = map_of (triggers r) triggerID"

section \<open>Adding a subscription\<close>

text \<open>The outcome names the subscription and its trigger, which it joins or starts.\<close>

datatype added = AddRejected | AddJoined nat nat | AddStarted nat nat

definition new_subscription :: "64 word \<Rightarrow> SubscriptionIdentifier \<Rightarrow> bool \<Rightarrow> subscriptionState" where
  "new_subscription triggerID sid heartbeat =
     \<lparr>sub_trigger = triggerID, sub_id = sid, sub_heartbeat = heartbeat, sub_completed = False, sub_removed = False, sub_writer = []\<rparr>"

definition new_trigger :: "64 word \<Rightarrow> trigger" where
  "new_trigger triggerID =
     \<lparr>trig_id = triggerID, trig_cancelled = False, trig_subs = [], trig_initialized = False, trig_started = False,
      upd_locked = False, upd_done = False\<rparr>"

definition addSubscription :: "64 word \<Rightarrow> SubscriptionIdentifier \<Rightarrow> bool \<Rightarrow> Resolver \<Rightarrow> added \<times> Resolver" where
  "addSubscription triggerID sid heartbeat r =
     (if shutdown r then (AddRejected, r)
      else
        (let s = length (subs r);
             r = r\<lparr>subs := subs r @ [new_subscription triggerID sid heartbeat]\<rparr> in
         case map_of (triggers r) triggerID of
           Some t \<Rightarrow>
             (AddJoined s t, registerSubscriptionLocked t s (r\<lparr>subscriptionCount := subscriptionCount r + 1\<rparr>))
         | None \<Rightarrow>
             (let t = length (trigs r);
                  r = r\<lparr>trigs := trigs r @ [new_trigger triggerID], triggers := AList.update triggerID t (triggers r)\<rparr>;
                  r = registerSubscriptionLocked t s r in
              (AddStarted s t, r\<lparr>subscriptionCount := subscriptionCount r + 1\<rparr>))))"

section \<open>Removing subscriptions\<close>

record removeResult =
  res_removed :: nat
  res_toClose :: "nat list"
  res_cancel :: "nat option"
  res_initialized :: bool

definition nothing_removed :: removeResult where
  "nothing_removed = \<lparr>res_removed = 0, res_toClose = [], res_cancel = None, res_initialized = False\<rparr>"

text \<open>\<open>removed.CompareAndSwap(false, true)\<close>, and the subscription to close if it succeeds.\<close>

definition mark_removed :: "nat \<Rightarrow> Resolver \<Rightarrow> nat list \<times> Resolver" where
  "mark_removed s r = (if sub_removed (subs r ! s) then ([], r) else ([s], upd_sub s (\<lambda>x. x\<lparr>sub_removed := True\<rparr>) r))"

definition removeSubscriptionLocked :: "SubscriptionIdentifier \<Rightarrow> Resolver \<Rightarrow> removeResult \<times> Resolver" where
  "removeSubscriptionLocked sid r =
     (case map_of (subscriptionsByID r) sid of
        None \<Rightarrow> (nothing_removed, r)
      | Some s \<Rightarrow>
          (case map_of (triggers r) (sub_trigger (subs r ! s)) of
             None \<Rightarrow> (nothing_removed, unregisterSubscriptionLocked sid r)
           | Some t \<Rightarrow>
               if map_of (trig_subs (trigs r ! t)) sid = None then (nothing_removed, unregisterSubscriptionLocked sid r)
               else
                 (let (toClose, r) = mark_removed s r;
                      r = upd_trig t (\<lambda>x. x\<lparr>trig_subs := AList.delete sid (trig_subs x)\<rparr>) r;
                      empty = (trig_subs (trigs r ! t) = []);
                      r = unregisterSubscriptionLocked sid r;
                      r = (if empty then r\<lparr>triggers := AList.delete (trig_id (trigs r ! t)) (triggers r)\<rparr> else r) in
                  (\<lparr>res_removed = 1, res_toClose = toClose, res_cancel = (if empty then Some t else None),
                    res_initialized = (empty \<and> trig_initialized (trigs r ! t))\<rparr>, r))))"

text \<open>The loop of \<open>detachTriggerLocked\<close> over the subscriptions of the trigger \<open>t\<close>.\<close>

fun detach_subs :: "nat \<Rightarrow> (SubscriptionIdentifier \<times> nat) list \<Rightarrow> Resolver \<Rightarrow> nat list \<times> Resolver" where
  "detach_subs t [] r = ([], r)"
| "detach_subs t ((sid, s) # rest) r =
     (let (c, r) = mark_removed s r;
          r = upd_trig t (\<lambda>x. x\<lparr>trig_subs := AList.delete sid (trig_subs x)\<rparr>) r;
          r = unregisterSubscriptionLocked sid r;
          (cs, r) = detach_subs t rest r in
      (c @ cs, r))"

definition detachTriggerLocked :: "64 word \<Rightarrow> Resolver \<Rightarrow> removeResult \<times> Resolver" where
  "detachTriggerLocked triggerID r =
     (case map_of (triggers r) triggerID of
        None \<Rightarrow> (nothing_removed, r)
      | Some t \<Rightarrow>
          (let removed = length (trig_subs (trigs r ! t));
               (toClose, r) = detach_subs t (trig_subs (trigs r ! t)) r;
               r = r\<lparr>triggers := AList.delete triggerID (triggers r)\<rparr> in
           (\<lparr>res_removed = removed, res_toClose = toClose, res_cancel = Some t, res_initialized = trig_initialized (trigs r ! t)\<rparr>, r)))"

text \<open>
  The loops of \<open>removeClient\<close> and of \<open>shutdownResolver\<close>, with what they collect: the number of removed
  subscriptions, the subscriptions to close, the triggers to cancel and the number of initialized
  ones.
\<close>

fun collect_removed :: "('k \<Rightarrow> Resolver \<Rightarrow> removeResult \<times> Resolver) \<Rightarrow> 'k list \<Rightarrow> Resolver \<Rightarrow>
    (nat \<times> nat list \<times> nat list \<times> nat) \<times> Resolver" where
  "collect_removed f [] r = ((0, [], [], 0), r)"
| "collect_removed f (k # ks) r =
     (let (res, r) = f k r;
          ((n, toClose, cancels, dec), r) = collect_removed f ks r in
      ((res_removed res + n, res_toClose res @ toClose,
        (case res_cancel res of None \<Rightarrow> cancels | Some t \<Rightarrow> t # cancels),
        (if res_cancel res \<noteq> None \<and> res_initialized res then Suc dec else dec)), r))"

definition removeClient :: "64 word \<Rightarrow> Resolver \<Rightarrow> (nat list \<times> nat list) \<times> Resolver" where
  "removeClient connection r =
     (if shutdown r then (([], []), r)
      else
        (let ids = (case map_of (subscriptionsByConnection r) connection of None \<Rightarrow> [] | Some m \<Rightarrow> map fst m);
             ((removed, toClose, cancels, dec), r) = collect_removed removeSubscriptionLocked ids r in
         ((toClose, cancels), r\<lparr>subscriptionCount := subscriptionCount r - int removed, triggerCount := triggerCount r - int dec\<rparr>)))"

text \<open>The critical sections of \<open>UnsubscribeSubscription\<close>, \<open>doneTriggerFromUpdater\<close> and \<open>shutdownResolver\<close>.\<close>

definition report_removed :: "removeResult \<Rightarrow> Resolver \<Rightarrow> Resolver" where
  "report_removed res r =
     r\<lparr>subscriptionCount := subscriptionCount r - int (res_removed res),
       triggerCount := triggerCount r - (if res_cancel res \<noteq> None \<and> res_initialized res then 1 else 0)\<rparr>"

definition UnsubscribeSubscription :: "SubscriptionIdentifier \<Rightarrow> Resolver \<Rightarrow> removeResult \<times> Resolver" where
  "UnsubscribeSubscription sid r =
     (if shutdown r then (nothing_removed, r)
      else (let (res, r) = removeSubscriptionLocked sid r in (res, report_removed res r)))"

definition doneTriggerFromUpdater :: "64 word \<Rightarrow> Resolver \<Rightarrow> removeResult \<times> Resolver" where
  "doneTriggerFromUpdater triggerID r =
     (let (res, r) = detachTriggerLocked triggerID r in (res, report_removed res r))"

definition shutdownResolver :: "Resolver \<Rightarrow> (nat list \<times> nat list) \<times> Resolver" where
  "shutdownResolver r =
     (if shutdown r then (([], []), r)
      else
        (let r = r\<lparr>shutdown := True\<rparr>;
             ((removed, toClose, cancels, dec), r) = collect_removed detachTriggerLocked (map fst (triggers r)) r in
         ((toClose, cancels),
          r\<lparr>subscriptionCount := subscriptionCount r - int removed, triggerCount := triggerCount r - int dec,
            triggers := [], subscriptionsByID := [], subscriptionsByConnection := []\<rparr>)))"

end
