(* ===== verification/Trigger_Refinement.thy ===== *)
theory Trigger_Refinement
  imports Trigger_Registry
begin

text \<open>
  What the registry keeps, and what it means. \<open>triggers_ok\<close>: the three indexes agree, no trigger is
  empty, the registered subscriptions are exactly those that are not removed, and the reported count is
  their number. \<open>reg_view\<close> is the abstract registry, a map from subscription identifiers to trigger
  identifiers; every critical section implements an update of that map.
\<close>

section \<open>The invariant\<close>

abbreviation byID :: "Resolver \<Rightarrow> SubscriptionIdentifier \<Rightarrow> nat option" where
  "byID r \<equiv> map_of (subscriptionsByID r)"

abbreviation trigger_of :: "Resolver \<Rightarrow> 64 word \<Rightarrow> nat option" where
  "trigger_of r \<equiv> map_of (triggers r)"

abbreviation subs_of :: "Resolver \<Rightarrow> nat \<Rightarrow> SubscriptionIdentifier \<Rightarrow> nat option" where
  "subs_of r t \<equiv> map_of (trig_subs (trigs r ! t))"

text \<open>The entry of the connection \<open>c\<close> in the index by connection.\<close>

definition conn_entry :: "(SubscriptionIdentifier \<Rightarrow> nat option) \<Rightarrow> 64 word \<Rightarrow> (SubscriptionIdentifier \<times> nat) list option \<Rightarrow> bool" where
  "conn_entry B c e \<longleftrightarrow>
     (case e of
        None \<Rightarrow> \<forall>sid. ConnectionID sid = c \<longrightarrow> B sid = None
      | Some m \<Rightarrow> m \<noteq> [] \<and> distinct (map fst m) \<and> map_of m = (\<lambda>sid. if ConnectionID sid = c then B sid else None))"

definition conn_ok :: "Resolver \<Rightarrow> bool" where
  "conn_ok r \<longleftrightarrow> (\<forall>c. conn_entry (byID r) c (map_of (subscriptionsByConnection r) c))"

text \<open>A trigger is well formed; those with an identifier in \<open>E\<close> may have lost their last subscription.\<close>

definition trig_ok :: "64 word set \<Rightarrow> Resolver \<Rightarrow> 64 word \<Rightarrow> nat \<Rightarrow> bool" where
  "trig_ok E r k t \<longleftrightarrow>
     t < length (trigs r) \<and> trig_id (trigs r ! t) = k \<and> distinct (map fst (trig_subs (trigs r ! t))) \<and>
     (k \<notin> E \<longrightarrow> trig_subs (trigs r ! t) \<noteq> []) \<and>
     (\<forall>sid s. subs_of r t sid = Some s \<longrightarrow> byID r sid = Some s \<and> sub_trigger (subs r ! s) = k)"

definition sub_ok :: "Resolver \<Rightarrow> SubscriptionIdentifier \<Rightarrow> nat \<Rightarrow> bool" where
  "sub_ok r sid s \<longleftrightarrow>
     s < length (subs r) \<and> sub_id (subs r ! s) = sid \<and> \<not> sub_removed (subs r ! s) \<and>
     (\<exists>t. trigger_of r (sub_trigger (subs r ! s)) = Some t \<and> subs_of r t sid = Some s)"

definition reg_core :: "64 word set \<Rightarrow> Resolver \<Rightarrow> bool" where
  "reg_core E r \<longleftrightarrow>
     conn_ok r \<and> distinct (map fst (subscriptionsByID r)) \<and>
     (\<forall>k t. trigger_of r k = Some t \<longrightarrow> trig_ok E r k t) \<and>
     (\<forall>sid s. byID r sid = Some s \<longrightarrow> sub_ok r sid s) \<and>
     (\<forall>s < length (subs r). \<not> sub_removed (subs r ! s) \<longrightarrow> byID r (sub_id (subs r ! s)) = Some s)"

definition triggers_ok :: "Resolver \<Rightarrow> bool" where
  "triggers_ok r \<longleftrightarrow>
     reg_core {} r \<and> subscriptionCount r = int (length (subscriptionsByID r)) \<and>
     (shutdown r \<longrightarrow> triggers r = [] \<and> subscriptionsByID r = [] \<and> subscriptionsByConnection r = [])"

lemma reg_coreD:
  assumes "reg_core E r"
  shows core_conn: "conn_ok r"
    and core_distinct: "distinct (map fst (subscriptionsByID r))"
    and core_trig: "trigger_of r k = Some t \<Longrightarrow> trig_ok E r k t"
    and core_sub: "byID r sid = Some s \<Longrightarrow> sub_ok r sid s"
    and core_live: "s < length (subs r) \<Longrightarrow> \<not> sub_removed (subs r ! s) \<Longrightarrow> byID r (sub_id (subs r ! s)) = Some s"
  using assms unfolding reg_core_def by blast+

lemma trig_okD:
  assumes "trig_ok E r k t"
  shows "t < length (trigs r)" "trig_id (trigs r ! t) = k" "distinct (map fst (trig_subs (trigs r ! t)))"
    "k \<notin> E \<Longrightarrow> trig_subs (trigs r ! t) \<noteq> []" "subs_of r t sid = Some s \<Longrightarrow> byID r sid = Some s"
    "subs_of r t sid = Some s \<Longrightarrow> sub_trigger (subs r ! s) = k"
  using assms unfolding trig_ok_def by blast+

lemma sub_okD:
  assumes "sub_ok r sid s"
  shows "s < length (subs r)" "sub_id (subs r ! s) = sid" "\<not> sub_removed (subs r ! s)"
    "\<exists>t. trigger_of r (sub_trigger (subs r ! s)) = Some t \<and> subs_of r t sid = Some s"
  using assms unfolding sub_ok_def by blast+

definition reg_view :: "Resolver \<Rightarrow> SubscriptionIdentifier \<Rightarrow> 64 word option" where
  "reg_view r sid = map_option (\<lambda>s. sub_trigger (subs r ! s)) (byID r sid)"

lemma triggers_ok_new [simp]: "triggers_ok new_resolver"
  by (simp add: triggers_ok_def reg_core_def conn_ok_def conn_entry_def new_resolver_def)

section \<open>The fields each primitive changes\<close>

lemma upd_simps [simp]:
  "shutdown (upd_sub s f r) = shutdown r" "triggers (upd_sub s f r) = triggers r"
  "subscriptionsByID (upd_sub s f r) = subscriptionsByID r" "trigs (upd_sub s f r) = trigs r"
  "subscriptionsByConnection (upd_sub s f r) = subscriptionsByConnection r"
  "subscriptionCount (upd_sub s f r) = subscriptionCount r" "triggerCount (upd_sub s f r) = triggerCount r"
  "subs (upd_sub s f r) = (subs r)[s := f (subs r ! s)]"
  "shutdown (upd_trig t g r) = shutdown r" "triggers (upd_trig t g r) = triggers r"
  "subscriptionsByID (upd_trig t g r) = subscriptionsByID r" "subs (upd_trig t g r) = subs r"
  "subscriptionsByConnection (upd_trig t g r) = subscriptionsByConnection r"
  "subscriptionCount (upd_trig t g r) = subscriptionCount r" "triggerCount (upd_trig t g r) = triggerCount r"
  "trigs (upd_trig t g r) = (trigs r)[t := g (trigs r ! t)]"
  by (simp_all add: upd_sub_def upd_trig_def)

lemma unregister_simps [simp]:
  "shutdown (unregisterSubscriptionLocked sid r) = shutdown r" "triggers (unregisterSubscriptionLocked sid r) = triggers r"
  "subs (unregisterSubscriptionLocked sid r) = subs r" "trigs (unregisterSubscriptionLocked sid r) = trigs r"
  "subscriptionCount (unregisterSubscriptionLocked sid r) = subscriptionCount r"
  "triggerCount (unregisterSubscriptionLocked sid r) = triggerCount r"
  "subscriptionsByID (unregisterSubscriptionLocked sid r) = AList.delete sid (subscriptionsByID r)"
  by (simp_all add: unregisterSubscriptionLocked_def Let_def split: option.split)

lemma register_simps [simp]:
  "shutdown (registerSubscriptionLocked t s r) = shutdown r" "triggers (registerSubscriptionLocked t s r) = triggers r"
  "subs (registerSubscriptionLocked t s r) = subs r"
  "trigs (registerSubscriptionLocked t s r) =
     (trigs r)[t := (trigs r ! t)\<lparr>trig_subs := AList.update (sub_id (subs r ! s)) s (trig_subs (trigs r ! t))\<rparr>]"
  "subscriptionCount (registerSubscriptionLocked t s r) = subscriptionCount r"
  "triggerCount (registerSubscriptionLocked t s r) = triggerCount r"
  "subscriptionsByID (registerSubscriptionLocked t s r) = AList.update (sub_id (subs r ! s)) s (subscriptionsByID r)"
  by (simp_all add: registerSubscriptionLocked_def Let_def)

lemma map_of_delete [simp]: "map_of (AList.delete k al) = (map_of al)(k := None)"
  by (rule ext) (simp add: delete_conv')

lemma map_of_update [simp]: "map_of (AList.update k v al) = (map_of al)(k \<mapsto> v)"
  by (simp add: update_conv')

lemma length_delete_distinct:
  "distinct (map fst al) \<Longrightarrow> map_of al k = Some v \<Longrightarrow> Suc (length (AList.delete k al)) = length al"
proof (induction al)
  case (Cons a al)
  have "AList.delete k al = al" if "k \<notin> fst ` set al" using that by (simp add: delete_id)
  then show ?case using Cons by (cases a) (auto split: if_splits)
qed simp

lemma nil_iff_map_of: "al = [] \<longleftrightarrow> map_of al = Map.empty"
  by (cases al) auto

lemma conn_entry_other:
  "conn_entry B c e \<Longrightarrow> (\<And>sid. ConnectionID sid = c \<Longrightarrow> B' sid = B sid) \<Longrightarrow> conn_entry B' c e"
  by (auto simp: conn_entry_def fun_eq_iff split: option.splits)

lemma conn_entry_delete:
  assumes "conn_entry B (ConnectionID sid) (Some m)"
  shows "conn_entry (B(sid := None)) (ConnectionID sid)
    (if AList.delete sid m = [] then None else Some (AList.delete sid m))"
proof -
  have "distinct (map fst (AList.delete sid m))" using assms by (auto simp: conn_entry_def intro: distinct_delete)
  moreover have "AList.delete sid m = [] \<longleftrightarrow> (\<forall>x. x \<noteq> sid \<longrightarrow> ConnectionID x = ConnectionID sid \<longrightarrow> B x = None)"
    unfolding nil_iff_map_of using assms by (auto simp: conn_entry_def fun_eq_iff)
  ultimately show ?thesis using assms by (auto simp: conn_entry_def fun_eq_iff)
qed

lemma conn_entry_update:
  assumes "conn_entry B (ConnectionID sid) e"
  shows "conn_entry (B(sid \<mapsto> s)) (ConnectionID sid) (Some (AList.update sid s (case e of None \<Rightarrow> [] | Some m \<Rightarrow> m)))"
proof (cases e)
  case None
  then show ?thesis using assms by (auto simp: conn_entry_def fun_eq_iff)
next
  case (Some m)
  have "AList.update sid s m \<noteq> []" by (simp add: nil_iff_map_of fun_eq_iff) blast
  moreover have "distinct (map fst (AList.update sid s m))" using assms Some by (auto simp: conn_entry_def intro: distinct_update)
  ultimately show ?thesis using assms Some by (auto simp: conn_entry_def fun_eq_iff)
qed

lemma conn_ok_entry: "conn_ok r \<Longrightarrow> conn_entry (byID r) c (map_of (subscriptionsByConnection r) c)"
  by (simp add: conn_ok_def)

lemma conn_ok_unregister:
  assumes "conn_ok r"
  shows "conn_ok (unregisterSubscriptionLocked sid r)"
proof -
  have "conn_entry ((byID r)(sid := None)) d
      (map_of (subscriptionsByConnection (unregisterSubscriptionLocked sid r)) d)" for d
  proof (cases "d = ConnectionID sid")
    case True
    show ?thesis
    proof (cases "map_of (subscriptionsByConnection r) d")
      case None
      then show ?thesis
        using conn_ok_entry [OF assms, of d] True by (simp add: unregisterSubscriptionLocked_def conn_entry_def)
    next
      case (Some m)
      then have e: "map_of (subscriptionsByConnection (unregisterSubscriptionLocked sid r)) d =
          (if AList.delete sid m = [] then None else Some (AList.delete sid m))"
        using True by (simp add: unregisterSubscriptionLocked_def Let_def)
      have "conn_entry (byID r) (ConnectionID sid) (Some m)" using conn_ok_entry [OF assms, of d] True Some by simp
      then show ?thesis unfolding e using conn_entry_delete True by blast
    qed
  next
    case False
    then have "map_of (subscriptionsByConnection (unregisterSubscriptionLocked sid r)) d = map_of (subscriptionsByConnection r) d"
      by (auto simp: unregisterSubscriptionLocked_def Let_def split: option.splits)
    moreover have "conn_entry ((byID r)(sid := None)) d (map_of (subscriptionsByConnection r) d)"
      by (rule conn_entry_other [OF conn_ok_entry [OF assms]]) (use False in auto)
    ultimately show ?thesis by simp
  qed
  then show ?thesis by (simp add: conn_ok_def)
qed

lemma conn_ok_register:
  assumes "conn_ok r"
  shows "conn_ok (registerSubscriptionLocked t s r)"
proof -
  let ?sid = "sub_id (subs r ! s)"
  have "conn_entry ((byID r)(?sid \<mapsto> s)) d
      (map_of (subscriptionsByConnection (registerSubscriptionLocked t s r)) d)" for d
  proof (cases "d = ConnectionID ?sid")
    case True
    then show ?thesis
      using conn_entry_update [OF conn_ok_entry [OF assms]] by (simp add: registerSubscriptionLocked_def Let_def)
  next
    case False
    then have "map_of (subscriptionsByConnection (registerSubscriptionLocked t s r)) d = map_of (subscriptionsByConnection r) d"
      by (simp add: registerSubscriptionLocked_def Let_def)
    moreover have "conn_entry ((byID r)(?sid \<mapsto> s)) d (map_of (subscriptionsByConnection r) d)"
      by (rule conn_entry_other [OF conn_ok_entry [OF assms]]) (use False in auto)
    ultimately show ?thesis by simp
  qed
  then show ?thesis by (simp add: conn_ok_def)
qed

lemma conn_ok_cong:
  "conn_ok r \<Longrightarrow> subscriptionsByConnection r' = subscriptionsByConnection r \<Longrightarrow> subscriptionsByID r' = subscriptionsByID r \<Longrightarrow> conn_ok r'"
  by (simp add: conn_ok_def)

section \<open>Dropping one subscription\<close>

definition drop_sub :: "SubscriptionIdentifier \<Rightarrow> nat \<Rightarrow> nat \<Rightarrow> Resolver \<Rightarrow> Resolver" where
  "drop_sub sid s t r =
     unregisterSubscriptionLocked sid
       (upd_trig t (\<lambda>x. x\<lparr>trig_subs := AList.delete sid (trig_subs x)\<rparr>) (upd_sub s (\<lambda>x. x\<lparr>sub_removed := True\<rparr>) r))"

lemma drop_sub_simps [simp]:
  "shutdown (drop_sub sid s t r) = shutdown r" "triggers (drop_sub sid s t r) = triggers r"
  "subs (drop_sub sid s t r) = (subs r)[s := (subs r ! s)\<lparr>sub_removed := True\<rparr>]"
  "trigs (drop_sub sid s t r) = (trigs r)[t := (trigs r ! t)\<lparr>trig_subs := AList.delete sid (trig_subs (trigs r ! t))\<rparr>]"
  "subscriptionCount (drop_sub sid s t r) = subscriptionCount r" "triggerCount (drop_sub sid s t r) = triggerCount r"
  "subscriptionsByID (drop_sub sid s t r) = AList.delete sid (subscriptionsByID r)"
  by (simp_all add: drop_sub_def)

lemma core_trigger_unique:
  "reg_core E r \<Longrightarrow> trigger_of r k = Some t \<Longrightarrow> trigger_of r k' = Some t \<Longrightarrow> k = k'"
  using core_trig trig_okD(2) by metis

lemma drop_sub_core:
  assumes core: "reg_core E r" and t: "trigger_of r k = Some t" and s: "subs_of r t sid = Some s"
  shows "reg_core (insert k E) (drop_sub sid s t r)" (is "reg_core _ ?r")
proof -
  have b: "byID r sid = Some s" and k: "sub_trigger (subs r ! s) = k" and tl: "t < length (trigs r)"
    using trig_okD [OF core_trig [OF core t]] s by blast+
  have sl: "s < length (subs r)" and si: "sub_id (subs r ! s) = sid" using sub_okD [OF core_sub [OF core b]] by blast+
  have "conn_ok ?r" unfolding drop_sub_def
    by (rule conn_ok_unregister [OF conn_ok_cong [OF core_conn [OF core]]]) simp_all
  moreover have "distinct (map fst (subscriptionsByID ?r))" using core_distinct [OF core] by (simp add: distinct_delete)
  moreover have "trig_ok (insert k E) ?r k' t'" if "trigger_of ?r k' = Some t'" for k' t'
  proof -
    have ok: "trig_ok E r k' t'" using core_trig [OF core] that by simp
    have tr: "sub_trigger (subs ?r ! x) = sub_trigger (subs r ! x)" for x
      by (cases "x = s") (use sl in auto)
    show ?thesis
    proof (cases "t' = t")
      case True
      then show ?thesis using trig_okD [OF ok] tl tr core_trigger_unique [OF core t, of k'] that
        by (auto simp: trig_ok_def intro: distinct_delete)
    next
      case False
      then have "k' \<noteq> k" using t that by auto
      then have "x \<noteq> sid" if "subs_of r t' x = Some y" for x y
        using trig_okD(5,6) [OF ok that] b k by auto
      then show ?thesis using trig_okD [OF ok] False tr \<open>k' \<noteq> k\<close> by (auto simp: trig_ok_def)
    qed
  qed
  moreover have "sub_ok ?r sid' s'" if "byID ?r sid' = Some s'" for sid' s'
  proof -
    have ne: "sid' \<noteq> sid" and ok: "sub_ok r sid' s'" using that core_sub [OF core] by (auto split: if_splits)
    then have "s' \<noteq> s" using sub_okD(2) [OF ok] si by auto
    then show ?thesis using sub_okD [OF ok] ne tl by (auto simp: sub_ok_def nth_list_update)
  qed
  moreover have "byID ?r (sub_id (subs ?r ! s')) = Some s'" if "s' < length (subs ?r)" "\<not> sub_removed (subs ?r ! s')" for s'
  proof -
    have "s' \<noteq> s" using that sl by auto
    then have "byID r (sub_id (subs r ! s')) = Some s'" using that core_live [OF core, of s'] by auto
    then show ?thesis using b \<open>s' \<noteq> s\<close> by auto
  qed
  ultimately show ?thesis unfolding reg_core_def by blast
qed

lemma core_forget:
  assumes core: "reg_core E r" and t: "trigger_of r k = Some t" and e: "trig_subs (trigs r ! t) = []"
  shows "reg_core (E - {k}) (r\<lparr>triggers := AList.delete k (triggers r)\<rparr>)" (is "reg_core _ ?r")
proof -
  have "trig_ok (E - {k}) ?r k' t'" if "trigger_of ?r k' = Some t'" for k' t'
    using core_trig [OF core, of k' t'] that by (auto simp: trig_ok_def split: if_splits)
  moreover have "sub_ok ?r sid s" if "byID ?r sid = Some s" for sid s
  proof -
    have ok: "sub_ok r sid s" using core_sub [OF core] that by simp
    obtain t' where t': "trigger_of r (sub_trigger (subs r ! s)) = Some t'" "subs_of r t' sid = Some s"
      using sub_okD(4) [OF ok] by blast
    then have "sub_trigger (subs r ! s) \<noteq> k" using t e by auto
    then show ?thesis using sub_okD [OF ok] t' by (auto simp: sub_ok_def)
  qed
  ultimately show ?thesis
    using core_conn [OF core] core_distinct [OF core] core_live [OF core]
    unfolding reg_core_def by (auto simp: conn_ok_def)
qed

lemma core_shrink:
  assumes "reg_core (insert k E) r" "\<And>t. trigger_of r k = Some t \<Longrightarrow> trig_subs (trigs r ! t) \<noteq> []"
  shows "reg_core E r"
proof -
  have "trig_ok E r k' t" if "trigger_of r k' = Some t" for k' t
    using core_trig [OF assms(1) that] assms(2) that by (auto simp: trig_ok_def)
  then show ?thesis using assms(1) by (simp add: reg_core_def)
qed

lemma core_mono: "reg_core E r \<Longrightarrow> E \<subseteq> E' \<Longrightarrow> reg_core E' r"
  by (auto simp: reg_core_def trig_ok_def)

section \<open>What a removal does\<close>

text \<open>Triggers that agree in all but their subscriptions.\<close>

lemma same_trigs:
  assumes "map (trig_subs_update (\<lambda>_. [])) ts' = map (trig_subs_update (\<lambda>_. [])) ts"
  shows "length ts' = length ts"
    and "t < length ts \<Longrightarrow> trig_id (ts' ! t) = trig_id (ts ! t)"
    and "t < length ts \<Longrightarrow> trig_cancelled (ts' ! t) = trig_cancelled (ts ! t)"
    and "t < length ts \<Longrightarrow> trig_initialized (ts' ! t) = trig_initialized (ts ! t)"
    and "t < length ts \<Longrightarrow> trig_started (ts' ! t) = trig_started (ts ! t)"
    and "t < length ts \<Longrightarrow> upd_locked (ts' ! t) = upd_locked (ts ! t)"
    and "t < length ts \<Longrightarrow> upd_done (ts' ! t) = upd_done (ts ! t)"
proof -
  show l: "length ts' = length ts" using map_eq_imp_length_eq [OF assms] .
  have e: "trig_subs_update (\<lambda>_. []) (ts' ! t) = trig_subs_update (\<lambda>_. []) (ts ! t)" if "t < length ts"
    using arg_cong [OF assms, of "\<lambda>xs. xs ! t"] that l by simp
  show "trig_id (ts' ! t) = trig_id (ts ! t)" "trig_cancelled (ts' ! t) = trig_cancelled (ts ! t)"
    "trig_initialized (ts' ! t) = trig_initialized (ts ! t)" "trig_started (ts' ! t) = trig_started (ts ! t)"
    "upd_locked (ts' ! t) = upd_locked (ts ! t)" "upd_done (ts' ! t) = upd_done (ts ! t)" if "t < length ts"
    using arg_cong [OF e [OF that], of trig_id] arg_cong [OF e [OF that], of trig_cancelled]
      arg_cong [OF e [OF that], of trig_initialized] arg_cong [OF e [OF that], of trig_started]
      arg_cong [OF e [OF that], of upd_locked] arg_cong [OF e [OF that], of upd_done] by simp_all
qed

text \<open>
  The critical section from \<open>r\<close> to \<open>r'\<close> removes the subscriptions that \<open>M\<close> selects by their
  identifier and their trigger: \<open>cl\<close> are the subscriptions to close, \<open>ct\<close> the triggers to cancel.
\<close>

definition removal :: "(SubscriptionIdentifier \<Rightarrow> 64 word \<Rightarrow> bool) \<Rightarrow> Resolver \<Rightarrow> nat list \<Rightarrow> nat list \<Rightarrow> Resolver \<Rightarrow> bool" where
  "removal M r cl ct r' \<longleftrightarrow>
     reg_core {} r' \<and>
     (\<forall>sid. byID r' sid = (case byID r sid of None \<Rightarrow> None | Some s \<Rightarrow> if M sid (sub_trigger (subs r ! s)) then None else Some s)) \<and>
     (\<forall>k. trigger_of r' k = (case trigger_of r k of None \<Rightarrow> None | Some t \<Rightarrow> if t \<in> set ct then None else Some t)) \<and>
     distinct cl \<and> distinct ct \<and> set ct \<subseteq> ran (trigger_of r) \<and>
     (\<forall>s. s \<in> set cl \<longleftrightarrow> (\<exists>sid. byID r sid = Some s \<and> M sid (sub_trigger (subs r ! s)))) \<and>
     subs r' = map (\<lambda>s. if s \<in> set cl then (subs r ! s)\<lparr>sub_removed := True\<rparr> else subs r ! s) [0..<length (subs r)] \<and>
     map (trig_subs_update (\<lambda>_. [])) (trigs r') = map (trig_subs_update (\<lambda>_. [])) (trigs r) \<and>
     shutdown r' = shutdown r \<and> subscriptionCount r' = subscriptionCount r \<and> triggerCount r' = triggerCount r \<and>
     length (subscriptionsByID r') + length cl = length (subscriptionsByID r)"

lemma removalD:
  assumes "removal M r cl ct r'"
  shows removal_core: "reg_core {} r'"
    and removal_byID: "byID r' sid = (case byID r sid of None \<Rightarrow> None | Some s \<Rightarrow> if M sid (sub_trigger (subs r ! s)) then None else Some s)"
    and removal_trigger: "trigger_of r' k = (case trigger_of r k of None \<Rightarrow> None | Some t \<Rightarrow> if t \<in> set ct then None else Some t)"
    and removal_distinct: "distinct cl" "distinct ct"
    and removal_cancels: "set ct \<subseteq> ran (trigger_of r)"
    and removal_closes: "s \<in> set cl \<longleftrightarrow> (\<exists>sid. byID r sid = Some s \<and> M sid (sub_trigger (subs r ! s)))"
    and removal_subs: "subs r' = map (\<lambda>s. if s \<in> set cl then (subs r ! s)\<lparr>sub_removed := True\<rparr> else subs r ! s) [0..<length (subs r)]"
    and removal_trigs: "map (trig_subs_update (\<lambda>_. [])) (trigs r') = map (trig_subs_update (\<lambda>_. [])) (trigs r)"
    and removal_other: "shutdown r' = shutdown r" "subscriptionCount r' = subscriptionCount r" "triggerCount r' = triggerCount r"
    and removal_length: "length (subscriptionsByID r') + length cl = length (subscriptionsByID r)"
  using assms unfolding removal_def by blast+

lemma removal_sub_trigger:
  "removal M r cl ct r' \<Longrightarrow> s < length (subs r) \<Longrightarrow> sub_trigger (subs r' ! s) = sub_trigger (subs r ! s)"
  by (simp add: removal_subs)

lemma removal_view:
  assumes "reg_core {} r" "removal M r cl ct r'"
  shows "reg_view r' sid = (case reg_view r sid of None \<Rightarrow> None | Some k \<Rightarrow> if M sid k then None else Some k)"
proof (cases "byID r sid")
  case None
  then show ?thesis using removal_byID [OF assms(2), of sid] by (simp add: reg_view_def)
next
  case (Some s)
  then show ?thesis
    using removal_byID [OF assms(2), of sid] removal_sub_trigger [OF assms(2)] sub_okD(1) [OF core_sub [OF assms(1) Some]]
    by (auto simp: reg_view_def)
qed

lemma removal_none:
  assumes "reg_core {} r" "\<And>sid s. byID r sid = Some s \<Longrightarrow> \<not> M sid (sub_trigger (subs r ! s))"
  shows "removal M r [] [] r"
  using assms by (auto simp: removal_def map_nth split: option.splits)

lemma removal_ext:
  assumes "removal M r cl ct r'" "\<And>sid s. byID r sid = Some s \<Longrightarrow> M sid (sub_trigger (subs r ! s)) = N sid (sub_trigger (subs r ! s))"
  shows "removal N r cl ct r'"
proof -
  have "byID r' sid = (case byID r sid of None \<Rightarrow> None | Some s \<Rightarrow> if N sid (sub_trigger (subs r ! s)) then None else Some s)" for sid
    using removal_byID [OF assms(1), of sid] assms(2) by (auto split: option.splits)
  moreover have "s \<in> set cl \<longleftrightarrow> (\<exists>sid. byID r sid = Some s \<and> N sid (sub_trigger (subs r ! s)))" for s
    using removal_closes [OF assms(1), of s] assms(2) by blast
  ultimately show ?thesis using assms(1) unfolding removal_def by blast
qed

lemma removal_then:
  assumes core: "reg_core {} r" and a: "removal M r cl ct r1" and b: "removal N r1 cl' ct' r2"
  shows "removal (\<lambda>sid k. M sid k \<or> N sid k) r (cl @ cl') (ct @ ct') r2"
proof -
  have sl: "s < length (subs r)" if "byID r sid = Some s" for sid s using sub_okD(1) [OF core_sub [OF core that]] .
  have tr: "sub_trigger (subs r1 ! s) = sub_trigger (subs r ! s)" if "byID r sid = Some s" for sid s
    using removal_sub_trigger [OF a sl [OF that]] .
  have by1: "byID r1 sid = Some s \<longleftrightarrow> byID r sid = Some s \<and> \<not> M sid (sub_trigger (subs r ! s))" for sid s
    using removal_byID [OF a, of sid] by (auto split: option.splits if_splits)
  have cl': "s \<in> set cl' \<longleftrightarrow> (\<exists>sid. byID r sid = Some s \<and> \<not> M sid (sub_trigger (subs r ! s)) \<and> N sid (sub_trigger (subs r ! s)))" for s
    unfolding removal_closes [OF b] by1 using tr by metis
  have inj: "sid = sid'" if "byID r sid = Some s" "byID r sid' = Some s" for sid sid' s
    using sub_okD(2) [OF core_sub [OF core that(1)]] sub_okD(2) [OF core_sub [OF core that(2)]] by simp
  have "byID r2 sid = (case byID r sid of None \<Rightarrow> None | Some s \<Rightarrow>
      if M sid (sub_trigger (subs r ! s)) \<or> N sid (sub_trigger (subs r ! s)) then None else Some s)" for sid
    using removal_byID [OF a, of sid] removal_byID [OF b, of sid] tr [of sid] by (auto split: option.splits)
  moreover have "trigger_of r2 k = (case trigger_of r k of None \<Rightarrow> None | Some t \<Rightarrow> if t \<in> set (ct @ ct') then None else Some t)" for k
    using removal_trigger [OF a, of k] removal_trigger [OF b, of k] by (auto split: option.splits)
  moreover have "set cl \<inter> set cl' = {}" using cl' removal_closes [OF a] inj by blast
  moreover have "set ct' \<subseteq> ran (trigger_of r) - set ct"
    using removal_cancels [OF b] removal_trigger [OF a] by (fastforce simp: ran_def split: option.splits if_splits)
  moreover have "s \<in> set (cl @ cl') \<longleftrightarrow>
      (\<exists>sid. byID r sid = Some s \<and> (M sid (sub_trigger (subs r ! s)) \<or> N sid (sub_trigger (subs r ! s))))" for s
    using cl' removal_closes [OF a] by (simp only: set_append Un_iff) blast
  moreover have "subs r2 = map (\<lambda>s. if s \<in> set (cl @ cl') then (subs r ! s)\<lparr>sub_removed := True\<rparr> else subs r ! s) [0..<length (subs r)]"
    unfolding removal_subs [OF b] unfolding removal_subs [OF a] by auto
  ultimately show ?thesis
    using removal_core [OF b] removal_distinct [OF a] removal_distinct [OF b] removal_cancels [OF a] removal_trigs [OF a]
      removal_trigs [OF b] removal_other [OF a] removal_other [OF b] removal_length [OF a] removal_length [OF b]
    unfolding removal_def by auto
qed

section \<open>The operations that remove\<close>

lemma removal_drop:
  assumes core: "reg_core {} r" and t: "trigger_of r k = Some t" and s: "subs_of r t sid = Some s"
  shows "trig_subs (trigs (drop_sub sid s t r) ! t) \<noteq> [] \<Longrightarrow>
      removal (\<lambda>x _. x = sid) r [s] [] (drop_sub sid s t r)"
    and "trig_subs (trigs (drop_sub sid s t r) ! t) = [] \<Longrightarrow>
      removal (\<lambda>x _. x = sid) r [s] [t] ((drop_sub sid s t r)\<lparr>triggers := AList.delete k (triggers (drop_sub sid s t r))\<rparr>)"
proof -
  let ?d = "drop_sub sid s t r"
  have b: "byID r sid = Some s" and tl: "t < length (trigs r)" using trig_okD [OF core_trig [OF core t]] s by blast+
  have sl: "s < length (subs r)" using sub_okD(1) [OF core_sub [OF core b]] .
  have c: "reg_core {k} ?d" using drop_sub_core [OF core t s] by simp
  have len: "length (subscriptionsByID ?d) + 1 = length (subscriptionsByID r)"
    using core_distinct [OF core] b by (simp add: length_delete_distinct)
  have subs: "subs ?d = map (\<lambda>x. if x \<in> set [s] then (subs r ! x)\<lparr>sub_removed := True\<rparr> else subs r ! x) [0..<length (subs r)]"
    by (rule nth_equalityI) (use sl in \<open>auto simp: nth_list_update\<close>)
  have trigs: "map (trig_subs_update (\<lambda>_. [])) (trigs ?d) = map (trig_subs_update (\<lambda>_. [])) (trigs r)"
    by (rule nth_equalityI) (use tl in \<open>auto simp: nth_list_update\<close>)
  have bid: "byID ?d x = (case byID r x of None \<Rightarrow> None | Some y \<Rightarrow> if x = sid then None else Some y)" for x
    by (cases "byID r x") auto
  have cl: "x \<in> set [s] \<longleftrightarrow> (\<exists>y. byID r y = Some x \<and> y = sid)" for x using b by auto
  show "removal (\<lambda>x _. x = sid) r [s] [] ?d" if "trig_subs (trigs ?d ! t) \<noteq> []"
  proof -
    have "reg_core {} ?d" by (rule core_shrink [OF c]) (use that t in auto)
    moreover have "trigger_of ?d x = (case trigger_of r x of None \<Rightarrow> None | Some y \<Rightarrow> if y \<in> set [] then None else Some y)" for x
      by (cases "trigger_of r x") simp_all
    ultimately show ?thesis using bid cl len subs trigs unfolding removal_def by (intro conjI allI; (assumption | simp))
  qed
  show "removal (\<lambda>x _. x = sid) r [s] [t] (?d\<lparr>triggers := AList.delete k (triggers ?d)\<rparr>)" if e: "trig_subs (trigs ?d ! t) = []"
  proof -
    have "trigger_of ?d k = Some t" using t by simp
    from core_forget [OF c this e] have "reg_core {} (?d\<lparr>triggers := AList.delete k (triggers ?d)\<rparr>)" by simp
    moreover have "trigger_of (?d\<lparr>triggers := AList.delete k (triggers ?d)\<rparr>) x =
        (case trigger_of r x of None \<Rightarrow> None | Some y \<Rightarrow> if y \<in> set [t] then None else Some y)" for x
      using t core_trigger_unique [OF core t, of x] by (cases "trigger_of r x") auto
    moreover have "set [t] \<subseteq> ran (trigger_of r)" using t by (auto simp: ran_def)
    ultimately show ?thesis using bid cl len subs trigs unfolding removal_def by (intro conjI allI; (assumption | simp))
  qed
qed

text \<open>The result of a removal that starts in a consistent registry.\<close>

definition cancels_of :: "removeResult \<Rightarrow> nat list" where
  "cancels_of res = (case res_cancel res of None \<Rightarrow> [] | Some t \<Rightarrow> [t])"

definition removes :: "(SubscriptionIdentifier \<Rightarrow> 64 word \<Rightarrow> bool) \<Rightarrow> Resolver \<Rightarrow> removeResult \<times> Resolver \<Rightarrow> bool" where
  "removes M r x \<longleftrightarrow>
     removal M r (res_toClose (fst x)) (cancels_of (fst x)) (snd x) \<and> res_removed (fst x) = length (res_toClose (fst x)) \<and>
     (\<forall>t. res_cancel (fst x) = Some t \<longrightarrow> res_initialized (fst x) = trig_initialized (trigs r ! t))"

lemma removes_none: "removal M r [] [] r' \<Longrightarrow> removes M r (nothing_removed, r')"
  by (simp add: removes_def nothing_removed_def cancels_of_def)

lemma removes_sub:
  assumes core: "reg_core {} r"
  shows "removes (\<lambda>x _. x = sid) r (removeSubscriptionLocked sid r)"
proof (cases "byID r sid")
  case None
  then have "removal (\<lambda>x _. x = sid) r [] [] r" by (intro removal_none [OF core]) auto
  then show ?thesis using None by (simp add: removeSubscriptionLocked_def removes_none)
next
  case (Some s)
  let ?k = "sub_trigger (subs r ! s)"
  obtain t where t: "trigger_of r ?k = Some t" "subs_of r t sid = Some s"
    using sub_okD(4) [OF core_sub [OF core Some]] by blast
  have nr: "\<not> sub_removed (subs r ! s)" using sub_okD(3) [OF core_sub [OF core Some]] .
  have tl: "t < length (trigs r)" "trig_id (trigs r ! t) = ?k" using trig_okD(1,2) [OF core_trig [OF core t(1)]] by blast+
  let ?d = "drop_sub sid s t r"
  have e: "unregisterSubscriptionLocked sid (upd_trig t (\<lambda>x. x\<lparr>trig_subs := AList.delete sid (trig_subs x)\<rparr>) (upd_sub s (\<lambda>x. x\<lparr>sub_removed := True\<rparr>) r)) = ?d"
    by (simp add: drop_sub_def)
  show ?thesis using removal_drop [OF core t] tl
    by (auto simp: removeSubscriptionLocked_def Some t nr mark_removed_def Let_def e removes_def cancels_of_def)
qed

lemma detach_subs_removal:
  assumes "reg_core {k} r" "trigger_of r k = Some t" "trig_subs (trigs r ! t) = al" "detach_subs t al r = (cl, r')"
  shows "cl = map snd al \<and> reg_core {k} r' \<and> triggers r' = triggers r \<and> trig_subs (trigs r' ! t) = [] \<and>
    byID r' = (\<lambda>sid. if sid \<in> fst ` set al then None else byID r sid) \<and>
    subs r' = map (\<lambda>s. if s \<in> set cl then (subs r ! s)\<lparr>sub_removed := True\<rparr> else subs r ! s) [0..<length (subs r)] \<and>
    map (trig_subs_update (\<lambda>_. [])) (trigs r') = map (trig_subs_update (\<lambda>_. [])) (trigs r) \<and>
    shutdown r' = shutdown r \<and> subscriptionCount r' = subscriptionCount r \<and> triggerCount r' = triggerCount r \<and>
    length (subscriptionsByID r') + length cl = length (subscriptionsByID r)"
  using assms
proof (induction al arbitrary: r cl)
  case Nil
  then show ?case by (auto simp: map_nth)
next
  case (Cons a al)
  obtain sid s where a: "a = (sid, s)" by fastforce
  have s: "subs_of r t sid = Some s" using Cons.prems(3) a by simp
  have ok: "trig_ok {k} r k t" using core_trig [OF Cons.prems(1,2)] .
  have b: "byID r sid = Some s" and tl: "t < length (trigs r)" using trig_okD [OF ok] s by blast+
  have nr: "\<not> sub_removed (subs r ! s)" and sl: "s < length (subs r)" using sub_okD [OF core_sub [OF Cons.prems(1) b]] by blast+
  let ?d = "drop_sub sid s t r"
  have rest: "sid \<notin> fst ` set al" using trig_okD(3) [OF ok] Cons.prems(3) a by simp
  obtain cs where d: "detach_subs t al ?d = (cs, r')" "cl = s # cs"
    using Cons.prems(4) nr by (auto simp: a mark_removed_def drop_sub_def split: prod.splits)
  have "reg_core {k} ?d" using drop_sub_core [OF Cons.prems(1,2) s] by simp
  moreover have "trig_subs (trigs ?d ! t) = al" using Cons.prems(3) a tl rest by simp
  ultimately have ih: "cs = map snd al" "reg_core {k} r'" "triggers r' = triggers ?d" "trig_subs (trigs r' ! t) = []"
      "byID r' = (\<lambda>sid. if sid \<in> fst ` set al then None else byID ?d sid)"
      "subs r' = map (\<lambda>s. if s \<in> set cs then (subs ?d ! s)\<lparr>sub_removed := True\<rparr> else subs ?d ! s) [0..<length (subs ?d)]"
      "map (trig_subs_update (\<lambda>_. [])) (trigs r') = map (trig_subs_update (\<lambda>_. [])) (trigs ?d)"
      "shutdown r' = shutdown ?d" "subscriptionCount r' = subscriptionCount ?d" "triggerCount r' = triggerCount ?d"
      "length (subscriptionsByID r') + length cs = length (subscriptionsByID ?d)"
    using Cons.IH [of ?d cs] Cons.prems(2) d(1) by auto
  have "subs r' = map (\<lambda>x. if x \<in> set cl then (subs r ! x)\<lparr>sub_removed := True\<rparr> else subs r ! x) [0..<length (subs r)]"
    unfolding ih(6) d(2) using sl by (auto simp: nth_list_update)
  moreover have "map (trig_subs_update (\<lambda>_. [])) (trigs ?d) = map (trig_subs_update (\<lambda>_. [])) (trigs r)"
    by (rule nth_equalityI) (use tl in \<open>auto simp: nth_list_update\<close>)
  moreover have "length (subscriptionsByID r') + length cl = length (subscriptionsByID r)"
    using ih(11) d(2) length_delete_distinct [OF core_distinct [OF Cons.prems(1)] b] by simp
  ultimately show ?case using ih d(2) a rest by (auto simp: fun_eq_iff)
qed

lemma removes_trigger:
  assumes core: "reg_core {} r"
  shows "removes (\<lambda>_ k. k = tid) r (detachTriggerLocked tid r)"
proof (cases "trigger_of r tid")
  case None
  have "sub_trigger (subs r ! s) \<noteq> tid" if "byID r sid = Some s" for sid s
    using sub_okD(4) [OF core_sub [OF core that]] None by auto
  then have "removal (\<lambda>_ k. k = tid) r [] [] r" by (intro removal_none [OF core]) auto
  then show ?thesis using None by (simp add: detachTriggerLocked_def removes_none)
next
  case (Some t)
  let ?al = "trig_subs (trigs r ! t)"
  obtain cl r1 where d: "detach_subs t ?al r = (cl, r1)" by fastforce
  let ?r = "r1\<lparr>triggers := AList.delete tid (triggers r1)\<rparr>"
  have ok: "trig_ok {} r tid t" using core_trig [OF core Some] .
  note f = detach_subs_removal [OF core_mono [OF core] Some refl d, simplified]
  have core': "reg_core {} ?r" using core_forget [of "{tid}" r1 tid t] f Some by auto
  have iff: "(sid, s) \<in> set ?al \<longleftrightarrow> byID r sid = Some s \<and> sub_trigger (subs r ! s) = tid" for sid s
  proof -
    have "(sid, s) \<in> set ?al \<longleftrightarrow> subs_of r t sid = Some s" using trig_okD(3) [OF ok] by simp
    moreover have "subs_of r t sid = Some s" if b: "byID r sid = Some s" "sub_trigger (subs r ! s) = tid"
      using sub_okD(4) [OF core_sub [OF core b(1)]] b(2) Some by simp
    ultimately show ?thesis using trig_okD(5,6) [OF ok, of sid s] by blast
  qed
  have bid: "byID ?r sid = (case byID r sid of None \<Rightarrow> None | Some s \<Rightarrow> if sub_trigger (subs r ! s) = tid then None else Some s)" for sid
  proof -
    have "sid \<in> fst ` set ?al \<longleftrightarrow> (\<exists>s. byID r sid = Some s \<and> sub_trigger (subs r ! s) = tid)"
      unfolding iff [symmetric] by force
    then show ?thesis using f by (cases "byID r sid") auto
  qed
  have tr: "trigger_of ?r x = (case trigger_of r x of None \<Rightarrow> None | Some y \<Rightarrow> if y \<in> set [t] then None else Some y)" for x
    using f Some core_trigger_unique [OF core Some, of x] by (cases "trigger_of r x") auto
  have cl: "s \<in> set cl \<longleftrightarrow> (\<exists>sid. byID r sid = Some s \<and> sub_trigger (subs r ! s) = tid)" for s
  proof -
    have "s \<in> set cl \<longleftrightarrow> (\<exists>sid. (sid, s) \<in> set ?al)" using f by force
    then show ?thesis unfolding iff .
  qed
  have "inj_on snd (set ?al)"
  proof (rule inj_onI, clarify)
    fix x s x' s'
    assume m: "(x, s) \<in> set ?al" "(x', s') \<in> set ?al" "snd (x, s) = snd (x', s')"
    then have b: "byID r x = Some s" "byID r x' = Some s'" using iff by blast+
    show "x = x' \<and> s = s'"
      using sub_okD(2) [OF core_sub [OF core b(1)]] sub_okD(2) [OF core_sub [OF core b(2)]] m(3) by simp
  qed
  moreover have "distinct ?al" using trig_okD(3) [OF ok] by (simp add: distinct_map)
  ultimately have dist: "distinct cl" using f by (simp add: distinct_map)
  have "set [t] \<subseteq> ran (trigger_of r)" using Some by (auto simp: ran_def)
  then have "removal (\<lambda>_ k. k = tid) r cl [t] ?r"
    unfolding removal_def using core' bid tr cl dist f by (intro conjI allI; (elim conjE)?; (assumption | simp))
  moreover have "trig_initialized (trigs r1 ! t) = trig_initialized (trigs r ! t)"
    using same_trigs(4) [of "trigs r1" "trigs r" t] f trig_okD(1) [OF ok] by blast
  ultimately show ?thesis using f by (simp add: detachTriggerLocked_def Some d removes_def cancels_of_def)
qed

section \<open>Removing many\<close>

text \<open>
  The contract of an operation that removes the subscriptions selected by a key. Both loops that
  collect the results of such an operation are instances.
\<close>

locale remover =
  fixes f :: "'k \<Rightarrow> Resolver \<Rightarrow> removeResult \<times> Resolver"
    and M :: "'k \<Rightarrow> SubscriptionIdentifier \<Rightarrow> 64 word \<Rightarrow> bool"
  assumes removes_one: "reg_core {} r \<Longrightarrow> removes (M k) r (f k r)"
begin

lemma removes_all:
  assumes "reg_core {} r" "collect_removed f ks r = ((n, cl, ct, dec), r')"
  shows "removal (\<lambda>sid tid. \<exists>k \<in> set ks. M k sid tid) r cl ct r' \<and> n = length cl \<and>
    dec = length (filter (\<lambda>t. trig_initialized (trigs r ! t)) ct)"
  using assms
proof (induction ks arbitrary: r n cl ct dec)
  case Nil
  then show ?case using removal_none [OF Nil.prems(1), of "\<lambda>_ _. False"] by simp
next
  case (Cons k ks)
  obtain res q where one: "f k r = (res, q)" by fastforce
  obtain m cl' ct' dec' where rest: "collect_removed f ks q = ((m, cl', ct', dec'), r')"
    using Cons.prems(2) one by (auto split: prod.splits)
  have f: "removal (M k) r (res_toClose res) (cancels_of res) q" "res_removed res = length (res_toClose res)"
      "\<And>t. res_cancel res = Some t \<Longrightarrow> res_initialized res = trig_initialized (trigs r ! t)"
    using removes_one [OF Cons.prems(1), of k] one by (auto simp: removes_def)
  have ih: "removal (\<lambda>sid tid. \<exists>k \<in> set ks. M k sid tid) q cl' ct' r'" "m = length cl'"
      "dec' = length (filter (\<lambda>t. trig_initialized (trigs q ! t)) ct')"
    using Cons.IH [OF removal_core [OF f(1)] rest] by blast+
  have "trig_initialized (trigs q ! t) = trig_initialized (trigs r ! t)" if m: "t \<in> set ct'" for t
  proof -
    obtain x where "trigger_of q x = Some t" using removal_cancels [OF ih(1)] m by (auto simp: ran_def)
    then have "t < length (trigs q)" using trig_okD(1) [OF core_trig [OF removal_core [OF f(1)]]] by blast
    then show ?thesis using same_trigs(1,4) [OF removal_trigs [OF f(1)]] by simp
  qed
  then have dec: "dec' = length (filter (\<lambda>t. trig_initialized (trigs r ! t)) ct')"
    unfolding ih(3) by (intro arg_cong [where f = length] filter_cong) auto
  show ?case using removal_then [OF Cons.prems(1) f(1) ih(1)] Cons.prems(2) one rest f(2,3) ih(2) dec
    by (auto simp: cancels_of_def split: option.splits)
qed

end

interpretation by_id: remover removeSubscriptionLocked "\<lambda>k sid _. sid = k"
  by unfold_locales (rule removes_sub)

interpretation by_trigger: remover detachTriggerLocked "\<lambda>k _ tid. tid = k"
  by unfold_locales (rule removes_trigger)

section \<open>The critical sections\<close>

text \<open>The whole critical section, with the counts it reports.\<close>

definition retires :: "(SubscriptionIdentifier \<Rightarrow> 64 word \<Rightarrow> bool) \<Rightarrow> Resolver \<Rightarrow> nat list \<Rightarrow> nat list \<Rightarrow> Resolver \<Rightarrow> bool" where
  "retires M r cl ct r' \<longleftrightarrow>
     triggers_ok r' \<and>
     removal M r cl ct (r'\<lparr>shutdown := shutdown r, subscriptionCount := subscriptionCount r, triggerCount := triggerCount r\<rparr>) \<and>
     triggerCount r' = triggerCount r - int (length (filter (\<lambda>t. trig_initialized (trigs r ! t)) ct))"

lemma retires_view:
  assumes "triggers_ok r" "retires M r cl ct r'"
  shows "reg_view r' sid = (case reg_view r sid of None \<Rightarrow> None | Some k \<Rightarrow> if M sid k then None else Some k)"
  using removal_view [of r M cl ct _ sid] assms by (fastforce simp: retires_def triggers_ok_def reg_view_def)

lemma core_fields:
  "reg_core E (r\<lparr>shutdown := b, subscriptionCount := n, triggerCount := m\<rparr>) = reg_core E r"
  by (simp add: reg_core_def conn_ok_def trig_ok_def sub_ok_def)

lemma core_counts [simp]: "reg_core E (r\<lparr>subscriptionCount := n, triggerCount := m\<rparr>) = reg_core E r"
  by (simp add: reg_core_def conn_ok_def trig_ok_def sub_ok_def)

lemma core_shutdown [simp]: "reg_core E (r\<lparr>shutdown := b\<rparr>) = reg_core E r"
  by (simp add: reg_core_def conn_ok_def trig_ok_def sub_ok_def)

lemma triggers_okD:
  assumes "triggers_ok r"
  shows ok_core: "reg_core {} r"
    and ok_count: "subscriptionCount r = int (length (subscriptionsByID r))"
    and ok_shutdown: "shutdown r \<Longrightarrow> triggers r = [] \<and> subscriptionsByID r = [] \<and> subscriptionsByConnection r = []"
  using assms unfolding triggers_ok_def by blast+

text \<open>A removal while the resolver runs, with the counts adjusted, is a retirement.\<close>

lemma retiresI:
  assumes ok: "triggers_ok r" and run: "\<not> shutdown r" and q: "removal M r cl ct q" and n: "n = length cl"
    and m: "m = length (filter (\<lambda>t. trig_initialized (trigs r ! t)) ct)"
  shows "retires M r cl ct (q\<lparr>subscriptionCount := subscriptionCount q - int n, triggerCount := triggerCount q - int m\<rparr>)"
proof -
  let ?r = "q\<lparr>subscriptionCount := subscriptionCount q - int n, triggerCount := triggerCount q - int m\<rparr>"
  have e: "?r\<lparr>shutdown := shutdown r, subscriptionCount := subscriptionCount r, triggerCount := triggerCount r\<rparr> = q"
    using removal_other [OF q] by simp
  have "triggers_ok ?r"
    using n removal_core [OF q] removal_other [OF q] removal_length [OF q] ok_count [OF ok] run by (simp add: triggers_ok_def)
  then show ?thesis using q m removal_other [OF q] unfolding retires_def e by simp
qed

lemma retires_nothing:
  assumes ok: "triggers_ok r" and "shutdown r"
  shows "retires M r [] [] r"
proof -
  have "byID r sid = None" for sid using ok_shutdown [OF assms] by simp
  then have "removal M r [] [] r" using removal_none [OF ok_core [OF ok], of M] by simp
  then show ?thesis using ok by (simp add: retires_def)
qed

lemma UnsubscribeSubscription_retires:
  assumes ok: "triggers_ok r"
  shows "case UnsubscribeSubscription sid r of (res, r') \<Rightarrow>
    retires (\<lambda>x _. x = sid) r (res_toClose res) (cancels_of res) r'"
proof (cases "shutdown r")
  case True
  then show ?thesis using retires_nothing [OF ok] by (simp add: UnsubscribeSubscription_def nothing_removed_def cancels_of_def)
next
  case False
  obtain res q where x: "removeSubscriptionLocked sid r = (res, q)" by fastforce
  have "removes (\<lambda>x _. x = sid) r (res, q)" using by_id.removes_one [OF ok_core [OF ok]] x by metis
  then show ?thesis
    using retiresI [OF ok False, of _ "res_toClose res" "cancels_of res" q "res_removed res"]
    by (auto simp: UnsubscribeSubscription_def False x report_removed_def removes_def cancels_of_def split: option.splits)
qed

lemma doneTriggerFromUpdater_retires:
  assumes ok: "triggers_ok r"
  shows "case doneTriggerFromUpdater tid r of (res, r') \<Rightarrow>
    retires (\<lambda>_ k. k = tid) r (res_toClose res) (cancels_of res) r'"
proof (cases "shutdown r")
  case True
  then have "triggers r = []" using ok_shutdown [OF ok] by blast
  then show ?thesis using retires_nothing [OF ok True]
    by (simp add: doneTriggerFromUpdater_def detachTriggerLocked_def report_removed_def nothing_removed_def cancels_of_def)
next
  case False
  obtain res q where x: "detachTriggerLocked tid r = (res, q)" by fastforce
  have "removes (\<lambda>_ k. k = tid) r (res, q)" using by_trigger.removes_one [OF ok_core [OF ok]] x by metis
  then show ?thesis
    using retiresI [OF ok False, of _ "res_toClose res" "cancels_of res" q "res_removed res"]
    by (auto simp: doneTriggerFromUpdater_def x report_removed_def removes_def cancels_of_def split: option.splits)
qed

lemma removeClient_retires:
  assumes ok: "triggers_ok r"
  shows "case removeClient c r of ((cl, ct), r') \<Rightarrow> retires (\<lambda>sid _. ConnectionID sid = c) r cl ct r'"
proof (cases "shutdown r")
  case True
  then show ?thesis using retires_nothing [OF ok] by (simp add: removeClient_def)
next
  case False
  let ?e = "map_of (subscriptionsByConnection r) c"
  let ?ids = "case ?e of None \<Rightarrow> [] | Some m \<Rightarrow> map fst m"
  obtain n cl ct dec q where x: "collect_removed removeSubscriptionLocked ?ids r = ((n, cl, ct, dec), q)"
    by (metis prod.exhaust_sel)
  have e: "sid \<in> set ?ids \<longleftrightarrow> ConnectionID sid = c \<and> byID r sid \<noteq> None" for sid
    using conn_ok_entry [OF core_conn [OF ok_core [OF ok]], of c]
    by (cases ?e) (auto simp: conn_entry_def dom_map_of_conv_image_fst [symmetric] dom_def split: if_splits)
  have "removal (\<lambda>sid _. ConnectionID sid = c) r cl ct q"
    by (rule removal_ext [OF conjunct1 [OF by_id.removes_all [OF ok_core [OF ok] x]]]) (use e in auto)
  then show ?thesis
    using retiresI [OF ok False] by_id.removes_all [OF ok_core [OF ok] x] by (simp add: removeClient_def False x)
qed

lemma removal_shutdown:
  "removal M (r\<lparr>shutdown := b\<rparr>) cl ct q \<Longrightarrow> removal M r cl ct (q\<lparr>shutdown := shutdown r\<rparr>)"
  unfolding removal_def by (elim conjE, intro conjI) (simp_all cong: option.case_cong if_cong)

lemma core_all_gone:
  assumes core: "reg_core {} q" and none: "\<And>sid. byID q sid = None"
  shows "triggers q = []" "subscriptionsByID q = []" "subscriptionsByConnection q = []"
proof -
  show "subscriptionsByID q = []" using none by (simp add: nil_iff_map_of fun_eq_iff)
  have "trigger_of q k = None" for k
  proof (rule ccontr)
    assume "trigger_of q k \<noteq> None"
    then obtain t where "trigger_of q k = Some t" by blast
    note ok = core_trig [OF core this]
    have "subs_of q t \<noteq> Map.empty" using trig_okD(4) [OF ok] by (simp flip: nil_iff_map_of)
    then obtain sid s where "subs_of q t sid = Some s" by (auto simp: fun_eq_iff)
    then show False using trig_okD(5) [OF ok] none by simp
  qed
  then show "triggers q = []" by (simp add: nil_iff_map_of fun_eq_iff)
  have "map_of (subscriptionsByConnection q) c = None" for c
  proof (cases "map_of (subscriptionsByConnection q) c")
    case (Some m)
    then have "m \<noteq> []" "map_of m = Map.empty"
      using conn_ok_entry [OF core_conn [OF core], of c] none by (auto simp: conn_entry_def)
    then show ?thesis by simp
  qed
  then show "subscriptionsByConnection q = []" by (simp add: nil_iff_map_of fun_eq_iff)
qed

lemma shutdownResolver_retires:
  assumes ok: "triggers_ok r"
  shows "case shutdownResolver r of ((cl, ct), r') \<Rightarrow> retires (\<lambda>_ _. True) r cl ct r' \<and> shutdown r'"
proof (cases "shutdown r")
  case True
  then show ?thesis using retires_nothing [OF ok] by (simp add: shutdownResolver_def)
next
  case False
  let ?r = "r\<lparr>shutdown := True\<rparr>" and ?ks = "map fst (triggers r)"
  have core: "reg_core {} ?r" using ok_core [OF ok] by (simp add: reg_core_def conn_ok_def trig_ok_def sub_ok_def)
  obtain n cl ct dec q where x: "collect_removed detachTriggerLocked ?ks ?r = ((n, cl, ct, dec), q)"
    by (metis prod.exhaust_sel)
  have all: "sub_trigger (subs r ! s) \<in> set ?ks" if "byID r sid = Some s" for sid s
    using sub_okD(4) [OF core_sub [OF ok_core [OF ok] that]] map_of_SomeD by force
  have rm: "removal (\<lambda>_ _. True) ?r cl ct q"
    by (rule removal_ext [OF conjunct1 [OF by_trigger.removes_all [OF core x]]]) (use all in auto)
  have "byID q sid = None" for sid using removal_byID [OF rm, of sid] by (simp split: option.splits)
  note gone = core_all_gone [OF removal_core [OF rm] this]
  let ?q = "q\<lparr>subscriptionCount := subscriptionCount q - int n, triggerCount := triggerCount q - int dec,
      triggers := [], subscriptionsByID := [], subscriptionsByConnection := []\<rparr>"
  have n: "n = length cl" "dec = length (filter (\<lambda>t. trig_initialized (trigs r ! t)) ct)"
    using by_trigger.removes_all [OF core x] by simp_all
  have e: "?q\<lparr>shutdown := shutdown r, subscriptionCount := subscriptionCount r, triggerCount := triggerCount r\<rparr> = q\<lparr>shutdown := shutdown r\<rparr>"
    using gone removal_other [OF rm] by simp
  have "reg_core {} ?q" using removal_core [OF rm] gone by (simp add: reg_core_def conn_ok_def trig_ok_def sub_ok_def)
  moreover have "subscriptionCount ?q = 0"
    using n removal_other [OF rm] removal_length [OF rm] ok_count [OF ok] gone by simp
  ultimately have "triggers_ok ?q" by (simp add: triggers_ok_def)
  moreover have "removal (\<lambda>_ _. True) r cl ct (q\<lparr>shutdown := shutdown r\<rparr>)" by (rule removal_shutdown [OF rm])
  ultimately have "retires (\<lambda>_ _. True) r cl ct ?q"
    unfolding retires_def e using n removal_other [OF rm] by simp
  then show ?thesis using False x removal_other [OF rm] by (simp add: shutdownResolver_def)
qed

section \<open>Adding\<close>

lemma core_new_trigger:
  assumes core: "reg_core {} r" and new: "trigger_of r tid = None"
  shows "reg_core {tid} (r\<lparr>trigs := trigs r @ [new_trigger tid], triggers := AList.update tid (length (trigs r)) (triggers r)\<rparr>)" (is "reg_core _ ?r")
proof -
  have "trig_ok {tid} ?r k t" if "trigger_of ?r k = Some t" for k t
    using core_trig [OF core, of k t] that
    by (auto simp: trig_ok_def nth_append new_trigger_def split: if_splits)
  moreover have "sub_ok ?r sid s" if "byID ?r sid = Some s" for sid s
  proof -
    have ok: "sub_ok r sid s" using core_sub [OF core] that by simp
    then obtain t where t: "trigger_of r (sub_trigger (subs r ! s)) = Some t" "subs_of r t sid = Some s"
      using sub_okD(4) by blast
    then show ?thesis using sub_okD [OF ok] new trig_okD(1) [OF core_trig [OF core t(1)]]
      by (auto simp: sub_ok_def nth_append)
  qed
  ultimately show ?thesis
    using core_conn [OF core] core_distinct [OF core] core_live [OF core]
    unfolding reg_core_def by (auto simp: conn_ok_def)
qed

lemma core_register:
  assumes core: "reg_core {tid} r" and t: "trigger_of r tid = Some t" and fresh: "byID r sid = None"
  shows "reg_core {} (registerSubscriptionLocked t (length (subs r)) (r\<lparr>subs := subs r @ [new_subscription tid sid hb]\<rparr>))"
    (is "reg_core _ ?r")
proof -
  let ?n = "length (subs r)"
  have tl: "t < length (trigs r)" using trig_okD(1) [OF core_trig [OF core t]] .
  have "conn_ok ?r" by (rule conn_ok_register) (rule conn_ok_cong [OF core_conn [OF core]], simp_all)
  moreover have "distinct (map fst (subscriptionsByID ?r))" using core_distinct [OF core] by (simp add: distinct_update)
  moreover have "trig_ok {} ?r k t'" if "trigger_of ?r k = Some t'" for k t'
  proof -
    have ok: "trig_ok {tid} r k t'" using core_trig [OF core] that by simp
    have old: "x \<noteq> sid \<and> y < ?n" if "subs_of r t' x = Some y" for x y
      using trig_okD(5) [OF ok that] fresh sub_okD(1) [OF core_sub [OF core, of x y]] by auto
    show ?thesis
    proof (cases "t' = t")
      case True
      then have "k = tid" using core_trigger_unique [OF core t, of k] that by simp
      moreover have "AList.update sid ?n (trig_subs (trigs r ! t)) \<noteq> []"
        by (simp add: nil_iff_map_of fun_eq_iff) blast
      ultimately show ?thesis using trig_okD [OF ok] old True tl
        by (auto simp: trig_ok_def new_subscription_def nth_append intro: distinct_update)
    next
      case False
      then have "k \<noteq> tid" using t that by auto
      then show ?thesis using trig_okD [OF ok] old False
        by (auto simp: trig_ok_def new_subscription_def nth_append)
    qed
  qed
  moreover have "sub_ok ?r sid' s'" if b: "byID ?r sid' = Some s'" for sid' s'
  proof (cases "sid' = sid")
    case True
    then show ?thesis using b t tl by (auto simp: sub_ok_def new_subscription_def)
  next
    case False
    then have ok: "sub_ok r sid' s'" using b core_sub [OF core] by (auto simp: new_subscription_def)
    then obtain t' where "trigger_of r (sub_trigger (subs r ! s')) = Some t'" "subs_of r t' sid' = Some s'"
      using sub_okD(4) by blast
    then show ?thesis using sub_okD [OF ok] False tl
      by (auto simp: sub_ok_def nth_append new_subscription_def nth_list_update)
  qed
  moreover have "byID ?r (sub_id (subs ?r ! s')) = Some s'" if "s' < length (subs ?r)" "\<not> sub_removed (subs ?r ! s')" for s'
    using that core_live [OF core, of s'] fresh
    by (cases "s' = ?n") (auto simp: new_subscription_def nth_append)
  ultimately show ?thesis unfolding reg_core_def by blast
qed

text \<open>What a successful \<open>addSubscription\<close> does; the trigger is the registered one or a new one.\<close>

definition joins :: "64 word \<Rightarrow> SubscriptionIdentifier \<Rightarrow> bool \<Rightarrow> Resolver \<Rightarrow> Resolver \<Rightarrow> bool" where
  "joins tid sid hb r r' \<longleftrightarrow>
     triggers_ok r' \<and> subs r' = subs r @ [new_subscription tid sid hb] \<and>
     byID r' = (byID r)(sid \<mapsto> length (subs r)) \<and> shutdown r' = shutdown r \<and> triggerCount r' = triggerCount r"

lemma update_new_length: "map_of al k = None \<Longrightarrow> length (AList.update k v al) = Suc (length al)"
  by (induction al) (auto split: if_splits)

lemma register_joins:
  assumes core: "reg_core {tid} r" and t: "trigger_of r tid = Some t" and fresh: "byID r sid = None"
    and n: "subscriptionCount r = int (length (subscriptionsByID r))" and run: "\<not> shutdown r"
  shows "joins tid sid hb r ((registerSubscriptionLocked t (length (subs r)) (r\<lparr>subs := subs r @ [new_subscription tid sid hb]\<rparr>))
    \<lparr>subscriptionCount := subscriptionCount r + 1\<rparr>)"
proof -
  have "reg_core E (q\<lparr>subscriptionCount := k\<rparr>) = reg_core E q" for E q k
    by (simp add: reg_core_def conn_ok_def trig_ok_def sub_ok_def)
  then show ?thesis using core_register [OF core t fresh, of hb] n run update_new_length [OF fresh]
    by (simp add: joins_def triggers_ok_def new_subscription_def)
qed

lemma register_count:
  "registerSubscriptionLocked t s (r\<lparr>subscriptionCount := n\<rparr>) = (registerSubscriptionLocked t s r)\<lparr>subscriptionCount := n\<rparr>"
  by (simp add: registerSubscriptionLocked_def upd_trig_def Let_def)

lemma addSubscription_joins:
  assumes ok: "triggers_ok r" and run: "\<not> shutdown r" and fresh: "byID r sid = None"
  shows "trigger_of r tid = Some t \<Longrightarrow> \<exists>r'. addSubscription tid sid hb r = (AddJoined (length (subs r)) t, r') \<and>
      joins tid sid hb r r' \<and> triggers r' = triggers r \<and>
      map (trig_subs_update (\<lambda>_. [])) (trigs r') = map (trig_subs_update (\<lambda>_. [])) (trigs r)"
    and "trigger_of r tid = None \<Longrightarrow> \<exists>r'. addSubscription tid sid hb r = (AddStarted (length (subs r)) (length (trigs r)), r') \<and>
      joins tid sid hb r r' \<and> triggers r' = AList.update tid (length (trigs r)) (triggers r) \<and>
      map (trig_subs_update (\<lambda>_. [])) (trigs r') = map (trig_subs_update (\<lambda>_. [])) (trigs r @ [new_trigger tid])"
proof -
  assume t: "trigger_of r tid = Some t"
  then have tl: "t < length (trigs r)" using trig_okD(1) [OF core_trig [OF ok_core [OF ok]]] by blast
  have "map (trig_subs_update (\<lambda>_. [])) ((trigs r)[t := (trigs r ! t)\<lparr>trig_subs := al\<rparr>]) = map (trig_subs_update (\<lambda>_. [])) (trigs r)" for al
    by (rule nth_equalityI) (use tl in \<open>auto simp: nth_list_update\<close>)
  then show "\<exists>r'. addSubscription tid sid hb r = (AddJoined (length (subs r)) t, r') \<and> joins tid sid hb r r' \<and> triggers r' = triggers r \<and>
      map (trig_subs_update (\<lambda>_. [])) (trigs r') = map (trig_subs_update (\<lambda>_. [])) (trigs r)"
    using register_joins [OF core_mono [OF ok_core [OF ok]] t fresh ok_count [OF ok] run, of hb] t run
    by (simp add: addSubscription_def register_count Let_def)
next
  assume new: "trigger_of r tid = None"
  let ?n = "length (trigs r)"
  let ?r = "r\<lparr>trigs := trigs r @ [new_trigger tid], triggers := AList.update tid ?n (triggers r)\<rparr>"
  have "reg_core {tid} ?r" by (rule core_new_trigger [OF ok_core [OF ok] new])
  then have j: "joins tid sid hb ?r ((registerSubscriptionLocked ?n (length (subs ?r)) (?r\<lparr>subs := subs ?r @ [new_subscription tid sid hb]\<rparr>))
      \<lparr>subscriptionCount := subscriptionCount ?r + 1\<rparr>)"
    by (rule register_joins) (use fresh ok_count [OF ok] run in simp_all)
  have comm: "r\<lparr>trigs := a, triggers := b, subs := c\<rparr> = r\<lparr>subs := c, trigs := a, triggers := b\<rparr>" for a b c by simp
  have "map (trig_subs_update (\<lambda>_. [])) ((ts @ [x])[length ts := x\<lparr>trig_subs := al\<rparr>]) = map (trig_subs_update (\<lambda>_. [])) (ts @ [x])" for ts x al
    by simp
  then show "\<exists>r'. addSubscription tid sid hb r = (AddStarted (length (subs r)) ?n, r') \<and> joins tid sid hb r r' \<and>
      triggers r' = AList.update tid ?n (triggers r) \<and>
      map (trig_subs_update (\<lambda>_. [])) (trigs r') = map (trig_subs_update (\<lambda>_. [])) (trigs r @ [new_trigger tid])"
    using j run new by (simp add: addSubscription_def joins_def Let_def nth_append comm)
qed

lemma joins_view:
  assumes "triggers_ok r" "joins tid sid hb r r'"
  shows "reg_view r' = (reg_view r)(sid \<mapsto> tid)"
proof (rule ext)
  fix x
  show "reg_view r' x = ((reg_view r)(sid \<mapsto> tid)) x"
    using assms(2) sub_okD(1) [OF core_sub [OF ok_core [OF assms(1)], of x]]
    by (cases "byID r x") (auto simp: joins_def reg_view_def new_subscription_def nth_append)
qed

text \<open>A trigger is registered exactly when a subscription is registered for it.\<close>

lemma trigger_iff_view: "triggers_ok r \<Longrightarrow> trigger_of r tid \<noteq> None \<longleftrightarrow> tid \<in> ran (reg_view r)"
proof -
  assume ok: "triggers_ok r"
  note core = ok_core [OF ok]
  show ?thesis
  proof
    assume "trigger_of r tid \<noteq> None"
    then obtain t where t: "trigger_of r tid = Some t" by blast
    note tok = core_trig [OF core t]
    have "subs_of r t \<noteq> Map.empty" using trig_okD(4) [OF tok] by (simp flip: nil_iff_map_of)
    then obtain sid s where "subs_of r t sid = Some s" by (auto simp: fun_eq_iff)
    then show "tid \<in> ran (reg_view r)" using trig_okD(5,6) [OF tok, of sid s] by (auto simp: ran_def reg_view_def)
  next
    assume "tid \<in> ran (reg_view r)"
    then obtain sid s where "byID r sid = Some s" "sub_trigger (subs r ! s) = tid" by (auto simp: ran_def reg_view_def)
    then show "trigger_of r tid \<noteq> None" using sub_okD(4) [OF core_sub [OF core, of sid s]] by auto
  qed
qed

lemma retires_ok: "retires M r cl ct r' \<Longrightarrow> triggers_ok r'"
  by (simp add: retires_def)

lemma addSubscription_view:
  assumes ok: "triggers_ok r" and run: "\<not> shutdown r" and fresh: "reg_view r sid = None"
  shows "triggers_ok (snd (addSubscription tid sid hb r)) \<and> reg_view (snd (addSubscription tid sid hb r)) = (reg_view r)(sid \<mapsto> tid)"
proof -
  have f: "byID r sid = None" using fresh by (simp add: reg_view_def)
  obtain a r' where "addSubscription tid sid hb r = (a, r')" "joins tid sid hb r r'"
    using addSubscription_joins [OF ok run f, where tid = tid and hb = hb] by (cases "trigger_of r tid") blast+
  then show ?thesis using joins_view [OF ok] by (simp add: joins_def)
qed

lemma live_iff_registered:
  "reg_core {} r \<Longrightarrow> s < length (subs r) \<Longrightarrow> \<not> sub_removed (subs r ! s) \<longleftrightarrow> byID r (sub_id (subs r ! s)) = Some s"
  using core_live [of "{}" r s] sub_okD(3) [OF core_sub, of "{}" r "sub_id (subs r ! s)" s] by blast

lemma live_count:
  assumes core: "reg_core {} r"
  shows "length (subscriptionsByID r) = card {s. s < length (subs r) \<and> \<not> sub_removed (subs r ! s)}"
proof -
  let ?live = "{s. s < length (subs r) \<and> \<not> sub_removed (subs r ! s)}"
  have "bij_betw (\<lambda>s. sub_id (subs r ! s)) ?live (dom (byID r))"
    unfolding bij_betw_def
  proof
    show "inj_on (\<lambda>s. sub_id (subs r ! s)) ?live"
      using live_iff_registered [OF core] by (intro inj_onI) (metis (mono_tags, lifting) mem_Collect_eq option.inject)
    show "(\<lambda>s. sub_id (subs r ! s)) ` ?live = dom (byID r)"
    proof (intro equalityI subsetI)
      fix x assume "x \<in> dom (byID r)"
      then obtain s where "byID r x = Some s" by blast
      from sub_okD(1-3) [OF core_sub [OF core this]] show "x \<in> (\<lambda>s. sub_id (subs r ! s)) ` ?live" by blast
    qed (use live_iff_registered [OF core] in auto)
  qed
  then have "card ?live = card (dom (byID r))" by (rule bij_betw_same_card)
  also have "\<dots> = length (subscriptionsByID r)"
    using core_distinct [OF core] distinct_card [of "map fst (subscriptionsByID r)"] by (simp add: dom_map_of_conv_image_fst)
  finally show ?thesis by simp
qed

end
