(* ===== verification/Trigger_Steps.thy ===== *)
theory Trigger_Steps
  imports Trigger_Registry
begin

text \<open>
  The goroutines around the registry of subscriptions (\<open>v2/pkg/engine/resolve/resolve.go\<close>), interleaved.
  A goroutine is the list of its next actions; an action is what the code does between two points where
  another goroutine can run: a critical section of a mutex, an atomic load, a call of a library. What
  the clients, the data sources and the clock do is free (a \<open>choice\<close>, or a new goroutine). Everything
  is executable: \<open>resolver_event\<close> performs one event.
\<close>

section \<open>Actions\<close>

text \<open>The methods of \<open>subscriptionUpdater\<close>, called by a data source.\<close>

datatype call =
  CallUpdate string
| CallUpdateSubscription SubscriptionIdentifier string
| CallHeartbeat
| CallComplete
| CallError string
| CallDone
| CallCloseSubscription SubscriptionIdentifier

text \<open>The end of a stream: \<open>None\<close> is \<open>Complete\<close>, \<open>Some data\<close> is \<open>Error(data)\<close>.\<close>

definition terminal_frame :: "string option \<Rightarrow> frame" where
  "terminal_frame x = (case x of None \<Rightarrow> CompleteFrame | Some e \<Rightarrow> ErrorFrame e)"

datatype action =
  AAdd "64 word" SubscriptionIdentifier bool
| ASync "64 word" bool
| AAddSync "64 word" SubscriptionIdentifier bool
| ASelect nat
| AWaitCompleted nat
| AReturned nat
| AReturnedErr nat
| AUnsubscribe SubscriptionIdentifier
| AUnsubscribeClient "64 word"
| ADoneTrigger "64 word"
| AShutdown
| AClose nat
| ACancel nat
| AHookJoined nat nat
| AHookNew nat nat
| ASourceStart nat
| AStartFailed nat string
| AMark "64 word"
| AMarkStore nat
| ATriggerInc
| AWriteError nat string
| ALock nat call
| AUnlock nat
| AUpdate "64 word" string
| AFilter nat string
| ASpawn "nat list" "nat list" string
| AUpdateOne "64 word" SubscriptionIdentifier string
| AFilterOne nat SubscriptionIdentifier string
| AExecLive nat string
| AExec nat string
| AFinish nat
| ATick
| AHeartbeat "64 word"
| ABeats nat
| ABeat nat
| ATerminal "64 word" "string option"
| ASnapshot nat "string option"
| ACheckRemoved nat "string option"
| AWrite nat "string option"

text \<open>What an action cannot decide: the outcome of a library call, of a filter, of a \<open>select\<close>.\<close>

datatype choice =
  Goes
| Fails string
| Skips
| Renders string
| FlushFails
| ContextDone
| ResolverDone
| Calls call
| Picks "(nat \<times> string) list" "nat list"

record Registry_System =
  res :: Resolver
  gos :: "action list list"
  conns :: "64 word"
  stopped :: bool

definition with_res :: "Resolver \<Rightarrow> Registry_System \<Rightarrow> Registry_System" where
  "with_res r st = st\<lparr>res := r\<rparr>"

text \<open>The actions a goroutine continues with, the goroutines it starts, and the new state.\<close>

type_synonym outcome = "(action list \<times> action list list \<times> Registry_System) option"

definition continues :: "action list \<Rightarrow> Registry_System \<Rightarrow> outcome" where
  "continues k st = Some (k, [], st)"

section \<open>Removing and adding\<close>

text \<open>\<open>closeSubs\<close> and the cancellations after a critical section.\<close>

definition closeSubs :: "nat list \<Rightarrow> nat list \<Rightarrow> action list" where
  "closeSubs toClose cancels = map AClose toClose @ map ACancel cancels"

definition result_actions :: "removeResult \<Rightarrow> action list" where
  "result_actions x = closeSubs (res_toClose x) (case res_cancel x of None \<Rightarrow> [] | Some t \<Rightarrow> [t])"

definition act_unsubscribe :: "SubscriptionIdentifier \<Rightarrow> Registry_System \<Rightarrow> outcome" where
  "act_unsubscribe sid st = (case UnsubscribeSubscription sid (res st) of (x, r) \<Rightarrow> continues (result_actions x) (with_res r st))"

definition act_unsubscribe_client :: "64 word \<Rightarrow> Registry_System \<Rightarrow> outcome" where
  "act_unsubscribe_client c st = (case removeClient c (res st) of ((cl, ct), r) \<Rightarrow> continues (closeSubs cl ct) (with_res r st))"

definition act_done_trigger :: "64 word \<Rightarrow> Registry_System \<Rightarrow> outcome" where
  "act_done_trigger tid st = (case doneTriggerFromUpdater tid (res st) of (x, r) \<Rightarrow> continues (result_actions x) (with_res r st))"

definition act_shutdown :: "Registry_System \<Rightarrow> outcome" where
  "act_shutdown st = (case shutdownResolver (res st) of ((cl, ct), r) \<Rightarrow> continues (closeSubs cl ct) (with_res r st))"

text \<open>
  \<open>addSubscription\<close> under \<open>Resolver.mu\<close>, then \<open>k\<close> of the new subscription; the goroutine it starts
  runs the startup hooks. With \<open>dup = False\<close> an identifier in use is not added again.
\<close>

definition act_add :: "bool \<Rightarrow> 64 word \<Rightarrow> SubscriptionIdentifier \<Rightarrow> bool \<Rightarrow> (nat \<Rightarrow> action list) \<Rightarrow> Registry_System \<Rightarrow> outcome" where
  "act_add dup tid sid hb k st =
     (if \<not> dup \<and> map_of (subscriptionsByID (res st)) sid \<noteq> None then None
      else (case addSubscription tid sid hb (res st) of
         (AddRejected, r) \<Rightarrow> continues [] (with_res r st)
       | (AddJoined s t, r) \<Rightarrow> Some (k s, [[AHookJoined s t]], with_res r st)
       | (AddStarted s t, r) \<Rightarrow> Some (k s, [[AHookNew s t]], with_res r st)))"

text \<open>\<open>NewConnectionID\<close> of \<open>ResolveGraphQLSubscription\<close>.\<close>

definition act_sync :: "64 word \<Rightarrow> bool \<Rightarrow> Registry_System \<Rightarrow> outcome" where
  "act_sync tid hb st =
     (let c = conns st + 1 in continues [AAddSync tid \<lparr>ConnectionID = c, SubscriptionID = 0\<rparr> hb] (st\<lparr>conns := c\<rparr>))"

section \<open>Waiting for the end\<close>

text \<open>
  The outer and the inner \<open>select\<close> of \<open>ResolveGraphQLSubscription\<close>. A call that has returned is left
  with a marker: \<open>AReturned\<close> when it has returned nil, \<open>AReturnedErr\<close> when it has returned the error of
  the resolver's context.
\<close>

definition act_select :: "choice \<Rightarrow> nat \<Rightarrow> Registry_System \<Rightarrow> outcome" where
  "act_select c s st =
     (case c of
        ContextDone \<Rightarrow> continues [AUnsubscribe (sub_id (subs (res st) ! s)), AWaitCompleted s] st
      | ResolverDone \<Rightarrow> if stopped st then continues [AReturnedErr s] st else None
      | Goes \<Rightarrow> if sub_completed (subs (res st) ! s) then continues [AUnsubscribe (sub_id (subs (res st) ! s)), AReturned s] st else None
      | _ \<Rightarrow> None)"

definition act_wait :: "choice \<Rightarrow> nat \<Rightarrow> Registry_System \<Rightarrow> outcome" where
  "act_wait c s st =
     (case c of
        ResolverDone \<Rightarrow> if stopped st then continues [AReturnedErr s] st else None
      | Goes \<Rightarrow> if sub_completed (subs (res st) ! s) then continues [AUnsubscribe (sub_id (subs (res st) ! s)), AReturned s] st else None
      | _ \<Rightarrow> None)"

text \<open>\<open>close(s.completed)\<close> panics on a closed channel; the outcome is then none.\<close>

definition act_close :: "nat \<Rightarrow> Registry_System \<Rightarrow> outcome" where
  "act_close s st =
     (if sub_completed (subs (res st) ! s) then None
      else continues [] (with_res (upd_sub s (\<lambda>x. x\<lparr>sub_completed := True\<rparr>) (res st)) st))"

definition act_cancel :: "nat \<Rightarrow> Registry_System \<Rightarrow> outcome" where
  "act_cancel t st = continues [] (with_res (upd_trig t (\<lambda>x. x\<lparr>trig_cancelled := True\<rparr>) (res st)) st)"

section \<open>Starting a trigger\<close>

text \<open>
  \<open>executeStartupHooks\<close> may call \<open>UpdateSubscription\<close> on the updater. On a joined trigger a failure
  is written to the subscription, which is then removed; on a new one the trigger is torn down.
\<close>

definition act_hook_joined :: "choice \<Rightarrow> nat \<Rightarrow> nat \<Rightarrow> Registry_System \<Rightarrow> outcome" where
  "act_hook_joined c s t st =
     (case c of
        Calls (CallUpdateSubscription sid d) \<Rightarrow>
          if sid = sub_id (subs (res st) ! s) then continues [ALock t (CallUpdateSubscription sid d), AHookJoined s t] st else None
      | Fails e \<Rightarrow> continues [AWriteError s e, AUnsubscribe (sub_id (subs (res st) ! s))] st
      | Goes \<Rightarrow> continues [] st
      | _ \<Rightarrow> None)"

definition act_hook_new :: "choice \<Rightarrow> nat \<Rightarrow> nat \<Rightarrow> Registry_System \<Rightarrow> outcome" where
  "act_hook_new c s t st =
     (case c of
        Calls (CallUpdateSubscription sid d) \<Rightarrow>
          if sid = sub_id (subs (res st) ! s) then continues [ALock t (CallUpdateSubscription sid d), AHookNew s t] st else None
      | Fails e \<Rightarrow> continues [AStartFailed t e] st
      | Goes \<Rightarrow> continues [ASourceStart t] (with_res (upd_trig t (\<lambda>x. x\<lparr>trig_started := True\<rparr>) (res st)) st)
      | _ \<Rightarrow> None)"

definition act_source_start :: "choice \<Rightarrow> nat \<Rightarrow> Registry_System \<Rightarrow> outcome" where
  "act_source_start c t st =
     (case c of
        Calls x \<Rightarrow> continues [ALock t x, ASourceStart t] st
      | Fails e \<Rightarrow> continues [AStartFailed t e] st
      | Goes \<Rightarrow> continues [AMark (trig_id (trigs (res st) ! t))] st
      | _ \<Rightarrow> None)"

definition snapshotSubscriptions :: "nat \<Rightarrow> Resolver \<Rightarrow> nat list" where
  "snapshotSubscriptions t r = map snd (trig_subs (trigs r ! t))"

definition act_start_failed :: "nat \<Rightarrow> string \<Rightarrow> Registry_System \<Rightarrow> outcome" where
  "act_start_failed t e st =
     continues (map (\<lambda>s. AWriteError s e) (snapshotSubscriptions t (res st)) @ [ADoneTrigger (trig_id (trigs (res st) ! t))]) st"

text \<open>\<open>markTriggerInitialized\<close> looks the trigger up, then stores the flag, then reports it.\<close>

definition act_mark :: "64 word \<Rightarrow> Registry_System \<Rightarrow> outcome" where
  "act_mark tid st = (case getTrigger tid (res st) of None \<Rightarrow> continues [] st | Some t \<Rightarrow> continues [AMarkStore t, ATriggerInc] st)"

definition act_mark_store :: "nat \<Rightarrow> Registry_System \<Rightarrow> outcome" where
  "act_mark_store t st = continues [] (with_res (upd_trig t (\<lambda>x. x\<lparr>trig_initialized := True\<rparr>) (res st)) st)"

definition act_trigger_inc :: "Registry_System \<Rightarrow> outcome" where
  "act_trigger_inc st = continues [] (with_res ((res st)\<lparr>triggerCount := triggerCount (res st) + 1\<rparr>) st)"

section \<open>Writing to a subscription\<close>

definition write_frame :: "nat \<Rightarrow> frame \<Rightarrow> Registry_System \<Rightarrow> Registry_System" where
  "write_frame s f st = with_res (upd_sub s (\<lambda>x. x\<lparr>sub_writer := sub_writer x @ [f]\<rparr>) (res st)) st"

definition is_removed :: "nat \<Rightarrow> Registry_System \<Rightarrow> bool" where
  "is_removed s st = sub_removed (subs (res st) ! s)"

definition act_write_error :: "nat \<Rightarrow> string \<Rightarrow> Registry_System \<Rightarrow> outcome" where
  "act_write_error s e st = continues [] (if is_removed s st then st else write_frame s (FormattedError e) st)"

text \<open>
  \<open>executeSubscriptionUpdate\<close>: the fetches fail, or the response is written under \<open>writeMu\<close> unless
  the subscription has been removed; when the flush fails, the subscription is removed.
\<close>

definition act_exec :: "choice \<Rightarrow> nat \<Rightarrow> Registry_System \<Rightarrow> outcome" where
  "act_exec c s st =
     (case c of
        Fails e \<Rightarrow> continues [AWriteError s e] st
      | Goes \<Rightarrow> continues [AFinish s] st
      | _ \<Rightarrow> None)"

definition act_finish :: "choice \<Rightarrow> nat \<Rightarrow> Registry_System \<Rightarrow> outcome" where
  "act_finish c s st =
     (if is_removed s st then continues [] st
      else (case c of
              Fails e \<Rightarrow> continues [] (write_frame s (FormattedError e) st)
            | Renders d \<Rightarrow> continues [] (write_frame s (Payload d) st)
            | FlushFails \<Rightarrow> continues [AUnsubscribe (sub_id (subs (res st) ! s))] st
            | _ \<Rightarrow> None))"

text \<open>\<open>executeSubscriptionHeartbeat\<close> and \<open>sendHeartbeat\<close>.\<close>

definition act_beat :: "choice \<Rightarrow> nat \<Rightarrow> Registry_System \<Rightarrow> outcome" where
  "act_beat c s st =
     (case c of
        Skips \<Rightarrow> continues [] st
      | Goes \<Rightarrow> continues [] (if is_removed s st then st else write_frame s HeartbeatFrame st)
      | FlushFails \<Rightarrow> continues (if is_removed s st then [] else [AUnsubscribe (sub_id (subs (res st) ! s))]) st
      | _ \<Rightarrow> None)"

text \<open>The loops of \<open>handleTriggerComplete\<close> and \<open>handleTriggerError\<close>: the flag is read before the lock is taken.\<close>

definition act_check_removed :: "nat \<Rightarrow> string option \<Rightarrow> Registry_System \<Rightarrow> outcome" where
  "act_check_removed s f st = continues (if is_removed s st then [] else [AWrite s f]) st"

definition act_write :: "nat \<Rightarrow> string option \<Rightarrow> Registry_System \<Rightarrow> outcome" where
  "act_write s f st = continues [] (write_frame s (terminal_frame f) st)"

section \<open>The updater\<close>

definition act_unlock :: "nat \<Rightarrow> Registry_System \<Rightarrow> outcome" where
  "act_unlock t st = continues [] (with_res (upd_trig t (\<lambda>x. x\<lparr>upd_locked := False\<rparr>) (res st)) st)"

fun call_actions :: "64 word \<Rightarrow> call \<Rightarrow> action list" where
  "call_actions tid (CallUpdate d) = [AUpdate tid d]"
| "call_actions tid (CallUpdateSubscription sid d) = [AUpdateOne tid sid d]"
| "call_actions tid CallHeartbeat = [AHeartbeat tid]"
| "call_actions tid CallComplete = [ATerminal tid None]"
| "call_actions tid (CallError d) = [ATerminal tid (Some d)]"
| "call_actions tid CallDone = [ADoneTrigger tid]"
| "call_actions tid (CallCloseSubscription sid) = [AUnsubscribe sid]"

text \<open>
  A method takes the mutex of the updater for its whole duration and returns at once when the updater
  is done or its context is cancelled; \<open>Done\<close> looks at the first only.
\<close>

definition act_lock :: "nat \<Rightarrow> call \<Rightarrow> Registry_System \<Rightarrow> outcome" where
  "act_lock t x st =
     (let u = trigs (res st) ! t;
          skip = upd_done u \<or> (x \<noteq> CallDone \<and> trig_cancelled u) in
      if upd_locked u then None
      else continues ((if skip then [] else call_actions (trig_id u) x) @ [AUnlock t])
        (with_res (upd_trig t (\<lambda>y. y\<lparr>upd_locked := True, upd_done := (upd_done y \<or> x = CallDone)\<rparr>) (res st)) st))"

definition on_trigger :: "64 word \<Rightarrow> (nat \<Rightarrow> action) \<Rightarrow> Registry_System \<Rightarrow> outcome" where
  "on_trigger tid a st = continues (case getTrigger tid (res st) of None \<Rightarrow> [] | Some t \<Rightarrow> [a t]) st"

text \<open>\<open>filterSubscriptions\<close>: the subscriptions whose filter fails, and those that take the event.\<close>

definition act_filter :: "choice \<Rightarrow> nat \<Rightarrow> string \<Rightarrow> Registry_System \<Rightarrow> outcome" where
  "act_filter c t d st =
     (case c of
        Picks errs oks \<Rightarrow>
          if distinct (map fst errs @ oks) \<and> set (map fst errs @ oks) \<subseteq> set (snapshotSubscriptions t (res st))
          then continues (map (\<lambda>(s, e). AWriteError s e) errs @ [ASpawn oks [] d]) st else None
      | _ \<Rightarrow> None)"

text \<open>The loop of \<open>handleTriggerUpdate\<close> that starts a goroutine for each subscription, and \<open>wg.Wait()\<close>.\<close>

definition act_spawn :: "nat list \<Rightarrow> nat list \<Rightarrow> string \<Rightarrow> Registry_System \<Rightarrow> outcome" where
  "act_spawn xs js d st =
     (case xs of
        [] \<Rightarrow> if list_all (\<lambda>j. gos st ! j = []) js then continues [] st else None
      | s # xs \<Rightarrow> if is_removed s st then continues [ASpawn xs js d] st
                 else Some ([ASpawn xs (js @ [length (gos st)]) d], [[AExec s d]], st))"

definition act_filter_one :: "choice \<Rightarrow> nat \<Rightarrow> SubscriptionIdentifier \<Rightarrow> string \<Rightarrow> Registry_System \<Rightarrow> outcome" where
  "act_filter_one c t sid d st =
     (case map_of (trig_subs (trigs (res st) ! t)) sid of
        None \<Rightarrow> continues [] st
      | Some s \<Rightarrow>
          (case c of
             Fails e \<Rightarrow> continues [AWriteError s e] st
           | Goes \<Rightarrow> continues [AExecLive s d] st
           | Skips \<Rightarrow> continues [] st
           | _ \<Rightarrow> None))"

text \<open>\<open>heartbeatTriggerSubscriptions\<close>: which subscriptions are due depends on the clock.\<close>

definition act_beats :: "choice \<Rightarrow> nat \<Rightarrow> Registry_System \<Rightarrow> outcome" where
  "act_beats c t st =
     (case c of
        Picks errs xs \<Rightarrow>
          if distinct xs \<and> set xs \<subseteq> {s \<in> set (snapshotSubscriptions t (res st)). sub_heartbeat (subs (res st) ! s) \<and> \<not> is_removed s st}
          then continues (map ABeat xs) st else None
      | _ \<Rightarrow> None)"

section \<open>Events\<close>

fun resolver_act :: "bool \<Rightarrow> choice \<Rightarrow> action \<Rightarrow> Registry_System \<Rightarrow> outcome" where
  "resolver_act dup c (AAdd tid sid hb) st = act_add dup tid sid hb (\<lambda>s. []) st"
| "resolver_act dup c (ASync tid hb) st = act_sync tid hb st"
| "resolver_act dup c (AAddSync tid sid hb) st = act_add dup tid sid hb (\<lambda>s. [ASelect s]) st"
| "resolver_act dup c (ASelect s) st = act_select c s st"
| "resolver_act dup c (AWaitCompleted s) st = act_wait c s st"
| "resolver_act dup c (AReturned s) st = None"
| "resolver_act dup c (AReturnedErr s) st = None"
| "resolver_act dup c (AUnsubscribe sid) st = act_unsubscribe sid st"
| "resolver_act dup c (AUnsubscribeClient cid) st = act_unsubscribe_client cid st"
| "resolver_act dup c (ADoneTrigger tid) st = act_done_trigger tid st"
| "resolver_act dup c AShutdown st = act_shutdown st"
| "resolver_act dup c (AClose s) st = act_close s st"
| "resolver_act dup c (ACancel t) st = act_cancel t st"
| "resolver_act dup c (AHookJoined s t) st = act_hook_joined c s t st"
| "resolver_act dup c (AHookNew s t) st = act_hook_new c s t st"
| "resolver_act dup c (ASourceStart t) st = act_source_start c t st"
| "resolver_act dup c (AStartFailed t e) st = act_start_failed t e st"
| "resolver_act dup c (AMark tid) st = act_mark tid st"
| "resolver_act dup c (AMarkStore t) st = act_mark_store t st"
| "resolver_act dup c ATriggerInc st = act_trigger_inc st"
| "resolver_act dup c (AWriteError s e) st = act_write_error s e st"
| "resolver_act dup c (ALock t x) st = act_lock t x st"
| "resolver_act dup c (AUnlock t) st = act_unlock t st"
| "resolver_act dup c (AUpdate tid d) st = on_trigger tid (\<lambda>t. AFilter t d) st"
| "resolver_act dup c (AFilter t d) st = act_filter c t d st"
| "resolver_act dup c (ASpawn xs js d) st = act_spawn xs js d st"
| "resolver_act dup c (AUpdateOne tid sid d) st = on_trigger tid (\<lambda>t. AFilterOne t sid d) st"
| "resolver_act dup c (AFilterOne t sid d) st = act_filter_one c t sid d st"
| "resolver_act dup c (AExecLive s d) st = continues (if is_removed s st then [] else [AExec s d]) st"
| "resolver_act dup c (AExec s d) st = act_exec c s st"
| "resolver_act dup c (AFinish s) st = act_finish c s st"
| "resolver_act dup c ATick st = continues (map (AHeartbeat \<circ> fst) (triggers (res st))) st"
| "resolver_act dup c (AHeartbeat tid) st = on_trigger tid ABeats st"
| "resolver_act dup c (ABeats t) st = act_beats c t st"
| "resolver_act dup c (ABeat s) st = act_beat c s st"
| "resolver_act dup c (ATerminal tid f) st = on_trigger tid (\<lambda>t. ASnapshot t f) st"
| "resolver_act dup c (ASnapshot t f) st = continues (map (\<lambda>s. ACheckRemoved s f) (snapshotSubscriptions t (res st))) st"
| "resolver_act dup c (ACheckRemoved s f) st = act_check_removed s f st"
| "resolver_act dup c (AWrite s f) st = act_write s f st"

text \<open>
  What may start a goroutine: a client's request, a client's disconnection, a tick of the heartbeat, or
  a data source that has been started and calls its updater. Ticks may overlap here, which those of
  \<open>heartbeatLoop\<close> do not.
\<close>

fun arrival_ok :: "Registry_System \<Rightarrow> action \<Rightarrow> bool" where
  "arrival_ok st (AAdd tid sid hb) = True"
| "arrival_ok st (ASync tid hb) = True"
| "arrival_ok st (AUnsubscribe sid) = True"
| "arrival_ok st (AUnsubscribeClient c) = True"
| "arrival_ok st ATick = True"
| "arrival_ok st (ALock t x) = (t < length (trigs (res st)) \<and> trig_started (trigs (res st) ! t))"
| "arrival_ok st _ = False"

datatype sys_event = Arrives action | Stops | Runs nat choice

fun resolver_event :: "bool \<Rightarrow> sys_event \<Rightarrow> Registry_System \<Rightarrow> Registry_System option" where
  "resolver_event dup (Arrives a) st = (if arrival_ok st a then Some (st\<lparr>gos := gos st @ [[a]]\<rparr>) else None)"
| "resolver_event dup Stops st = Some (st\<lparr>stopped := True, gos := gos st @ [[AShutdown]]\<rparr>)"
| "resolver_event dup (Runs i c) st =
     (if i < length (gos st) then
        (case gos st ! i of
           [] \<Rightarrow> None
         | a # rest \<Rightarrow>
             (case resolver_act dup c a st of
                None \<Rightarrow> None
              | Some (k, gs, st') \<Rightarrow> Some (st'\<lparr>gos := (gos st)[i := k @ rest] @ gs\<rparr>)))
      else None)"

definition idle_system :: Registry_System where
  "idle_system = \<lparr>res = new_resolver, gos = [], conns = 0, stopped = False\<rparr>"

inductive resolver_reachable :: "bool \<Rightarrow> Registry_System \<Rightarrow> bool" for dup where
  resolver_start: "resolver_reachable dup idle_system"
| resolver_next: "resolver_reachable dup st \<Longrightarrow> resolver_event dup e st = Some st' \<Longrightarrow> resolver_reachable dup st'"

fun resolver_run :: "bool \<Rightarrow> sys_event list \<Rightarrow> Registry_System \<Rightarrow> Registry_System option" where
  "resolver_run dup [] st = Some st"
| "resolver_run dup (e # es) st = (case resolver_event dup e st of None \<Rightarrow> None | Some st' \<Rightarrow> resolver_run dup es st')"

lemma resolver_run_reachable:
  "resolver_reachable dup st \<Longrightarrow> resolver_run dup es st = Some st' \<Longrightarrow> resolver_reachable dup st'"
  by (induction es arbitrary: st) (auto split: option.splits intro: resolver_next)

end
