(* ===== verification/Trigger_Invariants.thy ===== *)
theory Trigger_Invariants
  imports Trigger_Refinement Trigger_Steps
begin

text \<open>
  What the goroutines around the registry keep: the registry is consistent (\<open>Trigger_Refinement\<close>), a
  subscription that is removed has exactly one pending close until its channel is closed, a trigger
  that is no longer registered has exactly one pending cancellation until it is cancelled, and a call
  that has returned has seen its channel closed.
\<close>

section \<open>Pending actions\<close>

definition pending :: "action \<Rightarrow> action list list \<Rightarrow> nat" where
  "pending a gs = sum_list (map (\<lambda>g. count_list g a) gs)"

lemma pending_simps [simp]:
  "pending a [] = 0" "pending a (g # gs) = count_list g a + pending a gs" "pending a (gs @ hs) = pending a gs + pending a hs"
  by (simp_all add: pending_def)

lemma pending_update:
  "i < length gs \<Longrightarrow> pending a (gs[i := g]) + count_list (gs ! i) a = pending a gs + count_list g a"
  by (induction gs arbitrary: i) (auto split: nat.split simp: nth_Cons')

lemma count_list_map_AClose: "count_list (map AClose xs) (AClose s) = count_list xs s"
  by (induction xs) auto

lemma count_list_closeSubs [simp]:
  "count_list (closeSubs cl ct) (AClose s) = count_list cl s"
  "count_list (closeSubs cl ct) (ACancel t) = count_list ct t"
  by (induction cl; induction ct; auto simp: closeSubs_def)+

lemma count_list_distinct_mem: "distinct xs \<Longrightarrow> count_list xs x = (if x \<in> set xs then 1 else 0)"
  by (induction xs) auto

section \<open>Changes of the state that keep the registry\<close>

text \<open>The parts of a subscription and of a trigger that the invariant depends on.\<close>

definition sub_key :: "subscriptionState \<Rightarrow> 64 word \<times> SubscriptionIdentifier \<times> bool \<times> bool" where
  "sub_key s = (sub_trigger s, sub_id s, sub_removed s, sub_completed s)"

definition trig_key :: "trigger \<Rightarrow> 64 word \<times> (SubscriptionIdentifier \<times> nat) list \<times> bool" where
  "trig_key t = (trig_id t, trig_subs t, trig_cancelled t)"

definition same_keys :: "Resolver \<Rightarrow> Resolver \<Rightarrow> bool" where
  "same_keys r r' \<longleftrightarrow>
     map sub_key (subs r') = map sub_key (subs r) \<and> map trig_key (trigs r') = map trig_key (trigs r) \<and>
     triggers r' = triggers r \<and> subscriptionsByID r' = subscriptionsByID r \<and>
     subscriptionsByConnection r' = subscriptionsByConnection r \<and> shutdown r' = shutdown r \<and> subscriptionCount r' = subscriptionCount r"

lemma same_keys_refl [simp]: "same_keys r r"
  by (simp add: same_keys_def)

lemma same_keys_upd_sub:
  assumes "\<And>x. sub_key (f x) = sub_key x"
  shows "same_keys r (upd_sub s f r)"
proof -
  have "map sub_key ((subs r)[s := f (subs r ! s)]) = map sub_key (subs r)"
  proof (cases "s < length (subs r)")
    case True
    then show ?thesis using assms by (simp add: map_update list_update_same_conv)
  qed (simp add: list_update_beyond)
  then show ?thesis by (simp add: same_keys_def)
qed

lemma same_keys_upd_trig:
  assumes "\<And>x. trig_key (f x) = trig_key x"
  shows "same_keys r (upd_trig t f r)"
proof -
  have "map trig_key ((trigs r)[t := f (trigs r ! t)]) = map trig_key (trigs r)"
  proof (cases "t < length (trigs r)")
    case True
    then show ?thesis using assms by (simp add: map_update list_update_same_conv)
  qed (simp add: list_update_beyond)
  then show ?thesis by (simp add: same_keys_def)
qed

lemma same_keysD:
  assumes "same_keys r r'"
  shows "length (subs r') = length (subs r)" "length (trigs r') = length (trigs r)" "triggers r' = triggers r"
    "subscriptionsByID r' = subscriptionsByID r" "subscriptionsByConnection r' = subscriptionsByConnection r"
    "shutdown r' = shutdown r" "subscriptionCount r' = subscriptionCount r"
    "s < length (subs r) \<Longrightarrow> sub_trigger (subs r' ! s) = sub_trigger (subs r ! s) \<and> sub_id (subs r' ! s) = sub_id (subs r ! s) \<and>
       sub_removed (subs r' ! s) = sub_removed (subs r ! s) \<and> sub_completed (subs r' ! s) = sub_completed (subs r ! s)"
    "t < length (trigs r) \<Longrightarrow> trig_id (trigs r' ! t) = trig_id (trigs r ! t) \<and> trig_subs (trigs r' ! t) = trig_subs (trigs r ! t) \<and>
       trig_cancelled (trigs r' ! t) = trig_cancelled (trigs r ! t)"
proof -
  have e: "map sub_key (subs r') = map sub_key (subs r)" "map trig_key (trigs r') = map trig_key (trigs r)"
    using assms by (simp_all add: same_keys_def)
  show l: "length (subs r') = length (subs r)" "length (trigs r') = length (trigs r)"
    using map_eq_imp_length_eq e by blast+
  show "triggers r' = triggers r" "subscriptionsByID r' = subscriptionsByID r" "subscriptionsByConnection r' = subscriptionsByConnection r"
    "shutdown r' = shutdown r" "subscriptionCount r' = subscriptionCount r" using assms by (simp_all add: same_keys_def)
  show "sub_trigger (subs r' ! s) = sub_trigger (subs r ! s) \<and> sub_id (subs r' ! s) = sub_id (subs r ! s) \<and>
      sub_removed (subs r' ! s) = sub_removed (subs r ! s) \<and> sub_completed (subs r' ! s) = sub_completed (subs r ! s)"
    if "s < length (subs r)"
    using arg_cong [OF e(1), of "\<lambda>xs. xs ! s"] that l by (simp add: sub_key_def)
  show "trig_id (trigs r' ! t) = trig_id (trigs r ! t) \<and> trig_subs (trigs r' ! t) = trig_subs (trigs r ! t) \<and>
      trig_cancelled (trigs r' ! t) = trig_cancelled (trigs r ! t)" if "t < length (trigs r)"
    using arg_cong [OF e(2), of "\<lambda>xs. xs ! t"] that l by (simp add: trig_key_def)
qed

lemma same_keys_ok:
  assumes k: "same_keys r r'" and ok: "triggers_ok r"
  shows "triggers_ok r'"
proof -
  note d = same_keysD [OF k]
  note core = ok_core [OF ok]
  have "conn_ok r'" using core_conn [OF core] d(4,5) conn_ok_cong by metis
  moreover have "distinct (map fst (subscriptionsByID r'))" using core_distinct [OF core] d(4) by simp
  moreover have "trig_ok {} r' x t" if "trigger_of r' x = Some t" for x t
  proof -
    have ok: "trig_ok {} r x t" using core_trig [OF core] that d(3) by simp
    have "sub_trigger (subs r' ! s) = x" if "subs_of r t sid = Some s" for sid s
      using trig_okD(5,6) [OF ok that] sub_okD(1) [OF core_sub [OF core]] d(8) by auto
    then show ?thesis using trig_okD [OF ok] d(2,4) d(9) [of t] by (simp add: trig_ok_def)
  qed
  moreover have "sub_ok r' sid s" if "byID r' sid = Some s" for sid s
  proof -
    have ok: "sub_ok r sid s" using core_sub [OF core] that d(4) by simp
    obtain t where t: "trigger_of r (sub_trigger (subs r ! s)) = Some t" "subs_of r t sid = Some s"
      using sub_okD(4) [OF ok] by blast
    then show ?thesis using sub_okD [OF ok] d(1,3) d(8) [of s] d(9) [of t] trig_okD(1) [OF core_trig [OF core t(1)]]
      by (simp add: sub_ok_def)
  qed
  moreover have "byID r' (sub_id (subs r' ! s)) = Some s" if "s < length (subs r')" "\<not> sub_removed (subs r' ! s)" for s
    using core_live [OF core, of s] that d(1,4) d(8) [of s] by simp
  ultimately have "reg_core {} r'" unfolding reg_core_def by blast
  then show ?thesis using ok d by (simp add: triggers_ok_def)
qed

section \<open>The invariant\<close>

definition trig_registered :: "Resolver \<Rightarrow> nat \<Rightarrow> bool" where
  "trig_registered r t \<longleftrightarrow> trigger_of r (trig_id (trigs r ! t)) = Some t"

text \<open>What is left to close and to cancel.\<close>

definition to_close :: "Resolver \<Rightarrow> nat \<Rightarrow> bool" where
  "to_close r s \<longleftrightarrow> s < length (subs r) \<and> sub_removed (subs r ! s) \<and> \<not> sub_completed (subs r ! s)"

definition to_cancel :: "Resolver \<Rightarrow> nat \<Rightarrow> bool" where
  "to_cancel r t \<longleftrightarrow> t < length (trigs r) \<and> \<not> trig_registered r t \<and> \<not> trig_cancelled (trigs r ! t)"

definition flags_ok :: "Resolver \<Rightarrow> bool" where
  "flags_ok r \<longleftrightarrow>
     (\<forall>s < length (subs r). sub_completed (subs r ! s) \<longrightarrow> sub_removed (subs r ! s)) \<and>
     (\<forall>t < length (trigs r). trig_cancelled (trigs r ! t) \<longrightarrow> \<not> trig_registered r t)"

definition returned_ok :: "Resolver \<Rightarrow> action list list \<Rightarrow> bool" where
  "returned_ok r gs \<longleftrightarrow>
     (\<forall>g \<in> set gs. \<forall>s. AReturned s \<in> set g \<longrightarrow> s < length (subs r) \<and> sub_completed (subs r ! s)) \<and>
     (\<forall>g \<in> set gs. \<forall>s. ASelect s \<in> set g \<or> AWaitCompleted s \<in> set g \<longrightarrow> s < length (subs r))"

definition resolver_inv :: "Registry_System \<Rightarrow> bool" where
  "resolver_inv st \<longleftrightarrow>
     triggers_ok (res st) \<and> flags_ok (res st) \<and> returned_ok (res st) (gos st) \<and>
     (\<forall>s. pending (AClose s) (gos st) = (if to_close (res st) s then 1 else 0)) \<and>
     (\<forall>t. pending (ACancel t) (gos st) = (if to_cancel (res st) t then 1 else 0))"

lemma resolver_invD:
  assumes "resolver_inv st"
  shows sys_ok: "triggers_ok (res st)"
    and sys_flags: "flags_ok (res st)"
    and sys_returned: "returned_ok (res st) (gos st)"
    and sys_close: "pending (AClose s) (gos st) = (if to_close (res st) s then 1 else 0)"
    and sys_cancel: "pending (ACancel t) (gos st) = (if to_cancel (res st) t then 1 else 0)"
  using assms unfolding resolver_inv_def by blast+

section \<open>What an action does\<close>

lemma pending_step:
  assumes "i < length gs" "gs ! i = a # rest"
  shows "pending x (gs[i := k @ rest] @ hs) + (if a = x then 1 else 0) = pending x gs + count_list k x + pending x hs"
  using pending_update [OF assms(1), of x "k @ rest"] assms(2) by (cases "a = x") simp_all

text \<open>An action that neither closes nor cancels, and refers to subscriptions that exist.\<close>

fun quiet_action :: "Resolver \<Rightarrow> action \<Rightarrow> bool" where
  "quiet_action r (AClose s) = False"
| "quiet_action r (ACancel t) = False"
| "quiet_action r (AReturned s) = (s < length (subs r) \<and> sub_completed (subs r ! s))"
| "quiet_action r (ASelect s) = (s < length (subs r))"
| "quiet_action r (AWaitCompleted s) = (s < length (subs r))"
| "quiet_action r _ = True"

lemma quiet_pending:
  "list_all (quiet_action r) k \<Longrightarrow> count_list k (AClose s) = 0"
  "list_all (quiet_action r) k \<Longrightarrow> count_list k (ACancel t) = 0"
  by (induction k) auto

lemma returned_ok_iff: "returned_ok r gs \<longleftrightarrow> (\<forall>g \<in> set gs. \<forall>a \<in> set g. (\<exists>s. a \<in> {AReturned s, ASelect s, AWaitCompleted s}) \<longrightarrow> quiet_action r a)"
  unfolding returned_ok_def by (auto, force+)

definition quiet :: "Registry_System \<Rightarrow> action list \<Rightarrow> action list list \<Rightarrow> Registry_System \<Rightarrow> bool" where
  "quiet st k gs st' \<longleftrightarrow>
     same_keys (res st) (res st') \<and> gos st' = gos st \<and> list_all (quiet_action (res st)) k \<and> list_all (list_all (quiet_action (res st))) gs"

lemma with_res_simps [simp]:
  "res (with_res r st) = r" "gos (with_res r st) = gos st" "conns (with_res r st) = conns st" "stopped (with_res r st) = stopped st"
  by (simp_all add: with_res_def)

lemma write_frame_quiet [simp]:
  "same_keys (res st) (res (write_frame s f st))" "gos (write_frame s f st) = gos st"
  by (simp_all add: write_frame_def same_keys_upd_sub sub_key_def)

lemma trig_flags_quiet [simp]:
  "same_keys r (upd_trig t (\<lambda>x. x\<lparr>trig_started := b x\<rparr>) r)"
  "same_keys r (upd_trig t (\<lambda>x. x\<lparr>trig_initialized := b x\<rparr>) r)"
  "same_keys r (upd_trig t (\<lambda>x. x\<lparr>upd_locked := b x\<rparr>) r)"
  "same_keys r (upd_trig t (\<lambda>x. x\<lparr>upd_locked := b x, upd_done := d x\<rparr>) r)"
  "same_keys r (r\<lparr>triggerCount := n\<rparr>)"
  by (rule same_keys_upd_trig, simp add: trig_key_def)+ (simp add: same_keys_def)

lemma quiet_map: "(\<And>x. quiet_action r (f x)) \<Longrightarrow> list_all (quiet_action r) (map f xs)"
  by (induction xs) auto

lemma call_actions_quiet [simp]: "list_all (quiet_action r) (call_actions tid c)"
  by (cases c) auto

lemmas act_defs = act_select_def act_wait_def act_hook_joined_def act_hook_new_def act_source_start_def act_start_failed_def
  act_mark_def act_mark_store_def act_trigger_inc_def act_write_error_def act_exec_def act_finish_def act_beat_def
  act_check_removed_def act_write_def act_unlock_def act_lock_def on_trigger_def act_filter_def act_spawn_def
  act_filter_one_def act_beats_def act_sync_def

text \<open>The actions whose critical section changes the indexes, and those that close and cancel.\<close>

fun changes_registry :: "action \<Rightarrow> bool" where
  "changes_registry (AAdd tid sid hb) = True"
| "changes_registry (AAddSync tid sid hb) = True"
| "changes_registry (AUnsubscribe sid) = True"
| "changes_registry (AUnsubscribeClient c) = True"
| "changes_registry (ADoneTrigger tid) = True"
| "changes_registry AShutdown = True"
| "changes_registry (AClose s) = True"
| "changes_registry (ACancel t) = True"
| "changes_registry _ = False"

lemma act_quiet:
  assumes "resolver_act dup c a st = Some (k, gs, st')" "\<not> changes_registry a" "quiet_action (res st) a"
  shows "quiet st k gs st'"
  using assms
  by (cases a) (auto simp: act_defs continues_def quiet_def Let_def
      intro!: quiet_map split: choice.splits call.splits if_splits option.splits list.splits prod.splits)

section \<open>Every event keeps the invariant\<close>

lemma same_keys_flags:
  assumes k: "same_keys r r'"
  shows "to_close r' s = to_close r s" "to_cancel r' t = to_cancel r t" "flags_ok r' = flags_ok r"
    "quiet_action r' a = quiet_action r a"
proof -
  note d = same_keysD [OF k]
  have reg: "trig_registered r' t = trig_registered r t" if "t < length (trigs r)" for t
    using d(3) d(9) [OF that] by (simp add: trig_registered_def)
  show "to_close r' s = to_close r s" using d(1) d(8) [of s] by (auto simp: to_close_def)
  show "to_cancel r' t = to_cancel r t" using d(2) d(9) [of t] reg [of t] by (auto simp: to_cancel_def)
  have "(sub_completed (subs r' ! s) \<longrightarrow> sub_removed (subs r' ! s)) = (sub_completed (subs r ! s) \<longrightarrow> sub_removed (subs r ! s))"
    if "s < length (subs r)" for s using d(8) [OF that] by simp
  moreover have "(trig_cancelled (trigs r' ! t) \<longrightarrow> \<not> trig_registered r' t) = (trig_cancelled (trigs r ! t) \<longrightarrow> \<not> trig_registered r t)"
    if "t < length (trigs r)" for t using d(9) [OF that] reg [OF that] by simp
  ultimately show "flags_ok r' = flags_ok r" using d(1,2) by (auto simp: flags_ok_def)
  show "quiet_action r' a = quiet_action r a" using d(1) d(8) by (cases a) auto
qed

text \<open>
  The actions of the goroutines stay valid when no subscription disappears and no channel opens again.
\<close>

lemma returned_ok_step:
  assumes ret: "returned_ok r gs" and i: "i < length gs" "gs ! i = a # rest"
    and len: "length (subs r) \<le> length (subs r')"
    and comp: "\<And>s. s < length (subs r) \<Longrightarrow> sub_completed (subs r ! s) \<Longrightarrow> sub_completed (subs r' ! s)"
    and new: "\<And>x. x \<in> set k \<or> x \<in> \<Union> (set ` set hs) \<Longrightarrow> (\<exists>s. x \<in> {AReturned s, ASelect s, AWaitCompleted s}) \<Longrightarrow> quiet_action r' x"
  shows "returned_ok r' (gs[i := k @ rest] @ hs)"
  unfolding returned_ok_iff
proof (intro ballI impI)
  fix g x
  assume g: "g \<in> set (gs[i := k @ rest] @ hs)" "x \<in> set g" and x: "\<exists>s. x \<in> {AReturned s, ASelect s, AWaitCompleted s}"
  have old: "quiet_action r' x" if "h \<in> set gs" "x \<in> set h" for h
  proof -
    have "quiet_action r x" using ret that x unfolding returned_ok_iff by blast
    then show ?thesis using x len comp by auto
  qed
  have "g \<in> set gs \<or> g = k @ rest \<or> g \<in> set hs" using g(1) set_update_subset_insert [of gs i "k @ rest"] by auto
  moreover have "gs ! i \<in> set gs" using i(1) by simp
  ultimately show "quiet_action r' x" using old new g(2) x i(2) by (metis Un_iff UN_I list.set_intros(2) set_append)
qed

definition after_step :: "nat \<Rightarrow> action list \<Rightarrow> action list \<Rightarrow> action list list \<Rightarrow> Registry_System \<Rightarrow> Registry_System \<Rightarrow> Registry_System" where
  "after_step i k rest gs st st' = st'\<lparr>gos := (gos st)[i := k @ rest] @ gs\<rparr>"

lemma inv_step_quiet:
  assumes inv: "resolver_inv st" and i: "i < length (gos st)" "gos st ! i = a # rest"
    and a: "\<not> changes_registry a" and q: "quiet st k gs st'"
  shows "resolver_inv (after_step i k rest gs st st')"
proof -
  have sk: "same_keys (res st) (res st')" and k: "list_all (quiet_action (res st)) k"
    and g: "list_all (list_all (quiet_action (res st))) gs" using q by (simp_all add: quiet_def)
  have "count_list k (AClose s) = 0" "count_list k (ACancel t) = 0" for s t using quiet_pending [OF k] by auto
  moreover have "pending (AClose s) gs = 0" "pending (ACancel t) gs = 0" for s t
    using g quiet_pending by (induction gs) auto
  moreover have "a \<noteq> AClose s" "a \<noteq> ACancel t" for s t using a by auto
  ultimately have p: "pending (AClose s) ((gos st)[i := k @ rest] @ gs) = pending (AClose s) (gos st)"
      "pending (ACancel t) ((gos st)[i := k @ rest] @ gs) = pending (ACancel t) (gos st)" for s t
    using pending_step [OF i, of "AClose s" k gs] pending_step [OF i, of "ACancel t" k gs] by auto
  have "returned_ok (res st') ((gos st)[i := k @ rest] @ gs)"
    by (rule returned_ok_step [OF sys_returned [OF inv] i])
      (use same_keysD [OF sk] k g same_keys_flags(4) [OF sk] in \<open>auto simp: list_all_iff\<close>)
  then show ?thesis
    using p same_keys_ok [OF sk sys_ok [OF inv]] same_keys_flags [OF sk] sys_flags [OF inv] sys_close [OF inv] sys_cancel [OF inv]
    by (simp add: resolver_inv_def after_step_def)
qed

text \<open>What a retirement changes in the heaps.\<close>

lemma retires_heap:
  assumes ok: "triggers_ok r" and fl: "flags_ok r" and ret: "retires M r cl ct r'"
  shows "length (subs r') = length (subs r)" "length (trigs r') = length (trigs r)"
    "s < length (subs r) \<Longrightarrow> sub_completed (subs r' ! s) = sub_completed (subs r ! s)"
    "s < length (subs r) \<Longrightarrow> sub_removed (subs r' ! s) \<longleftrightarrow> s \<in> set cl \<or> sub_removed (subs r ! s)"
    "t < length (trigs r) \<Longrightarrow> trig_cancelled (trigs r' ! t) = trig_cancelled (trigs r ! t)"
    "t < length (trigs r) \<Longrightarrow> trig_registered r' t \<longleftrightarrow> t \<notin> set ct \<and> trig_registered r t"
    "s \<in> set cl \<Longrightarrow> s < length (subs r) \<and> \<not> sub_removed (subs r ! s) \<and> \<not> sub_completed (subs r ! s)"
    "t \<in> set ct \<Longrightarrow> t < length (trigs r) \<and> trig_registered r t \<and> \<not> trig_cancelled (trigs r ! t)"
proof -
  have rm: "removal M r cl ct (r'\<lparr>shutdown := shutdown r, subscriptionCount := subscriptionCount r, triggerCount := triggerCount r\<rparr>)"
    using ret by (simp add: retires_def)
  note core = ok_core [OF ok]
  show l: "length (subs r') = length (subs r)" using removal_subs [OF rm] by simp
  show "length (trigs r') = length (trigs r)" using same_trigs(1) [OF removal_trigs [OF rm]] by simp
  show "sub_completed (subs r' ! s) = sub_completed (subs r ! s)"
    "sub_removed (subs r' ! s) \<longleftrightarrow> s \<in> set cl \<or> sub_removed (subs r ! s)" if "s < length (subs r)"
    using removal_subs [OF rm] that by simp_all
  show "trig_cancelled (trigs r' ! t) = trig_cancelled (trigs r ! t)" if "t < length (trigs r)"
    using same_trigs(3) [OF removal_trigs [OF rm] that] by simp
  show "trig_registered r' t \<longleftrightarrow> t \<notin> set ct \<and> trig_registered r t" if "t < length (trigs r)"
    using same_trigs(2) [OF removal_trigs [OF rm] that] removal_trigger [OF rm, of "trig_id (trigs r ! t)"]
    by (auto simp: trig_registered_def split: option.splits)
  show "s < length (subs r) \<and> \<not> sub_removed (subs r ! s) \<and> \<not> sub_completed (subs r ! s)" if s: "s \<in> set cl"
  proof -
    obtain sid where b: "byID r sid = Some s" using s removal_closes [OF rm] by blast
    show ?thesis using sub_okD(1,3) [OF core_sub [OF core b]] fl by (auto simp: flags_ok_def)
  qed
  show "t < length (trigs r) \<and> trig_registered r t \<and> \<not> trig_cancelled (trigs r ! t)" if t: "t \<in> set ct"
  proof -
    obtain x where x: "trigger_of r x = Some t" using t removal_cancels [OF rm] by (auto simp: ran_def)
    then have "t < length (trigs r)" "trig_registered r t"
      using trig_okD(1,2) [OF core_trig [OF core x]] by (auto simp: trig_registered_def)
    then show ?thesis using fl by (auto simp: flags_ok_def)
  qed
qed

lemma inv_step_retires:
  assumes inv: "resolver_inv st" and i: "i < length (gos st)" "gos st ! i = a # rest"
    and a: "\<And>s. a \<noteq> AClose s" "\<And>t. a \<noteq> ACancel t" and ret: "retires M (res st) cl ct (res st')"
  shows "resolver_inv (after_step i (closeSubs cl ct) rest [] st st')"
proof -
  let ?r = "res st" and ?r' = "res st'" and ?gs = "(gos st)[i := closeSubs cl ct @ rest] @ []"
  note h = retires_heap [OF sys_ok [OF inv] sys_flags [OF inv] ret]
  have rm: "removal M ?r cl ct (?r'\<lparr>shutdown := shutdown ?r, subscriptionCount := subscriptionCount ?r, triggerCount := triggerCount ?r\<rparr>)"
    using ret by (simp add: retires_def)
  have "pending (AClose s) ?gs = (if to_close ?r' s then 1 else 0)" for s
    using pending_step [OF i, of "AClose s" "closeSubs cl ct" "[]"] a(1) [of s] sys_close [OF inv, of s] h(1) h(3,4,7) [of s]
      count_list_distinct_mem [OF removal_distinct(1) [OF rm], of s]
    by (auto simp: to_close_def split: if_splits)
  moreover have "pending (ACancel t) ?gs = (if to_cancel ?r' t then 1 else 0)" for t
    using pending_step [OF i, of "ACancel t" "closeSubs cl ct" "[]"] a(2) [of t] sys_cancel [OF inv, of t] h(2) h(5,6,8) [of t]
      count_list_distinct_mem [OF removal_distinct(2) [OF rm], of t]
    by (auto simp: to_cancel_def split: if_splits)
  moreover have "flags_ok ?r'" using sys_flags [OF inv] h(1-6) by (auto simp: flags_ok_def)
  moreover have "returned_ok ?r' ?gs"
    by (rule returned_ok_step [OF sys_returned [OF inv] i]) (use h(1,3) in \<open>auto simp: closeSubs_def\<close>)
  moreover have "triggers_ok ?r'" using ret by (simp add: retires_def)
  ultimately show ?thesis by (simp add: resolver_inv_def after_step_def)
qed

lemma inv_step_close:
  assumes inv: "resolver_inv st" and i: "i < length (gos st)" "gos st ! i = AClose s # rest"
  shows "\<not> sub_completed (subs (res st) ! s)" "to_close (res st) s"
    and "resolver_inv (after_step i [] rest [] st (with_res (upd_sub s (\<lambda>x. x\<lparr>sub_completed := True\<rparr>) (res st)) st))"
proof -
  let ?r = "res st" and ?r' = "upd_sub s (\<lambda>x. x\<lparr>sub_completed := True\<rparr>) (res st)" and ?gs = "(gos st)[i := [] @ rest] @ []"
  have p: "pending x ?gs + (if x = AClose s then 1 else 0) = pending x (gos st)" for x
    using pending_step [OF i, of x "[]" "[]"] by auto
  show t: "to_close ?r s" using p [of "AClose s"] sys_close [OF inv, of s] by (auto split: if_splits)
  then show "\<not> sub_completed (subs ?r ! s)" by (simp add: to_close_def)
  have s: "s < length (subs ?r)" "sub_removed (subs ?r ! s)" using t by (simp_all add: to_close_def)
  have ok: "triggers_ok ?r'"
  proof -
    let ?key = "\<lambda>x. (sub_trigger x, sub_id x, sub_removed x)"
    have "reg_core {} ?r'"
      using ok_core [OF sys_ok [OF inv]] s
      by (auto simp: reg_core_def conn_ok_def trig_ok_def sub_ok_def nth_list_update)
    then show ?thesis using sys_ok [OF inv] by (simp add: triggers_ok_def)
  qed
  have "pending (AClose x) ?gs = (if to_close ?r' x then 1 else 0)" for x
    using p [of "AClose x"] sys_close [OF inv, of x] t s by (auto simp: to_close_def nth_list_update split: if_splits)
  moreover have "to_cancel ?r' = to_cancel ?r" by (rule ext) (simp add: to_cancel_def trig_registered_def)
  then have "pending (ACancel x) ?gs = (if to_cancel ?r' x then 1 else 0)" for x
    using p [of "ACancel x"] sys_cancel [OF inv, of x] by simp
  moreover have "flags_ok ?r'" using sys_flags [OF inv] s by (auto simp: flags_ok_def nth_list_update trig_registered_def)
  moreover have "returned_ok ?r' ?gs"
    by (rule returned_ok_step [OF sys_returned [OF inv] i]) (use s in \<open>auto simp: nth_list_update\<close>)
  ultimately show "resolver_inv (after_step i [] rest [] st (with_res ?r' st))"
    using ok by (simp add: resolver_inv_def after_step_def)
qed

lemma inv_step_cancel:
  assumes inv: "resolver_inv st" and i: "i < length (gos st)" "gos st ! i = ACancel t # rest"
  shows "resolver_inv (after_step i [] rest [] st (with_res (upd_trig t (\<lambda>x. x\<lparr>trig_cancelled := True\<rparr>) (res st)) st))"
proof -
  let ?r = "res st" and ?r' = "upd_trig t (\<lambda>x. x\<lparr>trig_cancelled := True\<rparr>) (res st)" and ?gs = "(gos st)[i := [] @ rest] @ []"
  have p: "pending x ?gs + (if x = ACancel t then 1 else 0) = pending x (gos st)" for x
    using pending_step [OF i, of x "[]" "[]"] by auto
  have t: "to_cancel ?r t" using p [of "ACancel t"] sys_cancel [OF inv, of t] by (auto split: if_splits)
  then have tl: "t < length (trigs ?r)" "\<not> trig_registered ?r t" by (simp_all add: to_cancel_def)
  have reg: "trig_registered ?r' x = trig_registered ?r x" for x
    using tl by (cases "x = t") (simp_all add: trig_registered_def)
  have ok: "triggers_ok ?r'"
  proof -
    have "trigs ?r' ! x = (trigs ?r ! x)\<lparr>trig_cancelled := trig_cancelled (trigs ?r' ! x)\<rparr>" for x
      using tl by (cases "x = t") simp_all
    then have "trig_subs (trigs ?r' ! x) = trig_subs (trigs ?r ! x)" "trig_id (trigs ?r' ! x) = trig_id (trigs ?r ! x)" for x
      by (metis trigger.select_convs(3) trigger.update_convs(2) trigger.surjective, metis trigger.select_convs(1) trigger.update_convs(2) trigger.surjective)
    then have "reg_core {} ?r'"
      using ok_core [OF sys_ok [OF inv]] unfolding reg_core_def conn_ok_def trig_ok_def sub_ok_def by simp
    then show ?thesis using sys_ok [OF inv] by (simp add: triggers_ok_def)
  qed
  have "pending (ACancel x) ?gs = (if to_cancel ?r' x then 1 else 0)" for x
    using p [of "ACancel x"] sys_cancel [OF inv, of x] t tl reg [of x] by (auto simp: to_cancel_def nth_list_update split: if_splits)
  moreover have "to_close ?r' = to_close ?r" by (rule ext) (simp add: to_close_def)
  then have "pending (AClose x) ?gs = (if to_close ?r' x then 1 else 0)" for x
    using p [of "AClose x"] sys_close [OF inv, of x] by simp
  moreover have "flags_ok ?r'" using sys_flags [OF inv] tl reg by (auto simp: flags_ok_def nth_list_update)
  moreover have "returned_ok ?r' ?gs"
    by (rule returned_ok_step [OF sys_returned [OF inv] i]) simp_all
  ultimately show ?thesis using ok by (simp add: resolver_inv_def after_step_def)
qed

lemma inv_step_joins:
  assumes inv: "resolver_inv st" and i: "i < length (gos st)" "gos st ! i = a # rest"
    and a: "\<And>s. a \<noteq> AClose s" "\<And>t. a \<noteq> ACancel t" and j: "joins tid sid hb (res st) (res st')"
    and tr: "triggers (res st') = triggers (res st) \<and>
        map (trig_subs_update (\<lambda>_. [])) (trigs (res st')) = map (trig_subs_update (\<lambda>_. [])) (trigs (res st))
      \<or> trigger_of (res st) tid = None \<and> triggers (res st') = AList.update tid (length (trigs (res st))) (triggers (res st)) \<and>
        map (trig_subs_update (\<lambda>_. [])) (trigs (res st')) = map (trig_subs_update (\<lambda>_. [])) (trigs (res st) @ [new_trigger tid])"
    and k: "k = [] \<or> k = [ASelect (length (subs (res st)))]" and g: "gs = [[b]]" "quiet_action (res st) b" "\<nexists>s. b \<in> {AReturned s, ASelect s, AWaitCompleted s}"
  shows "resolver_inv (after_step i k rest gs st st')"
proof -
  let ?r = "res st" and ?r' = "res st'" and ?gs = "(gos st)[i := k @ rest] @ gs"
  have subs: "subs ?r' = subs ?r @ [new_subscription tid sid hb]" using j by (simp add: joins_def)
  have close: "to_close ?r' s = to_close ?r s" for s
    by (auto simp: to_close_def subs nth_append new_subscription_def)
  have cancel: "to_cancel ?r' t = to_cancel ?r t" "t < length (trigs ?r') \<Longrightarrow> trig_cancelled (trigs ?r' ! t) \<Longrightarrow> \<not> trig_registered ?r' t" for t
  proof -
    have flag: "trig_cancelled (trigs ?r ! t) \<longrightarrow> \<not> trig_registered ?r t" if "t < length (trigs ?r)" using sys_flags [OF inv] that by (simp add: flags_ok_def)
    consider (same) "triggers ?r' = triggers ?r" "map (trig_subs_update (\<lambda>_. [])) (trigs ?r') = map (trig_subs_update (\<lambda>_. [])) (trigs ?r)"
      | (new) "trigger_of ?r tid = None" "triggers ?r' = AList.update tid (length (trigs ?r)) (triggers ?r)"
        "map (trig_subs_update (\<lambda>_. [])) (trigs ?r') = map (trig_subs_update (\<lambda>_. [])) (trigs ?r @ [new_trigger tid])"
      using tr by (elim disjE conjE)
    then have "to_cancel ?r' t = to_cancel ?r t \<and> (t < length (trigs ?r') \<longrightarrow> trig_cancelled (trigs ?r' ! t) \<longrightarrow> \<not> trig_registered ?r' t)"
    proof cases
      case same
      then show ?thesis using same_trigs(1-3) [OF same(2)] flag by (auto simp: to_cancel_def trig_registered_def)
    next
      case new
      have "trigger_of ?r (trig_id (trigs ?r ! t)) \<noteq> Some t \<or> trig_id (trigs ?r ! t) \<noteq> tid" using new(1) by auto
      moreover have "trigger_of ?r x \<noteq> Some (length (trigs ?r))" for x
        using trig_okD(1) [OF core_trig [OF ok_core [OF sys_ok [OF inv]]], of x] by blast
      ultimately show ?thesis using same_trigs(1) [OF new(3)] same_trigs(2,3) [OF new(3), of t] new(1,2) flag
        by (auto simp: to_cancel_def trig_registered_def nth_append new_trigger_def less_Suc_eq split: if_splits)
    qed
    then show "to_cancel ?r' t = to_cancel ?r t" "t < length (trigs ?r') \<Longrightarrow> trig_cancelled (trigs ?r' ! t) \<Longrightarrow> \<not> trig_registered ?r' t"
      by blast+
  qed
  have "count_list k (AClose s) = 0" "count_list k (ACancel t) = 0" "pending (AClose s) gs = 0" "pending (ACancel t) gs = 0" for s t
    using k g by (cases b; auto)+
  then have p: "pending (AClose s) ?gs = pending (AClose s) (gos st)" "pending (ACancel t) ?gs = pending (ACancel t) (gos st)" for s t
    using pending_step [OF i, of "AClose s" k gs] pending_step [OF i, of "ACancel t" k gs] a by auto
  have "flags_ok ?r'" using sys_flags [OF inv] cancel(2) by (auto simp: flags_ok_def subs nth_append new_subscription_def)
  moreover have "returned_ok ?r' ?gs"
    by (rule returned_ok_step [OF sys_returned [OF inv] i]) (use k g subs in \<open>auto simp: nth_append\<close>)
  moreover have "triggers_ok ?r'" using j by (simp add: joins_def)
  ultimately show ?thesis using p close cancel(1) sys_close [OF inv] sys_cancel [OF inv]
    by (simp add: resolver_inv_def after_step_def)
qed

lemma inv_step_add:
  assumes inv: "resolver_inv st" and i: "i < length (gos st)" "gos st ! i = a # rest"
    and a: "\<And>s. a \<noteq> AClose s" "\<And>t. a \<noteq> ACancel t" and kf: "kf = (\<lambda>s. []) \<or> kf = (\<lambda>s. [ASelect s])"
    and act: "act_add False tid sid hb kf st = Some (k, gs, st')"
  shows "resolver_inv (after_step i k rest gs st st')"
proof (cases "shutdown (res st)")
  case True
  then have e: "k = closeSubs [] []" "gs = []" "res st' = res st"
    using act by (auto simp: act_add_def addSubscription_def continues_def closeSubs_def split: if_splits)
  have "retires (\<lambda>_ _. True) (res st) [] [] (res st')" using retires_nothing [OF sys_ok [OF inv] True] e by simp
  then show ?thesis using inv_step_retires [OF inv i a] e by simp
next
  case False
  have fresh: "byID (res st) sid = None" using act by (auto simp: act_add_def split: if_splits)
  show ?thesis
  proof (cases "trigger_of (res st) tid")
    case None
    obtain r where r: "addSubscription tid sid hb (res st) = (AddStarted (length (subs (res st))) (length (trigs (res st))), r)"
        "joins tid sid hb (res st) r" "triggers r = AList.update tid (length (trigs (res st))) (triggers (res st))"
        "map (trig_subs_update (\<lambda>_. [])) (trigs r) = map (trig_subs_update (\<lambda>_. [])) (trigs (res st) @ [new_trigger tid])"
      using addSubscription_joins(2) [OF sys_ok [OF inv] False fresh None] by blast
    have e: "k = kf (length (subs (res st)))" "gs = [[AHookNew (length (subs (res st))) (length (trigs (res st)))]]" "st' = with_res r st"
      using act r(1) fresh by (auto simp: act_add_def)
    show ?thesis
      by (rule inv_step_joins [OF inv i a, of tid sid hb]) (use r e kf None in auto)
  next
    case (Some t)
    obtain r where r: "addSubscription tid sid hb (res st) = (AddJoined (length (subs (res st))) t, r)"
        "joins tid sid hb (res st) r" "triggers r = triggers (res st)"
        "map (trig_subs_update (\<lambda>_. [])) (trigs r) = map (trig_subs_update (\<lambda>_. [])) (trigs (res st))"
      using addSubscription_joins(1) [OF sys_ok [OF inv] False fresh Some] by blast
    have e: "k = kf (length (subs (res st)))" "gs = [[AHookJoined (length (subs (res st))) t]]" "st' = with_res r st"
      using act r(1) fresh by (auto simp: act_add_def)
    show ?thesis
      by (rule inv_step_joins [OF inv i a, of tid sid hb]) (use r e kf in auto)
  qed
qed

lemma result_actions_eq: "result_actions x = closeSubs (res_toClose x) (cancels_of x)"
  by (simp add: result_actions_def cancels_of_def)

text \<open>The critical sections that remove.\<close>

definition removing :: "action \<Rightarrow> bool" where
  "removing a \<longleftrightarrow> (\<exists>sid. a = AUnsubscribe sid) \<or> (\<exists>c. a = AUnsubscribeClient c) \<or> (\<exists>tid. a = ADoneTrigger tid) \<or> a = AShutdown"

fun removed_by :: "action \<Rightarrow> SubscriptionIdentifier \<Rightarrow> 64 word \<Rightarrow> bool" where
  "removed_by (AUnsubscribe x) sid tid \<longleftrightarrow> sid = x"
| "removed_by (AUnsubscribeClient c) sid tid \<longleftrightarrow> ConnectionID sid = c"
| "removed_by (ADoneTrigger x) sid tid \<longleftrightarrow> tid = x"
| "removed_by AShutdown sid tid \<longleftrightarrow> True"
| "removed_by _ sid tid \<longleftrightarrow> False"

lemma act_removing:
  assumes ok: "triggers_ok (res st)" and a: "removing a" and act: "resolver_act dup c a st = Some (k, gs, st')"
  shows "\<exists>cl ct. retires (removed_by a) (res st) cl ct (res st') \<and> k = closeSubs cl ct \<and> gs = [] \<and> gos st' = gos st"
proof -
  consider (s) sid where "a = AUnsubscribe sid" | (c) x where "a = AUnsubscribeClient x" | (d) tid where "a = ADoneTrigger tid" | (z) "a = AShutdown"
    using a by (auto simp: removing_def)
  then show ?thesis
  proof cases
    case s
    have e: "removed_by (AUnsubscribe sid) = (\<lambda>x _. x = sid)" by (intro ext) simp
    show ?thesis using UnsubscribeSubscription_retires [OF ok, of sid] act unfolding s e
      by (fastforce simp: act_unsubscribe_def continues_def result_actions_eq split: prod.splits)
  next
    case c
    have e: "removed_by (AUnsubscribeClient x) = (\<lambda>sid _. ConnectionID sid = x)" by (intro ext) simp
    show ?thesis using removeClient_retires [OF ok, of x] act unfolding c e
      by (fastforce simp: act_unsubscribe_client_def continues_def split: prod.splits)
  next
    case d
    have e: "removed_by (ADoneTrigger tid) = (\<lambda>_ x. x = tid)" by (intro ext) simp
    show ?thesis using doneTriggerFromUpdater_retires [OF ok, of tid] act unfolding d e
      by (fastforce simp: act_done_trigger_def continues_def result_actions_eq split: prod.splits)
  next
    case z
    have e: "removed_by AShutdown = (\<lambda>_ _. True)" by (intro ext) simp
    show ?thesis using shutdownResolver_retires [OF ok] act unfolding z e
      by (fastforce simp: act_shutdown_def continues_def split: prod.splits)
  qed
qed

lemma inv_step_act:
  assumes inv: "resolver_inv st" and i: "i < length (gos st)" "gos st ! i = a # rest"
    and act: "resolver_act False c a st = Some (k, gs, st')"
  shows "resolver_inv (after_step i k rest gs st st')"
proof (cases "removing a")
  case True
  obtain cl ct where r: "retires (removed_by a) (res st) cl ct (res st')" "k = closeSubs cl ct" "gs = []"
    using act_removing [OF sys_ok [OF inv] True act] by blast
  show ?thesis unfolding r(2,3) by (rule inv_step_retires [OF inv i _ _ r(1)]) (use True in \<open>auto simp: removing_def\<close>)
next
  case nr: False
  show ?thesis
  proof (cases "changes_registry a")
    case False
    have "a \<in> set (gos st ! i)" "gos st ! i \<in> set (gos st)" using i(2) nth_mem [OF i(1)] by simp_all
    then have "\<exists>s. a \<in> {AReturned s, ASelect s, AWaitCompleted s} \<Longrightarrow> quiet_action (res st) a"
      using sys_returned [OF inv] unfolding returned_ok_iff by blast
    then have "quiet_action (res st) a" using False by (cases a) auto
    then show ?thesis using inv_step_quiet [OF inv i False act_quiet [OF act False]] by blast
  next
    case True
    then consider (add) tid sid hb where "a = AAdd tid sid hb" | (sync) tid sid hb where "a = AAddSync tid sid hb"
      | (close) s where "a = AClose s" | (cancel) t where "a = ACancel t"
      using nr by (cases a) (auto simp: removing_def)
    then show ?thesis
    proof cases
      case add
      show ?thesis by (rule inv_step_add [OF inv i, where kf = "\<lambda>s. []"]) (use act add in auto)
    next
      case sync
      show ?thesis by (rule inv_step_add [OF inv i, where kf = "\<lambda>s. [ASelect s]"]) (use act sync in auto)
    next
      case close
      show ?thesis using inv_step_close [OF inv i(1), of s rest] i(2) act close
        by (auto simp: act_close_def continues_def split: if_splits)
    next
      case cancel
      show ?thesis using inv_step_cancel [OF inv i(1), of t rest] i(2) act cancel
        by (auto simp: act_cancel_def continues_def)
    qed
  qed
qed

lemma inv_arrival:
  assumes inv: "resolver_inv st" and a: "\<not> (\<exists>s. a \<in> {AReturned s, ASelect s, AWaitCompleted s, AClose s, ACancel s})"
  shows "resolver_inv (st\<lparr>stopped := b, gos := gos st @ [[a]]\<rparr>)"
  using inv a unfolding resolver_inv_def returned_ok_iff by auto

lemma inv_event:
  assumes inv: "resolver_inv st" and e: "resolver_event False e st = Some st'"
  shows "resolver_inv st'"
proof (cases e)
  case (Arrives a)
  then show ?thesis using inv_arrival [OF inv, of a "stopped st"] e by (cases a) (auto split: if_splits)
next
  case Stops
  then show ?thesis using inv_arrival [OF inv, of AShutdown True] e by auto
next
  case (Runs i c)
  then obtain a rest k gs st1 where "i < length (gos st)" "gos st ! i = a # rest" "resolver_act False c a st = Some (k, gs, st1)"
      "st' = after_step i k rest gs st st1"
    using e by (auto simp: after_step_def split: if_splits list.splits option.splits prod.splits)
  then show ?thesis using inv_step_act [OF inv] by simp
qed

lemma resolver_reachable_inv: "resolver_reachable False st \<Longrightarrow> resolver_inv st"
proof (induction rule: resolver_reachable.induct)
  case resolver_start
  then show ?case
    by (simp add: resolver_inv_def idle_system_def flags_ok_def returned_ok_def to_close_def to_cancel_def) (simp add: new_resolver_def)
next
  case (resolver_next st e st')
  then show ?case using inv_event by blast
qed

end
