(* ===== verification/Trigger_Delivery.thy ===== *)
theory Trigger_Delivery
  imports Trigger_Invariants
begin

text \<open>
  What the subscriptions receive and that they end. A frame is appended to a writer only while its
  subscription is not removed, except for the end of a stream, whose check and write are two critical
  sections. A removed subscription can be closed by the goroutine that removed it, without waiting for
  any other. A call returns an error only after the resolver has been stopped. A late \<open>Done\<close> of a trigger
  ends its successor.
\<close>

section \<open>Writes\<close>

definition writes :: "Registry_System \<Rightarrow> action \<Rightarrow> Registry_System \<Rightarrow> nat \<Rightarrow> bool" where
  "writes st a st' s \<longleftrightarrow>
     sub_writer (subs (res st') ! s) = sub_writer (subs (res st) ! s) \<or>
     (\<exists>f. sub_writer (subs (res st') ! s) = sub_writer (subs (res st) ! s) @ [f] \<and>
        (\<not> sub_removed (subs (res st) ! s) \<or> (\<exists>x. a = AWrite s x \<and> f = terminal_frame x)))"

lemma writes_same_subs: "subs (res st') = subs (res st) \<Longrightarrow> writes st a st' s"
  by (simp add: writes_def)

lemma write_frame_subs: "subs (res (write_frame s f st)) = (subs (res st))[s := (subs (res st) ! s)\<lparr>sub_writer := sub_writer (subs (res st) ! s) @ [f]\<rparr>]"
  by (simp add: write_frame_def)

lemma writes_frame: "s < length (subs (res st)) \<Longrightarrow> x = s \<longrightarrow> \<not> sub_removed (subs (res st) ! s) \<or> (\<exists>y. a = AWrite s y \<and> f = terminal_frame y) \<Longrightarrow>
    writes st a (write_frame x f st) s"
  by (cases "x = s") (auto simp: writes_def write_frame_subs)

lemma act_writes:
  assumes act: "resolver_act dup c a st = Some (k, gs, st')" and nr: "\<not> changes_registry a" and s: "s < length (subs (res st))"
  shows "writes st a st' s"
  using act nr s
  by (cases a) (auto simp: act_defs continues_def is_removed_def Let_def
      intro!: writes_frame intro: writes_same_subs split: choice.splits call.splits if_splits option.splits list.splits)

lemma retires_writer:
  assumes "retires M r cl ct r'" "s < length (subs r)"
  shows "sub_writer (subs r' ! s) = sub_writer (subs r ! s)"
  using assms removal_subs [of M r cl ct] by (fastforce simp: retires_def)

lemma event_writes:
  assumes inv: "resolver_inv st" and e: "resolver_event False (Runs i c) st = Some st'" and s: "s < length (subs (res st))"
  shows "writes st (hd (gos st ! i)) st' s"
proof -
  obtain a rest k gs st1 where a: "i < length (gos st)" "gos st ! i = a # rest" "resolver_act False c a st = Some (k, gs, st1)"
      "st' = after_step i k rest gs st st1"
    using e by (auto simp: after_step_def split: if_splits list.splits option.splits prod.splits)
  have "writes st a st1 s"
  proof (cases "changes_registry a")
    case False
    then show ?thesis using act_writes [OF a(3) _ s] by blast
  next
    case True
    show ?thesis
    proof (cases "removing a")
      case True
      then show ?thesis using act_removing [OF sys_ok [OF inv] True a(3)] retires_writer s by (auto simp: writes_def)
    next
      case False
      have new: "subs (snd (addSubscription tid sid hb r)) ! s = subs r ! s" if "s < length (subs r)" for tid sid hb r
        using that by (auto simp: addSubscription_def Let_def nth_append split: option.splits)
      consider "\<exists>tid sid hb kf. act_add False tid sid hb kf st = Some (k, gs, st1)" | x where "a = AClose x" | t where "a = ACancel t"
        using True False a(3) by (cases a) (auto simp: removing_def)
      then show ?thesis
      proof cases
        case 1
        then obtain tid sid hb kf where act: "act_add False tid sid hb kf st = Some (k, gs, st1)" by blast
        then have "res st1 = snd (addSubscription tid sid hb (res st))"
          by (cases "addSubscription tid sid hb (res st)")
            (auto simp: act_add_def continues_def split: if_splits added.splits)
        then show ?thesis using new [OF s] by (simp add: writes_def)
      next
        case (2 x)
        then show ?thesis using a(3) s by (cases "x = s") (auto simp: act_close_def continues_def writes_def split: if_splits)
      next
        case (3 t)
        then show ?thesis using a(3) by (auto simp: act_cancel_def continues_def intro: writes_same_subs)
      qed
    qed
  qed
  then show ?thesis using a by (simp add: writes_def after_step_def)
qed

section \<open>A removed subscription can be closed\<close>

text \<open>The closes and cancellations of a goroutine are its next actions.\<close>

fun ending :: "action \<Rightarrow> bool" where
  "ending (AClose s) = True"
| "ending (ACancel t) = True"
| "ending _ = False"

definition ends_first :: "action list \<Rightarrow> bool" where
  "ends_first g \<longleftrightarrow> list_all (\<lambda>a. \<not> ending a) (dropWhile ending g)"

lemma ends_first_simps [simp]:
  "ends_first []" "ends_first (a # g) \<longleftrightarrow> (if ending a then ends_first g else list_all (\<lambda>a. \<not> ending a) g)"
  by (simp_all add: ends_first_def)

lemma ends_first_append_ending: "list_all ending k \<Longrightarrow> ends_first (k @ g) = ends_first g"
  by (induction k) auto

lemma none_ending_first: "list_all (\<lambda>a. \<not> ending a) g \<Longrightarrow> ends_first g"
  by (cases g) auto

lemma closeSubs_ending: "list_all ending (closeSubs cl ct)"
  by (auto simp: closeSubs_def list_all_iff)

lemma quiet_not_ending: "list_all (quiet_action r) k \<Longrightarrow> list_all (\<lambda>a. \<not> ending a) k"
  by (induction k) (auto elim: ending.elims)

definition all_ends_first :: "Registry_System \<Rightarrow> bool" where
  "all_ends_first st \<longleftrightarrow> list_all ends_first (gos st)"

lemma act_ends_first:
  assumes inv: "resolver_inv st" and i: "i < length (gos st)" "gos st ! i = a # rest"
    and act: "resolver_act False c a st = Some (k, gs, st')" and f: "ends_first (a # rest)"
  shows "ends_first (k @ rest) \<and> list_all ends_first gs \<and> gos st' = gos st"
proof (cases "removing a")
  case True
  have n: "list_all (\<lambda>a. \<not> ending a) rest" using f True by (auto simp: removing_def)
  obtain cl ct where "k = closeSubs cl ct" "gs = []" "gos st' = gos st"
    using act_removing [OF sys_ok [OF inv] True act] by blast
  then show ?thesis using ends_first_append_ending [OF closeSubs_ending] none_ending_first [OF n] by simp
next
  case nr: False
  show ?thesis
  proof (cases "changes_registry a")
    case False
    have "a \<in> set (gos st ! i)" "gos st ! i \<in> set (gos st)" using i(2) nth_mem [OF i(1)] by simp_all
    then have "\<exists>s. a \<in> {AReturned s, ASelect s, AWaitCompleted s} \<Longrightarrow> quiet_action (res st) a"
      using sys_returned [OF inv] unfolding returned_ok_iff by blast
    then have "quiet_action (res st) a" using False by (cases a) auto
    then have "quiet st k gs st'" using act_quiet [OF act False] by blast
    moreover have "list_all (\<lambda>a. \<not> ending a) rest" using f False by (cases a) auto
    ultimately show ?thesis
      using quiet_not_ending by (auto simp: quiet_def list_all_iff intro!: none_ending_first)
  next
    case True
    then show ?thesis using nr act f
      by (cases a) (auto simp: removing_def act_add_def continues_def act_close_def act_cancel_def none_ending_first
          split: if_splits prod.splits added.splits)
  qed
qed

lemma event_ends_first:
  assumes inv: "resolver_inv st" and f: "all_ends_first st" and e: "resolver_event False e st = Some st'"
  shows "all_ends_first st'"
proof (cases e)
  case (Arrives a)
  then show ?thesis using e f by (cases a) (auto simp: all_ends_first_def split: if_splits)
next
  case Stops
  then show ?thesis using e f by (auto simp: all_ends_first_def)
next
  case (Runs i c)
  then obtain a rest k gs st1 where a: "i < length (gos st)" "gos st ! i = a # rest" "resolver_act False c a st = Some (k, gs, st1)"
      "st' = after_step i k rest gs st st1"
    using e by (auto simp: after_step_def split: if_splits list.splits option.splits prod.splits)
  have "ends_first (a # rest)" using f a(1,2) by (metis all_ends_first_def list_all_length)
  from act_ends_first [OF inv a(1-3) this] have n: "ends_first (k @ rest)" "list_all ends_first gs" by blast+
  have "x \<in> set ((gos st)[i := k @ rest]) \<Longrightarrow> ends_first x" for x
    using f n(1) set_update_subset_insert [of "gos st" i "k @ rest"] by (auto simp: all_ends_first_def list_all_iff)
  then show ?thesis using n(2) a(4) by (auto simp: all_ends_first_def after_step_def list_all_iff)
qed

lemma reachable_ends_first: "resolver_reachable False st \<Longrightarrow> all_ends_first st"
proof (induction rule: resolver_reachable.induct)
  case resolver_start
  then show ?case by (simp add: all_ends_first_def idle_system_def)
next
  case (resolver_next st e st')
  then show ?case using event_ends_first [OF resolver_reachable_inv] by blast
qed

lemma close_run:
  assumes "resolver_inv st" "i < length (gos st)" "gos st ! i = xs @ AClose s # rest" "list_all ending xs"
  shows "\<exists>st'. resolver_run False (replicate (Suc (length xs)) (Runs i Goes)) st = Some st' \<and> sub_completed (subs (res st') ! s)"
  using assms
proof (induction xs arbitrary: st)
  case Nil
  note c = inv_step_close [OF Nil.prems(1,2), of s rest]
  have "s < length (subs (res st))" using c(2) Nil.prems(3) by (simp add: to_close_def)
  then show ?case using c(1) Nil.prems(2,3) by (simp add: act_close_def continues_def)
next
  case (Cons x xs)
  have "\<exists>st1. resolver_event False (Runs i Goes) st = Some st1 \<and> resolver_inv st1 \<and> i < length (gos st1) \<and>
      gos st1 ! i = xs @ AClose s # rest"
  proof (cases x)
    case (AClose y)
    note c = inv_step_close [OF Cons.prems(1,2), of y "xs @ AClose s # rest"]
    show ?thesis using c Cons.prems(2,3) AClose by (auto simp: act_close_def continues_def after_step_def)
  next
    case (ACancel t)
    note c = inv_step_cancel [OF Cons.prems(1,2), of t "xs @ AClose s # rest"]
    show ?thesis using c Cons.prems(2,3) ACancel by (auto simp: act_cancel_def continues_def after_step_def)
  qed (use Cons.prems(4) in auto)
  then show ?case using Cons.IH Cons.prems(4) by force
qed

lemma pending_pos: "pending a gs \<noteq> 0 \<Longrightarrow> \<exists>g \<in> set gs. a \<in> set g"
  by (induction gs) (auto simp: count_list_0_iff)

lemma removed_can_close:
  assumes reach: "resolver_reachable False st" and s: "s < length (subs (res st))" "sub_removed (subs (res st) ! s)"
  shows "\<exists>i n st'. resolver_run False (replicate n (Runs i Goes)) st = Some st' \<and> sub_completed (subs (res st') ! s)"
proof (cases "sub_completed (subs (res st) ! s)")
  case True
  then show ?thesis by (intro exI [of _ 0] exI [of _ st]) simp
next
  case False
  have inv: "resolver_inv st" by (rule resolver_reachable_inv [OF reach])
  have "pending (AClose s) (gos st) \<noteq> 0" using sys_close [OF inv, of s] s False by (simp add: to_close_def)
  then obtain g where g: "g \<in> set (gos st)" "AClose s \<in> set g"
    using pending_pos by blast
  obtain i where i: "i < length (gos st)" "gos st ! i = g" using g(1) by (auto simp: in_set_conv_nth)
  have "ends_first g" using reachable_ends_first [OF reach] g(1) by (simp add: all_ends_first_def list_all_iff)
  then have "AClose s \<in> set (takeWhile ending g)"
    using g(2) takeWhile_dropWhile_id [of ending g]
    by (metis (no_types, lifting) Un_iff ending.simps(1) ends_first_def list_all_iff set_append)
  then obtain xs ys where xs: "takeWhile ending g = xs @ AClose s # ys" by (meson split_list)
  have "g = xs @ AClose s # (ys @ dropWhile ending g)" using takeWhile_dropWhile_id [of ending g] xs by simp
  moreover have "list_all ending (takeWhile ending g)" by (auto simp: list_all_iff dest: set_takeWhileD)
  then have "list_all ending xs" unfolding xs by simp
  ultimately show ?thesis using close_run [OF inv i(1), of xs s] i(2) by blast
qed

section \<open>Calls that return an error\<close>

lemma act_returned_err:
  assumes act: "resolver_act dup c a st = Some (k, gs, st')"
  shows "stopped st' = stopped st \<and> (AReturnedErr s \<in> set k \<longrightarrow> stopped st) \<and> (\<forall>g \<in> set gs. AReturnedErr s \<notin> set g) \<and> gos st' = gos st"
proof (cases "changes_registry a")
  case True
  then show ?thesis using act
    by (cases a) (auto simp: act_add_def act_unsubscribe_def act_unsubscribe_client_def act_done_trigger_def act_shutdown_def
        act_close_def act_cancel_def continues_def result_actions_def closeSubs_def split: if_splits prod.splits added.splits)
next
  case False
  have "AReturnedErr s \<notin> set (call_actions tid x)" for tid x by (cases x) auto
  then show ?thesis using act False
    by (cases a) (auto simp: act_defs continues_def write_frame_def Let_def
        split: choice.splits call.splits if_splits option.splits list.splits prod.splits)
qed

lemma returned_err_stopped:
  assumes "resolver_reachable dup st" "g \<in> set (gos st)" "AReturnedErr s \<in> set g"
  shows "stopped st"
  using assms
proof (induction arbitrary: g rule: resolver_reachable.induct)
  case resolver_start
  then show ?case by (simp add: idle_system_def)
next
  case (resolver_next st e st')
  note IH = resolver_next.IH and g = resolver_next.prems
  show ?case
  proof (cases e)
    case (Arrives a)
    then show ?thesis using resolver_next.hyps(2) IH g by (cases a) (auto split: if_splits)
  next
    case Stops
    then show ?thesis using resolver_next.hyps(2) by auto
  next
    case (Runs i c)
    then obtain a rest k gs st1 where a: "i < length (gos st)" "gos st ! i = a # rest" "resolver_act dup c a st = Some (k, gs, st1)"
        "st' = st1\<lparr>gos := (gos st)[i := k @ rest] @ gs\<rparr>"
      using resolver_next.hyps(2) by (auto split: if_splits list.splits option.splits prod.splits)
    note n = act_returned_err [OF a(3), of s]
    have "g \<in> set (gos st) \<or> g = k @ rest \<or> g \<in> set gs"
      using g(1) a(4) set_update_subset_insert [of "gos st" i "k @ rest"] by auto
    moreover have "gos st ! i \<in> set (gos st)" using a(1) by simp
    then have "AReturnedErr s \<in> set rest \<Longrightarrow> stopped st" using IH a(2) by simp
    ultimately have "stopped st" using n IH g(2) by auto
    then show ?thesis using n a(4) by simp
  qed
qed

section \<open>A late \<open>Done\<close>\<close>

text \<open>\<open>Done\<close> looks at the flag of its own updater only, and names the trigger by identifier.\<close>

lemma stale_done:
  assumes inv: "resolver_inv st" and t: "t < length (trigs (res st))" "trig_started (trigs (res st) ! t)"
    and u: "\<not> upd_locked (trigs (res st) ! t)" "\<not> upd_done (trigs (res st) ! t)"
    and succ: "trigger_of (res st) (trig_id (trigs (res st) ! t)) = Some v"
  shows "\<exists>st'. resolver_run False [Arrives (ALock t CallDone), Runs (length (gos st)) Goes, Runs (length (gos st)) Goes] st = Some st' \<and>
    trigger_of (res st') (trig_id (trigs (res st) ! t)) = None \<and> ACancel v \<in> set (gos st' ! length (gos st)) \<and>
    (\<forall>s \<in> snd ` set (trig_subs (trigs (res st) ! v)). \<not> sub_removed (subs (res st) ! s) \<and> sub_removed (subs (res st') ! s) \<and>
      AClose s \<in> set (gos st' ! length (gos st))) \<and>
    map sub_writer (subs (res st')) = map sub_writer (subs (res st))"
proof -
  let ?r = "res st" and ?tid = "trig_id (trigs (res st) ! t)"
  let ?r1 = "upd_trig t (\<lambda>y. y\<lparr>upd_locked := True, upd_done := (upd_done y \<or> CallDone = CallDone)\<rparr>) ?r"
  have k: "same_keys ?r ?r1" by (rule trig_flags_quiet)
  note d = same_keysD [OF k] and ok1 = same_keys_ok [OF k sys_ok [OF inv]]
  obtain x r2 where x: "doneTriggerFromUpdater ?tid ?r1 = (x, r2)" by fastforce
  let ?cl = "res_toClose x" and ?ct = "cancels_of x"
  have ret: "retires (\<lambda>_ k. k = ?tid) ?r1 ?cl ?ct r2"
    using doneTriggerFromUpdater_retires [OF ok1, of ?tid] x by simp
  then have rm: "removal (\<lambda>_ k. k = ?tid) ?r1 ?cl ?ct
      (r2\<lparr>shutdown := shutdown ?r1, subscriptionCount := subscriptionCount ?r1, triggerCount := triggerCount ?r1\<rparr>)"
    by (simp add: retires_def)
  have tv: "trig_ok {} ?r ?tid v" by (rule core_trig [OF ok_core [OF sys_ok [OF inv]] succ])
  have v1: "trigger_of ?r1 ?tid = Some v" using succ d(3) by simp
  have none: "trigger_of r2 ?tid = None"
    using trigger_iff_view [OF retires_ok [OF ret], of ?tid] retires_view [OF ok1 ret]
    by (fastforce simp: ran_def split: option.splits if_splits)
  then have ct: "v \<in> set ?ct" using removal_trigger [OF rm, of ?tid] v1 by (auto split: if_splits)
  have len: "length (subs r2) = length (subs ?r)" using removal_subs [OF rm] d(1) by simp
  have wr: "sub_writer (subs r2 ! s) = sub_writer (subs ?r ! s)" if "s < length (subs ?r)" for s
    using removal_subs [OF rm] that by (simp add: upd_trig_def)
  have cl: "s < length (subs ?r) \<and> \<not> sub_removed (subs ?r ! s) \<and> sub_removed (subs r2 ! s) \<and> s \<in> set ?cl"
    if s: "(sid, s) \<in> set (trig_subs (trigs ?r ! v))" for sid s
  proof -
    have m: "subs_of ?r v sid = Some s" using s trig_okD(3) [OF tv] by simp
    have b: "byID ?r sid = Some s" "sub_trigger (subs ?r ! s) = ?tid" using trig_okD(5,6) [OF tv m] by blast+
    have so: "s < length (subs ?r)" "\<not> sub_removed (subs ?r ! s)"
      using sub_okD(1,3) [OF core_sub [OF ok_core [OF sys_ok [OF inv]] b(1)]] by blast+
    have c: "s \<in> set ?cl" using removal_closes [OF rm, of s] b d(4) d(8) [OF so(1)] by auto
    then show ?thesis using so removal_subs [OF rm] d(1) by simp
  qed
  let ?st' = "(with_res r2 st)\<lparr>gos := gos st @ [result_actions x @ [AUnlock t]]\<rparr>"
  have run: "resolver_run False [Arrives (ALock t CallDone), Runs (length (gos st)) Goes, Runs (length (gos st)) Goes] st = Some ?st'"
    using t u x by (simp add: act_lock_def act_done_trigger_def continues_def with_res_def Let_def)
  have "AClose s \<in> set (gos ?st' ! length (gos st))" if "s \<in> set ?cl" for s
    using that by (simp add: result_actions_eq closeSubs_def)
  moreover have "ACancel v \<in> set (gos ?st' ! length (gos st))" using ct by (simp add: result_actions_eq closeSubs_def)
  moreover have "map sub_writer (subs r2) = map sub_writer (subs ?r)" using len wr by (intro nth_equalityI) simp_all
  ultimately show ?thesis using run none cl by (intro exI [of _ ?st']) (fastforce simp: with_res_def)
qed

end
