(* ===== verification/Input_Template.thy ===== *)
theory Input_Template
  imports GQL_Prelude
begin

text \<open>
  Templates of inputs and the rendering of variables into them: \<open>v2/pkg/engine/resolve/inputtemplate.go\<close>,
  \<open>variables.go\<close> and \<open>variables_renderer.go\<close>. A JSON value is what the accessors of the library
  (\<open>astjson\<close>) tell of it; its marshalling and its look-ups, the headers of the request, the renderer of
  resolvable objects and \<open>httpclient.SetUndefinedVariables\<close> are fields of the environment. The writer
  is the string written so far.
\<close>

section \<open>Values and templates\<close>

datatype jvalue =
  JNull | JTrue | JFalse | JNumber string | JString string | JArray "jvalue list" | JObject "(string \<times> jvalue) list"

datatype VariableKind = ContextVariableKind | ObjectVariableKind | HeaderVariableKind | ResolvableObjectVariableKind | ListVariableKind

datatype SegmentType = StaticSegmentType | VariableSegmentType

datatype VariableRenderer = JSONVariableRenderer | PlainVariableRenderer | GraphQLVariableRenderer | CSVVariableRenderer

record 'n TemplateSegment =
  seg_SegmentType :: SegmentType
  seg_Data :: string
  seg_VariableKind :: VariableKind
  seg_VariableSourcePath :: "string list"
  seg_Renderer :: VariableRenderer
  seg_Node :: 'n

record 'n InputTemplate =
  Segments :: "'n TemplateSegment list"
  SetTemplateOutputToNullOnVariableNull :: bool

text \<open>\<open>IndexOutOfRange\<close> is a panic.\<close>

datatype template_error = IndexOutOfRange | HeaderPathInvalid | UnknownKind VariableKind | LibraryError string

record 'n template_env =
  MarshalTo :: "jvalue \<Rightarrow> string"
  value_Get :: "jvalue \<Rightarrow> string list \<Rightarrow> jvalue option"
  Variables_Get :: "string list \<Rightarrow> jvalue option"
  VariablesView_Get :: "string list \<Rightarrow> jvalue option"
  Header_Values :: "string \<Rightarrow> string list"
  resolve_object :: "'n \<Rightarrow> jvalue option \<Rightarrow> string + string"
  SetUndefinedVariables :: "string \<Rightarrow> string list \<Rightarrow> string + string"

section \<open>Variables\<close>

text \<open>The constructors of \<open>Variable\<close> and their segments; \<open>Equals\<close> does not look at the renderer.\<close>

datatype 'n Variable =
  ContextVariable "string list" VariableRenderer
| ObjectVariable "string list" VariableRenderer
| HeaderVariable "string list"
| ResolvableObjectVariable 'n

fun GetVariableKind :: "'n Variable \<Rightarrow> VariableKind" where
  "GetVariableKind (ContextVariable p r) = ContextVariableKind"
| "GetVariableKind (ObjectVariable p r) = ObjectVariableKind"
| "GetVariableKind (HeaderVariable p) = HeaderVariableKind"
| "GetVariableKind (ResolvableObjectVariable n) = ResolvableObjectVariableKind"

fun same_path :: "string list \<Rightarrow> string list \<Rightarrow> bool" where
  "same_path [] [] = True"
| "same_path (x # xs) (y # ys) = (if x \<noteq> y then False else same_path xs ys)"
| "same_path xs ys = False"

text \<open>\<open>node_eq\<close> is \<open>Node.Equals\<close> of the response tree; \<open>another\<close> is not nil.\<close>

fun Variable_Equals :: "('n \<Rightarrow> 'n \<Rightarrow> bool) \<Rightarrow> 'n Variable \<Rightarrow> 'n Variable \<Rightarrow> bool" where
  "Variable_Equals node_eq (ContextVariable p r) (ContextVariable q r') = same_path p q"
| "Variable_Equals node_eq (ObjectVariable p r) (ObjectVariable q r') = same_path p q"
| "Variable_Equals node_eq (HeaderVariable p) (HeaderVariable q) = same_path p q"
| "Variable_Equals node_eq (ResolvableObjectVariable n) (ResolvableObjectVariable n') = node_eq n n'"
| "Variable_Equals node_eq v w = False"

text \<open>\<open>AddVariable\<close> returns the index that the name \<open>$$index$$\<close> is made of.\<close>

fun index_of :: "('n \<Rightarrow> 'n \<Rightarrow> bool) \<Rightarrow> nat \<Rightarrow> 'n Variable list \<Rightarrow> 'n Variable \<Rightarrow> nat option" where
  "index_of node_eq i [] v = None"
| "index_of node_eq i (w # ws) v = (if Variable_Equals node_eq w v then Some i else index_of node_eq (Suc i) ws v)"

definition AddVariable :: "('n \<Rightarrow> 'n \<Rightarrow> bool) \<Rightarrow> 'n Variable list \<Rightarrow> 'n Variable \<Rightarrow> (nat \<times> bool) \<times> 'n Variable list" where
  "AddVariable node_eq vs v =
     (case index_of node_eq 0 vs v of
        Some i \<Rightarrow> ((i, True), vs)
      | None \<Rightarrow> ((length vs, False), vs @ [v]))"

section \<open>Renderers\<close>

abbreviation QUOTE :: char where "QUOTE \<equiv> CHR 0x22"
abbreviation BACKSLASH :: char where "BACKSLASH \<equiv> CHR 0x5C"

text \<open>\<open>renderGraphQLValue\<close>: a value as a GraphQL literal, to stand inside a JSON string.\<close>

definition graphql_string :: "string \<Rightarrow> string" where
  "graphql_string b =
     [BACKSLASH, QUOTE] @ concat (map (\<lambda>c. if c = QUOTE then [BACKSLASH, BACKSLASH, QUOTE] else [c]) b) @ [BACKSLASH, QUOTE]"

fun join_comma :: "string list \<Rightarrow> string" where
  "join_comma [] = []"
| "join_comma [x] = x"
| "join_comma (x # y # zs) = x @ '','' @ join_comma (y # zs)"

fun renderGraphQLValue :: "(jvalue \<Rightarrow> string) \<Rightarrow> jvalue \<Rightarrow> string" where
  "renderGraphQLValue marshal (JString b) = graphql_string b"
| "renderGraphQLValue marshal (JObject kvs) =
     ''{'' @ join_comma (map (\<lambda>(k, v). k @ '':'' @ renderGraphQLValue marshal v) kvs) @ ''}''"
| "renderGraphQLValue marshal JNull = ''null''"
| "renderGraphQLValue marshal JTrue = ''true''"
| "renderGraphQLValue marshal JFalse = ''false''"
| "renderGraphQLValue marshal (JArray vs) = ''['' @ join_comma (map (renderGraphQLValue marshal) vs) @ '']''"
| "renderGraphQLValue marshal (JNumber n) = marshal (JNumber n)"

definition csv_element :: "(jvalue \<Rightarrow> string) \<Rightarrow> jvalue \<Rightarrow> string" where
  "csv_element marshal v = (case v of JString b \<Rightarrow> b | _ \<Rightarrow> marshal v)"

text \<open>\<open>GetArray\<close> of a value that is not an array is nil.\<close>

definition GetArray :: "jvalue \<Rightarrow> jvalue list" where
  "GetArray v = (case v of JArray vs \<Rightarrow> vs | _ \<Rightarrow> [])"

definition RenderVariable :: "(jvalue \<Rightarrow> string) \<Rightarrow> VariableRenderer \<Rightarrow> jvalue \<Rightarrow> string" where
  "RenderVariable marshal r v =
     (case r of
        JSONVariableRenderer \<Rightarrow> marshal v
      | PlainVariableRenderer \<Rightarrow> (case v of JString b \<Rightarrow> b | _ \<Rightarrow> marshal v)
      | GraphQLVariableRenderer \<Rightarrow> renderGraphQLValue marshal v
      | CSVVariableRenderer \<Rightarrow> join_comma (map (csv_element marshal) (GetArray v)))"

section \<open>Rendering a template\<close>

text \<open>\<open>None\<close> is the sentinel \<open>errSetTemplateOutputNull\<close>.\<close>

definition renderObjectVariable ::
    "'n template_env \<Rightarrow> bool \<Rightarrow> jvalue option \<Rightarrow> 'n TemplateSegment \<Rightarrow> string \<Rightarrow> string option" where
  "renderObjectVariable env to_null variables segment out =
     (case (case variables of None \<Rightarrow> None | Some d \<Rightarrow> value_Get env d (seg_VariableSourcePath segment)) of
        None \<Rightarrow> if to_null then None else Some (out @ ''null'')
      | Some value \<Rightarrow>
          if value = JNull then (if to_null then None else Some (out @ ''null''))
          else Some (out @ RenderVariable (MarshalTo env) (seg_Renderer segment) value))"

text \<open>With whether the variable was undefined.\<close>

definition renderContextVariable :: "'n template_env \<Rightarrow> 'n TemplateSegment \<Rightarrow> string \<Rightarrow> bool \<times> string" where
  "renderContextVariable env segment out =
     (case VariablesView_Get env (seg_VariableSourcePath segment) of
        None \<Rightarrow> (True, out @ ''null'')
      | Some value \<Rightarrow> (False, out @ RenderVariable (MarshalTo env) (seg_Renderer segment) value))"

definition renderHeaderVariable :: "'n template_env \<Rightarrow> string list \<Rightarrow> string \<Rightarrow> (template_error, string) result" where
  "renderHeaderVariable env path out =
     (if length path \<noteq> 1 then Inl HeaderPathInvalid
      else Inr (out @ join_comma (Header_Values env (path ! 0))))"

text \<open>The loop of \<open>renderSegments\<close>: what is written and the undefined variables, in order.\<close>

fun renderSegments ::
    "'n template_env \<Rightarrow> bool \<Rightarrow> jvalue option \<Rightarrow> 'n TemplateSegment list \<Rightarrow> string \<times> string list \<Rightarrow>
     (template_error, string \<times> string list) result" where
  "renderSegments env to_null data [] (out, undef) = Inr (out, undef)"
| "renderSegments env to_null data (segment # segments) (out, undef) =
     (case seg_SegmentType segment of
        StaticSegmentType \<Rightarrow> renderSegments env to_null data segments (out @ seg_Data segment, undef)
      | VariableSegmentType \<Rightarrow>
          (case seg_VariableKind segment of
             ObjectVariableKind \<Rightarrow>
               (case renderObjectVariable env to_null data segment out of
                  None \<Rightarrow> Inr (''null'', undef)
                | Some out \<Rightarrow> renderSegments env to_null data segments (out, undef))
           | ContextVariableKind \<Rightarrow>
               (case renderContextVariable env segment out of
                  (False, out) \<Rightarrow> renderSegments env to_null data segments (out, undef)
                | (True, out) \<Rightarrow>
                    (case seg_VariableSourcePath segment of
                       [] \<Rightarrow> Inl IndexOutOfRange
                     | name # _ \<Rightarrow> renderSegments env to_null data segments (out, undef @ [name])))
           | ResolvableObjectVariableKind \<Rightarrow>
               (case resolve_object env (seg_Node segment) data of
                  Inl e \<Rightarrow> Inl (LibraryError e)
                | Inr s \<Rightarrow> renderSegments env to_null data segments (out @ s, undef))
           | HeaderVariableKind \<Rightarrow>
               (case renderHeaderVariable env (seg_VariableSourcePath segment) out of
                  Inl e \<Rightarrow> Inl e
                | Inr out \<Rightarrow> renderSegments env to_null data segments (out, undef))
           | ListVariableKind \<Rightarrow> Inl (UnknownKind ListVariableKind)))"

definition SetInputUndefinedVariables :: "'n template_env \<Rightarrow> string \<Rightarrow> string list \<Rightarrow> (template_error, string) result" where
  "SetInputUndefinedVariables env out undef =
     (if undef \<noteq> [] then map_sum LibraryError id (SetUndefinedVariables env out undef) else Inr out)"

definition Render :: "'n template_env \<Rightarrow> 'n InputTemplate \<Rightarrow> jvalue option \<Rightarrow> (template_error, string) result" where
  "Render env i data =
     res_bind (renderSegments env (SetTemplateOutputToNullOnVariableNull i) data (Segments i) ([], []))
       (\<lambda>(out, undef). SetInputUndefinedVariables env out undef)"

section \<open>What rendering gives\<close>

lemma renderSegments_static:
  "\<forall>s \<in> set segs. seg_SegmentType s = StaticSegmentType \<Longrightarrow>
    renderSegments env b data segs (out, undef) = Inr (out @ concat (map seg_Data segs), undef)"
  by (induction segs arbitrary: out) auto

lemma Render_static:
  "\<forall>s \<in> set (Segments i). seg_SegmentType s = StaticSegmentType \<Longrightarrow> Render env i data = Inr (concat (map seg_Data (Segments i)))"
  by (simp add: Render_def renderSegments_static SetInputUndefinedVariables_def)

lemma Render_context:
  assumes "Segments i = [s]" "seg_SegmentType s = VariableSegmentType" "seg_VariableKind s = ContextVariableKind"
    "VariablesView_Get env (seg_VariableSourcePath s) = Some v"
  shows "Render env i data = Inr (RenderVariable (MarshalTo env) (seg_Renderer s) v)"
  using assms by (simp add: Render_def SetInputUndefinedVariables_def renderContextVariable_def)

section \<open>Strings inside a JSON string\<close>

text \<open>
  What a JSON parser reads inside a string: the content up to the first quote that is not escaped, and
  the rest. Of the escapes only those that \<open>graphql_string\<close> writes are read.
\<close>

fun json_string_content :: "string \<Rightarrow> (string \<times> string) option" where
  "json_string_content [] = None"
| "json_string_content (c # s) =
     (if c = QUOTE then Some ([], s)
      else if c = BACKSLASH then
        (case s of
           d # s' \<Rightarrow> if d = QUOTE \<or> d = BACKSLASH then map_option (map_prod ((#) d) id) (json_string_content s') else None
         | [] \<Rightarrow> None)
      else map_option (map_prod ((#) c) id) (json_string_content s))"

lemma json_string_content_plain:
  "QUOTE \<notin> set s \<Longrightarrow> BACKSLASH \<notin> set s \<Longrightarrow> json_string_content (s @ t) = map_option (map_prod ((@) s) id) (json_string_content t)"
  by (cases "json_string_content t") (induction s; auto)+

lemma graphql_string_plain: "QUOTE \<notin> set b \<Longrightarrow> graphql_string b = [BACKSLASH, QUOTE] @ b @ [BACKSLASH, QUOTE]"
  unfolding graphql_string_def by (induction b) auto

lemma graphql_string_reads_back:
  "QUOTE \<notin> set b \<Longrightarrow> BACKSLASH \<notin> set b \<Longrightarrow> json_string_content (graphql_string b @ [QUOTE]) = Some (QUOTE # b @ [QUOTE], [])"
  using json_string_content_plain [of b "[BACKSLASH, QUOTE, QUOTE]"]
  by (simp add: graphql_string_plain)

text \<open>The first quote of the value ends the JSON string.\<close>

lemma graphql_string_breaks:
  assumes "QUOTE \<notin> set a" "BACKSLASH \<notin> set a"
  shows "\<exists>rest. json_string_content (graphql_string (a @ QUOTE # b) @ [QUOTE]) = Some (QUOTE # a @ [BACKSLASH], rest) \<and> rest \<noteq> []"
proof -
  let ?e = "\<lambda>s. concat (map (\<lambda>c. if c = QUOTE then [BACKSLASH, BACKSLASH, QUOTE] else [c]) s)"
  have "?e a = a" using assms(1) by (induction a) auto
  then have "graphql_string (a @ QUOTE # b) @ [QUOTE] =
      BACKSLASH # QUOTE # a @ BACKSLASH # BACKSLASH # QUOTE # (?e b @ [BACKSLASH, QUOTE, QUOTE])"
    by (simp add: graphql_string_def)
  then show ?thesis
    using json_string_content_plain [OF assms, of "BACKSLASH # BACKSLASH # QUOTE # (?e b @ [BACKSLASH, QUOTE, QUOTE])"] by simp
qed

section \<open>Variables are not repeated\<close>

lemma same_path_eq [simp]: "same_path p q = (p = q)"
  by (induction p q rule: same_path.induct) auto

lemma index_of_None: "index_of node_eq i vs v = None \<longleftrightarrow> (\<forall>w \<in> set vs. \<not> Variable_Equals node_eq w v)"
  by (induction vs arbitrary: i) auto

lemma index_of_Some: "index_of node_eq i vs v = Some k \<Longrightarrow> i \<le> k \<and> k < i + length vs \<and> Variable_Equals node_eq (vs ! (k - i)) v"
  by (induction vs arbitrary: i) (fastforce split: if_splits simp: nth_Cons')+

lemma AddVariable_index:
  assumes eq: "\<And>n. node_eq n n" and add: "AddVariable node_eq vs v = ((i, b), ws)"
  shows "i < length ws \<and> Variable_Equals node_eq (ws ! i) v \<and> take (length vs) ws = vs"
proof -
  have "Variable_Equals node_eq v v" using eq by (cases v) auto
  then show ?thesis using add index_of_Some [of node_eq 0 vs v]
    by (auto simp: AddVariable_def split: option.splits)
qed

end
