(* ===== verification/Subscription_Filter.thy ===== *)
theory Subscription_Filter
  imports Input_Template
begin

text \<open>
  The filters of subscriptions, \<open>v2/pkg/engine/resolve/subscription_filter.go\<close>: whether an event is
  skipped for a subscription. The look-ups in the event and the types of JSON text (\<open>jsonparser\<close>) are
  fields of the environment; \<open>json.Marshal\<close> of a string and the regular expression for arrays are
  written out.
\<close>

section \<open>The library functions the filter uses\<close>

datatype ValueType = NotExist | StringType | NumberType | ObjectType | ArrayType | BooleanType | NullType | UnknownType

text \<open>
  \<open>event_Get\<close> is \<open>jsonparser.Get(data, path...)\<close> on the event, \<open>text_type\<close> the type \<open>jsonparser.Get\<close>
  finds in a text, \<open>ArrayEach\<close> the elements of an array; \<open>None\<close> is an error.
\<close>

record 'n filter_env =
  template :: "'n template_env"
  event_Get :: "string list \<Rightarrow> (string \<times> ValueType) option"
  text_type :: "string \<Rightarrow> ValueType option"
  ArrayEach :: "string \<Rightarrow> (string \<times> ValueType) list"

text \<open>\<open>json.Marshal\<close> of a string in UTF-8 without the separators U+2028 and U+2029.\<close>

definition hex_digit :: "nat \<Rightarrow> char" where
  "hex_digit n = (if n < 10 then char_of (48 + n) else char_of (87 + n))"

definition json_char :: "char \<Rightarrow> string" where
  "json_char c =
     (if c = QUOTE \<or> c = BACKSLASH then [BACKSLASH, c]
      else if c = CHR 0x08 then BACKSLASH # ''b''
      else if c = CHR 0x0C then BACKSLASH # ''f''
      else if c = CHR 0x0A then BACKSLASH # ''n''
      else if c = CHR 0x0D then BACKSLASH # ''r''
      else if c = CHR 0x09 then BACKSLASH # ''t''
      else if of_char c < (0x20::nat) \<or> c \<in> {CHR ''<'', CHR ''>'', CHR ''&''} then
        BACKSLASH # ''u00'' @ [hex_digit (of_char c div 16), hex_digit (of_char c mod 16)]
      else [c])"

definition json_Marshal :: "string \<Rightarrow> string" where
  "json_Marshal s = QUOTE # concat (map json_char s) @ [QUOTE]"

text \<open>\<open>\[(.*?)\]\<close> from the left: a bracket, the shortest text without a line feed, a bracket.\<close>

fun upto_bracket :: "string \<Rightarrow> (string \<times> string) option" where
  "upto_bracket [] = None"
| "upto_bracket (c # s) =
     (if c = CHR '']'' then Some ([c], s)
      else if c = CHR 0x0A then None
      else map_option (\<lambda>(m, rest). (c # m, rest)) (upto_bracket s))"

lemma upto_bracket_length: "upto_bracket s = Some (m, rest) \<Longrightarrow> length rest < length s"
  by (induction s arbitrary: m) (auto split: if_splits)

function findArray :: "string \<Rightarrow> string list" where
  "findArray [] = []"
| "findArray (c # s) =
     (if c = CHR ''['' then
        (case upto_bracket s of
           Some (m, rest) \<Rightarrow> (c # m) # findArray rest
         | None \<Rightarrow> findArray s)
      else findArray s)"
  by pat_completeness auto
termination
  by (relation "measure length") (auto dest: upto_bracket_length)

text \<open>\<open>bytes.Replace(s, old, new, 1)\<close> for a non-empty \<open>old\<close>.\<close>

fun replace_once :: "string \<Rightarrow> string \<Rightarrow> string \<Rightarrow> string" where
  "replace_once old new [] = []"
| "replace_once old new (c # s) =
     (if take (length old) (c # s) = old then new @ drop (length old) (c # s)
      else c # replace_once old new s)"

section \<open>Filters\<close>

datatype filter_error = TemplateError template_error | ErrInvalidSubscriptionFilterTemplate

record 'n SubscriptionFieldFilter =
  FieldPath :: "string list"
  Values :: "'n InputTemplate list"

text \<open>A nil slice is \<open>None\<close>, an empty one \<open>Some []\<close>.\<close>

datatype 'n SubscriptionFilter = SubscriptionFilter
  (filter_And: "'n SubscriptionFilter list option")
  (filter_Or: "'n SubscriptionFilter list option")
  (filter_Not: "'n SubscriptionFilter option")
  (filter_In: "'n SubscriptionFieldFilter option")

fun value_type :: "jvalue \<Rightarrow> ValueType" where
  "value_type (JString s) = StringType"
| "value_type (JNumber s) = NumberType"
| "value_type JTrue = BooleanType"
| "value_type JFalse = BooleanType"
| "value_type JNull = NullType"
| "value_type (JObject kvs) = ObjectType"
| "value_type (JArray vs) = ArrayType"

text \<open>The type of a template with one segment; \<open>None\<close> makes the filter skip.\<close>

definition segment_type :: "'n filter_env \<Rightarrow> 'n TemplateSegment \<Rightarrow> ValueType option" where
  "segment_type env segment =
     (case seg_SegmentType segment of
        VariableSegmentType \<Rightarrow> map_option value_type (Variables_Get (template env) (seg_VariableSourcePath segment))
      | StaticSegmentType \<Rightarrow> text_type env (seg_Data segment))"

text \<open>
  The loop of \<open>SubscriptionFieldFilter.SkipEvent\<close> over the values. The event's value \<open>expected\<close> is a
  variable of the loop: a string that is compared is marshalled and stays so for the next value.
\<close>

fun skip_values :: "'n filter_env \<Rightarrow> ValueType \<Rightarrow> 'n InputTemplate list \<Rightarrow> string \<Rightarrow> (filter_error, bool) result" where
  "skip_values env expectedType [] expected = Inr True"
| "skip_values env expectedType (v # vs) expected =
     (case Render (template env) v None of
        Inl e \<Rightarrow> Inl (TemplateError e)
      | Inr raw \<Rightarrow>
          if CHR ''['' \<notin> set raw \<or> CHR '']'' \<notin> set raw then
            if length (Segments v) = 1 then
              (case segment_type env (Segments v ! 0) of
                 None \<Rightarrow> Inr True
               | Some valueType \<Rightarrow>
                   if valueType \<noteq> NotExist \<and> expectedType \<noteq> valueType then Inr True
                   else if expectedType = valueType \<and> expected = raw then Inr False
                   else
                     (let expected = (if expectedType = StringType then json_Marshal expected else expected) in
                      if expected = raw then Inr False else skip_values env expectedType vs expected))
            else if expected = raw then Inr False
            else skip_values env expectedType vs expected
          else
            (case findArray raw of
               [] \<Rightarrow> if expected = raw then Inr False else skip_values env expectedType vs expected
             | [m] \<Rightarrow>
                 if list_ex (\<lambda>(value, dataType). expectedType = dataType \<and> expected = replace_once m value raw) (ArrayEach env m)
                 then Inr False else skip_values env expectedType vs expected
             | _ \<Rightarrow> Inl ErrInvalidSubscriptionFilterTemplate))"

definition SkipEvent_field :: "'n filter_env \<Rightarrow> 'n SubscriptionFieldFilter \<Rightarrow> (filter_error, bool) result" where
  "SkipEvent_field env f =
     (case event_Get env (FieldPath f) of
        None \<Rightarrow> Inr True
      | Some (expected, expectedType) \<Rightarrow> skip_values env expectedType (Values f) expected)"

text \<open>\<open>SubscriptionFilter.SkipEvent\<close> with its two loops; a nil filter skips nothing.\<close>

fun SkipEvent :: "'n filter_env \<Rightarrow> 'n SubscriptionFilter \<Rightarrow> (filter_error, bool) result"
  and skip_and :: "'n filter_env \<Rightarrow> 'n SubscriptionFilter list \<Rightarrow> (filter_error, bool) result"
  and skip_or :: "'n filter_env \<Rightarrow> 'n SubscriptionFilter list \<Rightarrow> (filter_error, bool) result" where
  "SkipEvent env (SubscriptionFilter fAnd fOr fNot fIn) =
     (case fAnd of
        Some fs \<Rightarrow> skip_and env fs
      | None \<Rightarrow>
          (case fOr of
             Some fs \<Rightarrow> skip_or env fs
           | None \<Rightarrow>
               (case fNot of
                  Some f \<Rightarrow> res_bind (SkipEvent env f) (\<lambda>skip. Inr (\<not> skip))
                | None \<Rightarrow> (case fIn of Some f \<Rightarrow> SkipEvent_field env f | None \<Rightarrow> Inr False))))"
| "skip_and env [] = Inr False"
| "skip_and env (f # fs) = res_bind (SkipEvent env f) (\<lambda>skip. if skip then Inr True else skip_and env fs)"
| "skip_or env [] = Inr True"
| "skip_or env (f # fs) = res_bind (SkipEvent env f) (\<lambda>skip. if \<not> skip then Inr False else skip_or env fs)"

definition SkipEvent_nil :: "'n filter_env \<Rightarrow> 'n SubscriptionFilter option \<Rightarrow> (filter_error, bool) result" where
  "SkipEvent_nil env f = (case f of None \<Rightarrow> Inr False | Some f \<Rightarrow> SkipEvent env f)"

section \<open>The meaning of a filter\<close>

text \<open>
  The filter as a formula over its field filters. The fields are alternatives in this order, and a
  filter without any of them admits every event.
\<close>

function admits :: "('n SubscriptionFieldFilter \<Rightarrow> bool) \<Rightarrow> 'n SubscriptionFilter \<Rightarrow> bool" where
  "admits A (SubscriptionFilter fAnd fOr fNot fIn) =
     (case (fAnd, fOr, fNot, fIn) of
        (Some fs, _, _, _) \<Rightarrow> (\<forall>f \<in> set fs. admits A f)
      | (None, Some fs, _, _) \<Rightarrow> (\<exists>f \<in> set fs. admits A f)
      | (None, None, Some f, _) \<Rightarrow> \<not> admits A f
      | (None, None, None, Some f) \<Rightarrow> A f
      | (None, None, None, None) \<Rightarrow> True)"
  by pat_completeness auto
termination
  by (relation "measure (size \<circ> snd)") (auto dest: size_list_estimation' [OF _ order_refl, of _ _ size] simp: less_Suc_eq_le)

text \<open>The field filters a filter may evaluate.\<close>

fun atoms :: "'n SubscriptionFilter \<Rightarrow> 'n SubscriptionFieldFilter list"
  and atoms_of :: "'n SubscriptionFilter list \<Rightarrow> 'n SubscriptionFieldFilter list" where
  "atoms (SubscriptionFilter fAnd fOr fNot fIn) =
     (case fAnd of
        Some fs \<Rightarrow> atoms_of fs
      | None \<Rightarrow> (case fOr of Some fs \<Rightarrow> atoms_of fs | None \<Rightarrow>
          (case fNot of Some f \<Rightarrow> atoms f | None \<Rightarrow> (case fIn of Some f \<Rightarrow> [f] | None \<Rightarrow> []))))"
| "atoms_of [] = []"
| "atoms_of (f # fs) = atoms f @ atoms_of fs"

definition field_admits :: "'n filter_env \<Rightarrow> 'n SubscriptionFieldFilter \<Rightarrow> bool" where
  "field_admits env f = (SkipEvent_field env f = Inr False)"

lemma SkipEvent_admits:
  "(\<forall>a \<in> set (atoms f). \<exists>b. SkipEvent_field env a = Inr b) \<Longrightarrow> SkipEvent env f = Inr (\<not> admits (field_admits env) f)"
  "(\<forall>a \<in> set (atoms_of fs). \<exists>b. SkipEvent_field env a = Inr b) \<Longrightarrow>
    skip_and env fs = Inr (\<not> (\<forall>f \<in> set fs. admits (field_admits env) f))"
  "(\<forall>a \<in> set (atoms_of gs). \<exists>b. SkipEvent_field env a = Inr b) \<Longrightarrow>
    skip_or env gs = Inr (\<not> (\<exists>f \<in> set gs. admits (field_admits env) f))"
proof (induction env f and env fs and env gs rule: SkipEvent_skip_and_skip_or.induct)
  case (1 env fAnd fOr fNot fIn)
  then show ?case by (auto simp: field_admits_def split: option.splits)
qed auto

lemma SkipEvent_error:
  "SkipEvent env f = Inl e \<Longrightarrow> \<exists>a \<in> set (atoms f). SkipEvent_field env a = Inl e"
  "skip_and env fs = Inl e \<Longrightarrow> \<exists>a \<in> set (atoms_of fs). SkipEvent_field env a = Inl e"
  "skip_or env gs = Inl e \<Longrightarrow> \<exists>a \<in> set (atoms_of gs). SkipEvent_field env a = Inl e"
proof (induction env f and env fs and env gs rule: SkipEvent_skip_and_skip_or.induct)
  case (1 env fAnd fOr fNot fIn)
  then show ?case by (auto simp: res_bind_Err_iff split: option.splits)
next
  case (3 env f fs)
  then show ?case by (cases "SkipEvent env f") (auto split: if_splits)
next
  case (5 env f fs)
  then show ?case by (cases "SkipEvent env f") (auto split: if_splits)
qed auto

section \<open>A list of strings\<close>

text \<open>A value of another type than the event's ends the search: the values behind it are not compared.\<close>

lemma skip_on_other_type:
  assumes "Render (template env) v None = Inr raw" "CHR ''['' \<notin> set raw" "Segments v = [segment]"
    and "segment_type env segment = Some type" "type \<noteq> NotExist" "type \<noteq> expectedType"
  shows "skip_values env expectedType (v # vs) expected = Inr True"
  using assms by auto

text \<open>
  \<open>v\<close> renders to \<open>raw\<close>, without brackets, from one segment that is a string.
\<close>

definition string_value :: "'n filter_env \<Rightarrow> 'n InputTemplate \<Rightarrow> string \<Rightarrow> bool" where
  "string_value env v raw \<longleftrightarrow>
     Render (template env) v None = Inr raw \<and> (CHR ''['' \<notin> set raw \<or> CHR '']'' \<notin> set raw) \<and>
     length (Segments v) = 1 \<and> segment_type env (Segments v ! 0) = Some StringType"

lemma skip_strings:
  "list_all2 (string_value env) vs raws \<Longrightarrow>
    skip_values env StringType vs x =
      Inr (\<not> (\<exists>k < length raws. (json_Marshal ^^ k) x = raws ! k \<or> (json_Marshal ^^ Suc k) x = raws ! k))"
proof (induction vs arbitrary: raws x)
  case (Cons v vs)
  obtain r rs where raws: "raws = r # rs" and r: "string_value env v r" and rs: "list_all2 (string_value env) vs rs"
    using Cons.prems by (cases raws) auto
  have shift: "(json_Marshal ^^ k) (json_Marshal x) = (json_Marshal ^^ Suc k) x" for k by (simp add: funpow_swap1)
  have one: "(json_Marshal ^^ Suc 0) x = json_Marshal x" by simp
  have ex: "(\<exists>k < Suc n. P k) \<longleftrightarrow> P 0 \<or> (\<exists>k < n. P (Suc k))" for n and P :: "nat \<Rightarrow> bool"
    using less_Suc_eq_0_disj by auto
  show ?case using r Cons.IH [OF rs, of "json_Marshal x"] unfolding raws
    by (auto simp: string_value_def ex shift one Let_def simp del: funpow.simps)
qed simp

text \<open>A string that \<open>json.Marshal\<close> only wraps in quotes.\<close>

definition plain_string :: "string \<Rightarrow> bool" where
  "plain_string s \<longleftrightarrow> (\<forall>c \<in> set s. json_char c = [c])"

lemma plain_Marshal: "plain_string s \<Longrightarrow> json_Marshal s = QUOTE # s @ [QUOTE]"
  unfolding json_Marshal_def plain_string_def by (induction s) auto

lemma plain_no_quote: "plain_string s \<Longrightarrow> QUOTE \<notin> set s \<and> BACKSLASH \<notin> set s"
  by (auto simp: plain_string_def json_char_def)

lemma Marshal_quotes: "QUOTE \<in> set (json_Marshal s)"
  by (simp add: json_Marshal_def)

lemma json_char_QUOTE: "json_char QUOTE = [BACKSLASH, QUOTE]"
  by (simp add: json_char_def)

lemma Marshal_escapes:
  assumes "QUOTE \<in> set s"
  shows "BACKSLASH \<in> set (json_Marshal s)"
proof -
  obtain a b where "s = a @ QUOTE # b" using assms by (meson split_list)
  then show ?thesis by (simp add: json_Marshal_def json_char_QUOTE)
qed

lemma Marshal_twice: "BACKSLASH \<in> set ((json_Marshal ^^ Suc (Suc k)) x)"
  using Marshal_escapes [OF Marshal_quotes, of "(json_Marshal ^^ k) x"] by simp

lemma Marshal_plain_cases:
  assumes "plain_string w" "plain_string x"
  shows "(json_Marshal ^^ k) x = json_Marshal w \<longleftrightarrow> k = 1 \<and> x = w"
    and "(json_Marshal ^^ k) x = w \<longleftrightarrow> k = 0 \<and> x = w"
proof -
  have w: "BACKSLASH \<notin> set (json_Marshal w)" "BACKSLASH \<notin> set w" "QUOTE \<notin> set w" "QUOTE \<notin> set x"
    using plain_Marshal [OF assms(1)] plain_no_quote [OF assms(1)] plain_no_quote [OF assms(2)] by auto
  consider "k = 0" | "k = 1" | j where "k = Suc (Suc j)" by (metis One_nat_def not0_implies_Suc)
  then have "((json_Marshal ^^ k) x = json_Marshal w \<longleftrightarrow> k = 1 \<and> x = w) \<and> ((json_Marshal ^^ k) x = w \<longleftrightarrow> k = 0 \<and> x = w)"
  proof cases
    case 1
    have "x \<noteq> json_Marshal w" using Marshal_quotes [of w] w(4) by auto
    then show ?thesis using 1 by simp
  next
    case 2
    have "json_Marshal x \<noteq> w" using Marshal_quotes [of x] w(3) by auto
    moreover have "json_Marshal x = json_Marshal w \<longleftrightarrow> x = w" using plain_Marshal [OF assms(1)] plain_Marshal [OF assms(2)] by simp
    ultimately show ?thesis using 2 by simp
  next
    case 3
    have "(json_Marshal ^^ k) x \<noteq> json_Marshal w" "(json_Marshal ^^ k) x \<noteq> w"
      using Marshal_twice [of j x] w(1,2) unfolding 3 by metis+
    then show ?thesis using 3 by simp
  qed
  then show "(json_Marshal ^^ k) x = json_Marshal w \<longleftrightarrow> k = 1 \<and> x = w" "(json_Marshal ^^ k) x = w \<longleftrightarrow> k = 0 \<and> x = w" by blast+
qed

lemma skip_marshalled_strings:
  assumes "list_all2 (string_value env) vs (map json_Marshal ws)" "list_all plain_string ws" "plain_string x"
  shows "skip_values env StringType vs x = Inr (x \<notin> set (take 2 ws))"
proof -
  have p: "plain_string (ws ! k)" if "k < length ws" for k using assms(2) that by (simp add: list_all_length)
  have eq: "(json_Marshal ^^ j) x = map json_Marshal ws ! k \<longleftrightarrow> j = 1 \<and> x = ws ! k" if "k < length ws" for j k
    using Marshal_plain_cases(1) [OF p [OF that] assms(3)] that by simp
  have "(\<exists>k < length ws. (json_Marshal ^^ k) x = map json_Marshal ws ! k \<or> (json_Marshal ^^ Suc k) x = map json_Marshal ws ! k) \<longleftrightarrow>
      (\<exists>k < length ws. (k = 1 \<or> k = 0) \<and> x = ws ! k)"
    using eq by (auto simp del: funpow.simps)
  also have "\<dots> \<longleftrightarrow> x \<in> set (take 2 ws)"
    by (auto simp: in_set_conv_nth numeral_2_eq_2 less_Suc_eq)
  finally show ?thesis unfolding skip_strings [OF assms(1)] length_map by (rule arg_cong)
qed

lemma skip_raw_strings:
  assumes "list_all2 (string_value env) vs ws" "list_all plain_string ws" "plain_string x"
  shows "skip_values env StringType vs x = Inr (x \<notin> set (take 1 ws))"
proof -
  have p: "plain_string (ws ! k)" if "k < length ws" for k using assms(2) that by (simp add: list_all_length)
  have eq: "(json_Marshal ^^ j) x = ws ! k \<longleftrightarrow> j = 0 \<and> x = ws ! k" if "k < length ws" for j k
    using Marshal_plain_cases(2) [OF p [OF that] assms(3)] by simp
  have "(\<exists>k < length ws. (json_Marshal ^^ k) x = ws ! k \<or> (json_Marshal ^^ Suc k) x = ws ! k) \<longleftrightarrow>
      (\<exists>k < length ws. k = 0 \<and> x = ws ! k)"
    using eq by (auto simp del: funpow.simps)
  also have "\<dots> \<longleftrightarrow> x \<in> set (take 1 ws)"
    by (cases ws) auto
  finally show ?thesis unfolding skip_strings [OF assms(1)] by (rule arg_cong)
qed

end
