(* ===== verification/Key_Jumps.thy ===== *)
theory Key_Jumps
  imports GQL_Prelude "HOL-Library.Word"
begin

text \<open>
  The jumps between data sources by entity keys: \<open>v2/pkg/engine/plan/source_connection_graph.go\<close> and the
  choice of a path in \<open>datasource_filter_visitor.go\<close>. The search appends to Go slices that share their
  arrays, so slices are modelled as such: a heap of arrays, and slices that refer to them.
\<close>

section \<open>Slices\<close>

record 'a backing =
  cells :: "'a list"
  cap :: nat

text \<open>The array and the length; \<open>cells\<close> are the cells written so far, of \<open>cap\<close> many.\<close>

datatype slice = NilSlice | Slice nat nat

fun slice_len :: "slice \<Rightarrow> nat" where
  "slice_len NilSlice = 0"
| "slice_len (Slice a n) = n"

fun slice_read :: "'a backing list \<Rightarrow> slice \<Rightarrow> 'a list" where
  "slice_read h NilSlice = []"
| "slice_read h (Slice a n) = take n (cells (h ! a))"

text \<open>
  The capacity Go's \<open>append\<close> gives an array in place of a full one, for elements of the size of a
  \<open>KeyJump\<close> (104 bytes) and one element to add: twice the old one, rounded up to a size class.
\<close>

definition append_capacity :: "nat \<Rightarrow> nat" where
  "append_capacity c = (if c = 0 then 1 else if c = 8 then 17 else 2 * c)"

text \<open>\<open>append\<close> writes behind the slice when its array has room, whoever else refers to that array.\<close>

definition slice_append :: "slice \<Rightarrow> 'a \<Rightarrow> 'a backing list \<Rightarrow> slice \<times> 'a backing list" where
  "slice_append sl x h =
     (case sl of
        NilSlice \<Rightarrow> (Slice (length h) 1, h @ [\<lparr>cells = [x], cap = append_capacity 0\<rparr>])
      | Slice a n \<Rightarrow>
          if n < cap (h ! a) then
            (Slice a (Suc n), h[a := (h ! a)\<lparr>cells := take n (cells (h ! a)) @ [x] @ drop (Suc n) (cells (h ! a))\<rparr>])
          else
            (Slice (length h) (Suc n), h @ [\<lparr>cells = take n (cells (h ! a)) @ [x], cap = append_capacity (cap (h ! a))\<rparr>]))"

section \<open>Keys and jumps\<close>

type_synonym DSHash = "64 word"

record KeyInfoFieldPath =
  key_Path :: string
  key_IsExternal :: bool

record KeyInfo =
  key_Source :: bool
  key_Target :: bool
  key_SelectionSet :: string
  key_FieldPaths :: "KeyInfoFieldPath list"

record KeyJump =
  jump_From :: DSHash
  jump_To :: DSHash
  jump_SelectionSet :: string
  jump_FieldPaths :: "KeyInfoFieldPath list"
  jump_TypeName :: string
  jump_Fallback :: bool
  jump_SourcePaths :: "KeyInfoFieldPath list"

datatype SourceConnectionType = ConnectionDirect | ConnectionIndirect

record SourceConnection =
  conn_Source :: DSHash
  conn_Target :: DSHash
  conn_Jumps :: "KeyJump list"
  conn_Type :: SourceConnectionType

record JumpCacheKey =
  cache_Source :: DSHash
  cache_Target :: DSHash
  cache_IncludeFallback :: bool

record DataSourceJumpsGraph =
  jump_map :: "DSHash \<Rightarrow> KeyJump list"
  jump_cache :: "(JumpCacheKey \<times> SourceConnection list) list"

section \<open>Building the graph\<close>

definition sourceKeyIsSubsetOfTargetKey :: "KeyInfo \<Rightarrow> KeyInfo \<Rightarrow> bool" where
  "sourceKeyIsSubsetOfTargetKey sk tk =
     (if key_SelectionSet sk = key_SelectionSet tk then True
      else if key_FieldPaths sk = [] \<or> key_FieldPaths tk = [] then False
      else list_all (\<lambda>p. list_ex (\<lambda>q. key_Path q = key_Path p) (key_FieldPaths tk)) (key_FieldPaths sk))"

text \<open>The body of the innermost loop of \<open>NewDataSourceJumpsGraph\<close>.\<close>

definition key_jump :: "string \<Rightarrow> DSHash \<Rightarrow> KeyInfo \<Rightarrow> DSHash \<Rightarrow> KeyInfo \<Rightarrow> KeyJump option" where
  "key_jump typeName target tk source sk =
     (if \<not> key_Source sk then None
      else if key_SelectionSet sk \<noteq> key_SelectionSet tk \<and> \<not> sourceKeyIsSubsetOfTargetKey sk tk then None
      else
        (let fallback = (key_SelectionSet sk \<noteq> key_SelectionSet tk) in
         Some \<lparr>jump_From = source, jump_To = target, jump_SelectionSet = key_SelectionSet tk, jump_FieldPaths = key_FieldPaths tk,
           jump_TypeName = typeName, jump_Fallback = fallback, jump_SourcePaths = (if fallback then key_FieldPaths sk else [])\<rparr>))"

definition add_jump :: "(DSHash \<Rightarrow> KeyJump list) \<Rightarrow> KeyJump option \<Rightarrow> DSHash \<Rightarrow> KeyJump list" where
  "add_jump jumps j = (case j of None \<Rightarrow> jumps | Some j \<Rightarrow> jumps(jump_From j := jumps (jump_From j) @ [j]))"

text \<open>The four nested loops; a Go map of slices is a function that is empty where there is no key.\<close>

definition NewDataSourceJumpsGraph :: "DSHash list \<Rightarrow> (DSHash \<Rightarrow> KeyInfo list option) \<Rightarrow> string \<Rightarrow> DataSourceJumpsGraph" where
  "NewDataSourceJumpsGraph dataSources keysPerPath typeName =
     \<lparr>jump_map =
        foldl (\<lambda>jumps target.
          (case keysPerPath target of
             None \<Rightarrow> jumps
           | Some tks \<Rightarrow>
               foldl (\<lambda>jumps tk.
                 if \<not> key_Target tk then jumps
                 else foldl (\<lambda>jumps source.
                   if target = source then jumps
                   else (case keysPerPath source of
                           None \<Rightarrow> jumps
                         | Some sks \<Rightarrow> foldl (\<lambda>jumps sk. add_jump jumps (key_jump typeName target tk source sk)) jumps sks))
                   jumps dataSources)
                 jumps tks))
          (\<lambda>_. []) dataSources,
      jump_cache = []\<rparr>"

section \<open>Finding paths\<close>

text \<open>A connection as the search holds it: its jumps are a slice.\<close>

record found_path =
  found_Jumps :: slice
  found_Type :: SourceConnectionType

type_synonym search_result = "(found_path list \<times> bool) \<times> KeyJump backing list"

text \<open>
  \<open>dfs\<close> and its loop. The first number is \<open>11 - depth\<close>, so that zero is a depth over 10. A data source
  is marked as visited during the loop only, and was not before; so the visited ones are an argument.
\<close>

function dfs :: "(DSHash \<Rightarrow> KeyJump list) \<Rightarrow> bool \<Rightarrow> DSHash \<Rightarrow> nat \<Rightarrow> DSHash list \<Rightarrow> DSHash \<Rightarrow> slice \<Rightarrow>
      KeyJump backing list \<Rightarrow> search_result"
  and try_jumps :: "(DSHash \<Rightarrow> KeyJump list) \<Rightarrow> bool \<Rightarrow> DSHash \<Rightarrow> nat \<Rightarrow> DSHash list \<Rightarrow> KeyJump list \<Rightarrow> slice \<Rightarrow>
      KeyJump backing list \<Rightarrow> search_result" where
  "dfs jumps includeFallback target 0 visited current path h = (([], False), h)"
| "dfs jumps includeFallback target (Suc n) visited current path h =
     (if current = target then
        (([\<lparr>found_Jumps = path, found_Type = (if slice_len path > 1 then ConnectionIndirect else ConnectionDirect)\<rparr>], True), h)
      else try_jumps jumps includeFallback target n (current # visited) (jumps current) path h)"
| "try_jumps jumps includeFallback target n visited [] path h = (([], False), h)"
| "try_jumps jumps includeFallback target n visited (jump # rest) path h =
     (if jump_Fallback jump \<and> \<not> includeFallback then try_jumps jumps includeFallback target n visited rest path h
      else if slice_len path > 0 \<and> jump_SelectionSet jump = jump_SelectionSet (last (slice_read h path)) then
        try_jumps jumps includeFallback target n visited rest path h
      else if jump_To jump \<in> set visited then try_jumps jumps includeFallback target n visited rest path h
      else
        (let (newPath, h) = slice_append path jump h;
             ((conns, exists), h) = dfs jumps includeFallback target n visited (jump_To jump) newPath h;
             ((connections, found), h) = try_jumps jumps includeFallback target n visited rest path h in
         ((if exists then conns @ connections else connections, exists \<or> found), h)))"
  by pat_completeness auto
termination
  by (relation "measures [case_sum (\<lambda>(_, _, _, n, _). n) (\<lambda>(_, _, _, n, _). n),
      case_sum (\<lambda>_. 0) (\<lambda>(_, _, _, _, _, js, _). Suc (length js))]") auto

text \<open>\<open>getPaths\<close> with its cache; the search starts with a nil slice and the slices are read when it has ended.\<close>

definition find_paths :: "(DSHash \<Rightarrow> KeyJump list) \<Rightarrow> DSHash \<Rightarrow> DSHash \<Rightarrow> bool \<Rightarrow> SourceConnection list \<times> bool" where
  "find_paths jumps source target includeFallback =
     (let ((conns, found), h) = dfs jumps includeFallback target 11 [] source NilSlice [] in
      (map (\<lambda>c. \<lparr>conn_Source = source, conn_Target = target, conn_Jumps = slice_read h (found_Jumps c), conn_Type = found_Type c\<rparr>) conns, found))"

definition getPaths :: "DSHash \<Rightarrow> DSHash \<Rightarrow> bool \<Rightarrow> DataSourceJumpsGraph \<Rightarrow> (SourceConnection list \<times> bool) \<times> DataSourceJumpsGraph" where
  "getPaths source target includeFallback g =
     (let key = \<lparr>cache_Source = source, cache_Target = target, cache_IncludeFallback = includeFallback\<rparr> in
      case map_of (jump_cache g) key of
        Some path \<Rightarrow> ((path, path \<noteq> []), g)
      | None \<Rightarrow>
          (let (paths, found) = find_paths (jump_map g) source target includeFallback in
           ((paths, found), g\<lparr>jump_cache := AList.update key (if found then paths else []) (jump_cache g)\<rparr>)))"

section \<open>Choosing a path\<close>

definition sourceConnectionUsesFallback :: "SourceConnection \<Rightarrow> bool" where
  "sourceConnectionUsesFallback path = list_ex jump_Fallback (conn_Jumps path)"

text \<open>Go's \<open>int\<close>; the lengths of slices do not overflow.\<close>

definition fallbackMissingKeyMembers :: "SourceConnection \<Rightarrow> int" where
  "fallbackMissingKeyMembers path =
     sum_list (map (\<lambda>j. if jump_Fallback j then int (length (jump_FieldPaths j)) - int (length (jump_SourcePaths j)) else 0) (conn_Jumps path))"

text \<open>The loops of \<open>shortestConnection\<close> and \<open>bestFallbackConnection\<close> with the best path so far.\<close>

fun shortest_from :: "SourceConnection option \<Rightarrow> SourceConnection list \<Rightarrow> SourceConnection option" where
  "shortest_from best [] = best"
| "shortest_from None (p # ps) = shortest_from (Some p) ps"
| "shortest_from (Some b) (p # ps) = shortest_from (Some (if length (conn_Jumps p) < length (conn_Jumps b) then p else b)) ps"

definition shortestConnection :: "SourceConnection list \<Rightarrow> SourceConnection option" where
  "shortestConnection paths = shortest_from None paths"

fun fallback_from :: "(SourceConnection \<times> int) option \<Rightarrow> SourceConnection list \<Rightarrow> SourceConnection option" where
  "fallback_from best [] = map_option fst best"
| "fallback_from None (p # ps) = fallback_from (Some (p, fallbackMissingKeyMembers p)) ps"
| "fallback_from (Some (b, bestMissing)) (p # ps) =
     (let missing = fallbackMissingKeyMembers p in
      if length (conn_Jumps p) < length (conn_Jumps b) \<or> length (conn_Jumps p) = length (conn_Jumps b) \<and> missing < bestMissing
      then fallback_from (Some (p, missing)) ps
      else fallback_from (Some (b, bestMissing)) ps)"

definition bestFallbackConnection :: "SourceConnection list \<Rightarrow> SourceConnection option" where
  "bestFallbackConnection paths = fallback_from None paths"

text \<open>The paths \<open>hasPathBetweenDs\<close> sorts out.\<close>

definition classified :: "bool \<Rightarrow> SourceConnectionType \<Rightarrow> SourceConnection list \<Rightarrow> SourceConnection list" where
  "classified fallback t paths = filter (\<lambda>p. sourceConnectionUsesFallback p = fallback \<and> conn_Type p = t) paths"

definition best_of :: "SourceConnection list \<Rightarrow> SourceConnection option" where
  "best_of paths =
     (case classified False ConnectionDirect paths of
        p # _ \<Rightarrow> Some p
      | [] \<Rightarrow>
          (case shortestConnection (classified False ConnectionIndirect paths) of
             Some p \<Rightarrow> Some p
           | None \<Rightarrow>
               (case bestFallbackConnection (classified True ConnectionDirect paths) of
                  Some p \<Rightarrow> Some p
                | None \<Rightarrow> bestFallbackConnection (classified True ConnectionIndirect paths))))"

definition hasPathBetweenDs :: "DSHash \<Rightarrow> DSHash \<Rightarrow> bool \<Rightarrow> DataSourceJumpsGraph \<Rightarrow> SourceConnection option \<times> DataSourceJumpsGraph" where
  "hasPathBetweenDs source target includeFallback g =
     (let ((paths, found), g) = getPaths source target False g;
          ((paths, found), g) = (if \<not> found \<and> includeFallback then getPaths source target True g else ((paths, found), g)) in
      if \<not> found then (None, g) else (best_of paths, g))"

end
