(* ===== verification/Key_Search.thy ===== *)
theory Key_Search
  imports Key_Jumps
begin

text \<open>What the search finds, and what the shared arrays leave of it.\<close>

section \<open>The contract of append\<close>

text \<open>
  An array of a given capacity is allocated for a slice of a known length, \<open>base\<close>: these cells are never
  written again. \<open>frozen\<close> is the same number in terms of the length of a slice.
\<close>

definition base :: "nat \<Rightarrow> nat" where
  "base c = (if c \<le> 2 then c else if c = 4 then 3 else if c = 8 then 5 else 9)"

definition frozen :: "nat \<Rightarrow> nat" where
  "frozen n = (if n \<le> 3 then n else if n = 4 then 3 else if n \<le> 8 then 5 else 9)"

definition backing_ok :: "'a backing \<Rightarrow> bool" where
  "backing_ok b \<longleftrightarrow> cap b \<in> {1, 2, 4, 8, 17} \<and> base (cap b) \<le> length (cells b) \<and> length (cells b) \<le> cap b"

definition heap_ok :: "'a backing list \<Rightarrow> bool" where
  "heap_ok h \<longleftrightarrow> (\<forall>b \<in> set h. backing_ok b)"

fun slice_ok :: "'a backing list \<Rightarrow> slice \<Rightarrow> bool" where
  "slice_ok h NilSlice = True"
| "slice_ok h (Slice a n) = (a < length h \<and> base (cap (h ! a)) \<le> n \<and> n \<le> length (cells (h ! a)))"

text \<open>Arrays are only written from the cell \<open>m\<close> on, and never in their first \<open>base\<close> cells.\<close>

definition heap_le :: "nat \<Rightarrow> 'a backing list \<Rightarrow> 'a backing list \<Rightarrow> bool" where
  "heap_le m h h' \<longleftrightarrow> length h \<le> length h' \<and> (\<forall>a < length h.
     cap (h' ! a) = cap (h ! a) \<and> length (cells (h ! a)) \<le> length (cells (h' ! a)) \<and>
     take m (cells (h' ! a)) = take m (cells (h ! a)) \<and>
     take (base (cap (h ! a))) (cells (h' ! a)) = take (base (cap (h ! a))) (cells (h ! a)))"

lemma heap_le_refl [simp]: "heap_le m h h"
  by (simp add: heap_le_def)

lemma heap_le_trans: "heap_le m h h' \<Longrightarrow> heap_le m h' h'' \<Longrightarrow> heap_le m h h''"
  unfolding heap_le_def by (metis (no_types, lifting) order_less_le_trans order_trans)

lemma heap_le_mono: "heap_le n h h' \<Longrightarrow> m \<le> n \<Longrightarrow> heap_le m h h'"
  unfolding heap_le_def by (metis min.absorb1 take_take)

lemma slice_read_length: "slice_ok h sl \<Longrightarrow> length (slice_read h sl) = slice_len sl"
  by (cases sl) auto

lemma base_frozen: "backing_ok b \<Longrightarrow> base (cap b) \<le> n \<Longrightarrow> n \<le> length (cells b) \<Longrightarrow> frozen n = base (cap b)"
  by (auto simp: backing_ok_def base_def frozen_def)

lemma heap_ok_nth: "heap_ok h \<Longrightarrow> a < length h \<Longrightarrow> backing_ok (h ! a)"
  by (simp add: heap_ok_def)

lemma slice_stays:
  assumes "heap_ok h" "slice_ok h sl" "heap_le m h h'"
  shows "slice_ok h' sl"
    and "take (frozen (slice_len sl)) (slice_read h' sl) = take (frozen (slice_len sl)) (slice_read h sl)"
    and "slice_len sl \<le> m \<Longrightarrow> slice_read h' sl = slice_read h sl"
proof -
  show "slice_ok h' sl" using assms(2,3) by (cases sl) (auto simp: heap_le_def)
  show "take (frozen (slice_len sl)) (slice_read h' sl) = take (frozen (slice_len sl)) (slice_read h sl)"
  proof (cases sl)
    case (Slice a n)
    then have a: "a < length h" "base (cap (h ! a)) \<le> n" "n \<le> length (cells (h ! a))" using assms(2) by auto
    have f: "frozen n = base (cap (h ! a))" by (rule base_frozen [OF heap_ok_nth [OF assms(1) a(1)] a(2,3)])
    have "take (base (cap (h ! a))) (cells (h' ! a)) = take (base (cap (h ! a))) (cells (h ! a))"
      using assms(3) a(1) by (simp add: heap_le_def)
    then show ?thesis using a(2) by (simp add: Slice f)
  qed simp
  show "slice_read h' sl = slice_read h sl" if "slice_len sl \<le> m"
  proof (cases sl)
    case (Slice a n)
    then have "take m (cells (h' ! a)) = take m (cells (h ! a))" using assms(2,3) by (simp add: heap_le_def)
    then have "take n (cells (h' ! a)) = take n (cells (h ! a))" using that Slice
      by (metis min.absorb1 slice_len.simps(2) take_take)
    then show ?thesis by (simp add: Slice)
  qed simp
qed

lemma slice_append_ok:
  assumes "heap_ok h" "slice_ok h sl" "slice_len sl < 17" "slice_append sl x h = (sl', h')"
  shows "heap_ok h'" and "slice_ok h' sl'" and "slice_read h' sl' = slice_read h sl @ [x]"
    and "slice_len sl' = Suc (slice_len sl)" and "heap_le (slice_len sl) h h'"
proof -
  have "heap_ok h' \<and> slice_ok h' sl' \<and> slice_read h' sl' = slice_read h sl @ [x] \<and> slice_len sl' = Suc (slice_len sl) \<and>
      heap_le (slice_len sl) h h'"
  proof (cases sl)
    case NilSlice
    then have r: "sl' = Slice (length h) 1" "h' = h @ [\<lparr>cells = [x], cap = 1\<rparr>]"
      using assms(4) by (auto simp: slice_append_def append_capacity_def)
    have "backing_ok \<lparr>cells = [x], cap = 1\<rparr>" by (simp add: backing_ok_def base_def)
    then have "heap_ok h'" using assms(1) by (simp add: r heap_ok_def)
    then show ?thesis by (simp add: r NilSlice heap_le_def nth_append base_def)
  next
    case (Slice a n)
    then have a: "a < length h" "base (cap (h ! a)) \<le> n" "n \<le> length (cells (h ! a))" "n < 17" using assms(2,3) by auto
    have b: "backing_ok (h ! a)" by (rule heap_ok_nth [OF assms(1) a(1)])
    show ?thesis
    proof (cases "n < cap (h ! a)")
      case True
      let ?b = "(h ! a)\<lparr>cells := take n (cells (h ! a)) @ [x] @ drop (Suc n) (cells (h ! a))\<rparr>"
      have r: "sl' = Slice a (Suc n)" "h' = h[a := ?b]" using assms(4) Slice True by (auto simp: slice_append_def)
      have len: "length (cells ?b) = max (Suc n) (length (cells (h ! a)))" using a(3) by auto
      have "backing_ok ?b" using b True a(2,3) len by (auto simp: backing_ok_def)
      then have "heap_ok h'" using assms(1) set_update_subset_insert [of h a ?b] by (auto simp: r heap_ok_def)
      moreover have "take k (cells ?b) = take k (cells (h ! a))" if "k \<le> n" for k using that a(3) by simp
      then have "heap_le n h h'" using a len unfolding heap_le_def r by (auto simp: nth_list_update)
      ultimately show ?thesis using a len by (auto simp: r Slice)
    next
      case False
      let ?b = "\<lparr>cells = take n (cells (h ! a)) @ [x], cap = append_capacity (cap (h ! a))\<rparr>"
      have r: "sl' = Slice (length h) (Suc n)" "h' = h @ [?b]" using assms(4) Slice False by (auto simp: slice_append_def)
      have n: "n = cap (h ! a)" "cap (h ! a) \<in> {1, 2, 4, 8}" using False a b by (auto simp: backing_ok_def)
      then have "base (append_capacity n) = Suc n" "append_capacity n \<in> {2, 4, 8, 17}" "Suc n \<le> append_capacity n"
        by (auto simp: append_capacity_def base_def)
      then have "backing_ok ?b" "base (cap ?b) = Suc n" using a(3) n(1) by (auto simp: backing_ok_def)
      then show ?thesis using assms(1) a(3) by (auto simp: r Slice heap_ok_def heap_le_def nth_append)
    qed
  qed
  then show "heap_ok h'" "slice_ok h' sl'" "slice_read h' sl' = slice_read h sl @ [x]"
    "slice_len sl' = Suc (slice_len sl)" "heap_le (slice_len sl) h h'" by blast+
qed

section \<open>The search on lists\<close>

text \<open>The same search with lists in place of slices.\<close>

function paths :: "(DSHash \<Rightarrow> KeyJump list) \<Rightarrow> bool \<Rightarrow> DSHash \<Rightarrow> nat \<Rightarrow> DSHash list \<Rightarrow> DSHash \<Rightarrow> KeyJump list \<Rightarrow> KeyJump list list"
  and paths_by :: "(DSHash \<Rightarrow> KeyJump list) \<Rightarrow> bool \<Rightarrow> DSHash \<Rightarrow> nat \<Rightarrow> DSHash list \<Rightarrow> KeyJump list \<Rightarrow> KeyJump list \<Rightarrow> KeyJump list list" where
  "paths jumps fb target 0 visited current p = []"
| "paths jumps fb target (Suc n) visited current p =
     (if current = target then [p] else paths_by jumps fb target n (current # visited) (jumps current) p)"
| "paths_by jumps fb target n visited [] p = []"
| "paths_by jumps fb target n visited (j # js) p =
     (if (jump_Fallback j \<longrightarrow> fb) \<and> (p \<noteq> [] \<longrightarrow> jump_SelectionSet j \<noteq> jump_SelectionSet (last p)) \<and> jump_To j \<notin> set visited
      then paths jumps fb target n visited (jump_To j) (p @ [j]) else []) @ paths_by jumps fb target n visited js p"
  by pat_completeness auto
termination
  by (relation "measures [case_sum (\<lambda>(_, _, _, n, _). n) (\<lambda>(_, _, _, n, _). n),
      case_sum (\<lambda>_. 0) (\<lambda>(_, _, _, _, _, js, _). Suc (length js))]") auto

text \<open>A path as the search found it, as it is in the end: with its length and its first jumps.\<close>

definition connection_type :: "KeyJump list \<Rightarrow> SourceConnectionType" where
  "connection_type p = (if length p > 1 then ConnectionIndirect else ConnectionDirect)"

definition holds_path :: "KeyJump backing list \<Rightarrow> found_path \<Rightarrow> KeyJump list \<Rightarrow> bool" where
  "holds_path h c p \<longleftrightarrow> slice_ok h (found_Jumps c) \<and> slice_len (found_Jumps c) = length p \<and> found_Type c = connection_type p \<and>
     take (frozen (length p)) (slice_read h (found_Jumps c)) = take (frozen (length p)) p"

lemma holds_path_stays: "heap_ok h \<Longrightarrow> heap_le m h h' \<Longrightarrow> holds_path h c p \<Longrightarrow> holds_path h' c p"
  unfolding holds_path_def using slice_stays(1,2) by metis

definition search_ok :: "nat \<Rightarrow> KeyJump backing list \<Rightarrow> search_result \<Rightarrow> KeyJump list list \<Rightarrow> bool" where
  "search_ok m h r ps \<longleftrightarrow> (case r of ((cs, found), h') \<Rightarrow>
     heap_ok h' \<and> heap_le m h h' \<and> found = (cs \<noteq> []) \<and> list_all2 (holds_path h') cs ps)"

lemma search_okI:
  "heap_ok h' \<Longrightarrow> heap_le m h h' \<Longrightarrow> found = (cs \<noteq> []) \<Longrightarrow> list_all2 (holds_path h') cs ps \<Longrightarrow> search_ok m h ((cs, found), h') ps"
  by (simp add: search_ok_def)

lemma search_okD:
  assumes "search_ok m h ((cs, found), h') ps"
  shows "heap_ok h'" "heap_le m h h'" "found = (cs \<noteq> [])" "list_all2 (holds_path h') cs ps"
  using assms by (simp_all add: search_ok_def)

lemma search_ok_append:
  assumes first: "search_ok n h ((cs, a), h1) ps" and second: "search_ok m h1 ((ds, b), h2) qs"
    and "heap_le m h0 h" "m \<le> n"
  shows "search_ok m h0 ((if a then cs @ ds else ds, a \<or> b), h2) (ps @ qs)"
proof (rule search_okI)
  note f = search_okD [OF first] and g = search_okD [OF second]
  show "heap_ok h2" by (rule g(1))
  show "heap_le m h0 h2" by (rule heap_le_trans [OF heap_le_trans [OF assms(3) heap_le_mono [OF f(2) assms(4)]] g(2)])
  show "(a \<or> b) = ((if a then cs @ ds else ds) \<noteq> [])" using f(3) g(3) by auto
  have "list_all2 (holds_path h2) cs ps" by (rule list_all2_mono [OF f(4) holds_path_stays [OF f(1) g(2)]])
  then show "list_all2 (holds_path h2) (if a then cs @ ds else ds) (ps @ qs)"
    using f(3) g(4) by (auto intro: list_all2_appendI)
qed

lemma try_jumps_finds:
  assumes dfs: "\<And>visited current path h. heap_ok h \<Longrightarrow> slice_ok h path \<Longrightarrow> slice_len path + n \<le> 11 \<Longrightarrow>
      search_ok (slice_len path) h (dfs jumps fb target n visited current path h)
        (paths jumps fb target n visited current (slice_read h path))"
    and "heap_ok h" "slice_ok h path" "Suc (slice_len path + n) \<le> 11"
  shows "search_ok (slice_len path) h (try_jumps jumps fb target n visited js path h)
      (paths_by jumps fb target n visited js (slice_read h path))"
  using assms(2,3)
proof (induction js arbitrary: h)
  case Nil
  then show ?case by (simp add: search_ok_def)
next
  case (Cons j js)
  let ?p = "slice_read h path"
  have len: "length ?p = slice_len path" by (rule slice_read_length [OF Cons.prems(2)])
  show ?case
  proof (cases "(jump_Fallback j \<longrightarrow> fb) \<and> (?p \<noteq> [] \<longrightarrow> jump_SelectionSet j \<noteq> jump_SelectionSet (last ?p)) \<and> jump_To j \<notin> set visited")
    case True
    obtain sl h1 where a: "slice_append path j h = (sl, h1)" by fastforce
    have "slice_len path < 17" using assms(4) by simp
    note ap = slice_append_ok [OF Cons.prems this a]
    obtain cs ex h2 where d: "dfs jumps fb target n visited (jump_To j) sl h1 = ((cs, ex), h2)" by (metis prod.exhaust)
    obtain ds found h3 where t: "try_jumps jumps fb target n visited js path h2 = ((ds, found), h3)" by (metis prod.exhaust)
    have first: "search_ok (slice_len sl) h1 ((cs, ex), h2) (paths jumps fb target n visited (jump_To j) (?p @ [j]))"
      using dfs [OF ap(1,2), of visited "jump_To j"] assms(4) by (simp add: ap(3,4) d)
    have m: "slice_len path \<le> slice_len sl" by (simp add: ap(4))
    have le: "heap_le (slice_len path) h h2"
      by (rule heap_le_trans [OF ap(5) heap_le_mono [OF search_okD(2) [OF first] m]])
    have path: "slice_ok h2 path" "slice_read h2 path = ?p"
      using slice_stays(1,3) [OF Cons.prems le] by auto
    have "search_ok (slice_len path) h2 ((ds, found), h3) (paths_by jumps fb target n visited js ?p)"
      using Cons.IH [OF search_okD(1) [OF first] path(1)] by (simp add: t path(2))
    moreover have "try_jumps jumps fb target n visited (j # js) path h = ((if ex then cs @ ds else ds, ex \<or> found), h3)"
      using True len by (auto simp: a d t)
    moreover have "paths_by jumps fb target n visited (j # js) ?p =
        paths jumps fb target n visited (jump_To j) (?p @ [j]) @ paths_by jumps fb target n visited js ?p"
      using True by simp
    ultimately show ?thesis using search_ok_append [OF first _ ap(5) m] by presburger
  next
    case False
    then have "try_jumps jumps fb target n visited (j # js) path h = try_jumps jumps fb target n visited js path h"
      using len by auto
    moreover have "paths_by jumps fb target n visited (j # js) ?p = paths_by jumps fb target n visited js ?p"
      by (simp only: paths_by.simps False if_False append_Nil)
    ultimately show ?thesis using Cons.IH [OF Cons.prems] by presburger
  qed
qed

lemma search_finds_paths:
  "heap_ok h \<Longrightarrow> slice_ok h path \<Longrightarrow> slice_len path + n \<le> 11 \<Longrightarrow>
     search_ok (slice_len path) h (dfs jumps fb target n visited current path h)
       (paths jumps fb target n visited current (slice_read h path))"
proof (induction n arbitrary: visited current path h)
  case 0
  then show ?case by (simp add: search_ok_def)
next
  case (Suc n)
  show ?case
  proof (cases "current = target")
    case True
    then show ?thesis using Suc.prems slice_read_length [of h path]
      by (simp add: search_ok_def holds_path_def connection_type_def)
  next
    case False
    then show ?thesis using try_jumps_finds [OF Suc.IH Suc.prems(1,2)] Suc.prems(3) by simp
  qed
qed

section \<open>The paths of the search\<close>

text \<open>
  A path of keys from \<open>s\<close> to \<open>t\<close>: at most ten jumps of the graph that lead from one data source to the
  next, visit no data source twice, and do not use the same key twice in a row.
\<close>

definition stops :: "DSHash \<Rightarrow> KeyJump list \<Rightarrow> DSHash list" where
  "stops s p = s # map jump_To p"

fun changes_keys :: "KeyJump list \<Rightarrow> bool" where
  "changes_keys (i # j # p) = (jump_SelectionSet i \<noteq> jump_SelectionSet j \<and> changes_keys (j # p))"
| "changes_keys p = True"

fun jumps_from :: "(DSHash \<Rightarrow> KeyJump list) \<Rightarrow> DSHash \<Rightarrow> KeyJump list \<Rightarrow> bool" where
  "jumps_from jumps s [] = True"
| "jumps_from jumps s (j # p) = (j \<in> set (jumps s) \<and> jumps_from jumps (jump_To j) p)"

definition key_path :: "(DSHash \<Rightarrow> KeyJump list) \<Rightarrow> bool \<Rightarrow> DSHash \<Rightarrow> DSHash \<Rightarrow> KeyJump list \<Rightarrow> bool" where
  "key_path jumps fb s t p \<longleftrightarrow>
     length p \<le> 10 \<and> jumps_from jumps s p \<and> last (stops s p) = t \<and> distinct (stops s p) \<and> changes_keys p \<and>
     (\<forall>j \<in> set p. jump_Fallback j \<longrightarrow> fb)"

definition extends :: "(DSHash \<Rightarrow> KeyJump list) \<Rightarrow> bool \<Rightarrow> DSHash \<Rightarrow> nat \<Rightarrow> DSHash list \<Rightarrow> DSHash \<Rightarrow> KeyJump list \<Rightarrow> KeyJump list \<Rightarrow> bool" where
  "extends jumps fb t n visited s p q \<longleftrightarrow>
     length q \<le> n \<and> jumps_from jumps s q \<and> last (stops s q) = t \<and> distinct (stops s q) \<and>
     set (stops s q) \<inter> set visited = {} \<and> changes_keys ((if p = [] then [] else [last p]) @ q) \<and>
     (\<forall>j \<in> set q. jump_Fallback j \<longrightarrow> fb)"

lemma paths_by_set:
  "set (paths_by jumps fb t n visited js p) =
     (\<Union>j \<in> {j \<in> set js. (jump_Fallback j \<longrightarrow> fb) \<and> (p \<noteq> [] \<longrightarrow> jump_SelectionSet j \<noteq> jump_SelectionSet (last p)) \<and>
          jump_To j \<notin> set visited}. set (paths jumps fb t n visited (jump_To j) (p @ [j])))"
  by (induction js) auto

lemma extends_Nil: "extends jumps fb t n visited s p [] \<longleftrightarrow> s = t \<and> s \<notin> set visited"
  by (cases p) (auto simp: extends_def stops_def)

lemma extends_Cons:
  assumes "s \<notin> set visited"
  shows "extends jumps fb t (Suc n) visited s p (j # q) \<longleftrightarrow>
    s \<noteq> t \<and> j \<in> set (jumps s) \<and> (jump_Fallback j \<longrightarrow> fb) \<and> (p \<noteq> [] \<longrightarrow> jump_SelectionSet j \<noteq> jump_SelectionSet (last p)) \<and>
    extends jumps fb t n (s # visited) (jump_To j) (p @ [j]) q"
proof -
  have "s = t \<Longrightarrow> last (stops s (j # q)) = t \<Longrightarrow> \<not> distinct (stops s (j # q))"
    by (metis distinct.simps(2) last_ConsR last_in_set list.discI list.map(2) stops_def)
  then show ?thesis using assms by (auto simp: extends_def stops_def)
qed

lemma paths_set:
  "s \<notin> set visited \<Longrightarrow> set (paths jumps fb t (Suc n) visited s p) = {p @ q | q. extends jumps fb t n visited s p q}"
proof (induction n arbitrary: visited s p)
  case 0
  have "extends jumps fb t 0 visited s p q \<longleftrightarrow> q = [] \<and> s = t" for q
    using 0 extends_Nil [of jumps fb t 0 visited s p] by (cases q) (auto simp: extends_def)
  then show ?case by (auto simp: paths_by_set)
next
  case (Suc n)
  show ?case
  proof (cases "s = t")
    case True
    have "extends jumps fb t (Suc n) visited s p q \<longleftrightarrow> q = []" for q
      using Suc.prems True extends_Nil [of jumps fb t "Suc n" visited s p] extends_Cons [OF Suc.prems, of jumps fb t n p] by (cases q) auto
    then show ?thesis using True by simp
  next
    case False
    have q: "extends jumps fb t (Suc n) visited s p q \<longleftrightarrow> (\<exists>j q'. q = j # q' \<and> j \<in> set (jumps s) \<and> (jump_Fallback j \<longrightarrow> fb) \<and>
        (p \<noteq> [] \<longrightarrow> jump_SelectionSet j \<noteq> jump_SelectionSet (last p)) \<and> extends jumps fb t n (s # visited) (jump_To j) (p @ [j]) q')" for q
      using False extends_Nil [of jumps fb t "Suc n" visited s p] extends_Cons [OF Suc.prems, of jumps fb t n p] by (cases q) auto
    have fresh: "extends jumps fb t n (s # visited) r p' q' \<Longrightarrow> r \<notin> set (s # visited)" for r p' q'
      by (auto simp: extends_def stops_def)
    have "paths jumps fb t (Suc (Suc n)) visited s p = paths_by jumps fb t (Suc n) (s # visited) (jumps s) p"
      by (subst paths.simps(2)) (simp only: False if_False)
    then have "set (paths jumps fb t (Suc (Suc n)) visited s p) =
        (\<Union>j \<in> {j \<in> set (jumps s). (jump_Fallback j \<longrightarrow> fb) \<and> (p \<noteq> [] \<longrightarrow> jump_SelectionSet j \<noteq> jump_SelectionSet (last p)) \<and>
          jump_To j \<notin> set (s # visited)}. {(p @ [j]) @ q | q. extends jumps fb t n (s # visited) (jump_To j) (p @ [j]) q})"
      by (simp only: paths_by_set) (rule SUP_cong [OF refl], rule Suc.IH, blast)
    also have "\<dots> = {p @ q | q. extends jumps fb t (Suc n) visited s p q}"
    proof (intro set_eqI iffI)
      fix r
      assume "r \<in> {p @ q | q. extends jumps fb t (Suc n) visited s p q}"
      then obtain j q' where r: "r = p @ j # q'" and j: "j \<in> set (jumps s)" "jump_Fallback j \<longrightarrow> fb"
          "p \<noteq> [] \<longrightarrow> jump_SelectionSet j \<noteq> jump_SelectionSet (last p)" and e: "extends jumps fb t n (s # visited) (jump_To j) (p @ [j]) q'"
        unfolding q by blast
      show "r \<in> (\<Union>j \<in> {j \<in> set (jumps s). (jump_Fallback j \<longrightarrow> fb) \<and> (p \<noteq> [] \<longrightarrow> jump_SelectionSet j \<noteq> jump_SelectionSet (last p)) \<and>
          jump_To j \<notin> set (s # visited)}. {(p @ [j]) @ q | q. extends jumps fb t n (s # visited) (jump_To j) (p @ [j]) q})"
      proof (rule UN_I [of j])
        show "j \<in> {j \<in> set (jumps s). (jump_Fallback j \<longrightarrow> fb) \<and> (p \<noteq> [] \<longrightarrow> jump_SelectionSet j \<noteq> jump_SelectionSet (last p)) \<and>
            jump_To j \<notin> set (s # visited)}" using j fresh [OF e] by blast
        show "r \<in> {(p @ [j]) @ q | q. extends jumps fb t n (s # visited) (jump_To j) (p @ [j]) q}" using e r by auto
      qed
    next
      fix r
      assume "r \<in> (\<Union>j \<in> {j \<in> set (jumps s). (jump_Fallback j \<longrightarrow> fb) \<and> (p \<noteq> [] \<longrightarrow> jump_SelectionSet j \<noteq> jump_SelectionSet (last p)) \<and>
          jump_To j \<notin> set (s # visited)}. {(p @ [j]) @ q | q. extends jumps fb t n (s # visited) (jump_To j) (p @ [j]) q})"
      then obtain j q' where "r = p @ j # q'" "j \<in> set (jumps s)" "jump_Fallback j \<longrightarrow> fb"
          "p \<noteq> [] \<longrightarrow> jump_SelectionSet j \<noteq> jump_SelectionSet (last p)" "extends jumps fb t n (s # visited) (jump_To j) (p @ [j]) q'"
        by auto
      then show "r \<in> {p @ q | q. extends jumps fb t (Suc n) visited s p q}" unfolding q by blast
    qed
    finally show ?thesis .
  qed
qed

text \<open>The search from the source finds exactly the paths of keys.\<close>

theorem paths_are_key_paths: "set (paths jumps fb t 11 [] s []) = {p. key_path jumps fb s t p}"
proof -
  have "extends jumps fb t 10 [] s [] p \<longleftrightarrow> key_path jumps fb s t p" for p by (simp add: extends_def key_path_def)
  then show ?thesis using paths_set [of s "[]" jumps fb t 10 "[]"] by (simp add: eval_nat_numeral)
qed

lemma find_paths_ok:
  assumes "find_paths jumps s t fb = (cs, found)"
  shows "found = (cs \<noteq> [])"
    and "list_all2 (\<lambda>c p. conn_Source c = s \<and> conn_Target c = t \<and> conn_Type c = connection_type p \<and> length (conn_Jumps c) = length p \<and>
      take (frozen (length p)) (conn_Jumps c) = take (frozen (length p)) p) cs (paths jumps fb t 11 [] s [])"
proof -
  obtain ds ex h where d: "dfs jumps fb t 11 [] s NilSlice [] = ((ds, ex), h)" by (metis prod.exhaust)
  have ok: "search_ok 0 [] ((ds, ex), h) (paths jumps fb t 11 [] s [])"
    using search_finds_paths [of "[]" NilSlice 11 jumps fb t "[]" s] by (simp add: d heap_ok_def)
  note o = search_okD [OF ok]
  have c: "cs = map (\<lambda>c. \<lparr>conn_Source = s, conn_Target = t, conn_Jumps = slice_read h (found_Jumps c), conn_Type = found_Type c\<rparr>) ds"
    and f: "found = ex" using assms by (auto simp: find_paths_def d)
  show "found = (cs \<noteq> [])" by (simp add: c f o(3))
  show "list_all2 (\<lambda>c p. conn_Source c = s \<and> conn_Target c = t \<and> conn_Type c = connection_type p \<and> length (conn_Jumps c) = length p \<and>
      take (frozen (length p)) (conn_Jumps c) = take (frozen (length p)) p) cs (paths jumps fb t 11 [] s [])"
    unfolding c list_all2_map1 by (rule list_all2_mono [OF o(4)]) (simp add: holds_path_def slice_read_length)
qed

end
