(* ===== verification/Key_Choice.thy ===== *)
theory Key_Choice
  imports Key_Search
begin

text \<open>The jumps of the graph, the cache, and the path that is chosen.\<close>

section \<open>The jumps of the graph\<close>

lemma foldl_collect:
  assumes "\<And>m x s. set (f m x s) = set (m s) \<union> G x s"
  shows "set (foldl f m xs s) = set (m s) \<union> (\<Union>x \<in> set xs. G x s)"
  using assms by (induction xs arbitrary: m) auto

lemma key_jump_Some:
  "key_jump typeName target tk source sk = Some j \<longleftrightarrow>
     key_Source sk \<and> (key_SelectionSet sk = key_SelectionSet tk \<or> sourceKeyIsSubsetOfTargetKey sk tk) \<and>
     j = \<lparr>jump_From = source, jump_To = target, jump_SelectionSet = key_SelectionSet tk, jump_FieldPaths = key_FieldPaths tk,
       jump_TypeName = typeName, jump_Fallback = (key_SelectionSet sk \<noteq> key_SelectionSet tk),
       jump_SourcePaths = (if key_SelectionSet sk \<noteq> key_SelectionSet tk then key_FieldPaths sk else [])\<rparr>"
  by (auto simp: key_jump_def Let_def)

lemma add_jump_set:
  "set (add_jump m (key_jump typeName target tk source sk) s) =
     set (m s) \<union> {j. s = source \<and> key_jump typeName target tk source sk = Some j}"
proof (cases "key_jump typeName target tk source sk")
  case (Some j)
  then have "jump_From j = source" using key_jump_Some [of typeName target tk source sk j] by simp
  then show ?thesis using Some by (auto simp: add_jump_def)
qed (simp add: add_jump_def)

lemma NewDataSourceJumpsGraph_jumps:
  "set (jump_map (NewDataSourceJumpsGraph dataSources keys typeName) s) =
     {j. \<exists>target tks tk sks sk. target \<in> set dataSources \<and> keys target = Some tks \<and> tk \<in> set tks \<and> key_Target tk \<and>
        s \<in> set dataSources \<and> target \<noteq> s \<and> keys s = Some sks \<and> sk \<in> set sks \<and> key_jump typeName target tk s sk = Some j}"
proof -
  define G1 where "G1 target tk source = (\<lambda>sk s. {j. s = source \<and> key_jump typeName target tk source sk = Some j})" for target tk source
  define G2 where "G2 target tk = (\<lambda>source s. if target = source then {}
      else (case keys source of None \<Rightarrow> {} | Some sks \<Rightarrow> \<Union>sk \<in> set sks. G1 target tk source sk s))" for target tk
  define G3 where "G3 target = (\<lambda>tk s. if \<not> key_Target tk then {} else \<Union>source \<in> set dataSources. G2 target tk source s)" for target
  define G4 where "G4 = (\<lambda>target s. case keys target of None \<Rightarrow> {} | Some tks \<Rightarrow> \<Union>tk \<in> set tks. G3 target tk s)"
  have l1: "set (foldl (\<lambda>jumps sk. add_jump jumps (key_jump typeName target tk source sk)) m sks s) =
      set (m s) \<union> (\<Union>sk \<in> set sks. G1 target tk source sk s)" for target tk source m sks s
    by (rule foldl_collect) (simp add: G1_def add_jump_set)
  have l2: "set (foldl (\<lambda>jumps source. if target = source then jumps
        else (case keys source of None \<Rightarrow> jumps
              | Some sks \<Rightarrow> foldl (\<lambda>jumps sk. add_jump jumps (key_jump typeName target tk source sk)) jumps sks)) m ds s) =
      set (m s) \<union> (\<Union>source \<in> set ds. G2 target tk source s)" for target tk m ds s
    by (rule foldl_collect) (simp add: G2_def l1 split: option.splits)
  have l3: "set (foldl (\<lambda>jumps tk. if \<not> key_Target tk then jumps
        else foldl (\<lambda>jumps source. if target = source then jumps
          else (case keys source of None \<Rightarrow> jumps
                | Some sks \<Rightarrow> foldl (\<lambda>jumps sk. add_jump jumps (key_jump typeName target tk source sk)) jumps sks)) jumps dataSources) m tks s) =
      set (m s) \<union> (\<Union>tk \<in> set tks. G3 target tk s)" for target m tks s
    by (rule foldl_collect) (simp add: G3_def l2)
  have "set (jump_map (NewDataSourceJumpsGraph dataSources keys typeName) s) = set ((\<lambda>_. []) s) \<union> (\<Union>target \<in> set dataSources. G4 target s)"
    unfolding NewDataSourceJumpsGraph_def DataSourceJumpsGraph.simps
    by (rule foldl_collect) (simp add: G4_def l3 split: option.splits)
  then show ?thesis by (auto simp: G4_def G3_def G2_def G1_def split: option.splits if_splits) blast
qed

section \<open>The cache\<close>

text \<open>Every entry is what the search gives.\<close>

definition cache_ok :: "DataSourceJumpsGraph \<Rightarrow> bool" where
  "cache_ok g \<longleftrightarrow> (\<forall>k ps. map_of (jump_cache g) k = Some ps \<longrightarrow>
     ps = fst (find_paths (jump_map g) (cache_Source k) (cache_Target k) (cache_IncludeFallback k)))"

lemma cache_ok_new: "cache_ok (NewDataSourceJumpsGraph dataSources keys typeName)"
  by (simp add: cache_ok_def NewDataSourceJumpsGraph_def)

lemma find_paths_found: "find_paths jumps s t fb = (cs, found) \<Longrightarrow> found = (cs \<noteq> [])"
  by (rule find_paths_ok(1))

lemma getPaths_cached:
  assumes ok: "cache_ok g" and get: "getPaths s t fb g = (r, g')"
  shows "r = find_paths (jump_map g) s t fb" and "cache_ok g'" and "jump_map g' = jump_map g"
proof -
  let ?k = "\<lparr>cache_Source = s, cache_Target = t, cache_IncludeFallback = fb\<rparr>"
  obtain ps found where f: "find_paths (jump_map g) s t fb = (ps, found)" by fastforce
  have n: "found = (ps \<noteq> [])" by (rule find_paths_found [OF f])
  have "r = find_paths (jump_map g) s t fb \<and> cache_ok g' \<and> jump_map g' = jump_map g"
  proof (cases "map_of (jump_cache g) ?k")
    case (Some path)
    then have "path = ps" using ok f unfolding cache_ok_def by fastforce
    then show ?thesis using get ok f n Some by (auto simp: getPaths_def Let_def)
  next
    case None
    have g': "g' = g\<lparr>jump_cache := AList.update ?k ps (jump_cache g)\<rparr>" "r = (ps, found)"
      using get f n None by (auto simp: getPaths_def Let_def split: if_splits)
    then have "cache_ok g'" using ok f unfolding cache_ok_def by (auto simp: update_conv')
    then show ?thesis using f g' by simp
  qed
  then show "r = find_paths (jump_map g) s t fb" "cache_ok g'" "jump_map g' = jump_map g" by blast+
qed

section \<open>The best path\<close>

abbreviation uses_fallback :: "KeyJump list \<Rightarrow> bool" where
  "uses_fallback p \<equiv> list_ex jump_Fallback p"

definition missing_members :: "KeyJump list \<Rightarrow> int" where
  "missing_members p = sum_list (map (\<lambda>j. if jump_Fallback j then int (length (jump_FieldPaths j)) - int (length (jump_SourcePaths j)) else 0) p)"

text \<open>The order of preference: exact keys, then fewer jumps, then fewer missing members.\<close>

definition no_worse :: "KeyJump list \<Rightarrow> KeyJump list \<Rightarrow> bool" where
  "no_worse p q \<longleftrightarrow> (\<not> uses_fallback p \<and> uses_fallback q) \<or>
     (uses_fallback p = uses_fallback q \<and>
       (length p < length q \<or> length p = length q \<and> (uses_fallback p \<longrightarrow> missing_members p \<le> missing_members q)))"

lemma shortest_from_least:
  "shortest_from b ps = Some c \<Longrightarrow>
     (c \<in> set ps \<or> b = Some c) \<and> (\<forall>d \<in> set ps. length (conn_Jumps c) \<le> length (conn_Jumps d)) \<and>
     (\<forall>d. b = Some d \<longrightarrow> length (conn_Jumps c) \<le> length (conn_Jumps d))"
  by (induction b ps rule: shortest_from.induct) (fastforce split: if_splits)+

lemma shortest_from_None: "shortest_from b ps = None \<longleftrightarrow> b = None \<and> ps = []"
  by (induction b ps rule: shortest_from.induct) auto

lemma fallback_from_least:
  "fallback_from b ps = Some c \<Longrightarrow> (\<forall>d m. b = Some (d, m) \<longrightarrow> m = fallbackMissingKeyMembers d) \<Longrightarrow>
     (c \<in> set ps \<or> (\<exists>m. b = Some (c, m))) \<and>
     (\<forall>d \<in> set ps \<union> fst ` set_option b. length (conn_Jumps c) < length (conn_Jumps d) \<or>
        length (conn_Jumps c) = length (conn_Jumps d) \<and> fallbackMissingKeyMembers c \<le> fallbackMissingKeyMembers d)"
  by (induction b ps rule: fallback_from.induct) (fastforce simp: Let_def split: if_splits)+

lemma fallback_from_None: "fallback_from b ps = None \<longleftrightarrow> b = None \<and> ps = []"
  by (induction b ps rule: fallback_from.induct) (auto simp: Let_def)

lemma classified_fallback [simp]: "p \<in> set (classified b t ps) \<longleftrightarrow> p \<in> set ps \<and> uses_fallback (conn_Jumps p) = b \<and> conn_Type p = t"
  by (auto simp: classified_def sourceConnectionUsesFallback_def)

lemma classified_empty: "classified b t cs = [] \<Longrightarrow> d \<in> set cs \<Longrightarrow> uses_fallback (conn_Jumps d) = b \<Longrightarrow> conn_Type d \<noteq> t"
  using classified_fallback [of d b t cs] by auto

lemma shortestConnection_least:
  "shortestConnection ps = Some c \<Longrightarrow> c \<in> set ps \<and> (\<forall>d \<in> set ps. length (conn_Jumps c) \<le> length (conn_Jumps d))"
  "shortestConnection ps = None \<longleftrightarrow> ps = []"
  using shortest_from_least [of None ps c] shortest_from_None [of None ps] by (auto simp: shortestConnection_def)

lemma bestFallbackConnection_least:
  "bestFallbackConnection ps = Some c \<Longrightarrow> c \<in> set ps \<and> (\<forall>d \<in> set ps. length (conn_Jumps c) < length (conn_Jumps d) \<or>
     length (conn_Jumps c) = length (conn_Jumps d) \<and> missing_members (conn_Jumps c) \<le> missing_members (conn_Jumps d))"
  "bestFallbackConnection ps = None \<longleftrightarrow> ps = []"
  using fallback_from_least [of None ps c] fallback_from_None [of None ps]
  by (auto simp: bestFallbackConnection_def missing_members_def fallbackMissingKeyMembers_def)

lemma best_of_None: "best_of cs = None \<longleftrightarrow> cs = []"
proof
  assume "best_of cs = None"
  then have none: "classified False ConnectionDirect cs = []" "classified False ConnectionIndirect cs = []"
      "classified True ConnectionDirect cs = []" "classified True ConnectionIndirect cs = []"
    by (auto simp: best_of_def shortestConnection_least(2) bestFallbackConnection_least(2) split: list.splits option.splits)
  have "c \<notin> set cs" for c
    using classified_empty [OF none(1), of c] classified_empty [OF none(2), of c] classified_empty [OF none(3), of c]
      classified_empty [OF none(4), of c] by (cases "conn_Type c"; cases "uses_fallback (conn_Jumps c)") auto
  then show "cs = []" by (cases cs) auto
qed (simp add: best_of_def classified_def shortestConnection_def bestFallbackConnection_def)

text \<open>Where direct paths are the shortest, the choice is the least in the order of preference.\<close>

lemma best_of_least:
  assumes best: "best_of cs = Some c"
    and type: "\<And>c. c \<in> set cs \<Longrightarrow> conn_Type c = connection_type (conn_Jumps c)"
    and direct: "\<And>c d. c \<in> set cs \<Longrightarrow> d \<in> set cs \<Longrightarrow> length (conn_Jumps c) \<le> 1 \<Longrightarrow> length (conn_Jumps c) \<le> length (conn_Jumps d)"
  shows "c \<in> set cs" and "d \<in> set cs \<Longrightarrow> no_worse (conn_Jumps c) (conn_Jumps d)"
proof -
  have len: "conn_Type e = ConnectionDirect \<longleftrightarrow> length (conn_Jumps e) \<le> 1" if "e \<in> set cs" for e
    using type [OF that] by (simp add: connection_type_def)
  have ind: "conn_Type e = ConnectionIndirect \<longleftrightarrow> 1 < length (conn_Jumps e)" if "e \<in> set cs" for e
    using type [OF that] by (simp add: connection_type_def)
  let ?c = "\<lambda>b t. classified b t cs"
  consider (exact) ps where "?c False ConnectionDirect = c # ps"
    | (indirect) "?c False ConnectionDirect = []" "shortestConnection (?c False ConnectionIndirect) = Some c"
    | (fallback) "?c False ConnectionDirect = []" "?c False ConnectionIndirect = []" "bestFallbackConnection (?c True ConnectionDirect) = Some c"
    | (fallbacks) "?c False ConnectionDirect = []" "?c False ConnectionIndirect = []" "?c True ConnectionDirect = []"
        "bestFallbackConnection (?c True ConnectionIndirect) = Some c"
    using best by (auto simp: best_of_def shortestConnection_least(2) bestFallbackConnection_least(2) split: list.splits option.splits)
  then have "c \<in> set cs \<and> (\<forall>d \<in> set cs. no_worse (conn_Jumps c) (conn_Jumps d))"
  proof cases
    case exact
    then have c: "c \<in> set cs" "\<not> uses_fallback (conn_Jumps c)" "length (conn_Jumps c) \<le> 1"
      using classified_fallback [of c False ConnectionDirect cs] len by auto
    then show ?thesis using direct [OF c(1) _ c(3)] by (fastforce simp: no_worse_def)
  next
    case indirect
    note l = shortestConnection_least(1) [OF indirect(2)]
    have "uses_fallback (conn_Jumps d) \<or> length (conn_Jumps c) \<le> length (conn_Jumps d)" if "d \<in> set cs" for d
      using that l classified_empty [OF indirect(1) that] by (cases "conn_Type d"; cases "uses_fallback (conn_Jumps d)") auto
    then show ?thesis using l by (fastforce simp: no_worse_def)
  next
    case fallback
    note l = bestFallbackConnection_least(1) [OF fallback(3)]
    have f: "uses_fallback (conn_Jumps d)" if "d \<in> set cs" for d
      using classified_empty [OF fallback(1) that] classified_empty [OF fallback(2) that]
      by (cases "conn_Type d"; cases "uses_fallback (conn_Jumps d)") auto
    have c: "c \<in> set cs" "length (conn_Jumps c) \<le> 1" using l len by auto
    have "no_worse (conn_Jumps c) (conn_Jumps d)" if d: "d \<in> set cs" for d
      using f [OF c(1)] f [OF d] l d direct [OF c(1) d c(2)] ind [OF d] c(2) by (cases "conn_Type d") (fastforce simp: no_worse_def)+
    then show ?thesis using c(1) by blast
  next
    case fallbacks
    note l = bestFallbackConnection_least(1) [OF fallbacks(4)]
    have f: "uses_fallback (conn_Jumps d) \<and> conn_Type d = ConnectionIndirect" if "d \<in> set cs" for d
      using classified_empty [OF fallbacks(1) that] classified_empty [OF fallbacks(2) that] classified_empty [OF fallbacks(3) that]
      by (cases "conn_Type d"; cases "uses_fallback (conn_Jumps d)") auto
    have c: "c \<in> set cs" using l by auto
    have "no_worse (conn_Jumps c) (conn_Jumps d)" if d: "d \<in> set cs" for d
      using f [OF c] f [OF d] l d by (auto simp: no_worse_def)
    then show ?thesis using c by blast
  qed
  then show "c \<in> set cs" "d \<in> set cs \<Longrightarrow> no_worse (conn_Jumps c) (conn_Jumps d)" by blast+
qed

text \<open>Paths of at most three jumps are not shared, and then the search returns what it found.\<close>

lemma find_paths_short:
  assumes short: "\<forall>p. key_path jumps fb s t p \<longrightarrow> length p \<le> 3" and find: "find_paths jumps s t fb = (cs, found)"
  shows "{p. key_path jumps fb s t p} = conn_Jumps ` set cs"
    and "c \<in> set cs \<Longrightarrow> conn_Source c = s \<and> conn_Target c = t \<and> conn_Type c = connection_type (conn_Jumps c)"
    and "found = (cs \<noteq> [])"
proof -
  let ?P = "paths jumps fb t 11 [] s []"
  have exact: "conn_Source c = s \<and> conn_Target c = t \<and> conn_Type c = connection_type (conn_Jumps c) \<and> conn_Jumps c = p"
    if "p \<in> set ?P" "conn_Source c = s \<and> conn_Target c = t \<and> conn_Type c = connection_type p \<and> length (conn_Jumps c) = length p \<and>
      take (frozen (length p)) (conn_Jumps c) = take (frozen (length p)) p" for c p
    using short that paths_are_key_paths [of jumps fb t s] by (auto simp: frozen_def)
  have all: "list_all2 (\<lambda>c p. conn_Source c = s \<and> conn_Target c = t \<and> conn_Type c = connection_type (conn_Jumps c) \<and> conn_Jumps c = p) cs ?P"
    by (rule list.rel_mono_strong [OF find_paths_ok(2) [OF find]]) (rule exact)
  then have "map conn_Jumps cs = ?P" by (simp add: list_all2_conv_all_nth list_eq_iff_nth_eq)
  then have "conn_Jumps ` set cs = set ?P" by (metis set_map)
  then show "{p. key_path jumps fb s t p} = conn_Jumps ` set cs" by (simp add: paths_are_key_paths)
  show "conn_Source c = s \<and> conn_Target c = t \<and> conn_Type c = connection_type (conn_Jumps c)" if "c \<in> set cs"
    using all that by (auto simp: list_all2_conv_all_nth in_set_conv_nth)
  show "found = (cs \<noteq> [])" by (rule find_paths_ok(1) [OF find])
qed

lemma key_path_direct:
  assumes "key_path jumps fb s t p" "key_path jumps fb s t q" "length p \<le> 1"
  shows "length p \<le> length q"
proof (cases q)
  case Nil
  then have "s = t" using assms(2) by (simp add: key_path_def stops_def)
  moreover have "last (stops s p) = t" "distinct (stops s p)" using assms(1) unfolding key_path_def by blast+
  ultimately have "last (stops s p) = s" "distinct (stops s p)" by simp_all
  then have "p = []" using last_in_set [of "map jump_To p"] by (auto simp: stops_def split: if_splits)
  then show ?thesis by simp
qed (use assms(3) in simp)

lemma key_path_exact: "key_path jumps fb s t p \<Longrightarrow> \<not> uses_fallback p \<Longrightarrow> key_path jumps False s t p"
  by (auto simp: key_path_def list_ex_iff)

lemma key_path_mono: "key_path jumps False s t p \<Longrightarrow> key_path jumps fb s t p \<and> \<not> uses_fallback p"
  by (auto simp: key_path_def list_ex_iff)

lemma best_of_paths:
  assumes short: "\<forall>p. key_path jumps fb s t p \<longrightarrow> length p \<le> 3" and find: "find_paths jumps s t fb = (cs, found)"
    and best: "best_of cs = Some c"
  shows "conn_Source c = s \<and> conn_Target c = t \<and> key_path jumps fb s t (conn_Jumps c)"
    and "key_path jumps fb s t p \<Longrightarrow> no_worse (conn_Jumps c) p"
proof -
  note f = find_paths_short [OF short find]
  have k: "key_path jumps fb s t (conn_Jumps d)" if "d \<in> set cs" for d using f(1) that by blast
  note l = best_of_least [OF best conjunct2 [OF conjunct2 [OF f(2)]] key_path_direct [OF k k]]
  have c: "c \<in> set cs" by (rule l(1)) auto
  show "conn_Source c = s \<and> conn_Target c = t \<and> key_path jumps fb s t (conn_Jumps c)" using f(2) [OF c] k [OF c] by blast
  show "no_worse (conn_Jumps c) p" if "key_path jumps fb s t p"
  proof -
    obtain d where "d \<in> set cs" "p = conn_Jumps d" using f(1) \<open>key_path jumps fb s t p\<close> by blast
    then show ?thesis using l(2) [of d] by auto
  qed
qed

lemma hasPathBetweenDs_best:
  assumes ok: "cache_ok g" and short: "\<forall>p. key_path (jump_map g) True s t p \<longrightarrow> length p \<le> 3"
    and has: "hasPathBetweenDs s t fb g = (r, g')"
  shows "cache_ok g' \<and> jump_map g' = jump_map g"
    and "r = None \<longleftrightarrow> (\<nexists>p. key_path (jump_map g) fb s t p)"
    and "r = Some c \<Longrightarrow> conn_Source c = s \<and> conn_Target c = t \<and> key_path (jump_map g) fb s t (conn_Jumps c)"
    and "r = Some c \<Longrightarrow> key_path (jump_map g) fb s t p \<Longrightarrow> no_worse (conn_Jumps c) p"
proof -
  let ?J = "jump_map g"
  have short': "\<forall>p. key_path ?J b s t p \<longrightarrow> length p \<le> 3" for b
    using short by (auto simp: key_path_def)
  obtain cs f g1 where g1: "getPaths s t False g = ((cs, f), g1)" by (metis prod.exhaust)
  note c1 = getPaths_cached [OF ok g1]
  note p1 = find_paths_short [OF short' c1(1) [symmetric]]
  obtain ds f2 g2 where g2: "getPaths s t True g1 = ((ds, f2), g2)" by (metis prod.exhaust)
  note c2 = getPaths_cached [OF c1(2) g2, unfolded c1(3)]
  note p2 = find_paths_short [OF short' c2(1) [symmetric]]
  have res: "cache_ok g' \<and> jump_map g' = ?J \<and> (r = None \<longleftrightarrow> (\<nexists>p. key_path ?J fb s t p)) \<and>
      (\<forall>c. r = Some c \<longrightarrow> conn_Source c = s \<and> conn_Target c = t \<and> key_path ?J fb s t (conn_Jumps c) \<and>
        (\<forall>p. key_path ?J fb s t p \<longrightarrow> no_worse (conn_Jumps c) p))"
  proof (cases "f \<or> \<not> fb")
    case True
    have r: "r = (if f then best_of cs else None)" "g' = g1" using has g1 True by (auto simp: hasPathBetweenDs_def split: if_splits)
    show ?thesis
    proof (cases f)
      case True
      then have ne: "cs \<noteq> []" using p1(3) by simp
      then obtain b where b: "best_of cs = Some b" using best_of_None by fastforce
      note bp = best_of_paths [OF short' c1(1) [symmetric] b]
      have "no_worse (conn_Jumps b) p" if "key_path ?J fb s t p" for p
      proof (cases "uses_fallback p")
        case True
        then show ?thesis using key_path_mono bp(1) by (auto simp: no_worse_def)
      next
        case False
        then show ?thesis using bp(2) key_path_exact [OF that] by blast
      qed
      then show ?thesis using r b True c1(2,3) bp(1) key_path_mono by fastforce
    next
      case False
      then show ?thesis using r c1(2,3) p1(1,3) \<open>f \<or> \<not> fb\<close> by auto
    qed
  next
    case False
    then have r: "r = (if f2 then best_of ds else None)" "g' = g2" using has g1 g2 by (auto simp: hasPathBetweenDs_def split: if_splits)
    show ?thesis
    proof (cases f2)
      case True
      then have ne: "ds \<noteq> []" using p2(3) by simp
      then obtain b where b: "best_of ds = Some b" using best_of_None by fastforce
      note bp = best_of_paths [OF short' c2(1) [symmetric] b]
      then show ?thesis using r b True c2(2,3) False by auto
    next
      case False2: False
      then show ?thesis using r c2(2,3) p2(1,3) False by auto
    qed
  qed
  then show "cache_ok g' \<and> jump_map g' = jump_map g" "r = None \<longleftrightarrow> (\<nexists>p. key_path (jump_map g) fb s t p)" by blast+
  show "conn_Source c = s \<and> conn_Target c = t \<and> key_path (jump_map g) fb s t (conn_Jumps c)" if "r = Some c" using res that by blast
  show "no_worse (conn_Jumps c) p" if "r = Some c" "key_path (jump_map g) fb s t p" using res that by blast
qed

section \<open>A chain of four keys\<close>

text \<open>
  Five data sources in a chain, by the keys \<open>a\<close>, \<open>b\<close>, \<open>c\<close> and \<open>d\<close>, and a sixth that the fourth reaches by \<open>e\<close>.
\<close>

definition chain_key :: "bool \<Rightarrow> bool \<Rightarrow> string \<Rightarrow> KeyInfo" where
  "chain_key source target k = \<lparr>key_Source = source, key_Target = target, key_SelectionSet = k,
     key_FieldPaths = [\<lparr>key_Path = k, key_IsExternal = False\<rparr>]\<rparr>"

definition chain_keys :: "DSHash \<Rightarrow> KeyInfo list option" where
  "chain_keys = map_of
     [(1, [chain_key True False ''a'']), (2, [chain_key False True ''a'', chain_key True False ''b'']),
      (3, [chain_key False True ''b'', chain_key True False ''c'']),
      (4, [chain_key False True ''c'', chain_key True False ''d'', chain_key True False ''e'']),
      (5, [chain_key False True ''d'']), (6, [chain_key False True ''e''])]"

definition chain_graph :: DataSourceJumpsGraph where
  "chain_graph = NewDataSourceJumpsGraph [1, 2, 3, 4, 5, 6] chain_keys ''User''"

lemma chain_misroutes:
  "map (\<lambda>p. map jump_To p) (paths (jump_map chain_graph) False 5 11 [] 1 []) = [[2, 3, 4, 5]]"
  "map_option (\<lambda>c. map jump_To (conn_Jumps c)) (fst (hasPathBetweenDs 1 5 False chain_graph)) = Some [2, 3, 4, 6]"
  by code_simp+

end
