(* ===== verification/Spec2Isabelle.thy ===== *)
theory Spec2Isabelle
  imports Fetch_Waves Lexer_Roundtrip Cache_Spec Defer_Tree Subscription_Invariants Client_Frames
    Flight_Keys Inbound_Invariants Subgraph_Invariants
    Merge_Exact Auth_Coordinates Trigger_Delivery Subscription_Filter Key_Choice
begin

text \<open>
  A verification library of \<^emph>\<open>graphql-go-tools\<close>, a Go toolkit to build GraphQL routers and gateways.
  A request is lexed and parsed (\<open>v2/pkg/lexer\<close>, \<open>v2/pkg/astparser\<close>), normalised, validated and
  planned (\<open>v2/pkg/engine/plan\<close>) into a flat list of subgraph fetches; the postprocessor
  (\<open>v2/pkg/engine/postprocess\<close>) merges, orders and schedules the fetches; the loader
  (\<open>v2/pkg/engine/resolve\<close>) runs the tree and the responses are merged and rendered.
  Subscriptions reach the engine over websockets (\<open>execution/subscription\<close>) and share triggers in the resolver, and
  \<open>v2/pkg/engine/cache\<close> reads the cache headers of subgraph responses. The development models the
  parts that decide \<^emph>\<open>what is run, in which order and when it ends\<close>, what is shared between
  concurrent requests, which fields are rendered, and the two lexers.

  \<^bold>\<open>Conventions.\<close> A Go function is a HOL function on the values it reads and writes; a method that
  changes its receiver returns the receiver. Errors are \<open>Inl\<close> of the type \<open>result\<close>
  (\<open>GQL_Prelude\<close>), a panic or a recursion that does not end is \<open>None\<close>. Positions of the GraphQL
  lexer are \<open>32 word\<close>, ages \<open>32 word\<close> read by \<open>sint\<close>; Go's \<open>int\<close> identifiers are \<open>int\<close>. A Go map
  is a partial function, an association list, or a list of keys with a function, as its uses
  need; every use is independent of the order in which Go ranges over it.

  \<^bold>\<open>Fetch scheduling.\<close>
  \<^item> \<open>Fetch_Tree\<close>: the records of \<open>resolve/fetch.go\<close>, \<open>fetchtree.go\<close> and what a tree means: its
    fetches, the event traces of the loader's \<open>resolveFetchNodeWithCtx\<close>, its completion time.
  \<^item> \<open>Fetch_Graph\<close>, \<open>Fetch_Colour\<close>, \<open>Fetch_Schedule\<close>, \<open>Fetch_Dominance\<close>, \<open>Fetch_Validate\<close>:
    \<open>postprocess/schedule_fetches.go\<close>. The dependency graph with its weakly connected components and
    the locale \<open>fetch_graph\<close> for what the scheduler relies on; the colouring of fetches that only
    one root needs; the recursive schedule with fuel (the number of fetches suffices,
    \<open>schedule_correct\<close>); the predecessor sets, the dominance test and completion times; the
    validation of a schedule and the processor's choice between the candidates.
  \<^item> \<open>Fetch_Waves\<close>: the older pipeline (\<open>order_sequence_by_dependencies.go\<close>,
    \<open>create_parallel_nodes.go\<close>, \<open>organizeFetchTree\<close>) with the switches that disable its stages;
    \<open>createMultiFetch\<close> is an argument there.
    Fuel stands for the unguarded recursion of \<open>nodeDependsOn\<close>, which runs out exactly on cycles.
  \<^item> \<open>Fetch_Flat\<close>: the stages on the flat tree: \<open>createFetchTree\<close>, merging equal fetches, adding the
    dependencies of nested fetches, appending fetch identifiers to operation names.
  \<^item> \<open>Defer_Tree\<close>: \<open>extract_defer_fetches.go\<close>, \<open>build_defer_tree.go\<close>, \<open>resolve/defer_tree.go\<close>; the
    recursion of \<open>buildChain\<close> has one unit of fuel per group and one more, which is enough for
    every descriptor map (\<open>buildChain_ok\<close>).

  C1 to C6 state that schedules run the fetches they are given in dependency order, when
  scheduling succeeds, that the chosen tree is never slower than the waves for any durations, and
  what the parts promise; C7 the waves pipeline and the choice between the two, for all combinations
  of disabled stages under which it holds; C13 to C17 the flat stages and defers.

  \<^bold>\<open>Lexing.\<close> \<open>Lexer\<close>, \<open>Tokenizer\<close>, \<open>Lexer_Roundtrip\<close>: every function of \<open>lexer.go\<close> and
  \<open>tokenizer.go\<close> with positions that wrap. C8 to C10: tokens are ordered slices of the input, a
  rendered list of lexemes is read back, limits are enforced. The last
  section of \<open>Lexer_Roundtrip\<close> collects inputs on which the lexer does not do what the GraphQL
  specification or its own comments say.

  \<^bold>\<open>Cache-Control.\<close> \<open>Cache_Control\<close> models \<open>lex.go\<close> and \<open>cache_control.go\<close>; \<open>Cache_Spec\<close> has the
  concrete syntax, the contract of field-name lists (locale \<open>name_list\<close>) and the meaning of
  directives. C11: printing and parsing; C12: bounds.

  \<^bold>\<open>Subscriptions.\<close> \<open>Subscription_WS\<close> models the websocket client, the \<open>graphql-transport-ws\<close>
  handler, the registry of operations, the engine and the driving loop; \<open>ws_step\<close> interleaves the
  loop with timers, heartbeat and operations. \<open>Subscription_Invariants\<close> proves the invariant of all
  reachable states by rule induction. A handler function and a write of another goroutine are single
  steps there; \<open>Client_Frames\<close> interleaves the operations of \<open>client.go\<close> itself and shows what they
  promise: one writer at a time, at most one message after the connection is marked closed, none after
  it is closed, and that a message can follow the close frame. C18 to C22: the handshake, the answers
  to messages out of order, the registry, that operations can end, and the cancellation of a newer
  operation.

  \<^bold>\<open>Single flights.\<close> \<open>Flight_Table\<close> has what the two single flights of \<open>resolve\<close> share: the keys
  (the hash is an argument), the sharded table, and the election of a leader proved once over the
  locale \<open>flight_table\<close>, which the shards interpret. \<open>Inbound_Flight\<close> models
  \<open>inbound_request_singleflight.go\<close> and its use in \<open>ArenaResolveGraphQLResponse\<close>, \<open>Subgraph_Flight\<close>
  \<open>subgraph_request_singleflight.go\<close> and \<open>loadByContext\<close> of \<open>loader.go\<close>; a step is one atomic operation
  of one goroutine, and what resolving, loading and writing to a client give and when and with which
  error a context ends is free. \<open>Inbound_Invariants\<close>,
  \<open>Subgraph_Invariants\<close> and \<open>Flight_Keys\<close> hold the invariants and what keys tell apart. C23 to C26:
  followers get their leader's result and no channel is closed twice, for inbound requests only if a
  follower is counted in time (\<open>counted_run\<close>), which the code does not ensure (C24), and the bounds of
  the size estimates; \<open>shards_refine_map\<close> and \<open>flight_keys_identify\<close>: the shards are one map, and what
  the keys tell apart.

  \<^bold>\<open>Response tree.\<close> \<open>Response_Tree\<close> models the nodes of \<open>resolve/node*.go\<close>, their copies and the type
  conditions under which \<open>resolvable.go\<close> renders a field. \<open>Merge_Fields\<close> and \<open>Merge_Tree\<close> are
  \<open>postprocess/merge_fields.go\<close>; its loops, which remove fields while they run, are \<open>sweep\<close> and
  \<open>absorb\<close>, and the traversal ends because merging does not make a tree higher. \<open>Merge_Proofs\<close>,
  \<open>Merge_Unique\<close> and \<open>Merge_Exact\<close> prove what merging keeps, each through a locale for the contract
  between a loop and the merge of two fields (\<open>merging\<close>, \<open>keyed_merging\<close>), interpreted for the three
  loops. \<open>Auth_Coordinates\<close> is \<open>collect_authorization_coordinates.go\<close>. C27 to C29 and C31: no
  failed type assertion, one field per key, what is rendered is kept under stated conditions (and not
  otherwise, \<open>mergeFields_changes\<close>), the recorded coordinates are the protected ones.

  \<^bold>\<open>Subscriptions in the resolver.\<close> Subscriptions with the same input share a trigger
  (\<open>resolve/resolve.go\<close>). \<open>Trigger_Registry\<close> has the registry and its critical sections,
  \<open>Trigger_Refinement\<close> their contract: the invariant \<open>triggers_ok\<close> of the indexes, and the map from
  identifiers to triggers that they update (\<open>reg_view\<close>); what removes subscriptions one by one is proved
  once in the locale \<open>remover\<close>, interpreted for removals by identifier and by trigger. \<open>Trigger_Steps\<close>
  interleaves the goroutines around the registry (updaters, startup hooks, deliveries, heartbeats,
  shutdown) as lists of actions, each what the code does between two points where another goroutine
  can run; \<open>Trigger_Invariants\<close> proves the invariant \<open>resolver_inv\<close> of the reachable states and
  \<open>Trigger_Delivery\<close> what is written, and that removed subscriptions can be closed. C32 to C36 hold when an
  identifier is not added again while it is in use (\<open>reused_identifier_hides\<close>). C37 is a race, in
  every state that allows it: a late \<open>Done\<close> ends a newer trigger. \<open>late_end_and_count\<close> has runs of two
  more: the end of a stream is written late, a trigger stays counted.

  \<^bold>\<open>Templates and filters.\<close> \<open>Input_Template\<close> models \<open>resolve/inputtemplate.go\<close>, \<open>variables.go\<close> and
  \<open>variables_renderer.go\<close> on the values that the JSON library's accessors show, \<open>Subscription_Filter\<close>
  \<open>resolve/subscription_filter.go\<close>. C39: a filter is a formula over its field filters; C40: how many
  strings of a list can match. The library's look-ups are arguments.

  \<^bold>\<open>Jumps between data sources.\<close> \<open>Key_Jumps\<close> models \<open>plan/source_connection_graph.go\<close> and the choice of
  a path in \<open>plan/datasource_filter_visitor.go\<close>, with the slices of the search as references into a heap
  of arrays, since the paths share arrays. The depth bound of the search is its fuel (eleven, for at
  most ten jumps), so it needs no other. \<open>Key_Search\<close> relates it to the set of paths \<open>key_path\<close>,
  \<open>Key_Choice\<close> the graph, the cache and the chosen path to what they mean. C30: which paths are found; C38:
  which is chosen. \<open>chain_misroutes\<close>: a chain of four jumps whose last is overwritten by its sibling.

  \<^bold>\<open>Not modelled.\<close> The parser above the tokenizer, the document model and its printer, visitor,
  normalisation and validation: they mutate one document of index-linked slices, a model of which
  is a development of its own. The rest of the planner and the data sources, which need it. The loader's
  requests, merging and error handling and the rendering of values in \<open>resolvable.go\<close>, which work on
  the arena values of a JSON library outside the repository. \<open>createMultiFetch\<close>, which rewrites
  documents. The older \<open>graphql-ws\<close> protocol and the legacy handler. HTTP, gRPC, netpoll, generated
  code, examples and test helpers.
\<close>

section \<open>Example data\<close>

text \<open>Fetches and roots the witnesses evaluate the definitions on.\<close>

definition ex_fetch :: "int \<Rightarrow> int list \<Rightarrow> string FetchTreeNode" where
  "ex_fetch i deps = Single \<lparr>Fetch = EntityFetch \<lparr>FetchID = i, DependsOnFetchIDs = deps, DeferID = 0\<rparr> None,
     FetchPath = [], ResponsePath = ''query'', ResponsePathElements = [''query'']\<rparr>"

definition ex_nodes :: "string FetchTreeNode list" where
  "ex_nodes = [ex_fetch 0 [], ex_fetch 1 [], ex_fetch 2 [0], ex_fetch 3 [1, 2, 9]]"

definition ex_root :: "string FetchTreeRoot" where
  "ex_root = \<lparr>Node = Sequence ex_nodes, RootTrigger = None, NormalizedQuery = ''''\<rparr>"

lemma root_acyclicI:
  assumes "\<forall>it \<in> set (concat (map tree_items ns)). \<forall>dep \<in> set (item_deps it).
    dep \<in> set (concat (map tree_ids ns)) \<longrightarrow> dep < item_id it"
  shows "root_acyclic ns"
  unfolding root_acyclic_def
  by (rule acyclicI_order [where f = "\<lambda>i. - i"]) (use assms in auto)

lemma ex_nodes_ok:
  "flat ex_nodes" "distinct (concat (map tree_ids ex_nodes))" "root_acyclic ex_nodes"
proof -
  show "flat ex_nodes" "distinct (concat (map tree_ids ex_nodes))"
    by (simp_all add: flat_def ex_nodes_def ex_fetch_def item_id_def)
  show "root_acyclic ex_nodes"
    by (rule root_acyclicI) (simp add: ex_nodes_def ex_fetch_def item_id_def item_deps_def)
qed

section \<open>The fetch scheduler\<close>

text \<open>
  C1: for a flat sequence of fetches with different identifiers and acyclic dependencies the
  scheduler returns a tree, and in every run of that tree by the loader, whatever the
  interleaving, each fetch is started after every fetch of the sequence that it depends on has
  finished; the tree holds exactly the given fetches, and the root keeps its subscription
  trigger and normalized query.
\<close>

theorem schedule_runs_in_dependency_order:
  assumes "Node root = Sequence ns" and "flat ns" and "distinct (concat (map tree_ids ns))" and "root_acyclic ns"
  shows "\<exists>root'. scheduleFetches_ProcessFetchTree root = Ok root' \<and>
    mset (tree_items (Node root')) = mset (concat (map tree_items ns)) \<and>
    RootTrigger root' = RootTrigger root \<and> NormalizedQuery root' = NormalizedQuery root \<and>
    (\<forall>tr it dep. runs (Node root') tr \<longrightarrow> it \<in> set (concat (map tree_items ns)) \<longrightarrow>
       dep \<in> set (item_deps it) \<longrightarrow> dep \<in> set (concat (map tree_ids ns)) \<longrightarrow>
       before_in (Finish dep) (Start (item_id it)) tr)"
proof -
  obtain root' where r: "scheduleFetches_ProcessFetchTree root = Ok root'"
    using process_iff [OF assms(1,2)] assms(3,4) by blast
  note p = process_result [OF assms(1,2) r]
  show ?thesis using r p(1,3,4) p(6) runs_precedes(1) by blast
qed

theorem schedule_runs_in_dependency_order_witness:
  "\<exists>root'. scheduleFetches_ProcessFetchTree ex_root = Ok root' \<and>
    mset (tree_items (Node root')) = mset (concat (map tree_items ex_nodes)) \<and>
    RootTrigger root' = RootTrigger ex_root \<and> NormalizedQuery root' = NormalizedQuery ex_root \<and>
    (\<forall>tr it dep. runs (Node root') tr \<longrightarrow> it \<in> set (concat (map tree_items ex_nodes)) \<longrightarrow>
       dep \<in> set (item_deps it) \<longrightarrow> dep \<in> set (concat (map tree_ids ex_nodes)) \<longrightarrow>
       before_in (Finish dep) (Start (item_id it)) tr)"
  by (rule schedule_runs_in_dependency_order [OF _ ex_nodes_ok]) (simp add: ex_root_def)

text \<open>
  C2: on a flat sequence the scheduler succeeds exactly when the identifiers are different and
  the dependencies among them are acyclic; in every other case it reports an error and the
  pipeline falls back to the waves.
\<close>

theorem schedule_succeeds_iff:
  assumes "Node root = Sequence ns" and "flat ns"
  shows "(\<exists>root'. scheduleFetches_ProcessFetchTree root = Ok root') \<longleftrightarrow>
    distinct (concat (map tree_ids ns)) \<and> root_acyclic ns"
  by (rule process_iff [OF assms])

theorem schedule_succeeds_iff_witness:
  "(\<exists>root'. scheduleFetches_ProcessFetchTree ex_root = Ok root') \<longleftrightarrow>
    distinct (concat (map tree_ids ex_nodes)) \<and> root_acyclic ex_nodes"
  by (rule schedule_succeeds_iff [OF _ ex_nodes_ok(1)]) (simp add: ex_root_def)

text \<open>
  C3: the tree the scheduler picks is never slower than the tree of the waves strategy, whatever
  time each fetch takes.
\<close>

theorem schedule_never_slower_than_waves:
  assumes "newFetchDAG ns = Ok dag" and "flat ns" and "acyclic_dag dag"
  shows "\<exists>t waves. buildScheduleTree ns dag = Ok t \<and> wavesOnly ns dag = Ok waves \<and>
    (\<forall>w. opt_makespan w t \<le> opt_makespan w waves)"
proof -
  note d = newFetchDAG_Ok [OF assms(1)] and f = newFetchDAG_flat [OF assms(1,2)]
  obtain t waves where t: "buildScheduleTree ns dag = Ok t" "sched_ok dag (dag_ids dag) t"
    "wavesOnly ns dag = Ok waves" "sched_ok dag (dag_ids dag) waves" "opt_precedes t \<subseteq> opt_precedes waves"
    using buildScheduleTree_correct [OF assms] by blast
  have "mset (opt_ids t) = mset (dag_ids dag)" "mset (opt_ids waves) = mset (dag_ids dag)"
    using sched_ok_ids [OF d(1) f(1)] t(2,4) by auto
  then have "distinct (opt_ids waves)" "set (opt_ids t) \<subseteq> set (opt_ids waves)"
    using wf_dagD(1) [OF d(1)] by (metis mset_eq_imp_distinct_iff, metis mset_eq_setD order_refl)
  then show ?thesis using t opt_makespan_mono by blast
qed

theorem schedule_never_slower_than_waves_witness:
  "\<exists>dag t waves. newFetchDAG ex_nodes = Ok dag \<and> buildScheduleTree ex_nodes dag = Ok t \<and>
    wavesOnly ex_nodes dag = Ok waves \<and> (\<forall>w. opt_makespan w t \<le> opt_makespan w waves)"
  using newFetchDAG_exists [OF ex_nodes_ok] schedule_never_slower_than_waves [OF _ ex_nodes_ok(1)] by blast

text \<open>
  C4: \<open>dominates\<close> holds of two trees without repeated fetches exactly when they run the same
  fetches and every pair that the first orders is ordered by the second, and then the first is
  never slower, whatever time each fetch takes.
\<close>

theorem dominates_never_slower:
  assumes "distinct (opt_ids A)" and "distinct (opt_ids B)"
  shows "(dominates A B \<longleftrightarrow> set (opt_ids A) = set (opt_ids B) \<and> opt_precedes A \<subseteq> opt_precedes B) \<and>
    (dominates A B \<longrightarrow> (\<forall>w. opt_makespan w A \<le> opt_makespan w B))"
  using dominates_iff [OF assms] dominates_makespan [OF assms] by blast

definition ex_inlined :: "string FetchTreeNode option" where
  "ex_inlined = Some (Parallel [Sequence [ex_fetch 0 [], ex_fetch 2 [0]], Sequence [ex_fetch 1 [], ex_fetch 3 [1]]])"

definition ex_waves :: "string FetchTreeNode option" where
  "ex_waves = Some (Sequence [Parallel [ex_fetch 0 [], ex_fetch 1 []], Parallel [ex_fetch 2 [0], ex_fetch 3 [1]]])"

lemma ex_trees_distinct: "distinct (opt_ids ex_inlined)" "distinct (opt_ids ex_waves)"
  by (simp_all add: ex_inlined_def ex_waves_def ex_fetch_def item_id_def)

theorem dominates_never_slower_witness:
  "dominates ex_inlined ex_waves \<and> (\<forall>w. opt_makespan w ex_inlined \<le> opt_makespan w ex_waves)"
proof -
  have "dominates ex_inlined ex_waves"
    using dominates_never_slower [OF ex_trees_distinct]
    by (auto simp: ex_inlined_def ex_waves_def ex_fetch_def item_id_def)
  then show ?thesis using dominates_never_slower [OF ex_trees_distinct] by blast
qed

text \<open>
  the converse of the test, for two trees of the same fetches: where it fails on a pair that
  the second tree leaves unordered, some durations make the first tree strictly slower. For a
  pair that the second tree orders the other way round no such durations need exist, as
  \<open>dominates_not_exact\<close> shows.
\<close>

theorem dominates_failure_costs:
  assumes "distinct (tree_ids A)" and "distinct (tree_ids B)" and "set (tree_ids A) = set (tree_ids B)"
    and "\<not> dominates (Some A) (Some B)" and "precedes A \<inter> (precedes B)\<inverse> = {}"
  shows "\<exists>w. makespan w B < makespan w A"
proof -
  have "\<not> precedes A \<subseteq> precedes B" using dominates_iff [of "Some A" "Some B"] assms(1-4) by simp
  then obtain x y where "(x, y) \<in> precedes A" "(x, y) \<notin> precedes B" by auto
  with unordered_pair_slower [OF assms(1,2)] assms(5) show ?thesis by blast
qed

theorem dominates_failure_costs_witness:
  "\<exists>w. makespan w (the ex_inlined) < makespan w (the ex_waves)"
  by (rule dominates_failure_costs)
    (auto simp: dominates_iff ex_inlined_def ex_waves_def ex_fetch_def item_id_def)

lemma dominates_not_exact:
  defines "A \<equiv> Sequence [ex_fetch 0 [], ex_fetch 1 []]" and "B \<equiv> Sequence [ex_fetch 1 [], ex_fetch 0 []]"
  shows "\<not> dominates (Some A) (Some B)" and "makespan w A = makespan w B"
  by (simp_all add: A_def B_def dominates_iff ex_fetch_def item_id_def)

text \<open>
  C5: \<open>validateSchedule\<close> accepts exactly the trees of runnable nodes that hold every fetch of
  the graph once and order every declared dependency that the graph knows before its dependant.
\<close>

theorem validateSchedule_exact:
  assumes "newFetchDAG ns = Ok dag"
  shows "validateSchedule t dag = Ok () \<longleftrightarrow>
    opt_runnable t \<and> mset (opt_ids t) = mset (dag_ids dag) \<and>
    (\<forall>it \<in> set (opt_items t). \<forall>dep \<in> set (item_deps it).
       dep \<in> set (dag_ids dag) \<longrightarrow> (dep, item_id it) \<in> opt_precedes t)"
  unfolding validateSchedule_iff [OF newFetchDAG_Ok(1) [OF assms]]
  by (cases t) (auto simp: opt_deps_ok_def deps_ok_def)

theorem validateSchedule_exact_witness:
  "\<exists>dag. newFetchDAG ex_nodes = Ok dag \<and> validateSchedule None dag \<noteq> Ok ()"
proof -
  obtain dag where d: "newFetchDAG ex_nodes = Ok dag" using newFetchDAG_exists [OF ex_nodes_ok] by blast
  have "dag_ids dag \<noteq> []"
    using newFetchDAG_ids [OF d ex_nodes_ok(1)] by (auto simp: ex_nodes_def ex_fetch_def)
  with d validateSchedule_exact [OF d, of None] show ?thesis by auto
qed

text \<open>
  C6: \<open>newFetchDAG\<close> accepts a flat sequence exactly when no identifier is repeated and no
  fetch depends on itself, and then its edges are the declared dependencies inside the sequence,
  seen from both ends.
\<close>

theorem newFetchDAG_exact:
  assumes "flat ns"
  shows "((\<exists>dag. newFetchDAG ns = Ok dag) \<longleftrightarrow> distinct (concat (map tree_ids ns)) \<and>
      (\<forall>it \<in> set (concat (map tree_items ns)). item_id it \<notin> set (item_deps it))) \<and>
    (\<forall>dag i p. newFetchDAG ns = Ok dag \<longrightarrow> i \<in> set (dag_ids dag) \<longrightarrow>
      (p \<in> set (parents_of dag i) \<longleftrightarrow> p \<in> set (item_deps (dag_item dag i)) \<and> p \<in> set (dag_ids dag)) \<and>
      (p \<in> set (parents_of dag i) \<longleftrightarrow> i \<in> set (children_of dag p)))"
  using newFetchDAG_iff [OF assms] newFetchDAG_flat(4) [OF _ assms] wf_dagD(3) [OF newFetchDAG_Ok(1)] by blast

theorem newFetchDAG_exact_witness:
  "\<exists>dag. newFetchDAG ex_nodes = Ok dag"
  using newFetchDAG_exact [OF ex_nodes_ok(1)] ex_nodes_ok
  by (auto simp: ex_nodes_def ex_fetch_def item_id_def item_deps_def)

text \<open>
  \<open>colorExclusive\<close> gives a fetch of the component the colour of a root exactly when that
  root is the only one that reaches it, and \<open>sharedByRoots\<close> exactly when two roots do.
\<close>

theorem colorExclusive_labels:
  assumes "wf_dag dag" and "set roots \<subseteq> set inSet" and "sharedByRoots \<notin> set roots" and "q \<in> set inSet"
  shows "(\<forall>r. r \<noteq> sharedByRoots \<longrightarrow>
      (map_of (colorExclusive roots dag inSet) q = Some r \<longleftrightarrow>
       r \<in> set roots \<and> reached dag inSet r q \<and> (\<forall>r' \<in> set roots. reached dag inSet r' q \<longrightarrow> r' = r))) \<and>
    (map_of (colorExclusive roots dag inSet) q = Some sharedByRoots \<longleftrightarrow>
     (\<exists>r1 \<in> set roots. \<exists>r2 \<in> set roots. r1 \<noteq> r2 \<and> reached dag inSet r1 q \<and> reached dag inSet r2 q))"
  using colorExclusive_exact [OF assms] by blast

theorem colorExclusive_labels_witness:
  "\<exists>dag. newFetchDAG ex_nodes = Ok dag \<and>
     (map_of (colorExclusive [0, 1] dag [0, 1, 2, 3]) 3 = Some sharedByRoots \<longleftrightarrow>
      (\<exists>r1 \<in> set [0, 1]. \<exists>r2 \<in> set [0, 1]. r1 \<noteq> r2 \<and> reached dag [0, 1, 2, 3] r1 3 \<and> reached dag [0, 1, 2, 3] r2 3))"
proof -
  obtain dag where d: "newFetchDAG ex_nodes = Ok dag" using newFetchDAG_exists [OF ex_nodes_ok] by blast
  show ?thesis
    using d colorExclusive_labels [OF newFetchDAG_Ok(1) [OF d], of "[0, 1]" "[0, 1, 2, 3]" 3]
    by (auto simp: sharedByRoots_def)
qed

text \<open>
  \<open>weaklyConnectedComponents\<close> splits a set of fetches into non-empty parts that repeat
  nothing and between which no dependency runs.
\<close>

theorem weaklyConnectedComponents_partition:
  assumes "wf_dag dag" and "distinct ns"
  shows "mset (concat (weaklyConnectedComponents ns dag)) = mset ns \<and>
    (\<forall>C \<in> set (weaklyConnectedComponents ns dag). C \<noteq> [] \<and>
       (\<forall>x \<in> set C. \<forall>y \<in> set ns. y \<in> set (parents_of dag x) \<or> y \<in> set (children_of dag x) \<longrightarrow> y \<in> set C))"
  using weaklyConnectedComponents_spec [OF assms] unfolding closed_in_def dag.adj_def by blast

theorem weaklyConnectedComponents_partition_witness:
  "\<exists>dag. newFetchDAG ex_nodes = Ok dag \<and> mset (concat (weaklyConnectedComponents [0, 1, 2, 3] dag)) = mset [0, 1, 2, 3]"
proof -
  obtain dag where d: "newFetchDAG ex_nodes = Ok dag" using newFetchDAG_exists [OF ex_nodes_ok] by blast
  show ?thesis using d weaklyConnectedComponents_partition [OF newFetchDAG_Ok(1) [OF d], of "[0, 1, 2, 3]"] by simp
qed

text \<open>
  a root with a subscription trigger stays a \<open>Sequence\<close>, as the plan printer needs.
\<close>

theorem schedule_keeps_subscription_sequence:
  assumes "Node root = Sequence ns" and "flat ns" and "RootTrigger root \<noteq> None"
    and "scheduleFetches_ProcessFetchTree root = Ok root'"
  shows "node_kind (Node root') = KindSequence \<and> runnable (Node root')"
  using process_result [OF assms(1,2,4)] assms(3) by blast

theorem schedule_keeps_subscription_sequence_witness:
  "\<exists>root'. scheduleFetches_ProcessFetchTree (ex_root\<lparr>RootTrigger := Some (ex_fetch 7 [])\<rparr>) = Ok root' \<and>
    node_kind (Node root') = KindSequence"
proof -
  let ?root = "ex_root\<lparr>RootTrigger := Some (ex_fetch 7 [])\<rparr>"
  have n: "Node ?root = Sequence ex_nodes" by (simp add: ex_root_def)
  obtain root' where r: "scheduleFetches_ProcessFetchTree ?root = Ok root'"
    using process_iff [OF n ex_nodes_ok(1)] ex_nodes_ok by blast
  show ?thesis using r schedule_keeps_subscription_sequence [OF n ex_nodes_ok(1) _ r] by simp
qed


section \<open>Organizing the fetch tree\<close>

text \<open>
  C7: while the merging stage \<open>createMultiFetch\<close> is disabled (which it is unless the processor is told
  otherwise), \<open>organizeFetchTree\<close> turns a flat sequence with different identifiers and acyclic
  dependencies into a tree of the same fetches in which every fetch is ordered after the fetches of
  the sequence it depends on: with the scheduler, whatever else is disabled, and with the waves,
  grouped or not, provided that \<open>orderSequenceByDependencies\<close> is not disabled. With the merging stage
  and the scheduler enabled the same holds of the fetches that merging the waves has left, as long as
  they form a sequence in which no identifier is repeated and no dependencies are cyclic.
\<close>

theorem organizeFetchTree_in_dependency_order:
  assumes "Node root = Sequence ns" and "flat ns" and "distinct (concat (map tree_ids ns))" and "root_acyclic ns"
  shows "(multi_disable p \<longrightarrow> (order_disable p \<longrightarrow> \<not> schedule_disable p) \<longrightarrow>
      (\<exists>root'. organizeFetchTree p multi root = Ok root' \<and>
        mset (tree_items (Node root')) = mset (concat (map tree_items ns)) \<and> runnable (Node root') \<and>
        (\<forall>it \<in> set (tree_items (Node root')). \<forall>dep \<in> set (item_deps it).
           dep \<in> set (concat (map tree_ids ns)) \<longrightarrow> (dep, item_id it) \<in> precedes (Node root')) \<and>
        RootTrigger root' = RootTrigger root \<and> NormalizedQuery root' = NormalizedQuery root)) \<and>
    (\<not> multi_disable p \<longrightarrow> \<not> schedule_disable p \<longrightarrow>
      (\<forall>w ts ms. organizeFetchTreeInWaves p root = Ok w \<and> Node (multi w) = Sequence ts \<and> ms = concat (map collectSingles ts) \<and>
         distinct (concat (map tree_ids ms)) \<and> root_acyclic ms \<longrightarrow>
       (\<exists>root'. organizeFetchTree p multi root = Ok root' \<and>
         mset (tree_items (Node root')) = mset (concat (map tree_items ms)) \<and> runnable (Node root') \<and>
         (\<forall>it \<in> set (tree_items (Node root')). \<forall>dep \<in> set (item_deps it).
            dep \<in> set (concat (map tree_ids ms)) \<longrightarrow> (dep, item_id it) \<in> precedes (Node root')) \<and>
         RootTrigger root' = RootTrigger (multi w) \<and> NormalizedQuery root' = NormalizedQuery (multi w))))"
proof (intro conjI impI allI)
  assume "multi_disable p" "order_disable p \<longrightarrow> \<not> schedule_disable p"
  then show "\<exists>root'. organizeFetchTree p multi root = Ok root' \<and>
      mset (tree_items (Node root')) = mset (concat (map tree_items ns)) \<and> runnable (Node root') \<and>
      (\<forall>it \<in> set (tree_items (Node root')). \<forall>dep \<in> set (item_deps it).
         dep \<in> set (concat (map tree_ids ns)) \<longrightarrow> (dep, item_id it) \<in> precedes (Node root')) \<and>
      RootTrigger root' = RootTrigger root \<and> NormalizedQuery root' = NormalizedQuery root"
    using organizeFetchTree_correct [OF assms, of p multi, unfolded in_order_iff] by simp
next
  fix w ts ms
  assume e: "\<not> multi_disable p" "\<not> schedule_disable p"
    and w: "organizeFetchTreeInWaves p root = Ok w \<and> Node (multi w) = Sequence ts \<and> ms = concat (map collectSingles ts) \<and>
      distinct (concat (map tree_ids ms)) \<and> root_acyclic ms"
  show "\<exists>root'. organizeFetchTree p multi root = Ok root' \<and>
      mset (tree_items (Node root')) = mset (concat (map tree_items ms)) \<and> runnable (Node root') \<and>
      (\<forall>it \<in> set (tree_items (Node root')). \<forall>dep \<in> set (item_deps it).
         dep \<in> set (concat (map tree_ids ms)) \<longrightarrow> (dep, item_id it) \<in> precedes (Node root')) \<and>
      RootTrigger root' = RootTrigger (multi w) \<and> NormalizedQuery root' = NormalizedQuery (multi w)"
    using organizeFetchTree_merged [OF assms(1) e, of w multi ts ms, unfolded in_order_iff] w by blast
qed

definition ex_processors :: FetchTreeProcessors where
  "ex_processors = \<lparr>schedule_disable = True, multi_disable = True, order_disable = False, parallel_disable = False\<rparr>"

theorem organizeFetchTree_in_dependency_order_witness:
  "\<exists>root'. organizeFetchTree ex_processors id ex_root = Ok root' \<and> runnable (Node root')"
proof -
  have "Node ex_root = Sequence ex_nodes" "multi_disable ex_processors" "\<not> order_disable ex_processors"
    by (simp_all add: ex_root_def ex_processors_def)
  then show ?thesis using organizeFetchTree_in_dependency_order [OF _ ex_nodes_ok, of ex_root ex_processors id] by blast
qed

text \<open>
  the order that \<open>orderSequenceByDependencies\<close> establishes is the lexicographic order of
  the number of transitive dependencies and the identifier, whatever sorting algorithm is used,
  and in it every fetch follows its dependencies.
\<close>

theorem orderSequence_sorts:
  assumes "flat ns" and "distinct (concat (map tree_ids ns))" and "root_acyclic ns"
  shows "orderSequenceByDependencies False ns = Ok (sort_key (\<lambda>n. (card (all_deps ns (nodeFetchID n)), nodeFetchID n)) ns) \<and>
    topological (set (concat (map tree_ids ns))) {} (sort_key (\<lambda>n. (card (all_deps ns (nodeFetchID n)), nodeFetchID n)) ns)"
proof -
  have d: "distinct (map nodeFetchID ns)" using assms(2) flat_nodeFetchID [OF assms(1)] by simp
  note ac = root_acyclic_dep_edges [OF assms(1,3)]
  have "order_key ns = (\<lambda>n. (card (all_deps ns (nodeFetchID n)), nodeFetchID n))"
    by (simp add: order_key_def length_deps_of fun_eq_iff)
  then show ?thesis
    using orderSequence_key [OF assms(1) d ac] orderSequence_topological [OF d ac] flat_ids [OF assms(1)] by simp
qed

theorem orderSequence_sorts_witness:
  "\<exists>ns'. orderSequenceByDependencies False ex_nodes = Ok ns' \<and> topological (set (concat (map tree_ids ex_nodes))) {} ns'"
  using orderSequence_sorts [OF ex_nodes_ok] by blast

text \<open>
  when some fetches of a sequence depend on each other in a cycle, the scheduler reports an
  error and the waves it falls back to recurse without end: for every amount of fuel the
  computation of the dependencies of a fetch on the cycle overflows, and so does
  \<open>organizeFetchTree\<close>.
\<close>

theorem cyclic_dependencies_overflow:
  assumes "Node root = Sequence ns" and "flat ns" and "distinct (concat (map tree_ids ns))" and "length ns \<ge> 2"
    and "C \<subseteq> set ns" and "n \<in> C" and "\<forall>n \<in> C. \<exists>m \<in> C. nodeFetchID m \<in> set (node_deps n)"
    and "\<not> order_disable p" and "multi_disable p"
  shows "organizeFetchTree p multi root = Err StackOverflow \<and>
    (\<forall>fuel. nodeDependsOn fuel n ns = Err StackOverflow)"
proof -
  have d: "distinct (map nodeFetchID ns)" using assms(3) flat_nodeFetchID [OF assms(2)] by simp
  show ?thesis
    using organize_cycle [OF assms(1-3,5-7,4,8,9)] nodeDependsOn_cycle [OF d assms(5,7,6)] by blast
qed

definition ex_cycle :: "string FetchTreeNode list" where
  "ex_cycle = [ex_fetch 0 [1], ex_fetch 1 [0]]"

theorem cyclic_dependencies_overflow_witness:
  "organizeFetchTree ex_processors id (ex_root\<lparr>Node := Sequence ex_cycle\<rparr>) = Err StackOverflow"
proof -
  have "organizeFetchTree ex_processors id (ex_root\<lparr>Node := Sequence ex_cycle\<rparr>) = Err StackOverflow \<and>
    (\<forall>fuel. nodeDependsOn fuel (ex_fetch 0 [1]) ex_cycle = Err StackOverflow)"
  proof (rule cyclic_dependencies_overflow)
    show "\<forall>n \<in> set ex_cycle. \<exists>m \<in> set ex_cycle. nodeFetchID m \<in> set (node_deps n)"
      by (simp add: ex_cycle_def ex_fetch_def nodeFetchID_def node_deps_def item_id_def item_deps_def)
  qed (simp_all add: ex_root_def ex_cycle_def ex_fetch_def flat_def item_id_def ex_processors_def)
  then show ?thesis by blast
qed

section \<open>The lexer and the tokenizer\<close>

text \<open>
  C8: on an input of less than 4 GiB every token's literal is a slice of the input, and the
  literals of successive tokens follow each other without overlap, so that slicing never panics.
\<close>

theorem tokens_are_ordered_slices:
  assumes "length bytes < 2 ^ 32"
  shows "sorted_wrt (\<lambda>t u. unat (RefEnd (Literal t)) \<le> unat (RefStart (Literal u)))
      (tokens (Tokenize (new_input bytes) tz)) \<and>
    (\<forall>t \<in> set (tokens (Tokenize (new_input bytes) tz)). \<exists>xs. Input_ByteSlice (new_input bytes) (Literal t) = Some xs)"
proof -
  have sp: "spans_from (InputPosition (new_input bytes)) (Length (new_input bytes)) (lex_all (new_input bytes))"
    by (rule lex_all_spans) (simp add: new_input_ok)
  show ?thesis
    using spans_sorted [OF _ sp] Tokens_in_range [OF new_input_ok(1), of bytes] assms
    by (auto simp: Tokenize_tokens new_input_ok)
qed

theorem tokens_are_ordered_slices_witness:
  "sorted_wrt (\<lambda>t u. unat (RefEnd (Literal t)) \<le> unat (RefStart (Literal u)))
      (tokens (Tokenize (new_input ''{a b}'') NewTokenizer))"
  using tokens_are_ordered_slices [of "''{a b}''" NewTokenizer] by simp

text \<open>
  C9: punctuators, spreads, names, integers and plain strings, written with a blank before each,
  are tokenized into the same kinds with the same contents.
\<close>

theorem tokenize_reads_back:
  assumes "list_all lexeme_ok ls" and "length (render_all ls) < 2 ^ 32"
  shows "map (\<lambda>t. (TokKeyword t, Input_ByteSlice (new_input (render_all ls)) (Literal t)))
      (tokens (Tokenize (new_input (render_all ls)) NewTokenizer)) = map (\<lambda>l. (kind l, Some (content l))) ls"
  by (rule tokenize_render [OF assms])

definition ex_lexemes :: "lexeme list" where
  "ex_lexemes = [Punct K_LBRACE, Name ''hero'', Punct K_LPAREN, Name ''id'', Punct K_COLON, Digits ''42'', Punct K_RPAREN,
     Dots, Quoted ''a b'', Punct K_RBRACE]"

theorem tokenize_reads_back_witness:
  "map (\<lambda>t. (TokKeyword t, Input_ByteSlice (new_input (render_all ex_lexemes)) (Literal t)))
      (tokens (Tokenize (new_input (render_all ex_lexemes)) NewTokenizer)) = map (\<lambda>l. (kind l, Some (content l))) ex_lexemes"
proof (rule tokenize_reads_back)
  show "list_all lexeme_ok ex_lexemes" by code_simp
  show "length (render_all ex_lexemes) < 2 ^ 32" by (simp add: ex_lexemes_def render_all_def)
qed

text \<open>
  on an input without NUL bytes the cursor the parser reads from never shows a comment:
  \<open>Read\<close> returns the other tokens one by one and then the end of the input, and
  \<open>Peek\<close> is what the next \<open>Read\<close> will return.
\<close>

theorem cursor_skips_comments:
  assumes "R_EOF \<notin> set bytes" and "cursor_ok t" and "Tokenizer_Read t = (tok, t')"
  shows "cursor_ok (Tokenize (new_input bytes) NewTokenizer) \<and> cursor_ok t' \<and> Tokenizer_Peek t = tok \<and>
    (case visible (unread t) of [] \<Rightarrow> tok = EOF_token \<and> visible (unread t') = [] | u # us \<Rightarrow> tok = u \<and> visible (unread t') = us)"
proof -
  have "cursor_ok (Tokenize (new_input bytes) NewTokenizer)"
    using lex_all_no_adjacent [OF new_input_ok(1), of bytes] assms(1)
    by (simp add: cursor_ok_def Tokenize_tokens new_input_ok NewTokenizer_def)
  then show ?thesis using Tokenizer_Read_visible [OF assms(2,3)] Peek_Read [of t] assms(3) by simp
qed

theorem cursor_skips_comments_witness:
  "cursor_ok (Tokenize (new_input ''#c'') NewTokenizer)"
proof -
  have "cursor_ok NewTokenizer" by code_simp
  then show ?thesis
    using cursor_skips_comments [of "''#c''" NewTokenizer "fst (Tokenizer_Read NewTokenizer)" "snd (Tokenizer_Read NewTokenizer)"]
    by simp
qed

text \<open>
  C10: a document that \<open>TokenizeWithLimits\<close> accepts yields the same tokens as
  \<open>Tokenize\<close>, and under a depth limit no prefix of it has more open braces than the limit;
  without limits every document is accepted.
\<close>

theorem limits_are_enforced:
  "(\<forall>limits i t st t'. TokenizeWithLimits limits i t = ((st, None), t') \<longrightarrow>
      t' = Tokenize i t \<and>
      (MaxDepth limits > 0 \<longrightarrow> (\<forall>us vs. tokens t' = us @ vs \<longrightarrow> depth us \<le> MaxDepth limits))) \<and>
   (\<forall>limits i t. MaxDepth limits \<le> 0 \<longrightarrow> MaxFields limits \<le> 0 \<longrightarrow> snd (fst (TokenizeWithLimits limits i t)) = None)"
proof (intro conjI allI impI)
  fix limits :: TokenizerLimits and i t st t' assume acc: "TokenizeWithLimits limits i t = ((st, None), t')"
  obtain s toks where l: "Limits_loop limits limit_init [] i = ((None, s), toks)"
    using acc by (auto simp: TokenizeWithLimits_def split: prod.splits option.splits)
  have toks: "toks = lex_all i" using Limits_loop_lex [OF l] by simp
  show "t' = Tokenize i t"
    using acc l toks Tokenize_loop_lex [of "[]" i] by (auto simp: TokenizeWithLimits_def Tokenize_def split: prod.splits)
  fix us vs assume pos: "MaxDepth limits > 0" and t': "tokens t' = us @ vs"
  have "depth_inv limits limit_init []" using pos by (simp add: depth_inv_def depth_def limit_init_def)
  from Limits_loop_depth [OF l pos this] t' acc l show "depth us \<le> MaxDepth limits"
    by (auto simp: TokenizeWithLimits_def depth_inv_def)
next
  fix limits :: TokenizerLimits and i t assume "MaxDepth limits \<le> 0" "MaxFields limits \<le> 0"
  from Limits_loop_unlimited [OF this, of limit_init "[]" i]
  show "snd (fst (TokenizeWithLimits limits i t)) = None"
    by (auto simp: TokenizeWithLimits_def split: prod.splits option.splits)
qed

theorem limits_are_enforced_witness:
  "snd (fst (TokenizeWithLimits \<lparr>MaxDepth = 0, MaxFields = 0\<rparr> (new_input ''{a}'') NewTokenizer)) = None"
  using limits_are_enforced by simp

section \<open>The Cache-Control header\<close>

text \<open>
  C11: for every \<open>Cache-Control\<close> header whose lines are printed from well-formed elements (directives
  with arbitrary white space and empty elements), \<open>ParseCacheControlResponse\<close> succeeds exactly when
  the first \<open>max-age\<close> and the first \<open>s-maxage\<close> have a non-empty argument of digits, and
  then the response is what the directives of all lines mean: the first ages, clamped; the boolean
  directives that occur; and for \<open>no-cache\<close> and \<open>private\<close> the union of the names, or the whole
  response as soon as one occurrence has no names.
\<close>

theorem cache_header_meaning:
  assumes "list_all (list_all element_ok) ess" "list_all (\<lambda>es. es \<noteq> []) ess"
    and "trimmed (print_field (concat ess))" "headers ''Cache-Control'' = Some (map print_field ess)"
  shows "((\<exists>cc. ParseCacheControlResponse headers = Inr cc) \<longleftrightarrow> spec_ok (directives (concat ess))) \<and>
    (\<forall>cc. ParseCacheControlResponse headers = Inr cc \<longrightarrow> meaning (directives (concat ess)) cc)"
  using header_fields [where headers = headers, OF assms] applyAll_ok_iff [OF meaning_empty spec_ok_empty, of "directives (concat ess)"]
    applyAll_meaning [OF meaning_empty, of "directives (concat ess)"]
  by simp

definition ex_lines :: "cc_element list list" where
  "ex_lines = [[Directive [] ''Max-Age'' [] [] (TokenValue ''60'') [], EmptyElement [CHR '' '']],
               [Directive '' '' ''private'' [] [] (QuotedValue ''a, b'') [], Directive '' '' ''no-cache'' [] [] NoValue []]]"

theorem cache_header_meaning_witness:
  "\<exists>cc. ParseCacheControlResponse [''Cache-Control'' \<mapsto> map print_field ex_lines] = Inr cc \<and>
     meaning (directives (concat ex_lines)) cc"
proof -
  have "list_all (list_all element_ok) ex_lines" "list_all (\<lambda>es. es \<noteq> []) ex_lines"
    "trimmed (print_field (concat ex_lines))" "spec_ok (directives (concat ex_lines))"
    by code_simp+
  then show ?thesis
    using cache_header_meaning [of ex_lines "[''Cache-Control'' \<mapsto> map print_field ex_lines]"] by auto
qed

text \<open>
  C12: whatever the header is, an age the parser returns is between 0 and \<open>2 ^ 31 - 1\<close>, and its
  duration in nanoseconds fits \<open>int64\<close>: \<open>AsDuration\<close> does not wrap around.
\<close>

theorem cache_ages_in_range:
  assumes "ParseCacheControlResponse headers = Inr cc" and "MaxAge cc = Some v \<or> SMaxAge cc = Some v"
  shows "0 \<le> sint v \<and> sint v \<le> MaxInt32 \<and> sint (AsDuration v) = sint v * 1000000000"
proof -
  have "0 \<le> sint v" using header_ages [OF assms(1)] assms(2) by (auto simp: ages_ok_def)
  moreover have "sint v \<le> MaxInt32" using sint_range_size [of v] by (simp add: word_size MaxInt32_def)
  ultimately show ?thesis by (simp add: AsDuration_exact)
qed

theorem cache_ages_in_range_witness:
  "sint (2147483647 :: DeltaSeconds) \<le> MaxInt32 \<and> sint (AsDuration 2147483647) = 2147483647000000000"
proof -
  let ?cc = "emptyCC\<lparr>SMaxAge := Some 2147483647\<rparr>"
  have "ParseCacheControlResponse [''Cache-Control'' \<mapsto> [''s-maxage=99999999999'']] = Inr ?cc" by code_simp
  from cache_ages_in_range [OF this, of 2147483647] show ?thesis by (simp add: emptyCC_def)
qed

section \<open>The flat fetch tree\<close>

text \<open>
  C13: merging equal fetches does not panic on a flat tree of fetches with distinct identifiers. It
  leaves no two equal fetches; every fetch is represented, itself or by an equal one, and what
  remains keeps its configuration and depends on the representatives of what it depended on.
\<close>

theorem dedupe_leaves_representatives:
  assumes "distinct (map item_id its0)"
  shows "\<exists>its \<rho>. dedupe_ProcessFetchTree False var_equals (Sequence (map Single its0)) = Some (Sequence (map Single its)) \<and>
    distinct (map item_id its) \<and> set (map item_id its) = \<rho> ` set (map item_id its0) \<and>
    (\<forall>a \<in> set its. \<exists>b \<in> set its0. item_id a = item_id b \<and> item_key a = item_key b \<and> item_deps a = map \<rho> (item_deps b)) \<and>
    (\<forall>b \<in> set its0. \<exists>a \<in> set its. item_id a = \<rho> (item_id b) \<and> (item_id a = item_id b \<or> EqualSingleFetch var_equals a b)) \<and>
    (\<forall>p q. p < q \<longrightarrow> q < length its \<longrightarrow> \<not> EqualSingleFetch var_equals (its ! p) (its ! q))"
  by (rule dedupe_correct [OF assms])

definition ex_single :: "int \<Rightarrow> string \<Rightarrow> string list \<Rightarrow> string \<Rightarrow> int list \<Rightarrow> string FetchItem" where
  "ex_single i inp mp rp deps = \<lparr>Fetch = SingleFetch \<lparr>Input = inp, Variables = [], RequiresEntityFetch = False,
       RequiresEntityBatchFetch = False,
       PostProcessing = \<lparr>SelectResponseDataPath = [], SelectResponseErrorsPath = [], MergePath = mp\<rparr>,
       SetTemplateOutputToNullOnVariableNull = False, ConfigQueryPlan = None, OperationName = [], SubgraphOp = None\<rparr>
     \<lparr>FetchID = i, DependsOnFetchIDs = deps, DeferID = 0\<rparr> None,
     FetchPath = [], ResponsePath = rp, ResponsePathElements = []\<rparr>"

definition ex_flat :: "string FetchItem list" where
  "ex_flat = [ex_single 0 ''a'' [] [] [], ex_single 1 ''a'' [] [] [], ex_single 2 ''b'' [] ''u'' [1], ex_single 3 ''c'' [] ''u.v'' []]"

lemma ex_flat_ids: "distinct (map item_id ex_flat)"
  by code_simp

theorem dedupe_leaves_representatives_witness:
  "\<exists>its \<rho>. dedupe_ProcessFetchTree False (=) (Sequence (map Single ex_flat)) = Some (Sequence (map Single its)) \<and>
     distinct (map item_id its) \<and> set (map item_id its) = \<rho> ` set (map item_id ex_flat)"
  using dedupe_leaves_representatives [OF ex_flat_ids, of "(=)"] by blast

text \<open>
  C14: on a flat tree of single fetches, \<open>addMissingNestedDependencies\<close> changes only the
  dependencies, as \<open>completed_deps\<close> says, and makes no cycle as long as the dependencies that
  were there lead to fetches whose response path is not longer.
\<close>

theorem nested_dependencies_acyclic:
  assumes "all_single its" "distinct (map item_id its)" "acyclic (depends_rel its)"
    and "\<forall>(j, k) \<in> depends_rel its. length (ResponsePath (its ! j)) \<le> length (ResponsePath (its ! k))"
  shows "addMissing_ProcessFetchTree False (Sequence (map Single its)) = Some (Sequence (map Single (completed (length its) its))) \<and>
    acyclic (depends_rel (completed (length its) its))"
  using addMissing_flat [OF assms(1)] addMissing_acyclic [OF assms(2,3,4)] by blast

lemma ex_flat_rel: "depends_rel ex_flat \<subseteq> {(1, 2)}"
proof
  fix x assume "x \<in> depends_rel ex_flat"
  then obtain j k where x: "x = (j, k)" "j < length ex_flat" "k < length ex_flat" "item_id (ex_flat ! j) \<in> set (item_deps (ex_flat ! k))"
    by (auto simp: depends_rel_def)
  have l: "length ex_flat = 4" by code_simp
  have "\<forall>j \<in> set [0..<4]. \<forall>k \<in> set [0..<4]. item_id (ex_flat ! j) \<in> set (item_deps (ex_flat ! k)) \<longrightarrow> (j, k) = (1, 2)"
    by code_simp
  with x l show "x \<in> {(1, 2)}" by auto
qed

theorem nested_dependencies_acyclic_witness:
  "addMissing_ProcessFetchTree False (Sequence (map Single ex_flat)) = Some (Sequence (map Single (completed 4 ex_flat))) \<and>
   acyclic (depends_rel (completed 4 ex_flat))"
proof -
  have "acyclic {(1 :: nat, 2 :: nat)}" by (rule acyclicI_order [where f = "\<lambda>i. - int i"]) auto
  then have "acyclic (depends_rel ex_flat)" using ex_flat_rel by (rule acyclic_subset)
  moreover have "\<forall>(j, k) \<in> depends_rel ex_flat. length (ResponsePath (ex_flat ! j)) \<le> length (ResponsePath (ex_flat ! k))"
    using ex_flat_rel by (auto simp: ex_flat_def ex_single_def)
  moreover have "all_single ex_flat" "length ex_flat = 4" by code_simp+
  ultimately show ?thesis using nested_dependencies_acyclic [of ex_flat] ex_flat_ids by simp
qed

section \<open>Deferred fetches\<close>

text \<open>
  C15: \<open>extractDeferFetches\<close> splits a flat tree without losing or reordering fetches: the
  initial response keeps the fetches without a defer, and the groups are, in the order of their
  identifiers, the fetches of each defer that occurs.
\<close>

theorem extract_defer_splits:
  assumes "Fetches (Response resp) = Some (Sequence ns)" "list_all (\<lambda>n. node_item n \<noteq> None) ns" "Defers resp = []"
  shows "\<exists>resp'. extractDeferFetches_Process False resp = Some resp' \<and>
    Fetches (Response resp') = Some (Sequence (filter (\<lambda>n. node_defer n = 0) ns)) \<and>
    Defers resp' = map (\<lambda>k. \<lparr>GroupDeferID = k, GroupFetches = Sequence (filter (\<lambda>n. node_defer n = k) ns)\<rparr>)
      (sorted_list_of_set (node_defer ` set ns - {0})) \<and>
    distinct (group_ids (Defers resp')) \<and> 0 \<notin> set (group_ids (Defers resp'))"
proof -
  obtain resp' where r: "extractDeferFetches_Process False resp = Some resp'"
    "Fetches (Response resp') = Some (Sequence (filter (\<lambda>n. node_defer n = 0) ns))"
    "Defers resp' = map (\<lambda>k. \<lparr>GroupDeferID = k, GroupFetches = Sequence (filter (\<lambda>n. node_defer n = k) ns)\<rparr>)
      (sorted_list_of_set (node_defer ` set ns - {0}))"
    by (rule extract_spec [OF assms]) blast
  then have "group_ids (Defers resp') = sorted_list_of_set (node_defer ` set ns - {0})" by (simp add: group_ids_def comp_def)
  with r show ?thesis by simp
qed

definition ex_defer_node :: "int \<Rightarrow> int \<Rightarrow> string FetchTreeNode" where
  "ex_defer_node i d = Single \<lparr>Fetch = EntityFetch \<lparr>FetchID = i, DependsOnFetchIDs = [], DeferID = d\<rparr> None,
     FetchPath = [], ResponsePath = [], ResponsePathElements = []\<rparr>"

definition ex_defer :: "string GraphQLDeferResponse" where
  "ex_defer = \<lparr>Response = \<lparr>RawFetches = [], Fetches = Some (Sequence [ex_defer_node 1 2, ex_defer_node 2 0, ex_defer_node 3 1]), DataSources = []\<rparr>,
     Defers = [], DeferDescriptors = (\<lambda>i. None), DeferTree = None\<rparr>"

theorem extract_defer_splits_witness:
  "\<exists>resp'. extractDeferFetches_Process False ex_defer = Some resp' \<and> Fetches (Response resp') = Some (Sequence [ex_defer_node 2 0])"
  using extract_defer_splits [of ex_defer "[ex_defer_node 1 2, ex_defer_node 2 0, ex_defer_node 3 1]"]
  by (auto simp: ex_defer_def ex_defer_node_def node_defer_def)

text \<open>
  C16: when the groups have distinct identifiers other than 0, \<open>buildDeferTree\<close> terminates,
  whatever the descriptors say (cycles among the parents included), and the tree has every defer
  whose chain of parents ends at the top level exactly once and runs it after its parent; with no
  such defer the response is unchanged.
\<close>

theorem defer_tree_runs_parents_first:
  assumes "distinct (group_ids (Defers resp))" "0 \<notin> set (group_ids (Defers resp))"
  defines "par \<equiv> defer_parent (DeferDescriptors resp) (Defers resp)"
  shows "\<exists>resp'. buildDeferTree_Process False resp = Some resp' \<and>
    (if \<exists>i n. rooted par i n
     then \<exists>t. DeferTree resp' = Some t \<and> distinct (tree_defers t) \<and> set (tree_defers t) = {i. \<exists>n. rooted par i n} \<and>
       (\<forall>i p. par i = Some p \<longrightarrow> p \<noteq> 0 \<longrightarrow> i \<in> set (tree_defers t) \<longrightarrow> runs_before p i t)
     else resp' = resp)"
proof -
  obtain resp' where r: "buildDeferTree_Process False resp = Some resp'"
    "if \<exists>i n. rooted par i n then \<exists>t. DeferTree resp' = Some t \<and> defer_tree_ok par t \<and> tree_shape par t else resp' = resp"
    using buildDeferTree_correct [OF assms(1,2)] unfolding par_def by blast
  show ?thesis
    by (rule exI [of _ resp'], cases "\<exists>i n. rooted par i n") (use r in \<open>auto simp: defer_tree_ok_def\<close>)
qed

definition ex_groups :: "string GraphQLDeferResponse" where
  "ex_groups = ex_defer\<lparr>Defers := map (\<lambda>i. \<lparr>GroupDeferID = i, GroupFetches = Sequence []\<rparr>) [1, 2, 3],
     DeferDescriptors := [1 \<mapsto> \<lparr>DescriptorID = 1, ParentID = 0, Label = [], DescriptorPath = []\<rparr>,
       2 \<mapsto> \<lparr>DescriptorID = 2, ParentID = 1, Label = [], DescriptorPath = []\<rparr>,
       3 \<mapsto> \<lparr>DescriptorID = 3, ParentID = 0, Label = [], DescriptorPath = []\<rparr>]\<rparr>"

lemma ex_groups_ids: "distinct (group_ids (Defers ex_groups))" "0 \<notin> set (group_ids (Defers ex_groups))"
  by code_simp+

theorem defer_tree_runs_parents_first_witness:
  "\<exists>resp' t. buildDeferTree_Process False ex_groups = Some resp' \<and> DeferTree resp' = Some t \<and> distinct (tree_defers t)"
proof -
  have "defer_parent (DeferDescriptors ex_groups) (Defers ex_groups) 1 = Some 0" by code_simp
  then have "rooted (defer_parent (DeferDescriptors ex_groups) (Defers ex_groups)) 1 0" by (rule rooted.top)
  with defer_tree_runs_parents_first [OF ex_groups_ids] show ?thesis by (auto split: if_splits)
qed

text \<open>
  C17: pruning the tree that \<open>buildDeferTree\<close> made by the live top-level defers leaves exactly the
  defers below a live one, each still after its parent, and nothing when none is live.
\<close>

theorem prune_keeps_live_subtrees:
  assumes "distinct (group_ids (Defers resp))" "0 \<notin> set (group_ids (Defers resp))" "DeferTree resp = None"
    and "buildDeferTree_Process False resp = Some resp'" "DeferTree resp' = Some t"
  defines "par \<equiv> defer_parent (DeferDescriptors resp) (Defers resp)"
  shows "case pruneDeadDefers live t of
      None \<Rightarrow> live_defers par live = {}
    | Some t' \<Rightarrow> set (tree_defers t') = live_defers par live \<and>
        (\<forall>i p. par i = Some p \<longrightarrow> p \<noteq> 0 \<longrightarrow> i \<in> set (tree_defers t') \<longrightarrow> runs_before p i t')"
proof -
  have "tree_shape par t"
    using buildDeferTree_correct [OF assms(1,2)] assms(3-5) unfolding par_def by (auto split: if_splits)
  then show ?thesis by (rule prune_correct)
qed

theorem prune_keeps_live_subtrees_witness:
  "\<exists>resp' t. buildDeferTree_Process False ex_groups = Some resp' \<and> DeferTree resp' = Some t \<and>
     (case pruneDeadDefers (\<lambda>i. None) t of
        None \<Rightarrow> live_defers (defer_parent (DeferDescriptors ex_groups) (Defers ex_groups)) (\<lambda>i. None) = {}
      | Some t' \<Rightarrow> True)"
proof -
  define b where "b = buildDeferTree_Process False ex_groups"
  have "map_option (\<lambda>r. DeferTree r \<noteq> None) b = Some True" unfolding b_def by code_simp
  then obtain resp' t where r: "buildDeferTree_Process False ex_groups = Some resp'" "DeferTree resp' = Some t"
    by (auto simp: b_def)
  have "DeferTree ex_groups = None" by code_simp
  from prune_keeps_live_subtrees [OF ex_groups_ids this r, of "\<lambda>i. None"] r show ?thesis by (auto split: option.splits)
qed

section \<open>Websocket subscriptions\<close>

text \<open>An environment in which one-letter messages stand for their JSON, and a run in it.\<close>

definition ex_message :: "string \<Rightarrow> (ReadError, WSMessage) result" where
  "ex_message d =
     (if d = ''i'' then Inr \<lparr>MsgId = [], MsgType = ConnectionInit, MsgPayload = []\<rparr>
      else if d = ''q'' then Inr \<lparr>MsgId = ''1'', MsgType = Subscribe, MsgPayload = ''q''\<rparr>
      else if d = ''s'' then Inr \<lparr>MsgId = ''1'', MsgType = Subscribe, MsgPayload = ''s''\<rparr>
      else if d = ''c'' then Inr \<lparr>MsgId = ''1'', MsgType = Complete, MsgPayload = []\<rparr>
      else Inl JsonSyntaxError)"

definition ex_env :: Environment where
  "ex_env = \<lparr>unmarshal_message = ex_message,
     unmarshal_payload = (\<lambda>p. Inr \<lparr>SubOperationName = [], SubQuery = p, SubVariables = [], SubExtensions = []\<rparr>),
     marshal_request = (\<lambda>p. Inr (SubQuery p)), marshal_ok = (\<lambda>m. True), marshal_errors = (\<lambda>e. Some e), initFunc = None,
     pool_Get = (\<lambda>p. Inr \<lparr>OperationType_of = (if p = ''s'' then OperationTypeSubscription else OperationTypeQuery), OnBeforeStart = None\<rparr>)\<rparr>"

definition ex_run :: "string list \<Rightarrow> System" where
  "ex_run ds = fold (\<lambda>d. Handle_iteration ex_env (ReadData d)) ds (Handle_begin ex_env new_system)"

lemma ex_run_reachable:
  "list_all (\<lambda>n. handlerRunning (ex_run (take n ds))) [0..<length ds] \<Longrightarrow> reachable ex_env (ex_run ds)"
proof (induction ds rule: rev_induct)
  case Nil
  then show ?case by (simp add: ex_run_def reachable.opened)
next
  case (snoc d ds)
  then have "handlerRunning (ex_run ds)" "reachable ex_env (ex_run ds)" by (auto simp: list_all_iff)
  then have "reachable ex_env (Handle_iteration ex_env (ReadData d) (ex_run ds))"
    by (meson reachable.step ws_step.message)
  then show ?case by (simp add: ex_run_def)
qed

lemma ex_run_iqcs: "reachable ex_env (ex_run [''i'', ''q'', ''c'', ''s''])" and ex_run_i: "reachable ex_env (ex_run [''i''])"
  by (rule ex_run_reachable, code_simp)+

text \<open>
  C18: in every reachable state of a connection, whatever the client sends and however the goroutines
  interleave: before the connection is initialised no operation has been started, none is registered,
  and neither a result nor an error has been sent; at most one acknowledgement is sent, and none before
  the connection is initialised.
\<close>

theorem ws_handshake:
  assumes "reachable env s"
  shows "(\<not> connectionInitialized (handler s) \<longrightarrow> operations s = [] \<and> cancellations (registry s) = [] \<and>
      count_text Next (sysClient s) = 0 \<and> count_text MsgError (sysClient s) = 0 \<and> count_text ConnectionAck (sysClient s) = 0) \<and>
    count_text ConnectionAck (sysClient s) \<le> 1"
  using reachable_inv [OF assms] unfolding ws_inv_def handshake_def
  by (cases "connectionInitialized (handler s)") auto

theorem ws_handshake_witness: "count_text ConnectionAck (sysClient (ex_run [''i''])) \<le> 1"
  using ws_handshake [OF ex_run_i] by blast

text \<open>
  C19: how the handler answers on an open connection. Subscribing before the connection is
  initialised closes it with 4401 and starts nothing; a second initialisation closes it with 4429;
  the first one, when the \<open>InitFunc\<close> accepts it, is acknowledged, and the close with an
  internal server error is never taken; an identifier that is in use closes it with 4409 and starts
  nothing.
\<close>

theorem ws_answers:
  assumes "reachable env s" "clientConn (sysClient s) = ConnOk" "IsConnected (sysClient s)"
  defines "closed code r \<equiv> s\<lparr>sysClient := (sysClient s)\<lparr>isClosedConnection := True, clientConn := ConnClosedPipe,
      frames := frames (sysClient s) @ [Close code r]\<rparr>\<rparr>"
  shows "(MsgType m = Subscribe \<longrightarrow> \<not> connectionInitialized (handler s) \<longrightarrow>
       Handle_message env m s = (None, closed 4401 ''Unauthorized'')) \<and>
    (connectionInitialized (handler s) \<longrightarrow> handleInit env payload s = (None, closed 4429 ''Too many initialisation requests'')) \<and>
    (\<not> connectionInitialized (handler s) \<longrightarrow> marshal_ok env \<lparr>MsgId = [], MsgType = ConnectionAck, MsgPayload = []\<rparr> \<longrightarrow>
       handleInit env payload s = (None, s') \<longrightarrow>
       connectionInitialized (handler s') \<and> IsConnected (sysClient s') \<and>
       frames (sysClient s') = frames (sysClient s) @ [Text \<lparr>MsgId = [], MsgType = ConnectionAck, MsgPayload = []\<rparr>]) \<and>
    (map_of (cancellations (registry s)) i \<noteq> None \<longrightarrow>
       checkForDuplicateSubscriberID env i s = (Inl (SubscriberIDAlreadyExists i), closed 4409 (''Subscriber for '' @ i @ '' already exists'')))"
proof (intro conjI impI)
  note close = close_frames [OF assms(2)]
  show "Handle_message env m s = (None, closed 4401 ''Unauthorized'')" if "MsgType m = Subscribe" "\<not> connectionInitialized (handler s)"
    using that by (simp add: Handle_message_def handleSubscribe_def close closed_def message_types)
  show "handleInit env payload s = (None, closed 4429 ''Too many initialisation requests'')" if "connectionInitialized (handler s)"
    using that by (simp add: handleInit_def close closed_def)
  show "checkForDuplicateSubscriberID env i s = (Inl (SubscriberIDAlreadyExists i), closed 4409 (''Subscriber for '' @ i @ '' already exists''))"
    if "map_of (cancellations (registry s)) i \<noteq> None"
    using that by (simp add: checkForDuplicateSubscriberID_def AddWithParent_def Emit_def close closed_def)
  assume n: "\<not> connectionInitialized (handler s)" and ok: "marshal_ok env \<lparr>MsgId = [], MsgType = ConnectionAck, MsgPayload = []\<rparr>"
    and r: "handleInit env payload s = (None, s')"
  have "sysClient (snd (stopConnectionInitTimer s)) = sysClient s" by (simp add: stopConnectionInitTimer_def)
  then have "sysClient s' = (sysClient s)\<lparr>frames := frames (sysClient s) @ [Text \<lparr>MsgId = [], MsgType = ConnectionAck, MsgPayload = []\<rparr>]\<rparr>"
    "connectionInitialized (handler s')"
    using handleInit_accepts [OF reachable_inv [OF assms(1)] n r] assms(2,3) ok
    by (simp_all add: write_event_def HandleWriteEvent_def WriteConnectionAck_def writer_write_def WriteBytesToClient_def message_types)
  then show "connectionInitialized (handler s')" "IsConnected (sysClient s')"
    "frames (sysClient s') = frames (sysClient s) @ [Text \<lparr>MsgId = [], MsgType = ConnectionAck, MsgPayload = []\<rparr>]"
    using assms(3) by (simp_all add: IsConnected_def)
qed

theorem ws_answers_witness:
  "frames (sysClient (snd (handleInit ex_env [] (ex_run [''i''])))) =
     frames (sysClient (ex_run [''i''])) @ [Close 4429 ''Too many initialisation requests'']"
proof -
  have "clientConn (sysClient (ex_run [''i''])) = ConnOk" "IsConnected (sysClient (ex_run [''i'']))"
    "connectionInitialized (handler (ex_run [''i'']))" by code_simp+
  then show ?thesis using ws_answers [OF ex_run_i, of undefined "[]"] by simp
qed

text \<open>
  C20: in every reachable state an identifier has at most one operation that is not cancelled, every
  operation that runs is registered under its identifier or cancelled, and when the loop has ended
  nothing is registered any more and every operation's context is done.
\<close>

theorem ws_operations_registered:
  assumes "reachable env s"
  shows "(\<forall>p q. p < length (operations s) \<longrightarrow> q < length (operations s) \<longrightarrow> OpId (operations s ! p) = OpId (operations s ! q) \<longrightarrow>
       OpCtx (operations s ! p) \<notin> set (cancelledCtx (registry s)) \<longrightarrow> OpCtx (operations s ! q) \<notin> set (cancelledCtx (registry s)) \<longrightarrow> p = q) \<and>
    (\<forall>op \<in> set (operations s). (OpId op, OpCtx op) \<in> set (cancellations (registry s)) \<or> OpCtx op \<in> set (cancelledCtx (registry s))) \<and>
    (\<not> handlerRunning s \<longrightarrow> cancellations (registry s) = [] \<and> (\<forall>op \<in> set (operations s). ctx_done s op))"
proof -
  have inv: "ws_inv s" by (rule reachable_inv [OF assms])
  have "\<forall>op \<in> set (operations s). (OpId op, OpCtx op) \<in> set (cancellations (registry s)) \<or> OpCtx op \<in> set (cancelledCtx (registry s))"
    using inv by (simp add: ws_inv_def registry_ok_def reg_inv_def)
  moreover have "\<not> handlerRunning s \<longrightarrow> cancellations (registry s) = [] \<and> (\<forall>op \<in> set (operations s). ctx_done s op)"
    using inv by (simp add: ws_inv_def ended_ok_def ctx_done_def)
  ultimately show ?thesis using unique_operation [OF inv] by blast
qed

theorem ws_operations_registered_witness:
  "length (operations (ex_run [''i'', ''q'', ''c'', ''s''])) = 2 \<and>
   list_all (\<lambda>op. (OpId op, OpCtx op) \<in> set (cancellations (registry (ex_run [''i'', ''q'', ''c'', ''s'']))) \<or>
     OpCtx op \<in> set (cancelledCtx (registry (ex_run [''i'', ''q'', ''c'', ''s''])))) (operations (ex_run [''i'', ''q'', ''c'', ''s'']))"
proof -
  have "length (operations (ex_run [''i'', ''q'', ''c'', ''s''])) = 2" by code_simp
  then show ?thesis using ws_operations_registered [OF ex_run_iqcs] unfolding list_all_iff by blast
qed

text \<open>
  C21: once the loop has ended, or its context has been cancelled, no operation is stuck: from every
  reachable state there is a run in which all operations end (a query whose execution returns).
\<close>

theorem ws_operations_can_end:
  assumes "reachable env s" "\<not> handlerRunning s \<or> handlerCancelled s"
  shows "\<exists>s'. (ws_step env)\<^sup>*\<^sup>* s s' \<and> operations s' = []"
proof -
  have inv: "ws_inv s" by (rule reachable_inv [OF assms(1)])
  then have "handlerCancelled s" using assms(2) by (auto simp: ws_inv_def ended_ok_def)
  with inv show ?thesis by (rule operations_can_end)
qed

definition ex_closed :: System where
  "ex_closed = Handle_iteration ex_env ReadEOF (ex_run [''i'', ''q'', ''c'', ''s''])"

theorem ws_operations_can_end_witness:
  "length (operations ex_closed) = 2 \<and> (\<exists>s'. (ws_step ex_env)\<^sup>*\<^sup>* ex_closed s' \<and> operations s' = [])"
proof -
  have "handlerRunning (ex_run [''i'', ''q'', ''c'', ''s''])" by code_simp
  then have "reachable ex_env ex_closed" unfolding ex_closed_def by (meson ex_run_iqcs reachable.step ws_step.message)
  moreover have "\<not> handlerRunning ex_closed" "length (operations ex_closed) = 2" by code_simp+
  ultimately show ?thesis using ws_operations_can_end by blast
qed

text \<open>
  C22: the deferred \<open>Cancel\<close> of a query goes by its identifier only. When the identifier is
  registered for another operation by then (the client completed the query and used its identifier
  again), ending the query cancels the context of that newer operation.
\<close>

theorem finished_query_cancels_successor:
  assumes "reachable env s" "\<not> handlerCancelled s" "k < length (operations s)" "OpPhase (operations s ! k) = Writing []"
    and "(OpId (operations s ! k), c) \<in> set (cancellations (registry s))" "c \<noteq> OpCtx (operations s ! k)"
  shows "\<exists>s'. ws_step env s s' \<and> c \<in> set (cancelledCtx (registry s')) \<and> c \<notin> set (cancelledCtx (registry s)) \<and>
    (\<exists>op \<in> set (operations s'). OpId op = OpId (operations s ! k) \<and> OpCtx op = c)"
  using finished_query_cancels [OF reachable_inv [OF assms(1)] assms(3-6,2)] by blast

definition ex_finished :: System where
  "ex_finished = set_phase 0 (Writing []) (Emit ex_env EventTypeOnError ''1'' [] [] (ex_run [''i'', ''q'', ''c'', ''s'']))"

theorem finished_query_cancels_successor_witness:
  "\<exists>s'. ws_step ex_env ex_finished s' \<and> 1 \<in> set (cancelledCtx (registry s')) \<and> 1 \<notin> set (cancelledCtx (registry ex_finished))"
proof -
  let ?s = "ex_run [''i'', ''q'', ''c'', ''s'']"
  have k: "0 < length (operations ?s)" "\<not> OpSubscription (operations ?s ! 0)" "OpPhase (operations ?s ! 0) = Executing"
    "OpId (operations ?s ! 0) = ''1''" by code_simp+
  have "reachable ex_env ex_finished"
    unfolding ex_finished_def using reachable.step [OF ex_run_iqcs ws_step.query_error [OF k(1-3), of ex_env "[]"]] k(4) by simp
  moreover have "\<not> handlerCancelled ex_finished" "0 < length (operations ex_finished)" "OpPhase (operations ex_finished ! 0) = Writing []"
    "(OpId (operations ex_finished ! 0), 1) \<in> set (cancellations (registry ex_finished))" "1 \<noteq> OpCtx (operations ex_finished ! 0)"
    by code_simp+
  ultimately show ?thesis using finished_query_cancels_successor [of ex_env ex_finished 0 1] by blast
qed

section \<open>Single flights\<close>

text \<open>
  C23: along every run of inbound requests in which a follower is counted before its leader looks at
  the count, no channel is closed twice. A follower that writes data writes what the one leader of its
  request has rendered, after applying the shared data of the request, whether or not the leader and
  the follower themselves fail to write to their clients; a follower that returns the error of the
  request returns the error of its one leader; otherwise it returns the error of its own context. While
  a follower waits on an open channel its leader is still at work.
\<close>

theorem inbound_followers:
  assumes "counted_run n keys s"
  shows "Panicked \<notin> set (procs s) \<and>
    (\<forall>i p d sd w. at s i (ReturnedFollower p (Inr (d, sd, w))) \<longrightarrow>
      (\<exists>!j. leader_resolved s j p d) \<and> SharedData (heap s ! p) = sd) \<and>
    (\<forall>i p e. at s i (ReturnedFollower p (Inl e)) \<longrightarrow> (\<exists>!j. at s j (ReturnedLeader (Some p) (Inl e)))) \<and>
    (\<forall>i p. at s i (Waiting p) \<longrightarrow> \<not> Done (heap s ! p) \<longrightarrow>
      (\<exists>j < length (procs s). leads (procs s ! j) = Some p \<and>
        (\<forall>r. procs s ! j \<noteq> ReturnedLeader (Some p) r) \<and> (\<forall>d e. procs s ! j \<noteq> LeaderWriteErr p d e)))"
proof -
  have inv: "flight_inv s" using counted_run_inv [OF assms] by blast
  show ?thesis
    by (intro conjI allI impI) (simp_all add: no_panic [OF inv] follower_data [OF inv] follower_error [OF inv] waiting_leader [OF inv])
qed

theorem inbound_followers_witness:
  "\<exists>s. counted_run 4 [Some 7, Some 7] s \<and> at s 1 (ReturnedFollower 0 (Inr (''{}'', None, Some ''broken pipe''))) \<and>
    Panicked \<notin> set (procs s) \<and> (\<exists>!j. leader_resolved s j 0 ''{}'')"
proof -
  obtain s where s: "counted_run 4 [Some 7, Some 7] s"
      "procs s = [ReturnedLeader (Some 0) (Inr ''{}''), ReturnedFollower 0 (Inr (''{}'', None, Some ''broken pipe''))]"
    using counted_followed_run [of 4 7 "''{}''" "Some ''broken pipe''"] by blast
  have a: "at s 1 (ReturnedFollower 0 (Inr (''{}'', None, Some ''broken pipe'')))" using s(2) by (simp add: at_def)
  moreover have "Panicked \<notin> set (procs s)" "\<exists>!j. leader_resolved s j 0 ''{}''"
    using inbound_followers [OF s(1)] a by blast+
  ultimately show ?thesis using s(1) by (intro exI [of _ s] conjI)
qed

text \<open>
  C24: without that restriction the protocol is unsafe: for any key and number of shards, two requests
  with the same key can reach a state in which the second closes the channel the first has closed.
\<close>

theorem inbound_double_close:
  "\<exists>s. inbound_reachable n [Some k, Some k] s \<and> procs s = [ReturnedLeader (Some 0) (Inr d), Panicked]"
  by (rule second_close_panics)

text \<open>
  C25: in every run of subgraph requests no channel is closed twice, an item has one leader, and a
  follower that is not cancelled returns its leader's result: the same error, or the same data with
  the leader's status and headers.
\<close>

theorem subgraph_followers:
  assumes "subgraph_reachable hash disable builder n reqs s"
  shows "SPanicked \<notin> set (sg_procs s) \<and>
    (\<forall>i j p pc pc'. sg_at s i pc \<longrightarrow> sg_at s j pc' \<longrightarrow> sg_leads pc = Some p \<longrightarrow> sg_leads pc' = Some p \<longrightarrow> i = j) \<and>
    (\<forall>i p r. sg_at s i (SReturned (Some p) True r) \<longrightarrow>
      (\<exists>j rl. (sg_at s j (SSize p rl) \<or> sg_at s j (SReturned (Some p) False rl)) \<and> same_result rl r))"
  using sg_followers [OF subgraph_reachable_inv [OF assms]] by blast

definition ex_load :: LoadRequest where
  "ex_load = \<lparr>lr_fetchItem = Some (Some (EntityFetch \<lparr>FetchID = 0, DependsOnFetchIDs = [], DeferID = 0\<rparr>
     (Some \<lparr>DataSourceID = ''ds'', DataSourceName = ''ds'', RootFields = [], InfoOperationType = OperationTypeQuery,
        InfoQueryPlan = None, CoordinateDependencies = [], FetchReasons = [], PropagatedFetchReasons = []\<rparr>))),
     lr_input = ''q'', lr_rc = Some \<lparr>rc_StatusCode = 0, rc_Header = None\<rparr>\<rparr>"

definition ex_loaded :: load_result where
  "ex_loaded = Ok (''{}'', Some \<lparr>rc_StatusCode = 200, rc_Header = Some [(''Age'', [''1''])]\<rparr>)"

fun ex_flight :: "nat \<Rightarrow> Subgraph" where
  "ex_flight 0 = subgraph_init 2 [ex_load, ex_load]"
| "ex_flight (Suc k) =
     (let s = ex_flight k in
      if k < 2 then loadByContext_begin (\<lambda>_. 5) False None k ex_load s
      else if k = 2 then GetOrCreateItem_hint 0 0 s
      else if k = 3 then sg_pc 0 (SLoaded 0 ex_loaded) s
      else if k = 4 then sg_pc 0 (SDelete 0 ex_loaded) (sg_item 0 (loadByContext_publish ex_loaded (sg_heap s ! 0)) s)
      else if k = 5 then Finish_remove 0 0 ex_loaded s
      else Finish_close 0 0 ex_loaded s)"

lemma ex_flight_at:
  "sg_at (ex_flight 0) 0 (SFresh ex_load)" "sg_at (ex_flight 1) 1 (SFresh ex_load)" "sg_at (ex_flight 2) 0 (SHint 0)"
  "sg_at (ex_flight 3) 0 (SLoading 0)" "sg_at (ex_flight 4) 0 (SLoaded 0 ex_loaded)" "sg_at (ex_flight 5) 0 (SDelete 0 ex_loaded)"
  "sg_at (ex_flight 6) 0 (SClose 0 ex_loaded)" "sg_at (ex_flight 7) 1 (SWaiting 0 (lr_rc ex_load))" "loaded (sg_heap (ex_flight 7) ! 0)"
  by code_simp+

lemma ex_flight_reachable: "subgraph_reachable (\<lambda>_. 5) False None 2 [ex_load, ex_load] (ex_flight 7)"
proof -
  let ?R = "\<lambda>k. subgraph_reachable (\<lambda>_. 5) False None 2 [ex_load, ex_load] (ex_flight k)"
  have "?R 0" using subgraph_reachable.sg_start by simp
  then have "?R 1" using subgraph_reachable.sg_next [OF _ subgraph_step.sg_begin [OF ex_flight_at(1)]] by simp
  then have "?R 2" using subgraph_reachable.sg_next [OF _ subgraph_step.sg_begin [OF ex_flight_at(2)]] by (simp add: numeral_eq_Suc Let_def)
  then have "?R 3" using subgraph_reachable.sg_next [OF _ subgraph_step.sg_hint [OF ex_flight_at(3)]] by (simp add: numeral_eq_Suc Let_def)
  then have "?R 4" using subgraph_reachable.sg_next [OF _ subgraph_step.sg_load [OF ex_flight_at(4)]] by (simp add: numeral_eq_Suc Let_def)
  then have "?R 5" using subgraph_reachable.sg_next [OF _ subgraph_step.sg_publish [OF ex_flight_at(5)]] by (simp add: numeral_eq_Suc Let_def)
  then have "?R 6" using subgraph_reachable.sg_next [OF _ subgraph_step.sg_remove [OF ex_flight_at(6)]] by (simp add: numeral_eq_Suc Let_def)
  then show "?R 7" using subgraph_reachable.sg_next [OF _ subgraph_step.sg_close [OF ex_flight_at(7)]] by (simp add: numeral_eq_Suc Let_def)
qed

theorem subgraph_followers_witness:
  "\<exists>s j rl. sg_at s 1 (SReturned (Some 0) True ex_loaded) \<and>
    (sg_at s j (SSize 0 rl) \<or> sg_at s j (SReturned (Some 0) False rl)) \<and> same_result rl ex_loaded"
proof -
  let ?s = "sg_pc 1 (SReturned (Some 0) True (loadByContext_shared (lr_rc ex_load) (sg_heap (ex_flight 7) ! 0))) (ex_flight 7)"
  have r: "subgraph_reachable (\<lambda>_. 5) False None 2 [ex_load, ex_load] ?s"
    by (rule subgraph_reachable.sg_next [OF ex_flight_reachable subgraph_step.sg_wakes [OF ex_flight_at(8,9)]])
  have a: "sg_at ?s 1 (SReturned (Some 0) True ex_loaded)" by code_simp
  then show ?thesis using subgraph_followers [OF r] a by blast
qed

text \<open>
  C26: the estimate for a fetch lies between the shortest and the longest response seen for it, after
  any number of responses, and is never taken over more than fifty.
\<close>

theorem size_hint_bounds:
  assumes "ls \<noteq> []" "update_sizes ls None = Some sz"
  shows "Min (set ls) \<le> size_hint (Some sz) \<and> size_hint (Some sz) \<le> Max (set ls) \<and> 1 \<le> count sz \<and> count sz \<le> 50"
proof -
  have "size_between (Min (set ls)) (Max (set ls)) sz" using update_sizes_None [OF assms] .
  then show ?thesis using size_hint_between by (auto simp: size_between_def)
qed

theorem size_hint_bounds_witness:
  "let ls = replicate 49 10 @ [60, 30, 20]; sz = \<lparr>count = 3, totalBytes = 61\<rparr> in
   update_sizes ls None = Some sz \<and> size_hint (Some sz) = 20 \<and> Min (set ls) \<le> size_hint (Some sz) \<and> size_hint (Some sz) \<le> Max (set ls)"
proof -
  let ?ls = "replicate 49 10 @ [60, 30, 20] :: nat list"
  have e: "update_sizes ?ls None = Some \<lparr>count = 3, totalBytes = 61\<rparr>" by code_simp
  have h: "size_hint (Some \<lparr>count = 3, totalBytes = 61\<rparr>) = 20" by code_simp
  show ?thesis using size_hint_bounds [OF _ e] unfolding Let_def e h by simp
qed

text \<open>
  the number of shards cannot be observed: any sequence of stores and deletions on a fresh table
  answers as one map does.
\<close>

theorem shards_refine_map:
  "run_shards ops (NewSingleFlight n) = run_map ops Map.empty \<and> run_shards ops (NewRequestSingleFlight n) = run_map ops Map.empty"
  by (simp add: run_shards_map)

text \<open>
  keys tell requests apart up to hash collisions. Two inbound requests have the same key under
  every hash exactly when the operation, variables and headers hashes agree; two subgraph requests with
  colon-free data source identifiers and non-zero header hashes exactly when identifier, input and
  header hash agree. With a colon in the identifier, different fetches share their key under every hash.
\<close>

theorem flight_keys_identify:
  assumes "FetchInfo_of f1 = Some i1" "FetchInfo_of f2 = Some i2" "e1 \<noteq> 0" "e2 \<noteq> 0"
  shows "((\<forall>hash. inbound_key hash c1 = inbound_key hash c2) \<longleftrightarrow>
      RequestID c1 = RequestID c2 \<and> VariablesHash c1 = VariablesHash c2 \<and> headers_hash c1 = headers_hash c2) \<and>
    (CHR '':'' \<notin> set (DataSourceID i1) \<union> set (DataSourceID i2) \<longrightarrow>
      (\<forall>hash. computeSFKey hash (Some (Some f1)) in1 e1 = computeSFKey hash (Some (Some f2)) in2 e2) \<longleftrightarrow>
      DataSourceID i1 = DataSourceID i2 \<and> in1 = in2 \<and> e1 = e2) \<and>
    (DataSourceID i2 = DataSourceID i1 @ '':'' \<longrightarrow>
      (\<forall>hash. computeSFKey hash (Some (Some f1)) ('':'' @ in2) e1 = computeSFKey hash (Some (Some f2)) in2 e1))"
  using inbound_key_identifies computeSFKey_identifies [OF assms(1,2) _ _ assms(3,4)] computeSFKey_collides [OF assms(1,2) refl] by auto

theorem flight_keys_identify_witness:
  "\<exists>(f :: unit Fetch) i. FetchInfo_of f = Some i \<and> DataSourceID i = ''ds'' \<and>
     (\<exists>hash. computeSFKey hash (Some (Some f)) ''a'' 1 \<noteq> computeSFKey hash (Some (Some f)) ''b'' 1)"
proof -
  obtain f i where f: "lr_fetchItem ex_load = Some (Some f)" "FetchInfo_of f = Some i" "DataSourceID i = ''ds''"
    by (simp add: ex_load_def)
  have "\<not> (\<forall>hash. computeSFKey hash (Some (Some f)) ''a'' 1 = computeSFKey hash (Some (Some f)) ''b'' 1)"
    using flight_keys_identify [OF f(2) f(2), of 1 1 _ _ "''a''" "''b''"] f(3) by auto
  then show ?thesis using f by blast
qed

section \<open>Response tree\<close>

text \<open>
  C27: merging fields ends without a failed type assertion on every tree in which the fields with one
  response path have one shape, which GraphQL's validation demands, and the result has that shape.
\<close>

theorem mergeFields_total:
  assumes "fits s n"
  shows "\<exists>n'. mergeFields_Process disable n = Some n' \<and> fits s n'"
  using traverseNode_fits [OF assms] assms by (auto simp: mergeFields_Process_def)

definition ex_object :: "Field list \<Rightarrow> Node" where
  "ex_object = ObjectNode \<lparr>ObjNullable = False, ObjPath = [], Unresolvable = False, PossibleTypes = None, SourceName = [],
     ObjTypeName = [], InaccessibleTypes = None\<rparr>"

definition ex_array :: "Node \<Rightarrow> Node" where
  "ex_array = ArrayNode \<lparr>ArrPath = [], ArrNullable = False, SkipItem = None\<rparr>"

definition ex_leaf :: Node where
  "ex_leaf = IntegerNode \<lparr>LeafPath = [], LeafNullable = False, LeafExport = None\<rparr>"

definition ex_field :: "string \<Rightarrow> string list option \<Rightarrow> Node \<Rightarrow> Field" where
  "ex_field name on v = Field name v (0, 0) (if name = ''d'' then Some 1 else None) None on [] None"

definition ex_shape :: shape where
  "ex_shape = SObject (\<lambda>n. if n = ''o'' then SObject (\<lambda>n. if n = ''x'' then SObject (\<lambda>_. SLeaf) else SLeaf) else SLeaf)"

text \<open>
  Two alternatives \<open>o\<close> that are merged for the type \<open>A\<close>, next to a leaf.
\<close>

definition ex_regular :: Node where
  "ex_regular = ex_object [ex_field ''i'' None ex_leaf,
     ex_field ''o'' (Some [''A'', ''B'']) (ex_object [ex_field ''a'' None ex_leaf]),
     ex_field ''o'' (Some [''A'']) (ex_object [ex_field ''b'' None ex_leaf, ex_field ''a'' None ex_leaf])]"

lemma ex_regular_fits: "fits ex_shape ex_regular"
  by (simp add: ex_shape_def ex_regular_def ex_object_def ex_field_def ex_leaf_def)

theorem mergeFields_total_witness:
  "\<exists>n'. mergeFields_Process False ex_regular = Some n' \<and> fits ex_shape n'"
  using mergeFields_total [OF ex_regular_fits] by blast

text \<open>
  C28: after merging no object renders two fields under one key: whatever its type (or without one),
  the fields whose type condition holds have different names.
\<close>

theorem mergeFields_unique:
  assumes "fits s n" "mergeFields_Process False n = Some n'"
  shows "unique_keys n'"
  using traverseNode_unique [OF _ assms(1)] assms(2) by (simp add: mergeFields_Process_def)

theorem mergeFields_unique_witness:
  "\<not> unique_keys ex_regular \<and> (\<exists>n'. mergeFields_Process False ex_regular = Some n' \<and> unique_keys n')"
proof -
  obtain n' where n': "mergeFields_Process False ex_regular = Some n'"
    using traverseNode_fits [OF ex_regular_fits] by (auto simp: mergeFields_Process_def)
  have "unique_keys n \<Longrightarrow> distinct (map f_Name (filter (type_allows t) (case n of ObjectNode a fs \<Rightarrow> fs | _ \<Rightarrow> [])))" for n t
    by (cases n) auto
  moreover have "\<not> distinct (map f_Name (filter (type_allows (Some ''A'')) (case ex_regular of ObjectNode a fs \<Rightarrow> fs | _ \<Rightarrow> [])))"
    by code_simp
  ultimately have "\<not> unique_keys ex_regular" by blast
  then show ?thesis using mergeFields_unique [OF ex_regular_fits n'] n' by blast
qed

text \<open>
  C29: merging keeps what is rendered, whatever the types of the objects, when every response path
  carries type conditions either always or never, and no array is the item of an array.
\<close>

theorem mergeFields_exact:
  assumes "fits s n" "regular cond [] n" "no_parents n" "mergeFields_Process disable n = Some n'"
  shows "set (rendered typeOf [] n') = set (rendered typeOf [] n)"
proof (cases disable)
  case True
  then show ?thesis using assms(4) by (simp add: mergeFields_Process_def)
next
  case False
  have "parents_hold typeOf [] n" by (rule no_parents_hold [OF assms(3)])
  then show ?thesis using traverseNode_exact [OF _ assms(1,2), of n' typeOf] rendered_parents assms(4) False
    by (simp add: mergeFields_Process_def)
qed

definition ex_cond :: "string list \<Rightarrow> bool" where
  "ex_cond path \<longleftrightarrow> path = [''o'']"

theorem mergeFields_exact_witness:
  "\<exists>n'. mergeFields_Process False ex_regular = Some n' \<and> n' \<noteq> ex_regular \<and>
     set (rendered (\<lambda>_. Some ''A'') [] n') = {[], [''i''], [''o''], [''o'', ''a''], [''o'', ''b'']}"
proof -
  obtain n' where n': "mergeFields_Process False ex_regular = Some n'"
    using traverseNode_fits [OF ex_regular_fits] by (auto simp: mergeFields_Process_def)
  have "regular ex_cond [] ex_regular" "no_parents ex_regular" "mergeFields_Process False ex_regular \<noteq> Some ex_regular" by code_simp+
  moreover have "set (rendered (\<lambda>_. Some ''A'') [] ex_regular) = {[], [''i''], [''o''], [''o'', ''a''], [''o'', ''b'']}" by code_simp
  ultimately show ?thesis using mergeFields_exact [OF ex_regular_fits _ _ n', of ex_cond "\<lambda>_. Some ''A''"] n' by blast
qed

text \<open>
  Without these conditions merging changes what is rendered. A selection \<open>x\<close> below \<open>o\<close> that both
  \<open>A\<close> and \<open>B\<close> make next to an unconditional \<open>o\<close> is lost for \<open>B\<close>; one made for two types of \<open>o\<close> on
  \<open>A\<close> is rendered on \<open>B\<close> too; fields below nested arrays are lost; and the copy for a second type of a
  deferred field is not deferred.
\<close>

definition ex_lost :: Node where
  "ex_lost = ex_object [ex_field ''o'' None (ex_object [ex_field ''i'' None ex_leaf]),
     ex_field ''o'' (Some [''A'']) (ex_object [ex_field ''x'' None (ex_object [ex_field ''y'' None ex_leaf])]),
     ex_field ''o'' (Some [''B'']) (ex_object [ex_field ''x'' None (ex_object [ex_field ''z'' None ex_leaf])])]"

definition ex_gained :: Node where
  "ex_gained = ex_object [ex_field ''o'' None (ex_object [ex_field ''i'' None ex_leaf]),
     ex_field ''o'' (Some [''A'']) (ex_object [ex_field ''w'' None ex_leaf, ex_field ''v'' (Some [''O'', ''P'']) ex_leaf])]"

definition ex_nested :: Node where
  "ex_nested = ex_object [ex_field ''i'' None ex_leaf,
     ex_field ''m'' None (ex_array (ex_array (ex_object [ex_field ''a'' None ex_leaf]))),
     ex_field ''m'' None (ex_array (ex_array (ex_object [ex_field ''b'' None ex_leaf])))]"

definition ex_deferred :: Node where
  "ex_deferred = ex_object [ex_field ''i'' None ex_leaf, ex_field ''d'' (Some [''A'', ''B'']) ex_leaf]"

definition ex_types :: "string \<Rightarrow> string list \<Rightarrow> string option" where
  "ex_types t path = map_of [([], ''B''), ([''o''], t), ([''o'', ''x''], ''X'')] path"

definition field_deferred :: "string \<Rightarrow> Node \<Rightarrow> (string list option \<times> bool) list" where
  "field_deferred name n = (case n of ObjectNode a fs \<Rightarrow> map (\<lambda>f. (f_OnTypeNames f, f_Defer f \<noteq> None)) (filter (\<lambda>f. f_Name f = name) fs) | _ \<Rightarrow> [])"

lemma mergeFields_changes:
  "[''o'', ''x'', ''z''] \<in> set (rendered (ex_types ''O'') [] ex_lost) \<and>
   map_option (\<lambda>n. [''o'', ''x''] \<in> set (rendered (ex_types ''O'') [] n)) (mergeFields_Process False ex_lost) = Some False \<and>
   [''o'', ''v''] \<notin> set (rendered (ex_types ''P'') [] ex_gained) \<and>
   map_option (\<lambda>n. [''o'', ''v''] \<in> set (rendered (ex_types ''P'') [] n)) (mergeFields_Process False ex_gained) = Some True \<and>
   [''m'', ''b''] \<in> set (rendered (ex_types ''O'') [] ex_nested) \<and>
   map_option (\<lambda>n. [''m'', ''b''] \<in> set (rendered (ex_types ''O'') [] n)) (mergeFields_Process False ex_nested) = Some False \<and>
   field_deferred ''d'' ex_deferred = [(Some [''A'', ''B''], True)] \<and>
   map_option (field_deferred ''d'') (mergeFields_Process False ex_deferred) = Some [(Some [''A''], True), (Some [''B''], False)]"
  by code_simp

text \<open>
  C31: the coordinates recorded for the authorizer are exactly those of a fetch's root field with a rule,
  for the fetch's data source, and of a field of the response with a rule, for each of its sources; they
  are strictly sorted, so the list does not depend on the order in which Go ranges over its map.
\<close>

theorem authorization_coordinates:
  assumes "\<And>xs. mset (range_order xs) = mset xs" "ResponseInfo_of plan = Some info"
    and "ResponseInfo_of (collectAuthorizationCoordinates_Process range_order False plan) = Some info'"
  shows "set (AuthorizationCoordinates info') = {c. protected plan c} \<and>
    sorted_wrt coordinate_less (AuthorizationCoordinates info') \<and>
    (\<forall>cs. set cs = {c. protected plan c} \<and> sorted_wrt coordinate_less cs \<longrightarrow> AuthorizationCoordinates info' = cs)"
proof -
  let ?cs = "collect_coordinates plan"
  have "mset (range_order ?cs) = mset ?cs" by (rule assms(1))
  then have r: "distinct (range_order ?cs)" "set (range_order ?cs) = {c. protected plan c}"
    using collect_coordinates [of plan] by (metis mset_eq_imp_distinct_iff, metis mset_eq_setD)
  have "AuthorizationCoordinates info' = (if ?cs = [] then [] else sort_slice coordinate_less (range_order ?cs))"
    using assms(2,3) by (auto simp: collectAuthorizationCoordinates_Process_def Let_def split: if_splits)
  then have s: "set (AuthorizationCoordinates info') = {c. protected plan c} \<and> sorted_wrt coordinate_less (AuthorizationCoordinates info')"
    using sort_slice_sorted [OF r(1)] r(2) collect_coordinates(1) [of plan] by (auto split: if_splits)
  then show ?thesis using sorted_less_unique by blast
qed

definition ex_protected :: "unit PlanResponse" where
  "ex_protected = \<lparr>RawFetches = [], Fetches = None, DataSources = [],
     ResponseData = Some (ex_object [Field ''x'' ex_leaf (0, 0) None None None []
       (Some \<lparr>FieldInfoName = ''x'', ExactParentTypeName = ''T'', ParentTypeNames = [''T''], NamedType = ''Int'',
          Source = \<lparr>SourceIDs = [''b'', ''a''], SourceNames = [''b'', ''a'']\<rparr>, InfoFetchID = 0, InfoHasAuthorizationRule = True,
          IndirectInterfaceNames = []\<rparr>)]),
     ResponseInfo_of = Some \<lparr>ResponseOperationType = OperationTypeQuery, AuthorizationCoordinates = []\<rparr>\<rparr>"

theorem authorization_coordinates_witness:
  "\<exists>info. ResponseInfo_of (collectAuthorizationCoordinates_Process rev False ex_protected) = Some info \<and>
     map AuthDataSourceID (AuthorizationCoordinates info) = [''a'', ''b''] \<and>
     protected ex_protected \<lparr>AuthDataSourceID = ''a'', AuthTypeName = ''T'', AuthFieldName = ''x''\<rparr>"
proof -
  let ?cs = "[\<lparr>AuthDataSourceID = ''a'', AuthTypeName = ''T'', AuthFieldName = ''x''\<rparr>, \<lparr>AuthDataSourceID = ''b'', AuthTypeName = ''T'', AuthFieldName = ''x''\<rparr>]"
  let ?info = "\<lparr>ResponseOperationType = OperationTypeQuery, AuthorizationCoordinates = ?cs\<rparr>"
  have i: "ResponseInfo_of (collectAuthorizationCoordinates_Process rev False ex_protected) = Some ?info" by code_simp
  have "set ?cs = {c. protected ex_protected c}"
    using authorization_coordinates [of rev ex_protected "\<lparr>ResponseOperationType = OperationTypeQuery, AuthorizationCoordinates = []\<rparr>" ?info] i
    by (simp add: ex_protected_def)
  then have "protected ex_protected \<lparr>AuthDataSourceID = ''a'', AuthTypeName = ''T'', AuthFieldName = ''x''\<rparr>" by auto
  then show ?thesis using i by (intro exI [of _ ?info]) simp
qed

section \<open>The registry of subscriptions\<close>

text \<open>Two subscriptions share the trigger 7; the first is removed again. The second still waits.\<close>

definition ex_sid :: "64 word \<Rightarrow> SubscriptionIdentifier" where
  "ex_sid c = \<lparr>ConnectionID = c, SubscriptionID = 1\<rparr>"

definition ex_events :: "sys_event list" where
  "ex_events =
     [Arrives (AAdd 7 (ex_sid 100) False), Runs 0 Goes, Arrives (AAdd 7 (ex_sid 200) False), Runs 2 Goes,
      Arrives (AUnsubscribe (ex_sid 100)), Runs 4 Goes]"

definition ex_system :: Registry_System where
  "ex_system = the (resolver_run False ex_events idle_system)"

lemma ex_system_reachable: "resolver_reachable False ex_system"
proof -
  have "case resolver_run False ex_events idle_system of None \<Rightarrow> False | Some st \<Rightarrow> True" by code_simp
  then obtain st where "resolver_run False ex_events idle_system = Some st" by (auto split: option.splits)
  then show ?thesis using resolver_run_reachable [OF resolver_start] by (simp add: ex_system_def)
qed

lemma ex_system_facts:
  "length (subs (res ex_system)) = 2" "sub_removed (subs (res ex_system) ! 0)" "\<not> sub_removed (subs (res ex_system) ! 1)"
  "\<not> sub_completed (subs (res ex_system) ! 0)" "gos ex_system ! 4 = [AClose 0]" "length (gos ex_system) = 5"
  "trigger_of (res ex_system) 7 = Some 0"
  by code_simp+

text \<open>
  C32: in every state the goroutines around the registry can reach with identifiers that are not in
  use, the indexes by identifier, by connection and by trigger agree (\<open>triggers_ok\<close>): a subscription is
  registered under its identifier exactly while it is not removed, a registered trigger has a
  subscription and is not cancelled, and the reported count is the number of live subscriptions.
\<close>

theorem trigger_registry_consistent:
  assumes "resolver_reachable False st"
  shows "triggers_ok (res st) \<and>
    (s < length (subs (res st)) \<longrightarrow>
      (\<not> sub_removed (subs (res st) ! s) \<longleftrightarrow> byID (res st) (sub_id (subs (res st) ! s)) = Some s)) \<and>
    (trigger_of (res st) tid = Some t \<longrightarrow>
      trig_id (trigs (res st) ! t) = tid \<and> trig_subs (trigs (res st) ! t) \<noteq> [] \<and> \<not> trig_cancelled (trigs (res st) ! t)) \<and>
    subscriptionCount (res st) = int (card {s. s < length (subs (res st)) \<and> \<not> sub_removed (subs (res st) ! s)})"
proof (intro conjI [OF _ conjI [OF impI conjI [OF impI]]])
  have inv: "resolver_inv st" by (rule resolver_reachable_inv [OF assms])
  show ok: "triggers_ok (res st)" by (rule sys_ok [OF inv])
  show "\<not> sub_removed (subs (res st) ! s) \<longleftrightarrow> byID (res st) (sub_id (subs (res st) ! s)) = Some s" if "s < length (subs (res st))"
    using live_iff_registered [OF ok_core [OF ok] that] .
  show "trig_id (trigs (res st) ! t) = tid \<and> trig_subs (trigs (res st) ! t) \<noteq> [] \<and> \<not> trig_cancelled (trigs (res st) ! t)"
    if t: "trigger_of (res st) tid = Some t"
    using trig_okD(1,2,4) [OF core_trig [OF ok_core [OF ok] t]] sys_flags [OF inv] t
    by (auto simp: flags_ok_def trig_registered_def)
  show "subscriptionCount (res st) = int (card {s. s < length (subs (res st)) \<and> \<not> sub_removed (subs (res st) ! s)})"
    using ok_count [OF ok] live_count [OF ok_core [OF ok]] by simp
qed

theorem trigger_registry_consistent_witness:
  "triggers_ok (res ex_system) \<and> byID (res ex_system) (sub_id (subs (res ex_system) ! 1)) = Some 1 \<and>
   trig_subs (trigs (res ex_system) ! 0) \<noteq> [] \<and>
   subscriptionCount (res ex_system) = int (card {s. s < length (subs (res ex_system)) \<and> \<not> sub_removed (subs (res ex_system) ! s)})"
  using trigger_registry_consistent [OF ex_system_reachable, of 1 7 0] ex_system_facts by simp

text \<open>
  C33: the critical sections implement updates of one map from the identifiers of subscriptions to those
  of their triggers: removing a subscription deletes its identifier, removing a client deletes the
  identifiers of its connection, the end of a trigger deletes what maps to it, shutting down empties the
  map, and adding inserts. A trigger exists exactly while some identifier maps to it, and the registry
  stays consistent.
\<close>

theorem registry_refines_map:
  assumes "triggers_ok r"
  shows "(triggers_ok (snd (UnsubscribeSubscription sid r)) \<and> reg_view (snd (UnsubscribeSubscription sid r)) = (reg_view r)(sid := None)) \<and>
    (triggers_ok (snd (removeClient c r)) \<and> reg_view (snd (removeClient c r)) = reg_view r |` {sid. ConnectionID sid \<noteq> c}) \<and>
    (triggers_ok (snd (doneTriggerFromUpdater tid r)) \<and>
      reg_view (snd (doneTriggerFromUpdater tid r)) = reg_view r |` {sid. reg_view r sid \<noteq> Some tid}) \<and>
    (triggers_ok (snd (shutdownResolver r)) \<and> reg_view (snd (shutdownResolver r)) = Map.empty) \<and>
    (\<not> shutdown r \<and> reg_view r sid = None \<longrightarrow>
      triggers_ok (snd (addSubscription tid sid hb r)) \<and> reg_view (snd (addSubscription tid sid hb r)) = (reg_view r)(sid \<mapsto> tid)) \<and>
    (getTrigger tid r \<noteq> None \<longleftrightarrow> tid \<in> ran (reg_view r))"
proof (rule conjI [OF _ conjI [OF _ conjI [OF _ conjI [OF _ conjI [OF impI]]]]])
  note view = retires_view [OF assms]
  show "triggers_ok (snd (UnsubscribeSubscription sid r)) \<and> reg_view (snd (UnsubscribeSubscription sid r)) = (reg_view r)(sid := None)"
    using UnsubscribeSubscription_retires [OF assms, of sid] by (auto simp: fun_eq_iff view retires_def [THEN iffD1] split: prod.splits option.splits dest: retires_ok)
  show "triggers_ok (snd (removeClient c r)) \<and> reg_view (snd (removeClient c r)) = reg_view r |` {sid. ConnectionID sid \<noteq> c}"
    using removeClient_retires [OF assms, of c] by (auto simp: fun_eq_iff view restrict_map_def split: prod.splits option.splits dest: retires_ok)
  show "triggers_ok (snd (doneTriggerFromUpdater tid r)) \<and>
      reg_view (snd (doneTriggerFromUpdater tid r)) = reg_view r |` {sid. reg_view r sid \<noteq> Some tid}"
    using doneTriggerFromUpdater_retires [OF assms, of tid] by (auto simp: fun_eq_iff view restrict_map_def split: prod.splits option.splits dest: retires_ok)
  show "triggers_ok (snd (shutdownResolver r)) \<and> reg_view (snd (shutdownResolver r)) = Map.empty"
    using shutdownResolver_retires [OF assms] by (auto simp: fun_eq_iff view split: prod.splits option.splits dest: retires_ok)
  show "triggers_ok (snd (addSubscription tid sid hb r)) \<and> reg_view (snd (addSubscription tid sid hb r)) = (reg_view r)(sid \<mapsto> tid)"
    if "\<not> shutdown r \<and> reg_view r sid = None"
    using addSubscription_view [OF assms] that by blast
  show "getTrigger tid r \<noteq> None \<longleftrightarrow> tid \<in> ran (reg_view r)" using trigger_iff_view [OF assms] by (simp add: getTrigger_def)
qed

theorem registry_refines_map_witness:
  "triggers_ok (snd (addSubscription 7 (ex_sid 1) False new_resolver)) \<and>
   reg_view (snd (addSubscription 7 (ex_sid 1) False new_resolver)) = [ex_sid 1 \<mapsto> 7]"
proof -
  have "\<not> shutdown new_resolver" "reg_view new_resolver = Map.empty" by (simp_all add: new_resolver_def reg_view_def fun_eq_iff)
  then show ?thesis using registry_refines_map [OF triggers_ok_new, of "ex_sid 1" 0 7 False] by simp
qed

text \<open>
  C34: no channel of a subscription is closed twice and nothing is left open or running: in every
  reachable state a removed subscription has exactly one pending close until its channel is closed, a
  trigger that is no longer registered has exactly one pending cancellation until its context is
  cancelled, and a goroutine about to close finds the channel open. A call of
  \<open>ResolveGraphQLSubscription\<close> that has returned nil has seen its subscription removed and closed; one
  that has returned the error of the resolver's context, which it does without waiting for the close,
  has done so after the resolver was stopped.
\<close>

theorem subscriptions_close_once:
  assumes "resolver_reachable False st"
  shows "pending (AClose s) (gos st) =
      (if s < length (subs (res st)) \<and> sub_removed (subs (res st) ! s) \<and> \<not> sub_completed (subs (res st) ! s) then 1 else 0) \<and>
    pending (ACancel t) (gos st) =
      (if t < length (trigs (res st)) \<and> getTrigger (trig_id (trigs (res st) ! t)) (res st) \<noteq> Some t \<and>
          \<not> trig_cancelled (trigs (res st) ! t) then 1 else 0) \<and>
    (i < length (gos st) \<and> gos st ! i = AClose s # rest \<longrightarrow> \<not> sub_completed (subs (res st) ! s)) \<and>
    (g \<in> set (gos st) \<and> AReturned s \<in> set g \<longrightarrow> sub_completed (subs (res st) ! s) \<and> sub_removed (subs (res st) ! s)) \<and>
    (g \<in> set (gos st) \<and> AReturnedErr s \<in> set g \<longrightarrow> stopped st)"
proof (rule conjI [OF _ conjI [OF _ conjI [OF impI conjI [OF impI impI]]]])
  have inv: "resolver_inv st" by (rule resolver_reachable_inv [OF assms])
  show "pending (AClose s) (gos st) =
      (if s < length (subs (res st)) \<and> sub_removed (subs (res st) ! s) \<and> \<not> sub_completed (subs (res st) ! s) then 1 else 0)"
    using sys_close [OF inv, of s] by (simp add: to_close_def)
  show "pending (ACancel t) (gos st) =
      (if t < length (trigs (res st)) \<and> getTrigger (trig_id (trigs (res st) ! t)) (res st) \<noteq> Some t \<and>
          \<not> trig_cancelled (trigs (res st) ! t) then 1 else 0)"
    using sys_cancel [OF inv, of t] by (simp add: to_cancel_def trig_registered_def getTrigger_def)
  show "\<not> sub_completed (subs (res st) ! s)" if "i < length (gos st) \<and> gos st ! i = AClose s # rest"
    using inv_step_close(1) [OF inv] that by blast
  show "sub_completed (subs (res st) ! s) \<and> sub_removed (subs (res st) ! s)" if "g \<in> set (gos st) \<and> AReturned s \<in> set g"
    using sys_returned [OF inv] sys_flags [OF inv] that unfolding returned_ok_def flags_ok_def by blast
  show "stopped st" if "g \<in> set (gos st) \<and> AReturnedErr s \<in> set g"
    using returned_err_stopped [OF assms] that by blast
qed

theorem subscriptions_close_once_witness:
  "pending (AClose 0) (gos ex_system) = 1 \<and> \<not> sub_completed (subs (res ex_system) ! 0)"
  using subscriptions_close_once [OF ex_system_reachable, of 0 0 4 "[]" "[]"] ex_system_facts by simp

text \<open>
  C35: once the channel of a subscription is closed, its writer receives no payload, no error of the
  resolver and no heartbeat. What can still be written is the end of the stream, by a goroutine that
  has found the subscription live before.
\<close>

theorem no_delivery_after_close:
  assumes "resolver_reachable False st" and "resolver_event False (Runs i c) st = Some st'"
    and "s < length (subs (res st))" and "sub_completed (subs (res st) ! s)"
  shows "sub_writer (subs (res st') ! s) = sub_writer (subs (res st) ! s) \<or>
    (\<exists>x. hd (gos st ! i) = AWrite s x \<and> sub_writer (subs (res st') ! s) = sub_writer (subs (res st) ! s) @ [terminal_frame x])"
proof -
  have inv: "resolver_inv st" by (rule resolver_reachable_inv [OF assms(1)])
  have "sub_removed (subs (res st) ! s)" using sys_flags [OF inv] assms(3,4) by (simp add: flags_ok_def)
  then show ?thesis using event_writes [OF inv assms(2,3)] unfolding writes_def by blast
qed

text \<open>The first subscription is closed; its event runs on the empty list of frames.\<close>

definition ex_sub_closed :: Registry_System where
  "ex_sub_closed = the (resolver_run False (ex_events @ [Runs 4 Goes, Arrives ATick]) idle_system)"

theorem no_delivery_after_close_witness:
  "resolver_event False (Runs 5 Goes) ex_sub_closed \<noteq> None \<and> sub_completed (subs (res ex_sub_closed) ! 0) \<and>
   sub_writer (subs (res (the (resolver_event False (Runs 5 Goes) ex_sub_closed))) ! 0) = []"
proof -
  have c: "case resolver_run False (ex_events @ [Runs 4 Goes, Arrives ATick]) idle_system of None \<Rightarrow> False | Some st \<Rightarrow>
      sub_completed (subs (res st) ! 0) \<and> length (subs (res st)) = 2 \<and> sub_writer (subs (res st) ! 0) = [] \<and> gos st ! 5 = [ATick] \<and>
      (case resolver_event False (Runs 5 Goes) st of None \<Rightarrow> False | Some st' \<Rightarrow> True)" by code_simp
  then obtain st where st: "resolver_run False (ex_events @ [Runs 4 Goes, Arrives ATick]) idle_system = Some st" "st = ex_sub_closed"
    by (auto simp: ex_sub_closed_def split: option.splits)
  then obtain st' where st': "resolver_event False (Runs 5 Goes) ex_sub_closed = Some st'" using c by (auto split: option.splits simp del: resolver_event.simps)
  have "resolver_reachable False ex_sub_closed" using resolver_run_reachable [OF resolver_start st(1)] st(2) by simp
  moreover have "0 < length (subs (res ex_sub_closed))" "sub_completed (subs (res ex_sub_closed) ! 0)"
    "sub_writer (subs (res ex_sub_closed) ! 0) = []" "gos ex_sub_closed ! 5 = [ATick]" using c st by simp_all
  ultimately show ?thesis using no_delivery_after_close [OF _ st', of 0] st' by (simp del: resolver_event.simps length_greater_0_conv)
qed

text \<open>
  C36: a removed subscription can always be closed: from every reachable state the goroutine that removed
  it does so with its next actions, and needs no other goroutine for it. So a call of
  \<open>ResolveGraphQLSubscription\<close> that has unsubscribed need not wait for ever. (The calls of the writer
  under \<open>writeMu\<close> are single actions, so they are taken to return.)
\<close>

theorem removed_subscription_closes:
  assumes "resolver_reachable False st" and "s < length (subs (res st))" and "sub_removed (subs (res st) ! s)"
  shows "\<exists>i n st'. resolver_run False (replicate n (Runs i Goes)) st = Some st' \<and> sub_completed (subs (res st') ! s)"
  by (rule removed_can_close [OF assms])

theorem removed_subscription_closes_witness:
  "\<exists>i n st'. resolver_run False (replicate n (Runs i Goes)) ex_system = Some st' \<and> sub_completed (subs (res st') ! 0)"
  by (rule removed_subscription_closes [OF ex_system_reachable]) (simp_all add: ex_system_facts)

text \<open>
  C37: an updater names its trigger by identifier only, and \<open>Done\<close> does not look at its context. In
  every reachable state in which the data source of a started trigger \<open>t\<close> has not called \<open>Done\<close> yet, and
  another trigger \<open>v\<close> is registered under the same identifier (the last subscription of \<open>t\<close> has left, and
  a client has subscribed with the same input again), a \<open>Done\<close> of \<open>t\<close> that arrives now ends \<open>v\<close>: all
  its subscriptions are removed and about to be closed, it is unregistered and about to be cancelled, and
  nothing is written to any client.
\<close>

theorem stale_updater_detaches_successor:
  assumes "resolver_reachable False st" and "t < length (trigs (res st))" and "trig_started (trigs (res st) ! t)"
    and "\<not> upd_locked (trigs (res st) ! t)" and "\<not> upd_done (trigs (res st) ! t)"
    and "getTrigger (trig_id (trigs (res st) ! t)) (res st) = Some v" and "v \<noteq> t"
  shows "\<exists>st'. resolver_run False [Arrives (ALock t CallDone), Runs (length (gos st)) Goes, Runs (length (gos st)) Goes] st = Some st' \<and>
    getTrigger (trig_id (trigs (res st) ! t)) (res st') = None \<and> ACancel v \<in> set (gos st' ! length (gos st)) \<and>
    (\<forall>s \<in> snd ` set (trig_subs (trigs (res st) ! v)). \<not> sub_removed (subs (res st) ! s) \<and> sub_removed (subs (res st') ! s) \<and>
      AClose s \<in> set (gos st' ! length (gos st))) \<and>
    map sub_writer (subs (res st')) = map sub_writer (subs (res st))"
  using stale_done [OF resolver_reachable_inv [OF assms(1)] assms(2-5)] assms(6) by (simp add: getTrigger_def del: resolver_run.simps)

text \<open>The first subscription has left and its trigger is cancelled; the second has started a new one.\<close>

definition ex_successor_events :: "sys_event list" where
  "ex_successor_events =
     [Arrives (AAdd 7 (ex_sid 1) False), Runs 0 Goes, Runs 1 Goes, Runs 1 Goes, Runs 1 Goes, Runs 1 Goes, Runs 1 Goes,
      Arrives (AUnsubscribe (ex_sid 1)), Runs 2 Goes, Runs 2 Goes, Runs 2 Goes,
      Arrives (AAdd 7 (ex_sid 2) False), Runs 3 Goes]"

definition ex_successor :: Registry_System where
  "ex_successor = the (resolver_run False ex_successor_events idle_system)"

lemma ex_successor_reachable: "resolver_reachable False ex_successor"
proof -
  have "case resolver_run False ex_successor_events idle_system of None \<Rightarrow> False | Some st \<Rightarrow> True" by code_simp
  then obtain st where "resolver_run False ex_successor_events idle_system = Some st" by (auto split: option.splits)
  then show ?thesis using resolver_run_reachable [OF resolver_start] by (simp add: ex_successor_def)
qed

theorem stale_updater_detaches_successor_witness:
  "trig_cancelled (trigs (res ex_successor) ! 0) \<and> sub_id (subs (res ex_successor) ! 1) = ex_sid 2 \<and>
   (\<exists>st' es. resolver_run False es ex_successor = Some st' \<and> sub_removed (subs (res st') ! 1) \<and> sub_writer (subs (res st') ! 1) = [])"
proof -
  have f: "trig_cancelled (trigs (res ex_successor) ! 0)" "sub_id (subs (res ex_successor) ! 1) = ex_sid 2"
    "0 < length (trigs (res ex_successor))" "trig_started (trigs (res ex_successor) ! 0)" "\<not> upd_locked (trigs (res ex_successor) ! 0)"
    "\<not> upd_done (trigs (res ex_successor) ! 0)"
    "getTrigger (trig_id (trigs (res ex_successor) ! 0)) (res ex_successor) = Some 1"
    "map snd (trig_subs (trigs (res ex_successor) ! 1)) = [1]" "map sub_writer (subs (res ex_successor)) = [[], []]" by code_simp+
  have m: "1 \<in> snd ` set (trig_subs (trigs (res ex_successor) ! 1))" using arg_cong [OF f(8), of set] by simp
  obtain es st' where st': "resolver_run False es ex_successor = Some st'" "map sub_writer (subs (res st')) = map sub_writer (subs (res ex_successor))"
      "\<forall>s \<in> snd ` set (trig_subs (trigs (res ex_successor) ! 1)). sub_removed (subs (res st') ! s)"
    using stale_updater_detaches_successor [OF ex_successor_reachable f(3-7) one_neq_zero] by blast
  then have "sub_removed (subs (res st') ! 1)" "map sub_writer (subs (res st')) = [[], []]" using m f(9) by auto
  moreover have "sub_writer (subs (res st') ! 1) = [[], []] ! 1"
    using calculation(2) by (metis One_nat_def length_Cons length_map lessI list.size(3) nth_map)
  ultimately show ?thesis using f(1,2) st'(1) by auto
qed

text \<open>
  Two more races of these goroutines, in single runs. \<open>handleTriggerComplete\<close> reads \<open>removed\<close> before it
  takes the lock of the writer: the end of the stream can reach the writer after
  \<open>ResolveGraphQLSubscription\<close> has returned. And \<open>markTriggerInitialized\<close> looks the trigger up before it
  stores the flag: if the last subscription leaves in between, a trigger stays counted although no
  trigger is left and every goroutine has ended.
\<close>

lemma late_end_and_count:
  "(\<exists>st st'. resolver_run False
      [Arrives (ASync 7 False), Runs 0 Goes, Runs 0 Goes, Runs 1 Goes, Runs 1 Goes,
       Arrives (ALock 0 CallComplete), Runs 2 Goes, Runs 2 Goes, Runs 2 Goes, Runs 2 Goes,
       Runs 0 ContextDone, Runs 0 Goes, Runs 0 Goes, Runs 0 Goes, Runs 0 Goes, Runs 0 Goes] idle_system = Some st \<and>
     gos st ! 0 = [AReturned 0] \<and> sub_writer (subs (res st) ! 0) = [] \<and>
     resolver_event False (Runs 2 Goes) st = Some st' \<and> sub_writer (subs (res st') ! 0) = [CompleteFrame]) \<and>
  (\<exists>st. resolver_run False
      [Arrives (AAdd 7 (ex_sid 1) False), Runs 0 Goes, Runs 1 Goes, Runs 1 Goes, Runs 1 Goes,
       Arrives (AUnsubscribe (ex_sid 1)), Runs 2 Goes, Runs 2 Goes, Runs 2 Goes, Runs 1 Goes, Runs 1 Goes] idle_system = Some st \<and>
     triggerCount (res st) = 1 \<and> triggers (res st) = [] \<and> concat (gos st) = [])"
  (is "(\<exists>st st'. resolver_run False ?es idle_system = Some st \<and> ?P st \<and> ?W st \<and>
        resolver_event False (Runs 2 Goes) st = Some st' \<and> ?Q st') \<and>
    (\<exists>st. resolver_run False ?fs idle_system = Some st \<and> ?R st)")
proof (rule conjI)
  have "case resolver_run False ?es idle_system of None \<Rightarrow> False | Some st \<Rightarrow> ?P st \<and> ?W st \<and>
      (case resolver_event False (Runs 2 Goes) st of None \<Rightarrow> False | Some st' \<Rightarrow> ?Q st')" by code_simp
  then show "\<exists>st st'. resolver_run False ?es idle_system = Some st \<and> ?P st \<and> ?W st \<and> resolver_event False (Runs 2 Goes) st = Some st' \<and> ?Q st'"
    by (auto simp del: resolver_run.simps resolver_event.simps split: option.splits)
  have "case resolver_run False ?fs idle_system of None \<Rightarrow> False | Some st \<Rightarrow> ?R st" by code_simp
  then show "\<exists>st. resolver_run False ?fs idle_system = Some st \<and> ?R st"
    by (simp del: resolver_run.simps split: option.splits)
qed

text \<open>
  Why the identifiers are assumed not to be in use: adding one again under another trigger hides the
  first subscription. Its identifier is gone after the second is removed, and it stays in its trigger.
\<close>

lemma reused_identifier_hides:
  "\<exists>st. resolver_run True
      [Arrives (AAdd 7 (ex_sid 1) False), Runs 0 Goes, Arrives (AAdd 9 (ex_sid 1) False), Runs 2 Goes,
       Arrives (AUnsubscribe (ex_sid 1)), Runs 4 Goes, Runs 4 Goes, Runs 4 Goes] idle_system = Some st \<and>
     \<not> sub_removed (subs (res st) ! 0) \<and> subscriptionsByID (res st) = [] \<and> getTrigger 7 (res st) = Some 0 \<and>
     map snd (trig_subs (trigs (res st) ! 0)) = [0]"
  (is "\<exists>st. resolver_run True ?es idle_system = Some st \<and> ?P st")
proof -
  have "case resolver_run True ?es idle_system of None \<Rightarrow> False | Some st \<Rightarrow> ?P st" by code_simp
  then show ?thesis by (simp del: resolver_run.simps split: option.splits)
qed

section \<open>Filters of subscriptions\<close>

text \<open>An environment in which the event has a string at every path and every text is a string.\<close>

definition ex_template_env :: "unit template_env" where
  "ex_template_env = \<lparr>MarshalTo = (\<lambda>_. ''null''), value_Get = (\<lambda>_ _. None), Variables_Get = (\<lambda>p. Some (JString (concat p))),
     VariablesView_Get = (\<lambda>p. Some (JString (concat p))), Header_Values = (\<lambda>_. []), resolve_object = (\<lambda>_ _. Inl ''''),
     SetUndefinedVariables = (\<lambda>s _. Inr s)\<rparr>"

definition ex_filter_env :: "string \<Rightarrow> unit filter_env" where
  "ex_filter_env x = \<lparr>template = ex_template_env, event_Get = (\<lambda>_. Some (x, StringType)), text_type = (\<lambda>_. Some StringType), ArrayEach = (\<lambda>_. [])\<rparr>"

definition static_value :: "string \<Rightarrow> unit InputTemplate" where
  "static_value s =
     \<lparr>Segments = [\<lparr>seg_SegmentType = StaticSegmentType, seg_Data = s, seg_VariableKind = ContextVariableKind, seg_VariableSourcePath = [],
        seg_Renderer = PlainVariableRenderer, seg_Node = ()\<rparr>], SetTemplateOutputToNullOnVariableNull = False\<rparr>"

text \<open>
  C39: the filter is the formula \<open>admits\<close> over its field filters, of which the first of \<open>And\<close>, \<open>Or\<close>,
  \<open>Not\<close> and \<open>In\<close> that is set counts: when no field filter fails, an event is skipped exactly when the
  formula is false, and an error is the error of one of the field filters. A nil filter skips nothing.
\<close>

theorem subscription_filter_meaning:
  "((\<forall>a \<in> set (atoms f). \<exists>b. SkipEvent_field env a = Inr b) \<longrightarrow>
      SkipEvent_nil env (Some f) = Inr (\<not> admits (\<lambda>a. SkipEvent_field env a = Inr False) f)) \<and>
    (SkipEvent_nil env (Some f) = Inl e \<longrightarrow> (\<exists>a \<in> set (atoms f). SkipEvent_field env a = Inl e)) \<and>
    SkipEvent_nil env None = Inr False"
proof (rule conjI [OF impI conjI [OF impI]])
  have e: "field_admits env = (\<lambda>a. SkipEvent_field env a = Inr False)" by (rule ext) (simp add: field_admits_def)
  show "SkipEvent_nil env (Some f) = Inr (\<not> admits (\<lambda>a. SkipEvent_field env a = Inr False) f)"
    if "\<forall>a \<in> set (atoms f). \<exists>b. SkipEvent_field env a = Inr b"
    using SkipEvent_admits(1) [OF that] by (simp add: SkipEvent_nil_def e)
  show "\<exists>a \<in> set (atoms f). SkipEvent_field env a = Inl e" if "SkipEvent_nil env (Some f) = Inl e"
    using SkipEvent_error(1) that by (simp add: SkipEvent_nil_def)
  show "SkipEvent_nil env None = Inr False" by (simp add: SkipEvent_nil_def)
qed

definition ex_filter :: "unit SubscriptionFilter" where
  "ex_filter = SubscriptionFilter None None
     (Some (SubscriptionFilter None None None (Some \<lparr>FieldPath = [''id''], Values = [static_value (json_Marshal ''a'')]\<rparr>))) None"

theorem subscription_filter_meaning_witness:
  "SkipEvent_nil (ex_filter_env ''a'') (Some ex_filter) =
     Inr (\<not> admits (\<lambda>a. SkipEvent_field (ex_filter_env ''a'') a = Inr False) ex_filter)"
proof -
  have "list_all (\<lambda>a. case SkipEvent_field (ex_filter_env ''a'') a of Inl e \<Rightarrow> False | Inr b \<Rightarrow> True) (atoms ex_filter)" by code_simp
  then have "\<exists>b. SkipEvent_field (ex_filter_env ''a'') a = Inr b" if "a \<in> set (atoms ex_filter)" for a
    using that by (cases "SkipEvent_field (ex_filter_env ''a'') a") (auto simp: list_all_iff)
  then have "\<forall>a \<in> set (atoms ex_filter). \<exists>b. SkipEvent_field (ex_filter_env ''a'') a = Inr b" by simp
  then show ?thesis using subscription_filter_meaning by blast
qed

text \<open>
  C40: a list of strings in a filter admits only the first two of its values when they are JSON texts,
  and only the first when they are rendered plainly from variables: after a comparison the event's
  value is marshalled and stays so, and the next comparison marshals it again. (The strings are those
  that \<open>json.Marshal\<close> only wraps in quotes; \<open>string_value\<close>: a template of one segment that renders to
  the text and is a string.)
\<close>

theorem in_filter_strings:
  assumes "event_Get env (FieldPath f) = Some (x, StringType)" and "plain_string x" and "list_all plain_string ws"
  shows "(list_all2 (string_value env) (Values f) (map json_Marshal ws) \<longrightarrow> SkipEvent_field env f = Inr (x \<notin> set (take 2 ws))) \<and>
    (list_all2 (string_value env) (Values f) ws \<longrightarrow> SkipEvent_field env f = Inr (x \<notin> set (take 1 ws)))"
  using skip_marshalled_strings [of env "Values f" ws x] skip_raw_strings [of env "Values f" ws x] assms
  by (simp_all add: SkipEvent_field_def)

text \<open>The event \<open>c\<close> is skipped by a filter whose values are \<open>a\<close>, \<open>b\<close> and \<open>c\<close>.\<close>

theorem in_filter_strings_witness:
  "SkipEvent_field (ex_filter_env ''c'')
     \<lparr>FieldPath = [''id''], Values = map (\<lambda>s. static_value (json_Marshal s)) [''a'', ''b'', ''c'']\<rparr> = Inr True"
proof -
  have p: "list_all plain_string [''a'', ''b'', ''c'']" "plain_string ''c''" unfolding plain_string_def by code_simp+
  have "list_all2 (string_value (ex_filter_env ''c'')) (map (\<lambda>s. static_value (json_Marshal s)) [''a'', ''b'', ''c''])
      (map json_Marshal [''a'', ''b'', ''c''])"
    unfolding string_value_def by code_simp
  then show ?thesis
    using in_filter_strings [of "ex_filter_env ''c''" "\<lparr>FieldPath = [''id''], Values = map (\<lambda>s. static_value (json_Marshal s)) [''a'', ''b'', ''c'']\<rparr>"
        "''c''" "[''a'', ''b'', ''c'']"] p
    by (simp add: ex_filter_env_def)
qed

text \<open>
  A string with a quote does not survive the GraphQL renderer: inside the JSON string for which the
  renderer escapes the quotes around the value, the value's own quote ends the JSON string.
\<close>

lemma graphql_value_ends_string:
  "\<exists>rest. json_string_content (renderGraphQLValue marshal (JString (''a'' @ QUOTE # ''b'')) @ [QUOTE]) = Some (QUOTE # ''a'' @ [BACKSLASH], rest) \<and> rest \<noteq> []"
  using graphql_string_breaks [of "''a''" "''b''"] by simp

section \<open>Jumps between data sources\<close>

text \<open>
  C30: the search for chains of entity keys. On a graph whose cache holds what the search gives (as that
  of a new graph does), \<open>getPaths\<close> finds a path exactly when there is one: a chain of at most ten jumps
  that visits no data source twice, changes the key at every jump and uses fallback jumps only when they
  are allowed. It returns one connection for every such path, with its length and type; the jumps are
  those of the path as far as \<open>frozen\<close> says, that is all of them for paths of up to three, of five and
  of nine jumps. Behind that, the jumps of another path may stand in their place, because the paths
  share the arrays of their slices.
\<close>

theorem key_paths_found:
  assumes "cache_ok g" and "getPaths s t fb g = ((cs, found), g')"
  shows "cache_ok g' \<and> jump_map g' = jump_map g \<and> (found \<longleftrightarrow> (\<exists>p. key_path (jump_map g) fb s t p)) \<and>
    (\<exists>ps. set ps = {p. key_path (jump_map g) fb s t p} \<and>
      list_all2 (\<lambda>c p. conn_Source c = s \<and> conn_Target c = t \<and> conn_Type c = connection_type p \<and>
        length (conn_Jumps c) = length p \<and> take (frozen (length p)) (conn_Jumps c) = take (frozen (length p)) p) cs ps)"
proof -
  let ?ps = "paths (jump_map g) fb t 11 [] s []"
  note c = getPaths_cached [OF assms]
  note f = find_paths_ok [OF c(1) [symmetric]]
  have "found \<longleftrightarrow> ?ps \<noteq> []" using f list_all2_lengthD [OF f(2)] by auto
  then have "found \<longleftrightarrow> (\<exists>p. key_path (jump_map g) fb s t p)" using paths_are_key_paths [of "jump_map g" fb t s]
    by (metis empty_iff ex_in_conv mem_Collect_eq set_empty)
  then show ?thesis using c(2,3) f(2) paths_are_key_paths by blast
qed

text \<open>
  The data source 1 has the key \<open>a\<close>, the data source 2 is entered by the keys \<open>a\<close> and \<open>b\<close> together, and
  3, which is entered by \<open>a\<close>, knows both.
\<close>

definition ex_key :: "bool \<Rightarrow> bool \<Rightarrow> string list \<Rightarrow> KeyInfo" where
  "ex_key source target ps = \<lparr>key_Source = source, key_Target = target, key_SelectionSet = concat (map (\<lambda>p. p @ '' '') ps),
     key_FieldPaths = map (\<lambda>p. \<lparr>key_Path = p, key_IsExternal = False\<rparr>) ps\<rparr>"

definition ex_jumps :: DataSourceJumpsGraph where
  "ex_jumps = NewDataSourceJumpsGraph [1, 2, 3]
     (map_of [(1, [ex_key True False [''a'']]), (2, [ex_key False True [''a'', ''b'']]),
        (3, [ex_key False True [''a''], ex_key True False [''a'', ''b'']])]) ''User''"

theorem key_paths_found_witness:
  "snd (fst (getPaths 1 2 True ex_jumps)) \<and> (\<exists>p. key_path (jump_map ex_jumps) True 1 2 p)"
proof -
  obtain cs found g' where g: "getPaths 1 2 True ex_jumps = ((cs, found), g')" by (metis prod.exhaust)
  have "snd (fst (getPaths 1 2 True ex_jumps))" by code_simp
  then show ?thesis using key_paths_found [OF _ g] g cache_ok_new by (simp add: ex_jumps_def)
qed

text \<open>
  C38: the path that is chosen. When no path from \<open>s\<close> to \<open>t\<close> has more than three jumps,
  \<open>hasPathBetweenDs\<close> returns nothing exactly when there is no path, and otherwise a path that no other is
  preferred to: exact keys before fallback jumps, then fewer jumps, then fewer missing members of keys.
\<close>

theorem best_key_path:
  assumes "cache_ok g" and "\<forall>p. key_path (jump_map g) True s t p \<longrightarrow> length p \<le> 3" and "hasPathBetweenDs s t fb g = (r, g')"
  shows "cache_ok g' \<and> jump_map g' = jump_map g \<and>
    (case r of
       None \<Rightarrow> \<nexists>p. key_path (jump_map g) fb s t p
     | Some c \<Rightarrow> conn_Source c = s \<and> conn_Target c = t \<and> key_path (jump_map g) fb s t (conn_Jumps c) \<and>
         (\<forall>p. key_path (jump_map g) fb s t p \<longrightarrow> no_worse (conn_Jumps c) p))"
proof -
  note b = hasPathBetweenDs_best [OF assms]
  show ?thesis
  proof (cases r)
    case None
    then show ?thesis using b(1,2) by simp
  next
    case (Some c)
    then show ?thesis using b(1) b(3) [OF Some] b(4) [OF Some] by simp
  qed
qed

text \<open>The way over 3 is preferred to the direct jump from 1 to 2, for which \<open>b\<close> is missing.\<close>

theorem best_key_path_witness:
  "\<exists>c. fst (hasPathBetweenDs 1 2 True ex_jumps) = Some c \<and> map jump_To (conn_Jumps c) = [3, 2] \<and>
     (\<forall>p. key_path (jump_map ex_jumps) True 1 2 p \<longrightarrow> no_worse (conn_Jumps c) p)"
proof -
  obtain r g' where h: "hasPathBetweenDs 1 2 True ex_jumps = (r, g')" by fastforce
  have "map_option (\<lambda>c. map jump_To (conn_Jumps c)) (fst (hasPathBetweenDs 1 2 True ex_jumps)) = Some [3, 2]" by code_simp
  then obtain c where c: "r = Some c" "map jump_To (conn_Jumps c) = [3, 2]" using h by auto
  have "list_all (\<lambda>p. length p \<le> 3) (paths (jump_map ex_jumps) True 2 11 [] 1 [])" by code_simp
  then have "\<forall>p. key_path (jump_map ex_jumps) True 1 2 p \<longrightarrow> length p \<le> 3"
    using paths_are_key_paths [of "jump_map ex_jumps" True 2 1] by (auto simp: list_all_iff)
  moreover have "cache_ok ex_jumps" unfolding ex_jumps_def by (rule cache_ok_new)
  ultimately show ?thesis using best_key_path [OF _ _ h] h c by auto
qed

end
